(* ===== verification/Prelude.thy ===== *)
theory Prelude
  imports Main "HOL-Library.Word" "HOL-Library.AList"
begin

text \<open>
  Shared vocabulary of the development: bytes, the two's-complement casts of C, the dynahash
  table the server hands to the extension, and the generic facts about lists and maps that the
  component theories rely on. The interface that every client of a hash table uses is the locale
  \<open>htab_laws\<close>; it is interpreted here on association lists with distinct keys.
\<close>

section \<open>Bytes and machine integers\<close>

type_synonym byte = "8 word"
type_synonym bytes = "byte list"

text \<open>
  C casts to \<open>int64\<close> and \<open>int32\<close>, two's complement (the server and its extensions are
  compiled with \<open>-fwrapv\<close>, so signed arithmetic wraps).
\<close>

definition wrap64 :: "int \<Rightarrow> int" where
  "wrap64 x = (x + 2 ^ 63) mod 2 ^ 64 - 2 ^ 63"

definition wrap32 :: "int \<Rightarrow> int" where
  "wrap32 x = (x + 2 ^ 31) mod 2 ^ 32 - 2 ^ 31"

definition int64_range :: "int \<Rightarrow> bool" where
  "int64_range x \<longleftrightarrow> - (2 ^ 63) \<le> x \<and> x < 2 ^ 63"

section \<open>Hash tables\<close>

text \<open>
  A dynahash table (\<open>HTAB\<close>) is the list of its entries in the order a sequential scan returns
  them; no theorem depends on that order. \<open>hash_find\<close>, \<open>hash_enter\<close> and
  \<open>hash_remove\<close> are the three actions of \<open>hash_search\<close>, \<open>hash_seq\<close> is the sequence a
  \<open>hash_seq_search\<close> loop visits.
\<close>

type_synonym ('k, 'e) htab = "('k \<times> 'e) list"

definition hash_find :: "('k, 'e) htab \<Rightarrow> 'k \<Rightarrow> 'e option" where
  "hash_find t k = map_of t k"

definition hash_enter :: "('k, 'e) htab \<Rightarrow> 'k \<Rightarrow> 'e \<Rightarrow> ('k, 'e) htab" where
  "hash_enter t k e = AList.update k e t"

definition hash_remove :: "('k, 'e) htab \<Rightarrow> 'k \<Rightarrow> ('k, 'e) htab" where
  "hash_remove t k = AList.delete k t"

definition hash_seq :: "('k, 'e) htab \<Rightarrow> ('k \<times> 'e) list" where
  "hash_seq t = t"

definition hash_num_entries :: "('k, 'e) htab \<Rightarrow> nat" where
  "hash_num_entries t = length t"

definition htab_ok :: "('k, 'e) htab \<Rightarrow> bool" where
  "htab_ok t \<longleftrightarrow> distinct (map fst t)"

definition hash_map_entries :: "('k \<Rightarrow> 'e \<Rightarrow> 'e) \<Rightarrow> ('k, 'e) htab \<Rightarrow> ('k, 'e) htab" where
  "hash_map_entries f t = map (\<lambda>(k, e). (k, f k e)) t"

section \<open>Facts about casts\<close>

named_theorems pgr_simps \<open>rewrite rules shared by the component proofs\<close>

lemma wrap64_id [pgr_simps]: "int64_range x \<Longrightarrow> wrap64 x = x"
  by (simp add: wrap64_def int64_range_def)

lemma wrap64_range [simp, intro]: "int64_range (wrap64 x)"
proof -
  have "0 \<le> (x + 2 ^ 63) mod 2 ^ 64" "(x + 2 ^ 63) mod 2 ^ 64 < 2 ^ 64"
    by simp_all
  then show ?thesis by (simp add: wrap64_def int64_range_def)
qed

lemma wrap32_id [pgr_simps]: "- (2 ^ 31) \<le> x \<Longrightarrow> x < 2 ^ 31 \<Longrightarrow> wrap32 x = x"
  by (simp add: wrap32_def)

section \<open>The hash-table interface\<close>

locale htab_laws =
  fixes find :: "'t \<Rightarrow> 'k \<Rightarrow> 'e option"
    and enter :: "'t \<Rightarrow> 'k \<Rightarrow> 'e \<Rightarrow> 't"
    and remove :: "'t \<Rightarrow> 'k \<Rightarrow> 't"
    and seq :: "'t \<Rightarrow> ('k \<times> 'e) list"
    and num :: "'t \<Rightarrow> nat"
    and ok :: "'t \<Rightarrow> bool"
    and emp :: 't
  assumes find_emp: "find emp k = None"
    and find_enter: "find (enter t k e) k' = (if k' = k then Some e else find t k')"
    and find_remove: "find (remove t k) k' = (if k' = k then None else find t k')"
    and ok_emp: "ok emp"
    and ok_enter: "ok t \<Longrightarrow> ok (enter t k e)"
    and ok_remove: "ok t \<Longrightarrow> ok (remove t k)"
    and seq_find: "ok t \<Longrightarrow> (k, e) \<in> set (seq t) \<longleftrightarrow> find t k = Some e"
    and seq_distinct: "ok t \<Longrightarrow> distinct (map fst (seq t))"
    and num_seq: "num t = length (seq t)"
begin

lemma seq_keys: "ok t \<Longrightarrow> fst ` set (seq t) = {k. find t k \<noteq> None}"
  using seq_find [of t] by force

lemma num_card: "ok t \<Longrightarrow> num t = card {k. find t k \<noteq> None}"
  using seq_keys [of t] distinct_card [OF seq_distinct, of t] by (simp add: num_seq)

lemma num_enter:
  assumes "ok t"
  shows "num (enter t k e) = (if find t k = None then Suc (num t) else num t)"
proof -
  have "{k'. find (enter t k e) k' \<noteq> None} = insert k {k'. find t k' \<noteq> None}"
    by (auto simp: find_enter)
  moreover have "finite {k'. find t k' \<noteq> None}"
    using seq_keys [OF assms] by (metis finite_imageI finite_set)
  ultimately show ?thesis
    using num_card [OF ok_enter [OF assms]] num_card [OF assms]
    by (simp add: card_insert_if)
qed

lemma num_remove:
  assumes "ok t" "find t k = Some e"
  shows "num t = Suc (num (remove t k))"
proof -
  have "{k'. find t k' \<noteq> None} = insert k {k'. find (remove t k) k' \<noteq> None}"
    using assms(2) by (auto simp: find_remove)
  moreover have "finite {k'. find (remove t k) k' \<noteq> None}"
    using seq_keys [OF ok_remove [OF assms(1)]] by (metis finite_imageI finite_set)
  moreover have "k \<notin> {k'. find (remove t k) k' \<noteq> None}"
    by (simp add: find_remove)
  ultimately show ?thesis
    using num_card [OF ok_remove [OF assms(1)]] num_card [OF assms(1)] by simp
qed

end

lemma hash_find_enter [simp]:
  "hash_find (hash_enter t k e) k' = (if k' = k then Some e else hash_find t k')"
  by (simp add: hash_find_def hash_enter_def update_conv')

lemma hash_find_remove [simp]:
  "hash_find (hash_remove t k) k' = (if k' = k then None else hash_find t k')"
  by (simp add: hash_find_def hash_remove_def delete_conv')

lemma htab_ok_enter [simp, intro]: "htab_ok t \<Longrightarrow> htab_ok (hash_enter t k e)"
  by (simp add: htab_ok_def hash_enter_def distinct_update)

lemma htab_ok_remove [simp, intro]: "htab_ok t \<Longrightarrow> htab_ok (hash_remove t k)"
  by (simp add: htab_ok_def hash_remove_def distinct_delete)

lemma hash_seq_find: "htab_ok t \<Longrightarrow> (k, e) \<in> set (hash_seq t) \<longleftrightarrow> hash_find t k = Some e"
  by (simp add: htab_ok_def hash_seq_def hash_find_def)

interpretation htab: htab_laws hash_find hash_enter hash_remove hash_seq hash_num_entries
    htab_ok "[]"
  by unfold_locales
    (auto simp: hash_seq_find hash_seq_def hash_find_def htab_ok_def hash_num_entries_def
      hash_enter_def hash_remove_def update_conv' delete_conv' distinct_update distinct_delete)

lemma hash_find_Nil [simp]: "hash_find [] k = None"
  by (rule htab.find_emp)

lemma htab_ok_Nil [simp]: "htab_ok []"
  by (rule htab.ok_emp)

lemma hash_find_map_entries [simp]:
  "hash_find (hash_map_entries f t) k = map_option (f k) (hash_find t k)"
  by (induction t) (auto simp: hash_find_def hash_map_entries_def)

lemma htab_ok_map_entries [simp]: "htab_ok (hash_map_entries f t) = htab_ok t"
  by (simp add: htab_ok_def hash_map_entries_def comp_def case_prod_beta)

lemma hash_enter_same [simp]: "hash_find t k = Some e \<Longrightarrow> hash_enter t k e = t"
  by (induction t) (auto simp: hash_find_def hash_enter_def split: if_splits)

section \<open>Maps and lists\<close>

lemma map_of_filter_keys:
  "map_of (filter (\<lambda>p. P (fst p)) xs) k = (if P k then map_of xs k else None)"
  by (induction xs) auto

lemma map_of_filter_Some:
  "distinct (map fst rows) \<Longrightarrow>
   map_of (filter sel rows) k = (case map_of rows k of None \<Rightarrow> None
      | Some r \<Rightarrow> if sel (k, r) then Some r else None)"
  by (induction rows) (auto split: option.splits simp: map_of_eq_None_iff image_iff)

lemma map_of_map_snd: "map_of (map (\<lambda>(k, v). (k, f v)) xs) k = map_option f (map_of xs k)"
  by (induction xs) auto

lemma sorted_wrt_less_distinct: "sorted_wrt (<) (xs :: 'a :: linorder list) \<Longrightarrow> distinct xs"
  by (induction xs) auto

end
