(* ===== verification/Types.thy ===== *)
theory Types
  imports Prelude
begin

text \<open>
  The data of \<open>src/types.h\<close> and \<open>src/kv_store.h\<close>: the limits, the value types, the
  per-backend entry with its string, integer, hash and list payloads, the configuration
  variables, and the errors the code raises with \<open>ereport(ERROR)\<close>. A pointer that owns its
  target is the target itself; a chain of nodes is the list of the nodes from head to tail.
  Ordinals, lengths and versions are unbounded integers (no run pushes \<open>2^63\<close> elements);
  integer values, which a client can place at the border, are kept at 64 bits.
\<close>

section \<open>Limits and struct sizes\<close>

definition PG_REDIS_MAX_KEY_SIZE :: nat where
  "PG_REDIS_MAX_KEY_SIZE = 1024"

definition PG_REDIS_MAX_FIELD_SIZE :: nat where
  "PG_REDIS_MAX_FIELD_SIZE = 1024"

text \<open>Sizes of the C structs on the LP64 targets of the server.\<close>

definition sizeof_PgRedisListNode :: nat where
  "sizeof_PgRedisListNode = 48"

definition sizeof_PgRedisHashField :: nat where
  "sizeof_PgRedisHashField = 1056"

definition sizeof_PgRedisEntry :: nat where
  "sizeof_PgRedisEntry = 1088"

section \<open>Value types\<close>

datatype PgRedisValueType =
    PG_REDIS_TYPE_STRING
  | PG_REDIS_TYPE_INT
  | PG_REDIS_TYPE_HASH
  | PG_REDIS_TYPE_LIST

section \<open>Lists\<close>

record PgRedisListNode =
  ln_value :: bytes
  ln_ord :: int
  ln_pending_insert :: bool

record PgRedisList =
  l_nodes :: "PgRedisListNode list"
  l_length :: int
  l_memory_usage :: nat
  l_min_ord :: int
  l_max_ord :: int
  l_ord_initialized :: bool
  l_pending_delete_ords :: "int list"

section \<open>Hashes\<close>

record PgRedisHashField =
  hf_value :: bytes
  hf_dirty :: bool

record PgRedisHash =
  h_fields :: "(bytes, PgRedisHashField) htab"
  h_field_count :: int
  h_memory_usage :: nat
  h_tombstones :: "bytes list"

section \<open>Entries\<close>

text \<open>
  The value union together with the type tag that selects its member. \<open>None\<close> is the
  \<open>NULL\<close> pointer. \<open>string_len\<close> is the length of the string the union holds.
\<close>

datatype PgRedisValue =
    StringValue "bytes option"
  | IntValue int
  | HashValue "PgRedisHash option"
  | ListValue "PgRedisList option"

record PgRedisEntry =
  e_value :: PgRedisValue
  e_expire_at :: int
  e_has_expire :: bool
  e_dirty :: bool
  e_deleted :: bool
  e_in_dirty_set :: bool
  e_version :: nat
  e_memory_usage :: nat

fun value_type :: "PgRedisValue \<Rightarrow> PgRedisValueType" where
  "value_type (StringValue _) = PG_REDIS_TYPE_STRING"
| "value_type (IntValue _) = PG_REDIS_TYPE_INT"
| "value_type (HashValue _) = PG_REDIS_TYPE_HASH"
| "value_type (ListValue _) = PG_REDIS_TYPE_LIST"

definition e_type :: "PgRedisEntry \<Rightarrow> PgRedisValueType" where
  "e_type e = value_type (e_value e)"

fun string_len :: "PgRedisValue \<Rightarrow> nat" where
  "string_len (StringValue (Some s)) = length s"
| "string_len _ = 0"

section \<open>Configuration\<close>

datatype PgRedisPersistenceMode =
    PG_REDIS_PERSIST_NONE
  | PG_REDIS_PERSIST_SYNC_TABLE
  | PG_REDIS_PERSIST_ASYNC_TABLE
  | PG_REDIS_PERSIST_SNAPSHOT
  | PG_REDIS_PERSIST_AOF

datatype PgRedisStorageMode =
    PG_REDIS_STORAGE_SESSION
  | PG_REDIS_STORAGE_SHARED

text \<open>The configuration variables the modelled code reads, and whether the shared header exists.\<close>

record guc =
  pg_redis_persistence_mode :: "string option"
  pg_redis_storage_mode :: "string option"
  pg_redis_max_key_size :: int
  pg_redis_max_value_size :: int
  shmem_initialized :: bool

section \<open>Errors\<close>

datatype pg_error =
    KeyEmpty
  | KeyTooLong nat int
  | FieldEmpty
  | FieldTooLong nat
  | ValueTooLong nat int
  | Int64FormatOverflow
  | WrongType bytes PgRedisValueType PgRedisValueType
  | NotAnInteger bytes
  | SpiConnectFailed
  | UniqueViolation
  | ForeignKeyViolation
  | OutOfSharedMemory
  | HashValueTooLong nat
  | HashTableSaturated
  | RingNotInitialized
  | RingFull
  | SnapshotInsertFailed

text \<open>The computations that may raise: the error on the left.\<close>

type_synonym 'a result = "pg_error + 'a"

lemma value_type_cases:
  "value_type v = PG_REDIS_TYPE_STRING \<longleftrightarrow> (\<exists>s. v = StringValue s)"
  "value_type v = PG_REDIS_TYPE_INT \<longleftrightarrow> (\<exists>i. v = IntValue i)"
  "value_type v = PG_REDIS_TYPE_HASH \<longleftrightarrow> (\<exists>h. v = HashValue h)"
  "value_type v = PG_REDIS_TYPE_LIST \<longleftrightarrow> (\<exists>l. v = ListValue l)"
  by (cases v; simp)+

end
