(* ===== verification/Utils.thy ===== *)
theory Utils
  imports Types
begin

text \<open>
  \<open>src/utils.c\<close>: length checks on keys, fields and values, the conversion between
  \<open>int64\<close> and decimal text (\<open>strtoll\<close> and \<open>snprintf\<close> of the C library), and the
  resolution of the mode variables. The main facts: an accepted key fits the fixed-size slot of
  the hash table, formatting never overflows its buffer, and parsing a formatted integer gives
  it back.
\<close>

section \<open>Length checks\<close>

definition pg_redis_check_key_len :: "guc \<Rightarrow> nat \<Rightarrow> unit result" where
  "pg_redis_check_key_len g len =
     (let max0 = pg_redis_max_key_size g;
          mx = (if max0 \<le> 0 \<or> max0 > int PG_REDIS_MAX_KEY_SIZE then int PG_REDIS_MAX_KEY_SIZE
                else max0)
      in if len = 0 then Inl KeyEmpty
         else if int len > mx then Inl (KeyTooLong len mx)
         else Inr ())"

definition pg_redis_check_field_len :: "nat \<Rightarrow> unit result" where
  "pg_redis_check_field_len len =
     (if len = 0 then Inl FieldEmpty
      else if len > PG_REDIS_MAX_FIELD_SIZE then Inl (FieldTooLong len)
      else Inr ())"

definition pg_redis_check_value_len :: "guc \<Rightarrow> nat \<Rightarrow> unit result" where
  "pg_redis_check_value_len g len =
     (let mx = pg_redis_max_value_size g
      in if mx \<le> 0 then Inr ()
         else if int len > mx then Inl (ValueTooLong len mx)
         else Inr ())"

text \<open>
  \<open>pg_redis_text_to_cstring_stack\<close> and \<open>argtext_to_pstring\<close> validate the argument and
  return a copy of its bytes; where the copy lives does not change what it holds.
\<close>

definition pg_redis_text_to_cstring_stack ::
    "guc \<Rightarrow> bytes \<Rightarrow> bool \<Rightarrow> bool \<Rightarrow> bytes result" where
  "pg_redis_text_to_cstring_stack g t check_key check_field =
     (let len = length t;
          chk = (if check_key then pg_redis_check_key_len g len
                 else if check_field then pg_redis_check_field_len len
                 else Inr ())
      in case chk of Inl e \<Rightarrow> Inl e | Inr _ \<Rightarrow> Inr t)"

section \<open>Decimal text\<close>

definition c_isspace :: "byte \<Rightarrow> bool" where
  "c_isspace c \<longleftrightarrow> c \<in> set [32, 9, 10, 11, 12, 13]"

definition c_isdigit :: "byte \<Rightarrow> bool" where
  "c_isdigit c \<longleftrightarrow> 48 \<le> unat c \<and> unat c \<le> 57"

definition dec_val :: "bytes \<Rightarrow> nat" where
  "dec_val ds = foldl (\<lambda>a c. a * 10 + (unat c - 48)) 0 ds"

text \<open>
  \<open>strtoll(buf, &end, 10)\<close>: white space, an optional sign, the longest run of digits. The
  result is the value (clamped on overflow), whether \<open>errno\<close> was set, whether a conversion
  was made (\<open>end \<noteq> buf\<close>) and the bytes at \<open>end\<close>.
\<close>

definition c_strtoll :: "bytes \<Rightarrow> int \<times> bool \<times> bool \<times> bytes" where
  "c_strtoll buf =
     (let s1 = dropWhile c_isspace buf;
          neg = (s1 \<noteq> [] \<and> hd s1 = 45);
          s2 = (if s1 \<noteq> [] \<and> (hd s1 = 45 \<or> hd s1 = 43) then tl s1 else s1);
          ds = takeWhile c_isdigit s2;
          rest = dropWhile c_isdigit s2;
          v = (if neg then - int (dec_val ds) else int (dec_val ds))
      in if ds = [] then (0, False, False, buf)
         else if v < - (2 ^ 63) then (- (2 ^ 63), True, True, rest)
         else if v \<ge> 2 ^ 63 then (2 ^ 63 - 1, True, True, rest)
         else (v, False, True, rest))"

definition pg_redis_parse_int64 :: "bytes \<Rightarrow> int option" where
  "pg_redis_parse_int64 s =
     (if length s = 0 \<or> length s \<ge> 32 then None
      else (case c_strtoll s of (v, erange, conv, rest) \<Rightarrow>
              if erange \<or> \<not> conv \<or> (rest \<noteq> [] \<and> hd rest \<noteq> 0) then None
              else Some v))"

fun dec_digits :: "nat \<Rightarrow> bytes" where
  "dec_digits n =
     (if n < 10 then [word_of_nat (48 + n)]
      else dec_digits (n div 10) @ [word_of_nat (48 + n mod 10)])"

definition snprintf_int64 :: "int \<Rightarrow> bytes" where
  "snprintf_int64 v = (if v < 0 then 45 # dec_digits (nat (- v)) else dec_digits (nat v))"

definition pg_redis_format_int64 :: "int \<Rightarrow> bytes result" where
  "pg_redis_format_int64 v =
     (let buf = snprintf_int64 v
      in if length buf \<ge> 32 then Inl Int64FormatOverflow else Inr buf)"

section \<open>Modes\<close>

definition pg_redis_resolve_persistence_mode :: "guc \<Rightarrow> PgRedisPersistenceMode" where
  "pg_redis_resolve_persistence_mode g =
     (case pg_redis_persistence_mode g of
        None \<Rightarrow> PG_REDIS_PERSIST_SYNC_TABLE
      | Some m \<Rightarrow>
          if m = ''none'' then PG_REDIS_PERSIST_NONE
          else if m = ''sync_table'' then PG_REDIS_PERSIST_SYNC_TABLE
          else if m = ''async_table'' then PG_REDIS_PERSIST_ASYNC_TABLE
          else if m = ''snapshot'' then PG_REDIS_PERSIST_SNAPSHOT
          else if m = ''aof'' then PG_REDIS_PERSIST_AOF
          else PG_REDIS_PERSIST_SYNC_TABLE)"

definition pg_redis_resolve_storage_mode :: "guc \<Rightarrow> PgRedisStorageMode" where
  "pg_redis_resolve_storage_mode g =
     (case pg_redis_storage_mode g of
        None \<Rightarrow> PG_REDIS_STORAGE_SESSION
      | Some m \<Rightarrow> if m = ''shared'' then PG_REDIS_STORAGE_SHARED else PG_REDIS_STORAGE_SESSION)"

definition pg_redis_storage_is_shared :: "guc \<Rightarrow> bool" where
  "pg_redis_storage_is_shared g =
     (if pg_redis_resolve_storage_mode g \<noteq> PG_REDIS_STORAGE_SHARED then False
      else shmem_initialized g)"

definition pg_redis_effective_persistence_mode :: "guc \<Rightarrow> PgRedisPersistenceMode" where
  "pg_redis_effective_persistence_mode g =
     (let m = pg_redis_resolve_persistence_mode g
      in if m = PG_REDIS_PERSIST_ASYNC_TABLE \<and> \<not> pg_redis_storage_is_shared g
         then PG_REDIS_PERSIST_SYNC_TABLE else m)"

section \<open>Facts\<close>

declare dec_digits.simps [simp del]

lemma check_key_len_bound:
  "pg_redis_check_key_len g len = Inr () \<Longrightarrow> 0 < len \<and> len \<le> PG_REDIS_MAX_KEY_SIZE"
  by (auto simp: pg_redis_check_key_len_def Let_def split: if_splits)

lemma check_field_len_iff:
  "pg_redis_check_field_len len = Inr () \<longleftrightarrow> 0 < len \<and> len \<le> PG_REDIS_MAX_FIELD_SIZE"
  by (auto simp: pg_redis_check_field_len_def)

lemma text_to_cstring_key:
  "pg_redis_text_to_cstring_stack g t True f = Inr k \<longleftrightarrow>
     k = t \<and> pg_redis_check_key_len g (length t) = Inr ()"
  by (auto simp: pg_redis_text_to_cstring_stack_def Let_def split: sum.splits)

lemma text_to_cstring_field:
  "pg_redis_text_to_cstring_stack g t False True = Inr k \<longleftrightarrow>
     k = t \<and> pg_redis_check_field_len (length t) = Inr ()"
  by (auto simp: pg_redis_text_to_cstring_stack_def Let_def split: sum.splits)

lemma unat_digit: "d < 10 \<Longrightarrow> unat (word_of_nat (48 + d) :: byte) = 48 + d"
  using unat_of_nat [of "48 + d", where 'a = 8] by simp

lemma dec_digits_isdigit: "\<forall>c \<in> set (dec_digits n). c_isdigit c"
proof (induction n rule: dec_digits.induct)
  case (1 n)
  then show ?case
    by (subst dec_digits.simps)
      (auto simp: c_isdigit_def unat_digit [simplified])
qed

lemma dec_digits_nonempty [simp]: "dec_digits n \<noteq> []"
  by (subst dec_digits.simps) simp

lemma dec_val_digits: "dec_val (dec_digits n) = n"
proof (induction n rule: dec_digits.induct)
  case (1 n)
  show ?case
  proof (cases "n < 10")
    case True
    then show ?thesis
      by (subst dec_digits.simps) (simp add: dec_val_def unat_digit [simplified])
  next
    case False
    with "1.IH" have "dec_val (dec_digits (n div 10)) = n div 10" by simp
    with False show ?thesis
      by (subst dec_digits.simps) (simp add: dec_val_def unat_digit [simplified])
  qed
qed

lemma length_dec_digits: "n < 10 ^ Suc k \<Longrightarrow> length (dec_digits n) \<le> Suc k"
proof (induction k arbitrary: n)
  case 0
  then show ?case by (subst dec_digits.simps) simp
next
  case (Suc k)
  show ?case
  proof (cases "n < 10")
    case True
    then show ?thesis by (subst dec_digits.simps) simp
  next
    case False
    from Suc.prems have "n div 10 < 10 ^ Suc k" by (simp add: less_mult_imp_div_less)
    then have "length (dec_digits (n div 10)) \<le> Suc k" by (rule Suc.IH)
    with False show ?thesis by (subst dec_digits.simps) simp
  qed
qed

lemma length_snprintf_int64: "int64_range v \<Longrightarrow> length (snprintf_int64 v) \<le> 20"
proof -
  assume r: "int64_range v"
  have "(2 :: nat) ^ 63 < 10 ^ Suc 18" by simp
  then have "n \<le> 2 ^ 63 \<Longrightarrow> length (dec_digits n) \<le> 19" for n
    using length_dec_digits [of n 18] by linarith
  moreover have "nat (- v) \<le> 2 ^ 63" "nat v \<le> 2 ^ 63"
    using r by (simp_all add: int64_range_def nat_le_iff)
  ultimately have "length (dec_digits (nat (- v))) \<le> 19" "length (dec_digits (nat v)) \<le> 19"
    by blast+
  then show ?thesis by (simp add: snprintf_int64_def)
qed

lemma dec_digits_span:
  "takeWhile c_isdigit (dec_digits n) = dec_digits n"
  "dropWhile c_isdigit (dec_digits n) = []"
  using dec_digits_isdigit [of n] by (simp_all add: takeWhile_eq_all_conv)

lemma hd_dec_digits: "c_isdigit (hd (dec_digits n))"
  using dec_digits_isdigit [of n] by (cases "dec_digits n") auto

lemma digit_not_space: "c_isdigit c \<Longrightarrow> \<not> c_isspace c \<and> c \<noteq> 45 \<and> c \<noteq> 43"
  by (auto simp: c_isdigit_def c_isspace_def)

lemma strtoll_snprintf:
  assumes "int64_range v"
  shows "c_strtoll (snprintf_int64 v) = (v, False, True, [])"
proof (cases "v < 0")
  case True
  have "dropWhile c_isspace (45 # dec_digits (nat (- v))) = 45 # dec_digits (nat (- v))"
    by (simp add: c_isspace_def)
  with True assms show ?thesis
    by (simp add: c_strtoll_def snprintf_int64_def Let_def dec_digits_span dec_val_digits
        int64_range_def)
next
  case False
  let ?d = "dec_digits (nat v)"
  have sp: "\<not> c_isspace (hd ?d)" "hd ?d \<noteq> 45" "hd ?d \<noteq> 43"
    using digit_not_space [OF hd_dec_digits] by blast+
  have "dropWhile c_isspace ?d = ?d"
    using sp(1) by (cases ?d) auto
  with False assms sp show ?thesis
    by (simp add: c_strtoll_def snprintf_int64_def Let_def dec_digits_span dec_val_digits
        int64_range_def)
qed

lemma format_int64_total:
  "int64_range v \<Longrightarrow> pg_redis_format_int64 v = Inr (snprintf_int64 v)"
  using length_snprintf_int64 [of v] by (simp add: pg_redis_format_int64_def)

lemma snprintf_nonempty: "snprintf_int64 v \<noteq> []"
  by (simp add: snprintf_int64_def)

lemma parse_snprintf: "int64_range v \<Longrightarrow> pg_redis_parse_int64 (snprintf_int64 v) = Some v"
  using length_snprintf_int64 [of v]
  by (simp add: pg_redis_parse_int64_def strtoll_snprintf snprintf_nonempty)

lemma parse_range: "pg_redis_parse_int64 s = Some v \<Longrightarrow> int64_range v"
  by (auto simp: pg_redis_parse_int64_def c_strtoll_def int64_range_def Let_def
      split: if_splits prod.splits)

lemma session_not_async:
  "\<not> pg_redis_storage_is_shared g \<Longrightarrow>
   pg_redis_effective_persistence_mode g \<noteq> PG_REDIS_PERSIST_ASYNC_TABLE"
  by (simp add: pg_redis_effective_persistence_mode_def Let_def)

section \<open>Properties\<close>

text \<open>
  Formatting a 64-bit integer never overflows the 32-byte buffer, and parsing the text gives the
  integer back.
\<close>

lemma int64_text_roundtrip:
  assumes "int64_range v"
  shows "\<exists>s. pg_redis_format_int64 v = Inr s \<and> pg_redis_parse_int64 s = Some v \<and> length s \<le> 20"
  using assms by (simp add: format_int64_total parse_snprintf length_snprintf_int64)

text \<open>
  Whatever the size limit is configured to, a key that passes the check is not empty and fits the
  fixed-size key of a store entry; a text argument is returned unchanged.
\<close>

lemma accepted_key_fits:
  assumes "pg_redis_text_to_cstring_stack g t True False = Inr k"
  shows "k = t \<and> 0 < length k \<and> length k \<le> PG_REDIS_MAX_KEY_SIZE"
  using assms check_key_len_bound [of g "length t"] by (simp add: text_to_cstring_key)

end
