(* ===== verification/Binval.thy ===== *)
theory Binval
  imports Utils
begin

text \<open>
  \<open>src/binval.c\<close>: the binary tag-length-value layout of the \<open>pgredis.store.value\<close>
  column, \<open>[u8 tag][u32 length, little endian][payload]\<close>. The round trips hold for every
  string below 4 GiB and every 64-bit integer, and a decoder accepts nothing but its own tag.
\<close>

unbundle bit_operations_syntax

section \<open>Little-endian helpers\<close>

definition put_u32_le :: "32 word \<Rightarrow> bytes" where
  "put_u32_le v =
     [ucast (v AND 0xFF),
      ucast (drop_bit 8 v AND 0xFF),
      ucast (drop_bit 16 v AND 0xFF),
      ucast (drop_bit 24 v AND 0xFF)]"

definition get_u32_le :: "bytes \<Rightarrow> 32 word" where
  "get_u32_le p =
     ucast (p ! 0) OR push_bit 8 (ucast (p ! 1)) OR push_bit 16 (ucast (p ! 2)) OR
     push_bit 24 (ucast (p ! 3))"

definition put_i64_le :: "int \<Rightarrow> bytes" where
  "put_i64_le v =
     (let u = word_of_int v :: 64 word
      in [ucast (u AND 0xFF),
          ucast (drop_bit 8 u AND 0xFF),
          ucast (drop_bit 16 u AND 0xFF),
          ucast (drop_bit 24 u AND 0xFF),
          ucast (drop_bit 32 u AND 0xFF),
          ucast (drop_bit 40 u AND 0xFF),
          ucast (drop_bit 48 u AND 0xFF),
          ucast (drop_bit 56 u AND 0xFF)])"

definition get_i64_le :: "bytes \<Rightarrow> int" where
  "get_i64_le p =
     (let u = (ucast (p ! 0) OR push_bit 8 (ucast (p ! 1)) OR push_bit 16 (ucast (p ! 2)) OR
               push_bit 24 (ucast (p ! 3)) OR push_bit 32 (ucast (p ! 4)) OR
               push_bit 40 (ucast (p ! 5)) OR push_bit 48 (ucast (p ! 6)) OR
               push_bit 56 (ucast (p ! 7)) :: 64 word)
      in sint u)"

section \<open>Encoding and decoding\<close>

definition PG_REDIS_TLV_STRING :: byte where
  "PG_REDIS_TLV_STRING = 1"

definition PG_REDIS_TLV_INT :: byte where
  "PG_REDIS_TLV_INT = 2"

definition PG_REDIS_TLV_HEADER_SIZE :: nat where
  "PG_REDIS_TLV_HEADER_SIZE = 5"

definition VARHDRSZ :: nat where
  "VARHDRSZ = 4"

text \<open>A \<open>bytea\<close> datum: the size of its varlena header and the bytes after it.\<close>

record bytea =
  va_hdrsz :: nat
  va_data :: bytes

fun pg_redis_encode_value :: "PgRedisValue \<Rightarrow> bytea option" where
  "pg_redis_encode_value (StringValue s) =
     (let payload = (case s of None \<Rightarrow> [] | Some b \<Rightarrow> b)
      in Some \<lparr>va_hdrsz = VARHDRSZ,
               va_data = PG_REDIS_TLV_STRING # put_u32_le (word_of_nat (length payload)) @ payload\<rparr>)"
| "pg_redis_encode_value (IntValue i) =
     Some \<lparr>va_hdrsz = VARHDRSZ,
           va_data = PG_REDIS_TLV_INT # put_u32_le 8 @ put_i64_le i\<rparr>"
| "pg_redis_encode_value (HashValue _) = None"
| "pg_redis_encode_value (ListValue _) = None"

definition decode_header :: "bytea option \<Rightarrow> byte \<Rightarrow> (bytes \<times> 32 word) option" where
  "decode_header raw0 expected_tag =
     (case raw0 of
        None \<Rightarrow> None
      | Some raw \<Rightarrow>
          let raw_total = va_hdrsz raw + length (va_data raw);
              body_len = length (va_data raw);
              p = va_data raw
          in if raw_total < VARHDRSZ + PG_REDIS_TLV_HEADER_SIZE then None
             else if body_len < PG_REDIS_TLV_HEADER_SIZE then None
             else if p ! 0 \<noteq> expected_tag then None
             else let declared_len = get_u32_le (drop 1 p)
                  in if unat declared_len + PG_REDIS_TLV_HEADER_SIZE \<noteq> body_len then None
                     else Some (drop PG_REDIS_TLV_HEADER_SIZE p, declared_len))"

definition pg_redis_decode_string :: "bytea option \<Rightarrow> bytes option" where
  "pg_redis_decode_string raw =
     (case decode_header raw PG_REDIS_TLV_STRING of
        None \<Rightarrow> None
      | Some (payload, payload_len) \<Rightarrow> Some (take (unat payload_len) payload))"

definition pg_redis_decode_int :: "bytea option \<Rightarrow> int option" where
  "pg_redis_decode_int raw =
     (case decode_header raw PG_REDIS_TLV_INT of
        None \<Rightarrow> None
      | Some (payload, payload_len) \<Rightarrow>
          if payload_len \<noteq> 8 then None else Some (get_i64_le payload))"

section \<open>Round trips\<close>

lemma length_put_u32_le [simp]: "length (put_u32_le v) = 4"
  by (simp add: put_u32_le_def)

lemma length_put_i64_le [simp]: "length (put_i64_le v) = 8"
  by (simp add: put_i64_le_def Let_def)

lemma mask8_u32: "(0xFF :: 32 word) = mask 8"
  by (simp add: mask_eq_exp_minus_1)

lemma mask8_u64: "(0xFF :: 64 word) = mask 8"
  by (simp add: mask_eq_exp_minus_1)

lemma bit_byte_slice:
  fixes u :: "64 word"
  shows "bit (push_bit k (ucast (ucast (drop_bit k u AND 0xFF) :: byte)) :: 64 word) n \<longleftrightarrow>
     k \<le> n \<and> n < k + 8 \<and> n < 64 \<and> bit u n"
  unfolding mask8_u64 by (auto simp: bit_simps)

lemma get_put_u32_le: "get_u32_le (put_u32_le v @ rest) = v"
proof (rule bit_word_eqI)
  fix n :: nat
  assume "n < LENGTH(32)"
  then consider "n < 8" | "8 \<le> n" "n < 16" | "16 \<le> n" "n < 24" | "24 \<le> n" "n < 32"
    by fastforce
  then show "bit (get_u32_le (put_u32_le v @ rest)) n = bit v n"
    by cases (auto simp: get_u32_le_def put_u32_le_def mask8_u32 bit_simps)
qed

lemma get_put_i64_le_word:
  fixes u :: "64 word"
  shows "(push_bit 0 (ucast (ucast (drop_bit 0 u AND 0xFF) :: byte)) OR
      push_bit 8 (ucast (ucast (drop_bit 8 u AND 0xFF) :: byte)) OR
      push_bit 16 (ucast (ucast (drop_bit 16 u AND 0xFF) :: byte)) OR
      push_bit 24 (ucast (ucast (drop_bit 24 u AND 0xFF) :: byte)) OR
      push_bit 32 (ucast (ucast (drop_bit 32 u AND 0xFF) :: byte)) OR
      push_bit 40 (ucast (ucast (drop_bit 40 u AND 0xFF) :: byte)) OR
      push_bit 48 (ucast (ucast (drop_bit 48 u AND 0xFF) :: byte)) OR
      push_bit 56 (ucast (ucast (drop_bit 56 u AND 0xFF) :: byte))) = u"
    (is "?lhs = u")
proof (rule bit_word_eqI)
  fix n :: nat
  assume "n < LENGTH(64)"
  then show "bit ?lhs n = bit u n"
    by (simp only: bit_or_iff bit_byte_slice) auto
qed

lemma get_put_i64_le: "int64_range v \<Longrightarrow> get_i64_le (put_i64_le v) = v"
proof -
  assume r: "int64_range v"
  have "get_i64_le (put_i64_le v) = sint (word_of_int v :: 64 word)"
    using get_put_i64_le_word [of "word_of_int v"]
    by (simp add: get_i64_le_def put_i64_le_def Let_def)
  also have "\<dots> = v"
    using r by (simp add: int64_range_def sint_sbintrunc' signed_take_bit_int_eq_self)
  finally show ?thesis .
qed

lemma get_i64_range: "int64_range (get_i64_le p)"
  unfolding get_i64_le_def Let_def int64_range_def
  using sint_ge [where 'a = 64] sint_lt [where 'a = 64] by simp

text \<open>The header of an encoded payload is accepted under its own tag and under no other.\<close>

lemma decode_header_encoded:
  assumes "length payload < 2 ^ 32"
  shows "decode_header (Some \<lparr>va_hdrsz = VARHDRSZ,
            va_data = tag # put_u32_le (word_of_nat (length payload)) @ payload\<rparr>) expected =
         (if tag = expected then Some (payload, word_of_nat (length payload)) else None)"
proof -
  have "unat (word_of_nat (length payload) :: 32 word) = length payload"
    using assms by (simp add: unat_of_nat)
  then show ?thesis
    by (simp add: decode_header_def VARHDRSZ_def PG_REDIS_TLV_HEADER_SIZE_def Let_def
        get_put_u32_le)
qed

lemma decode_encode_string:
  "length s < 2 ^ 32 \<Longrightarrow>
   pg_redis_decode_string (pg_redis_encode_value (StringValue (Some s))) = Some s"
  by (simp add: pg_redis_decode_string_def decode_header_encoded PG_REDIS_TLV_STRING_def
      unat_of_nat)

lemma decode_encode_int:
  assumes "int64_range i"
  shows "pg_redis_decode_int (pg_redis_encode_value (IntValue i)) = Some i"
  using decode_header_encoded [of "put_i64_le i" PG_REDIS_TLV_INT PG_REDIS_TLV_INT] assms
  by (simp add: pg_redis_decode_int_def get_put_i64_le)

lemma decode_string_of_int: "pg_redis_decode_string (pg_redis_encode_value (IntValue i)) = None"
  using decode_header_encoded [of "put_i64_le i" PG_REDIS_TLV_INT PG_REDIS_TLV_STRING]
  by (simp add: pg_redis_decode_string_def PG_REDIS_TLV_INT_def PG_REDIS_TLV_STRING_def)

lemma decode_int_of_string:
  "length s < 2 ^ 32 \<Longrightarrow>
   pg_redis_decode_int (pg_redis_encode_value (StringValue (Some s))) = None"
  by (simp add: pg_redis_decode_int_def decode_header_encoded PG_REDIS_TLV_INT_def
      PG_REDIS_TLV_STRING_def)

text \<open>A successful decode reads a well-formed layout: the payload is exactly the declared run.\<close>

lemma decode_string_Some:
  assumes "pg_redis_decode_string (Some raw) = Some s"
  shows "va_data raw ! 0 = PG_REDIS_TLV_STRING \<and> s = drop PG_REDIS_TLV_HEADER_SIZE (va_data raw) \<and>
         length (va_data raw) = PG_REDIS_TLV_HEADER_SIZE + length s"
  using assms
  by (auto simp: pg_redis_decode_string_def decode_header_def Let_def split: if_splits)

section \<open>Properties\<close>

text \<open>
  A string below 4 GiB and every 64-bit integer survive the tag-length-value encoding, byte for byte,
  and the encoding of one kind is not accepted as the other.
\<close>

lemma tlv_roundtrip:
  assumes "length s < 2 ^ 32" "int64_range i"
  shows "pg_redis_decode_string (pg_redis_encode_value (StringValue (Some s))) = Some s \<and>
    pg_redis_decode_int (pg_redis_encode_value (StringValue (Some s))) = None \<and>
    pg_redis_decode_int (pg_redis_encode_value (IntValue i)) = Some i \<and>
    pg_redis_decode_string (pg_redis_encode_value (IntValue i)) = None"
  using assms by (simp only: decode_encode_string decode_int_of_string decode_encode_int decode_string_of_int simp_thms)

end
