(* ===== verification/List_Value.thy ===== *)
theory List_Value
  imports Types
begin

text \<open>
  \<open>src/list.c\<close>: the double-ended list behind \<open>LPUSH\<close>, \<open>RPUSH\<close>, \<open>LPOP\<close>,
  \<open>RPOP\<close> and \<open>LLEN\<close>. The chain of nodes from \<open>head\<close> to \<open>tail\<close> is
  \<open>l_nodes\<close>. Every node has an ordinal that its durable row carries; the code keeps the
  ordinals increasing along the chain, and remembers which rows the next flush must insert and
  delete. The operations satisfy the contract \<open>deque\<close>; \<open>list_delta_ok\<close> states that the
  pending inserts and deletes turn the durable rows into the list.
\<close>

section \<open>Operations\<close>

definition pg_redis_list_create :: PgRedisList where
  "pg_redis_list_create =
     \<lparr>l_nodes = [], l_length = 0, l_memory_usage = 0, l_min_ord = 0, l_max_ord = -1,
      l_ord_initialized = False, l_pending_delete_ords = []\<rparr>"

definition list_new_node :: "bytes \<Rightarrow> int \<Rightarrow> bool \<Rightarrow> PgRedisListNode" where
  "list_new_node value ord pend = \<lparr>ln_value = value, ln_ord = ord, ln_pending_insert = pend\<rparr>"

definition pg_redis_list_lpush :: "bytes \<Rightarrow> PgRedisList \<Rightarrow> int \<times> PgRedisList" where
  "pg_redis_list_lpush value l =
     (let ord = (if \<not> l_ord_initialized l then 0 else l_min_ord l - 1);
          l1 = (if \<not> l_ord_initialized l
                then l\<lparr>l_min_ord := 0, l_max_ord := 0, l_ord_initialized := True\<rparr>
                else l\<lparr>l_min_ord := ord\<rparr>);
          n = list_new_node value ord True;
          l2 = l1\<lparr>l_nodes := n # l_nodes l1,
                  l_length := l_length l1 + 1,
                  l_memory_usage := l_memory_usage l1 + (sizeof_PgRedisListNode + length value)\<rparr>
      in (l_length l2, l2))"

definition pg_redis_list_rpush :: "bytes \<Rightarrow> PgRedisList \<Rightarrow> int \<times> PgRedisList" where
  "pg_redis_list_rpush value l =
     (let ord = (if \<not> l_ord_initialized l then 0 else l_max_ord l + 1);
          l1 = (if \<not> l_ord_initialized l
                then l\<lparr>l_min_ord := 0, l_max_ord := 0, l_ord_initialized := True\<rparr>
                else l\<lparr>l_max_ord := ord\<rparr>);
          n = list_new_node value ord True;
          l2 = l1\<lparr>l_nodes := l_nodes l1 @ [n],
                  l_length := l_length l1 + 1,
                  l_memory_usage := l_memory_usage l1 + (sizeof_PgRedisListNode + length value)\<rparr>
      in (l_length l2, l2))"

definition record_pending_delete :: "PgRedisListNode \<Rightarrow> PgRedisList \<Rightarrow> PgRedisList" where
  "record_pending_delete n l =
     (if ln_pending_insert n then l
      else l\<lparr>l_pending_delete_ords := ln_ord n # l_pending_delete_ords l\<rparr>)"

definition pg_redis_list_lpop :: "PgRedisList \<Rightarrow> bytes option \<times> PgRedisList" where
  "pg_redis_list_lpop l =
     (case l_nodes l of
        [] \<Rightarrow> (None, l)
      | n # rest \<Rightarrow>
          let node_bytes = sizeof_PgRedisListNode + length (ln_value n);
              l1 = record_pending_delete n l;
              l2 = l1\<lparr>l_nodes := rest\<rparr>;
              l3 = (case rest of
                      n' # _ \<Rightarrow> l2\<lparr>l_min_ord := ln_ord n'\<rparr>
                    | [] \<Rightarrow> l2\<lparr>l_ord_initialized := False, l_min_ord := 0, l_max_ord := -1\<rparr>);
              l4 = l3\<lparr>l_length := l_length l3 - 1,
                      l_memory_usage :=
                        (if l_memory_usage l3 \<ge> node_bytes then l_memory_usage l3 - node_bytes
                         else l_memory_usage l3)\<rparr>
          in (Some (ln_value n), l4))"

definition pg_redis_list_rpop :: "PgRedisList \<Rightarrow> bytes option \<times> PgRedisList" where
  "pg_redis_list_rpop l =
     (if l_nodes l = [] then (None, l)
      else
        let n = last (l_nodes l);
            rest = butlast (l_nodes l);
            node_bytes = sizeof_PgRedisListNode + length (ln_value n);
            l1 = record_pending_delete n l;
            l2 = l1\<lparr>l_nodes := rest\<rparr>;
            l3 = (if rest \<noteq> [] then l2\<lparr>l_max_ord := ln_ord (last rest)\<rparr>
                  else l2\<lparr>l_ord_initialized := False, l_min_ord := 0, l_max_ord := -1\<rparr>);
            l4 = l3\<lparr>l_length := l_length l3 - 1,
                    l_memory_usage :=
                      (if l_memory_usage l3 \<ge> node_bytes then l_memory_usage l3 - node_bytes
                       else l_memory_usage l3)\<rparr>
        in (Some (ln_value n), l4))"

definition pg_redis_list_length :: "PgRedisList option \<Rightarrow> int" where
  "pg_redis_list_length l0 = (case l0 of None \<Rightarrow> 0 | Some l \<Rightarrow> l_length l)"

definition pg_redis_list_memory :: "PgRedisList option \<Rightarrow> nat" where
  "pg_redis_list_memory l0 = (case l0 of None \<Rightarrow> 0 | Some l \<Rightarrow> l_memory_usage l)"

section \<open>What a list stands for\<close>

definition list_vals :: "PgRedisList \<Rightarrow> bytes list" where
  "list_vals l = map ln_value (l_nodes l)"

definition list_ords :: "PgRedisList \<Rightarrow> int list" where
  "list_ords l = map ln_ord (l_nodes l)"

definition node_bytes_sum :: "PgRedisListNode list \<Rightarrow> nat" where
  "node_bytes_sum ns = (\<Sum>n\<leftarrow>ns. sizeof_PgRedisListNode + length (ln_value n))"

definition list_ok :: "PgRedisList \<Rightarrow> bool" where
  "list_ok l \<longleftrightarrow>
     l_length l = int (length (l_nodes l)) \<and>
     l_memory_usage l = node_bytes_sum (l_nodes l) \<and>
     sorted_wrt (<) (list_ords l) \<and>
     (l_ord_initialized l \<longleftrightarrow> l_nodes l \<noteq> []) \<and>
     (if l_nodes l = [] then l_min_ord l = 0 \<and> l_max_ord l = -1
      else l_min_ord l = hd (list_ords l) \<and> l_max_ord l = last (list_ords l))"

text \<open>The rows the chain stands for: all of them, the ones already durable, the ones to insert.\<close>

definition list_items :: "PgRedisList \<Rightarrow> (int \<times> bytes) list" where
  "list_items l = map (\<lambda>n. (ln_ord n, ln_value n)) (l_nodes l)"

definition list_durable_items :: "PgRedisList \<Rightarrow> (int \<times> bytes) list" where
  "list_durable_items l =
     map (\<lambda>n. (ln_ord n, ln_value n)) (filter (\<lambda>n. \<not> ln_pending_insert n) (l_nodes l))"

definition list_pending_items :: "PgRedisList \<Rightarrow> (int \<times> bytes) list" where
  "list_pending_items l =
     map (\<lambda>n. (ln_ord n, ln_value n)) (filter ln_pending_insert (l_nodes l))"

definition list_delta_ok :: "(int \<Rightarrow> bytes option) \<Rightarrow> PgRedisList \<Rightarrow> bool" where
  "list_delta_ok D l \<longleftrightarrow>
     (\<forall>ord. map_of (list_durable_items l) ord =
        (if ord \<in> set (l_pending_delete_ords l) then None else D ord))"

section \<open>The double-ended queue contract\<close>

locale deque =
  fixes lpush :: "'v \<Rightarrow> 'd \<Rightarrow> int \<times> 'd"
    and rpush :: "'v \<Rightarrow> 'd \<Rightarrow> int \<times> 'd"
    and lpop :: "'d \<Rightarrow> 'v option \<times> 'd"
    and rpop :: "'d \<Rightarrow> 'v option \<times> 'd"
    and elems :: "'d \<Rightarrow> 'v list"
    and ok :: "'d \<Rightarrow> bool"
    and emp :: 'd
  assumes ok_emp: "ok emp"
    and elems_emp: "elems emp = []"
    and ok_lpush: "ok d \<Longrightarrow> ok (snd (lpush v d))"
    and ok_rpush: "ok d \<Longrightarrow> ok (snd (rpush v d))"
    and ok_lpop: "ok d \<Longrightarrow> ok (snd (lpop d))"
    and ok_rpop: "ok d \<Longrightarrow> ok (snd (rpop d))"
    and elems_lpush: "ok d \<Longrightarrow> elems (snd (lpush v d)) = v # elems d"
    and elems_rpush: "ok d \<Longrightarrow> elems (snd (rpush v d)) = elems d @ [v]"
    and len_lpush: "ok d \<Longrightarrow> fst (lpush v d) = int (length (elems d)) + 1"
    and len_rpush: "ok d \<Longrightarrow> fst (rpush v d) = int (length (elems d)) + 1"
    and val_lpop: "ok d \<Longrightarrow> fst (lpop d) = (if elems d = [] then None else Some (hd (elems d)))"
    and val_rpop: "ok d \<Longrightarrow> fst (rpop d) = (if elems d = [] then None else Some (last (elems d)))"
    and elems_lpop: "ok d \<Longrightarrow> elems (snd (lpop d)) = tl (elems d)"
    and elems_rpop: "ok d \<Longrightarrow> elems (snd (rpop d)) = butlast (elems d)"
begin

lemma ok_rpush_all: "ok d \<Longrightarrow> ok (foldl (\<lambda>d v. snd (rpush v d)) d vs)"
  by (induction vs arbitrary: d) (auto intro: ok_rpush)

lemma elems_rpush_all: "ok d \<Longrightarrow> elems (foldl (\<lambda>d v. snd (rpush v d)) d vs) = elems d @ vs"
  by (induction vs arbitrary: d) (simp_all add: elems_rpush ok_rpush)

lemma ok_lpop_n: "ok d \<Longrightarrow> ok (((\<lambda>d. snd (lpop d)) ^^ n) d)"
  by (induction n) (auto intro: ok_lpop)

lemma elems_lpop_n: "ok d \<Longrightarrow> elems (((\<lambda>d. snd (lpop d)) ^^ n) d) = drop n (elems d)"
  by (induction n) (auto simp: elems_lpop ok_lpop_n drop_Suc tl_drop)

text \<open>Elements pushed on the right leave on the left in the order they came.\<close>

lemma fifo:
  assumes "ok d" "n < length vs"
  shows "fst (lpop (((\<lambda>d. snd (lpop d)) ^^ (length (elems d) + n))
            (foldl (\<lambda>d v. snd (rpush v d)) d vs))) = Some (vs ! n)"
  using assms
  by (simp add: val_lpop ok_lpop_n ok_rpush_all elems_lpop_n elems_rpush_all hd_drop_conv_nth)

text \<open>Elements pushed on the left leave on the left in reverse order.\<close>

lemma lifo: "ok d \<Longrightarrow> fst (lpop (snd (lpush v d))) = Some v"
  by (simp add: val_lpop ok_lpush elems_lpush)

end

text \<open>
  The same contract for a provider whose pushes may run out of memory, and that holds only valid
  elements. A total queue is one that never raises.
\<close>

locale partial_deque =
  fixes try_lpush :: "'v \<Rightarrow> 'd \<Rightarrow> (int \<times> 'd) result"
    and try_rpush :: "'v \<Rightarrow> 'd \<Rightarrow> (int \<times> 'd) result"
    and take_left :: "'d \<Rightarrow> 'v option \<times> 'd"
    and take_right :: "'d \<Rightarrow> 'v option \<times> 'd"
    and contents :: "'d \<Rightarrow> 'v list"
    and good :: "'d \<Rightarrow> bool"
    and valid :: "'v \<Rightarrow> bool"
  assumes lpush_good: "good d \<Longrightarrow> valid v \<Longrightarrow> try_lpush v d = Inr (n, d') \<Longrightarrow> good d'"
    and rpush_good: "good d \<Longrightarrow> valid v \<Longrightarrow> try_rpush v d = Inr (n, d') \<Longrightarrow> good d'"
    and lpush_contents: "good d \<Longrightarrow> valid v \<Longrightarrow> try_lpush v d = Inr (n, d') \<Longrightarrow> contents d' = v # contents d"
    and rpush_contents: "good d \<Longrightarrow> valid v \<Longrightarrow> try_rpush v d = Inr (n, d') \<Longrightarrow> contents d' = contents d @ [v]"
    and lpush_answer: "good d \<Longrightarrow> valid v \<Longrightarrow> try_lpush v d = Inr (n, d') \<Longrightarrow> n = int (length (contents d'))"
    and rpush_answer: "good d \<Longrightarrow> valid v \<Longrightarrow> try_rpush v d = Inr (n, d') \<Longrightarrow> n = int (length (contents d'))"
    and left_good: "good d \<Longrightarrow> good (snd (take_left d))"
    and right_good: "good d \<Longrightarrow> good (snd (take_right d))"
    and left_answer: "good d \<Longrightarrow> fst (take_left d) = (if contents d = [] then None else Some (hd (contents d)))"
    and right_answer: "good d \<Longrightarrow> fst (take_right d) = (if contents d = [] then None else Some (last (contents d)))"
    and left_contents: "good d \<Longrightarrow> contents (snd (take_left d)) = tl (contents d)"
    and right_contents: "good d \<Longrightarrow> contents (snd (take_right d)) = butlast (contents d)"
begin

lemma push_pop_left:
  "good d \<Longrightarrow> valid v \<Longrightarrow> try_lpush v d = Inr (n, d') \<Longrightarrow>
   fst (take_left d') = Some v \<and> contents (snd (take_left d')) = contents d"
  by (simp add: left_answer left_contents lpush_good lpush_contents)

lemma push_pop_right:
  "good d \<Longrightarrow> valid v \<Longrightarrow> try_rpush v d = Inr (n, d') \<Longrightarrow>
   fst (take_right d') = Some v \<and> contents (snd (take_right d')) = contents d"
  by (simp add: right_answer right_contents rpush_good rpush_contents)

lemma left_n: "good d \<Longrightarrow> good (((\<lambda>d. snd (take_left d)) ^^ n) d) \<and>
    contents (((\<lambda>d. snd (take_left d)) ^^ n) d) = drop n (contents d)"
  by (induction n) (auto simp: left_contents left_good drop_Suc tl_drop)

lemma rpush_all:
  assumes "good d" "\<forall>v \<in> set vs. valid v"
    and "foldl (\<lambda>r v. case r of Inl err \<Rightarrow> Inl err | Inr d \<Rightarrow> map_sum id snd (try_rpush v d)) (Inr d) vs = Inr d'"
  shows "good d' \<and> contents d' = contents d @ vs"
  using assms
proof (induction vs arbitrary: d)
  case (Cons v vs)
  have stop: "foldl (\<lambda>r v. case r of Inl err \<Rightarrow> Inl err | Inr d \<Rightarrow> map_sum id snd (try_rpush v d)) (Inl err) ws \<noteq> Inr d'" for err ws
    by (induction ws) simp_all
  obtain n d1 where p: "try_rpush v d = Inr (n, d1)"
    using Cons.prems(3) stop by (cases "try_rpush v d") auto
  then show ?case
    using Cons.IH [of d1] Cons.prems rpush_good [OF Cons.prems(1) _ p] rpush_contents [OF Cons.prems(1) _ p] by simp
qed simp

text \<open>What is pushed on the right of an empty queue leaves on the left in the same order.\<close>

lemma fifo_partial:
  assumes "good d" "\<forall>v \<in> set vs. valid v" "contents d = []" "n < length vs"
    and "foldl (\<lambda>r v. case r of Inl err \<Rightarrow> Inl err | Inr d \<Rightarrow> map_sum id snd (try_rpush v d)) (Inr d) vs = Inr d'"
  shows "fst (take_left (((\<lambda>d. snd (take_left d)) ^^ n) d')) = Some (vs ! n)"
  using rpush_all [OF assms(1,2,5)] left_n [of d' n] assms(3,4) by (simp add: left_answer hd_drop_conv_nth)

end

sublocale deque \<subseteq> total: partial_deque "\<lambda>v d. Inr (lpush v d)" "\<lambda>v d. Inr (rpush v d)" lpop rpop elems ok "\<lambda>_. True"
proof unfold_locales
  fix d v n d'
  assume ok: "ok d"
  show "ok d'" "elems d' = v # elems d" "n = int (length (elems d'))" if "Inr (lpush v d) = (Inr (n, d') :: (int \<times> 'd) result)"
    using that ok ok_lpush [OF ok, of v] elems_lpush [OF ok, of v] len_lpush [OF ok, of v] by simp_all
  show "ok d'" "elems d' = elems d @ [v]" "n = int (length (elems d'))" if "Inr (rpush v d) = (Inr (n, d') :: (int \<times> 'd) result)"
    using that ok ok_rpush [OF ok, of v] elems_rpush [OF ok, of v] len_rpush [OF ok, of v] by simp_all
qed (simp_all add: ok_lpop ok_rpop val_lpop val_rpop elems_lpop elems_rpop)

section \<open>The list implements the contract\<close>

lemmas list_op_defs =
  pg_redis_list_lpush_def pg_redis_list_rpush_def pg_redis_list_lpop_def pg_redis_list_rpop_def
  record_pending_delete_def list_new_node_def Let_def

lemma list_ok_create [simp]: "list_ok pg_redis_list_create"
  by (simp add: list_ok_def pg_redis_list_create_def list_ords_def node_bytes_sum_def)

lemma list_vals_create [simp]: "list_vals pg_redis_list_create = []"
  by (simp add: list_vals_def pg_redis_list_create_def)

lemma list_ords_eq_Nil [simp]: "list_ords l = [] \<longleftrightarrow> l_nodes l = []"
  by (simp add: list_ords_def)

lemma sorted_hd_least:
  "sorted_wrt (<) (xs :: int list) \<Longrightarrow> x \<in> set xs \<Longrightarrow> hd xs \<le> x"
  by (cases xs) auto

lemma sorted_last_greatest:
  "sorted_wrt (<) (xs :: int list) \<Longrightarrow> x \<in> set xs \<Longrightarrow> x \<le> last xs"
  by (induction xs) (auto simp: less_imp_le)

lemma sorted_butlast: "sorted_wrt (<) (xs :: int list) \<Longrightarrow> sorted_wrt (<) (butlast xs)"
  by (cases xs rule: rev_cases) (simp_all add: sorted_wrt_append)

lemma list_ok_lpush [simp]:
  assumes "list_ok l"
  shows "list_ok (snd (pg_redis_list_lpush v l))"
proof -
  have "l_min_ord l - 1 < ord" if "l_nodes l \<noteq> []" "ord \<in> set (list_ords l)" for ord
    using sorted_hd_least [of "list_ords l" ord] that assms by (simp add: list_ok_def)
  with assms show ?thesis
    by (auto simp: list_ok_def list_op_defs list_ords_def node_bytes_sum_def)
qed

lemma list_ok_rpush [simp]:
  assumes "list_ok l"
  shows "list_ok (snd (pg_redis_list_rpush v l))"
proof -
  have "ord < l_max_ord l + 1" if "l_nodes l \<noteq> []" "ord \<in> set (list_ords l)" for ord
    using sorted_last_greatest [of "list_ords l" ord] that assms by (simp add: list_ok_def)
  with assms show ?thesis
    by (auto simp: list_ok_def list_op_defs list_ords_def node_bytes_sum_def sorted_wrt_append)
qed

lemma list_ok_lpop [simp]:
  assumes "list_ok l"
  shows "list_ok (snd (pg_redis_list_lpop l))"
proof (cases "l_nodes l")
  case Nil
  with assms show ?thesis by (simp add: pg_redis_list_lpop_def)
next
  case (Cons n rest)
  with assms show ?thesis
    by (cases rest) (auto simp: list_ok_def list_op_defs list_ords_def node_bytes_sum_def)
qed

lemma list_ok_rpop [simp]:
  assumes "list_ok l"
  shows "list_ok (snd (pg_redis_list_rpop l))"
proof (cases "l_nodes l" rule: rev_cases)
  case Nil
  with assms show ?thesis by (simp add: pg_redis_list_rpop_def)
next
  case (snoc rest n)
  then have "last (l_nodes l) = n" "butlast (l_nodes l) = rest" "l_nodes l \<noteq> []" by simp_all
  then show ?thesis
    using assms snoc
    by (cases rest)
      (auto simp: list_ok_def list_op_defs list_ords_def node_bytes_sum_def sorted_wrt_append
        last_map)
qed

lemma list_vals_lpush [simp]: "list_vals (snd (pg_redis_list_lpush v l)) = v # list_vals l"
  by (simp add: list_vals_def list_op_defs)

lemma list_vals_rpush [simp]: "list_vals (snd (pg_redis_list_rpush v l)) = list_vals l @ [v]"
  by (simp add: list_vals_def list_op_defs)

lemma fst_list_push [simp]:
  "list_ok l \<Longrightarrow> fst (pg_redis_list_lpush v l) = int (length (list_vals l)) + 1"
  "list_ok l \<Longrightarrow> fst (pg_redis_list_rpush v l) = int (length (list_vals l)) + 1"
  by (simp_all add: list_ok_def list_vals_def list_op_defs)

lemma list_pop_cases:
  "fst (pg_redis_list_lpop l) = (if list_vals l = [] then None else Some (hd (list_vals l)))"
  "fst (pg_redis_list_rpop l) = (if list_vals l = [] then None else Some (last (list_vals l)))"
  "list_vals (snd (pg_redis_list_lpop l)) = tl (list_vals l)"
  "list_vals (snd (pg_redis_list_rpop l)) = butlast (list_vals l)"
  by (auto simp: list_vals_def list_op_defs last_map simp flip: map_butlast split: list.splits)

interpretation session_list: deque pg_redis_list_lpush pg_redis_list_rpush pg_redis_list_lpop
    pg_redis_list_rpop list_vals list_ok pg_redis_list_create
  by unfold_locales (simp_all add: list_pop_cases)

lemma list_length_vals: "list_ok l \<Longrightarrow> pg_redis_list_length (Some l) = int (length (list_vals l))"
  by (simp add: pg_redis_list_length_def list_ok_def list_vals_def)

section \<open>Pending inserts and deletes\<close>

lemma list_ords_distinct: "list_ok l \<Longrightarrow> distinct (list_ords l)"
  by (simp add: list_ok_def sorted_wrt_less_distinct)

lemma list_delta_create: "list_delta_ok Map.empty pg_redis_list_create"
  by (simp add: list_delta_ok_def list_durable_items_def pg_redis_list_create_def)

lemma list_delta_push [simp]:
  "list_delta_ok D (snd (pg_redis_list_lpush v l)) = list_delta_ok D l"
  "list_delta_ok D (snd (pg_redis_list_rpush v l)) = list_delta_ok D l"
  by (simp_all add: list_delta_ok_def list_durable_items_def list_op_defs)

lemma list_delta_lpop:
  assumes ok: "list_ok l" and d: "list_delta_ok D l"
  shows "list_delta_ok D (snd (pg_redis_list_lpop l))"
proof (cases "l_nodes l")
  case Nil
  with d show ?thesis by (simp add: pg_redis_list_lpop_def)
next
  case (Cons n rest)
  have fresh: "ln_ord n \<notin> ln_ord ` set rest"
    using list_ords_distinct [OF ok] Cons by (simp add: list_ords_def)
  have dur: "list_durable_items (snd (pg_redis_list_lpop l)) =
      map (\<lambda>n. (ln_ord n, ln_value n)) (filter (\<lambda>n. \<not> ln_pending_insert n) rest)"
    using Cons by (simp add: list_durable_items_def list_op_defs split: list.splits)
  have pdel: "l_pending_delete_ords (snd (pg_redis_list_lpop l)) =
      (if ln_pending_insert n then l_pending_delete_ords l
       else ln_ord n # l_pending_delete_ords l)"
    using Cons by (simp add: list_op_defs split: list.splits)
  have none: "map_of (map (\<lambda>n. (ln_ord n, ln_value n)) (filter P rest)) (ln_ord n) = None" for P
    using fresh by (force simp: map_of_eq_None_iff)
  show ?thesis
    using d none Cons unfolding list_delta_ok_def dur pdel
    by (auto simp: list_durable_items_def split: if_splits)
qed

lemma list_delta_rpop:
  assumes ok: "list_ok l" and d: "list_delta_ok D l"
  shows "list_delta_ok D (snd (pg_redis_list_rpop l))"
proof (cases "l_nodes l" rule: rev_cases)
  case Nil
  with d show ?thesis by (simp add: pg_redis_list_rpop_def)
next
  case (snoc rest n)
  have fresh: "ln_ord n \<notin> ln_ord ` set rest"
    using list_ords_distinct [OF ok] snoc by (simp add: list_ords_def)
  have dur: "list_durable_items (snd (pg_redis_list_rpop l)) =
      map (\<lambda>n. (ln_ord n, ln_value n)) (filter (\<lambda>n. \<not> ln_pending_insert n) rest)"
    using snoc by (simp add: list_durable_items_def list_op_defs)
  have pdel: "l_pending_delete_ords (snd (pg_redis_list_rpop l)) =
      (if ln_pending_insert n then l_pending_delete_ords l
       else ln_ord n # l_pending_delete_ords l)"
    using snoc by (simp add: list_op_defs)
  have none: "map_of (map (\<lambda>n. (ln_ord n, ln_value n)) (filter P rest)) (ln_ord n) = None" for P
    using fresh by (force simp: map_of_eq_None_iff)
  have split: "map_of (map (\<lambda>n. (ln_ord n, ln_value n)) (filter (\<lambda>n. \<not> ln_pending_insert n) rest)) ord
      = (if \<not> ln_pending_insert n \<and> ord = ln_ord n then None else map_of (list_durable_items l) ord)"
    for ord
    using none snoc by (auto simp: list_durable_items_def map_add_def split: option.splits)
  show ?thesis
    using d unfolding list_delta_ok_def dur pdel split by auto
qed

lemma map_of_items_split:
  assumes "distinct (map f ns)"
  shows "map_of (map (\<lambda>n. (f n, g n)) ns) k =
    (case map_of (map (\<lambda>n. (f n, g n)) (filter P ns)) k of
       Some v \<Rightarrow> Some v
     | None \<Rightarrow> map_of (map (\<lambda>n. (f n, g n)) (filter (\<lambda>n. \<not> P n) ns)) k)"
  using assms
proof (induction ns)
  case (Cons n ns)
  have "map_of (map (\<lambda>n. (f n, g n)) (filter P ns)) (f n) = None"
    using Cons.prems by (force simp: map_of_eq_None_iff)
  with Cons show ?case by (auto split: option.splits)
qed simp

text \<open>
  Applying the delta: deleting the pending ordinals and inserting the pending rows gives exactly
  the rows of the chain, and no inserted row meets a surviving one.
\<close>

lemma list_delta_apply:
  assumes ok: "list_ok l" and d: "list_delta_ok D l"
  shows "(case map_of (list_pending_items l) ord of
            Some v \<Rightarrow> Some v
          | None \<Rightarrow> if ord \<in> set (l_pending_delete_ords l) then None else D ord) =
         map_of (list_items l) ord"
proof -
  have "map_of (list_items l) ord =
      (case map_of (list_pending_items l) ord of
         Some v \<Rightarrow> Some v | None \<Rightarrow> map_of (list_durable_items l) ord)"
    unfolding list_items_def list_pending_items_def list_durable_items_def
    by (rule map_of_items_split)
      (use list_ords_distinct [OF ok] in \<open>simp add: list_ords_def\<close>)
  with d show ?thesis by (simp add: list_delta_ok_def split: option.splits)
qed

lemma list_delta_disjoint:
  assumes ok: "list_ok l" and d: "list_delta_ok D l"
    and p: "ord \<in> fst ` set (list_pending_items l)" "ord \<notin> set (l_pending_delete_ords l)"
  shows "D ord = None"
proof -
  from p(1) obtain n where n: "n \<in> set (l_nodes l)" "ln_pending_insert n" "ln_ord n = ord"
    by (auto simp: list_pending_items_def)
  have "ord \<notin> fst ` set (list_durable_items l)"
  proof
    assume "ord \<in> fst ` set (list_durable_items l)"
    then obtain m where m: "m \<in> set (l_nodes l)" "\<not> ln_pending_insert m" "ln_ord m = ord"
      by (auto simp: list_durable_items_def)
    then have "m = n"
      using list_ords_distinct [OF ok] n
      by (auto simp: list_ords_def distinct_map dest: inj_onD)
    with m n show False by simp
  qed
  then have "map_of (list_durable_items l) ord = None"
    by (simp add: map_of_eq_None_iff)
  with d p(2) show ?thesis by (simp add: list_delta_ok_def)
qed

lemma distinct_pending_items: "list_ok l \<Longrightarrow> distinct (map fst (list_pending_items l))"
  using list_ords_distinct [of l]
  by (simp add: list_ords_def list_pending_items_def comp_def distinct_map_filter)

section \<open>Properties\<close>

text \<open>
  The list is a queue: elements pushed on the right of a list leave on the left after the elements
  that were there, in the order in which they came.
\<close>

lemma list_fifo:
  assumes "list_ok l" "n < length vs"
  shows "fst (pg_redis_list_lpop (((\<lambda>l. snd (pg_redis_list_lpop l)) ^^ (length (list_vals l) + n))
    (foldl (\<lambda>l v. snd (pg_redis_list_rpush v l)) l vs))) = Some (vs ! n)"
  using assms by (rule session_list.fifo)



end
