(* ===== verification/Hash_Value.thy ===== *)
theory Hash_Value
  imports Types
begin

text \<open>
  \<open>src/hash_value.c\<close>: the per-key hash of fields behind \<open>HSET\<close>, \<open>HGET\<close>,
  \<open>HEXISTS\<close> and \<open>HDEL\<close>. The fields live in a dynahash table; a field written since the
  last flush is dirty, a removed field leaves a tombstone. \<open>hash_delta_ok\<close> states that dirty
  fields and tombstones turn the durable rows into the hash.
\<close>

section \<open>Operations\<close>

definition pg_redis_hash_create :: PgRedisHash where
  "pg_redis_hash_create =
     \<lparr>h_fields = [], h_field_count = 0, h_memory_usage = 0, h_tombstones = []\<rparr>"

definition pg_redis_hash_set :: "PgRedisHash \<Rightarrow> bytes \<Rightarrow> bytes \<Rightarrow> (bool \<times> PgRedisHash) result" where
  "pg_redis_hash_set h field value =
     (if length field > PG_REDIS_MAX_FIELD_SIZE then Inl (FieldTooLong (length field))
      else
        let fnd = hash_find (h_fields h) field;
            h1 = (case fnd of
                    Some f \<Rightarrow> h\<lparr>h_memory_usage := h_memory_usage h - length (hf_value f)\<rparr>
                  | None \<Rightarrow> h\<lparr>h_field_count := h_field_count h + 1,
                              h_memory_usage := h_memory_usage h + sizeof_PgRedisHashField\<rparr>);
            h2 = h1\<lparr>h_fields := hash_enter (h_fields h1) field \<lparr>hf_value = value, hf_dirty = True\<rparr>,
                    h_memory_usage := h_memory_usage h1 + length value\<rparr>
        in Inr (fnd = None, h2))"

definition pg_redis_hash_get :: "PgRedisHash \<Rightarrow> bytes \<Rightarrow> bytes option" where
  "pg_redis_hash_get h field =
     (if length field > PG_REDIS_MAX_FIELD_SIZE then None
      else map_option hf_value (hash_find (h_fields h) field))"

definition pg_redis_hash_exists :: "PgRedisHash \<Rightarrow> bytes \<Rightarrow> bool" where
  "pg_redis_hash_exists h field \<longleftrightarrow> pg_redis_hash_get h field \<noteq> None"

definition pg_redis_hash_del :: "PgRedisHash \<Rightarrow> bytes \<Rightarrow> bool \<times> PgRedisHash" where
  "pg_redis_hash_del h field =
     (if length field > PG_REDIS_MAX_FIELD_SIZE then (False, h)
      else
        case hash_find (h_fields h) field of
          None \<Rightarrow> (False, h)
        | Some f \<Rightarrow>
            let h1 = h\<lparr>h_memory_usage :=
                         (if h_memory_usage h \<ge> length (hf_value f)
                          then h_memory_usage h - length (hf_value f) else h_memory_usage h)\<rparr>;
                h2 = h1\<lparr>h_fields := hash_remove (h_fields h1) field,
                        h_memory_usage :=
                          (if h_memory_usage h1 \<ge> sizeof_PgRedisHashField
                           then h_memory_usage h1 - sizeof_PgRedisHashField else h_memory_usage h1),
                        h_field_count :=
                          (if h_field_count h1 > 0 then h_field_count h1 - 1 else h_field_count h1)\<rparr>;
                h3 = h2\<lparr>h_tombstones := field # h_tombstones h2\<rparr>
            in (True, h3))"

definition pg_redis_hash_field_count :: "PgRedisHash option \<Rightarrow> int" where
  "pg_redis_hash_field_count h0 = (case h0 of None \<Rightarrow> 0 | Some h \<Rightarrow> h_field_count h)"

definition pg_redis_hash_memory :: "PgRedisHash option \<Rightarrow> nat" where
  "pg_redis_hash_memory h0 = (case h0 of None \<Rightarrow> 0 | Some h \<Rightarrow> h_memory_usage h)"

section \<open>What a hash stands for\<close>

definition hash_map :: "PgRedisHash \<Rightarrow> bytes \<Rightarrow> bytes option" where
  "hash_map h field = map_option hf_value (hash_find (h_fields h) field)"

definition field_bytes_sum :: "(bytes, PgRedisHashField) htab \<Rightarrow> nat" where
  "field_bytes_sum t = (\<Sum>(k, f)\<leftarrow>t. sizeof_PgRedisHashField + length (hf_value f))"

definition hash_ok :: "PgRedisHash \<Rightarrow> bool" where
  "hash_ok h \<longleftrightarrow>
     htab_ok (h_fields h) \<and>
     h_field_count h = int (hash_num_entries (h_fields h)) \<and>
     h_memory_usage h = field_bytes_sum (h_fields h) \<and>
     list_all (\<lambda>(k, f). length k \<le> PG_REDIS_MAX_FIELD_SIZE) (h_fields h)"

definition field_delta_ok :: "bytes option \<Rightarrow> PgRedisHashField option \<Rightarrow> bool \<Rightarrow> bool" where
  "field_delta_ok d fnd tomb \<longleftrightarrow>
     (case fnd of
        Some f \<Rightarrow> hf_dirty f \<or> (d = Some (hf_value f) \<and> \<not> tomb)
      | None \<Rightarrow> d = None \<or> tomb)"

definition hash_delta_ok :: "(bytes \<Rightarrow> bytes option) \<Rightarrow> PgRedisHash \<Rightarrow> bool" where
  "hash_delta_ok D h \<longleftrightarrow>
     (\<forall>field. field_delta_ok (D field) (hash_find (h_fields h) field)
        (field \<in> set (h_tombstones h)))"

text \<open>The rows the next flush upserts: the dirty fields in scan order.\<close>

definition hash_dirty_items :: "PgRedisHash \<Rightarrow> (bytes \<times> bytes) list" where
  "hash_dirty_items h =
     map (\<lambda>(k, f). (k, hf_value f)) (filter (\<lambda>(k, f). hf_dirty f) (hash_seq (h_fields h)))"

section \<open>The field-map contract\<close>

text \<open>
  What a client of a hash value relies on; the shared-memory table satisfies the same laws.
\<close>

locale field_map =
  fixes fset :: "'h \<Rightarrow> bytes \<Rightarrow> bytes \<Rightarrow> (bool \<times> 'h) result"
    and fget :: "'h \<Rightarrow> bytes \<Rightarrow> bytes option"
    and fdel :: "'h \<Rightarrow> bytes \<Rightarrow> bool \<times> 'h"
    and fmap :: "'h \<Rightarrow> bytes \<Rightarrow> bytes option"
    and ok :: "'h \<Rightarrow> bool"
  assumes set_ok: "ok h \<Longrightarrow> fset h f v = Inr (new, h') \<Longrightarrow> ok h'"
    and set_map: "ok h \<Longrightarrow> fset h f v = Inr (new, h') \<Longrightarrow> fmap h' = (fmap h)(f \<mapsto> v)"
    and set_new: "ok h \<Longrightarrow> fset h f v = Inr (new, h') \<Longrightarrow> new \<longleftrightarrow> fmap h f = None"
    and get_map: "ok h \<Longrightarrow> fget h f = fmap h f"
    and del_ok: "ok h \<Longrightarrow> ok (snd (fdel h f))"
    and del_map: "ok h \<Longrightarrow> fmap (snd (fdel h f)) = (fmap h)(f := None)"
    and del_hit: "ok h \<Longrightarrow> fst (fdel h f) \<longleftrightarrow> fmap h f \<noteq> None"
begin

lemma get_set: "ok h \<Longrightarrow> fset h f v = Inr (new, h') \<Longrightarrow> fget h' f' = (if f' = f then Some v else fget h f')"
  by (simp add: get_map set_ok set_map)

lemma get_del: "ok h \<Longrightarrow> fget (snd (fdel h f)) f' = (if f' = f then None else fget h f')"
  by (simp add: get_map del_ok del_map)

lemma set_del: "ok h \<Longrightarrow> fset h f v = Inr (new, h') \<Longrightarrow> fst (fdel h' f)"
  by (simp add: del_hit set_ok set_map)

lemma del_del: "ok h \<Longrightarrow> \<not> fst (fdel (snd (fdel h f)) f)"
  by (simp add: del_hit del_ok del_map)

end

text \<open>A provider that never runs out of memory accepts every valid field.\<close>

locale total_field_map = field_map +
  fixes valid :: "bytes \<Rightarrow> bytes \<Rightarrow> bool"
  assumes set_total: "ok h \<Longrightarrow> valid f v \<Longrightarrow> \<exists>new h'. fset h f v = Inr (new, h')"
begin

lemma set_get: "ok h \<Longrightarrow> valid f v \<Longrightarrow> \<exists>new h'. fset h f v = Inr (new, h') \<and> ok h' \<and> fget h' f = Some v"
  using set_total [of h f v] set_ok [of h f v] get_set [of h f v] by fastforce

end

section \<open>The hash implements the contract\<close>

lemma hash_ok_create [simp]: "hash_ok pg_redis_hash_create"
  by (simp add: hash_ok_def pg_redis_hash_create_def field_bytes_sum_def hash_num_entries_def)

lemma hash_map_create [simp]: "hash_map pg_redis_hash_create f = None"
  by (simp add: hash_map_def pg_redis_hash_create_def)

lemma field_bytes_sum_ge:
  "hash_find t k = Some f \<Longrightarrow> sizeof_PgRedisHashField + length (hf_value f) \<le> field_bytes_sum t"
  by (induction t) (auto simp: hash_find_def field_bytes_sum_def split: if_splits)

lemma field_bytes_sum_enter:
  "htab_ok t \<Longrightarrow> field_bytes_sum (hash_enter t k f') =
    (case hash_find t k of
       None \<Rightarrow> field_bytes_sum t + sizeof_PgRedisHashField + length (hf_value f')
     | Some f \<Rightarrow> field_bytes_sum t - length (hf_value f) + length (hf_value f'))"
proof (induction t)
  case Nil
  then show ?case by (simp add: hash_find_def hash_enter_def field_bytes_sum_def)
next
  case (Cons p t)
  have ge: "map_of t k = Some f \<Longrightarrow>
      sizeof_PgRedisHashField + length (hf_value f) \<le> field_bytes_sum t" for f
    using field_bytes_sum_ge [of t k] by (simp add: hash_find_def)
  obtain a f where p: "p = (a, f)" by (cases p)
  show ?case
  proof (cases "a = k")
    case True
    with p show ?thesis by (simp add: hash_find_def hash_enter_def field_bytes_sum_def)
  next
    case False
    with Cons ge p show ?thesis
      by (cases "map_of t k")
        (auto simp: hash_find_def hash_enter_def field_bytes_sum_def htab_ok_def)
  qed
qed

lemma field_bytes_sum_remove:
  assumes "htab_ok t" "hash_find t k = Some f"
  shows "field_bytes_sum (hash_remove t k) =
    field_bytes_sum t - (sizeof_PgRedisHashField + length (hf_value f))"
  using assms
proof (induction t)
  case (Cons p t)
  have id: "k \<notin> fst ` set t \<Longrightarrow> AList.delete k t = t"
    by (simp add: AList.delete_eq filter_id_conv) force
  from Cons show ?case
    using field_bytes_sum_ge [of t k f]
    by (cases p)
      (auto simp: hash_find_def hash_remove_def field_bytes_sum_def htab_ok_def id
        split: if_splits)
qed (simp add: hash_find_def)

lemma list_all_hash_enter:
  "list_all P t \<Longrightarrow> P (k, e) \<Longrightarrow> list_all P (hash_enter t k e)"
  by (induction t) (auto simp: hash_enter_def)

lemma list_all_hash_remove: "list_all P t \<Longrightarrow> list_all P (hash_remove t k)"
  by (simp add: hash_remove_def AList.delete_eq list_all_iff)

lemma hash_set_cases:
  "pg_redis_hash_set h field value = Inr (new, h') \<Longrightarrow>
     length field \<le> PG_REDIS_MAX_FIELD_SIZE \<and> new = (hash_find (h_fields h) field = None) \<and>
     h_fields h' = hash_enter (h_fields h) field \<lparr>hf_value = value, hf_dirty = True\<rparr> \<and>
     h_tombstones h' = h_tombstones h"
  by (auto simp: pg_redis_hash_set_def Let_def split: if_splits option.splits)

lemma hash_set_Inr:
  "length field \<le> PG_REDIS_MAX_FIELD_SIZE \<Longrightarrow> \<exists>new h'. pg_redis_hash_set h field value = Inr (new, h')"
  by (simp add: pg_redis_hash_set_def Let_def)

lemma hash_ok_set:
  assumes ok: "hash_ok h" and s: "pg_redis_hash_set h field value = Inr (new, h')"
  shows "hash_ok h'"
proof -
  note c = hash_set_cases [OF s]
  have n: "hash_num_entries (h_fields h') =
      (if hash_find (h_fields h) field = None then Suc (hash_num_entries (h_fields h))
       else hash_num_entries (h_fields h))"
    using ok c by (simp add: hash_ok_def htab.num_enter)
  have "h_field_count h' = (if hash_find (h_fields h) field = None then h_field_count h + 1
       else h_field_count h)"
    and "h_memory_usage h' = field_bytes_sum (h_fields h')"
    using s ok c
    by (auto simp: pg_redis_hash_set_def Let_def hash_ok_def field_bytes_sum_enter
        split: if_splits option.splits)
  with n ok c show ?thesis
    by (auto simp: hash_ok_def intro: list_all_hash_enter)
qed

lemma hash_ok_field_len:
  "hash_ok h \<Longrightarrow> hash_find (h_fields h) field = Some f \<Longrightarrow>
   length field \<le> PG_REDIS_MAX_FIELD_SIZE"
  by (auto simp: hash_ok_def list_all_iff hash_find_def dest: map_of_SomeD)

lemma hash_del_cases:
  assumes "hash_ok h"
  shows "pg_redis_hash_del h field =
    (case hash_find (h_fields h) field of
       None \<Rightarrow> (False, h)
     | Some f \<Rightarrow> (True, \<lparr>h_fields = hash_remove (h_fields h) field,
                        h_field_count = h_field_count h - 1,
                        h_memory_usage = field_bytes_sum (hash_remove (h_fields h) field),
                        h_tombstones = field # h_tombstones h\<rparr>))"
proof (cases "hash_find (h_fields h) field")
  case None
  then show ?thesis by (simp add: pg_redis_hash_del_def)
next
  case (Some f)
  have "length field \<le> PG_REDIS_MAX_FIELD_SIZE"
    using assms Some by (rule hash_ok_field_len)
  moreover have "0 < h_field_count h"
    using htab.num_remove [of "h_fields h" field f] Some assms by (simp add: hash_ok_def)
  ultimately show ?thesis
    using Some assms field_bytes_sum_ge [OF Some]
    by (auto simp: pg_redis_hash_del_def Let_def hash_ok_def field_bytes_sum_remove)
qed

lemma hash_ok_del:
  assumes "hash_ok h"
  shows "hash_ok (snd (pg_redis_hash_del h field))"
  using assms htab.num_remove [of "h_fields h" field]
  by (auto simp: hash_del_cases hash_ok_def intro: list_all_hash_remove split: option.splits)

lemma hash_map_set:
  "pg_redis_hash_set h field value = Inr (new, h') \<Longrightarrow> hash_map h' = (hash_map h)(field \<mapsto> value)"
  by (rule ext) (auto simp: hash_map_def dest!: hash_set_cases)

lemma hash_map_del:
  "hash_ok h \<Longrightarrow> hash_map (snd (pg_redis_hash_del h field)) = (hash_map h)(field := None)"
  by (rule ext) (auto simp: hash_map_def hash_del_cases split: option.splits)

lemma hash_get_map: "hash_ok h \<Longrightarrow> pg_redis_hash_get h field = hash_map h field"
  by (cases "hash_find (h_fields h) field")
    (auto simp: pg_redis_hash_get_def hash_map_def dest: hash_ok_field_len)

interpretation session_hash: total_field_map pg_redis_hash_set pg_redis_hash_get pg_redis_hash_del
    hash_map hash_ok "\<lambda>f v. length f \<le> PG_REDIS_MAX_FIELD_SIZE"
proof unfold_locales
  fix h f v
  assume "hash_ok h" "length (f :: bytes) \<le> PG_REDIS_MAX_FIELD_SIZE"
  then show "\<exists>new h'. pg_redis_hash_set h f v = Inr (new, h')" by (simp add: hash_set_Inr)
next
  fix h f v new h'
  assume "hash_ok h" "pg_redis_hash_set h f v = Inr (new, h')"
  then show "hash_ok h'" "hash_map h' = (hash_map h)(f \<mapsto> v)" "new \<longleftrightarrow> hash_map h f = None"
    by (auto simp: hash_ok_set hash_map_set hash_map_def dest: hash_set_cases)
next
  fix h f
  assume "hash_ok h"
  then show "hash_ok (snd (pg_redis_hash_del h f))" by (rule hash_ok_del)
  from \<open>hash_ok h\<close> show "pg_redis_hash_get h f = hash_map h f"
    "hash_map (snd (pg_redis_hash_del h f)) = (hash_map h)(f := None)"
    "fst (pg_redis_hash_del h f) \<longleftrightarrow> hash_map h f \<noteq> None"
    by (auto simp: hash_get_map hash_map_del hash_del_cases hash_map_def
        split: option.splits)
qed

section \<open>Dirty fields and tombstones\<close>

lemma field_delta_gone [simp]: "field_delta_ok d None True"
  by (simp add: field_delta_ok_def)

lemma hash_delta_create: "hash_delta_ok Map.empty pg_redis_hash_create"
  by (simp add: hash_delta_ok_def field_delta_ok_def pg_redis_hash_create_def)

lemma hash_delta_set:
  "hash_delta_ok D h \<Longrightarrow> pg_redis_hash_set h field value = Inr (new, h') \<Longrightarrow> hash_delta_ok D h'"
  unfolding hash_delta_ok_def by (drule hash_set_cases) (simp add: field_delta_ok_def)

lemma hash_delta_del:
  "hash_ok h \<Longrightarrow> hash_delta_ok D h \<Longrightarrow> hash_delta_ok D (snd (pg_redis_hash_del h field))"
  unfolding hash_delta_ok_def
  by (cases "hash_find (h_fields h) field") (auto simp: hash_del_cases)

lemma map_of_dirty_items:
  assumes "hash_ok h"
  shows "map_of (hash_dirty_items h) field =
    (case hash_find (h_fields h) field of
       Some f \<Rightarrow> if hf_dirty f then Some (hf_value f) else None
     | None \<Rightarrow> None)"
proof -
  have "distinct (map fst (h_fields h))"
    using assms by (simp add: hash_ok_def htab_ok_def)
  then show ?thesis
    using map_of_filter_Some [of "h_fields h" "\<lambda>(k, f). hf_dirty f" field]
    by (auto simp: hash_dirty_items_def hash_seq_def map_of_map_snd hash_find_def
        split: option.splits)
qed

lemma distinct_dirty_items: "hash_ok h \<Longrightarrow> distinct (map fst (hash_dirty_items h))"
  by (auto simp: hash_dirty_items_def hash_ok_def htab_ok_def hash_seq_def comp_def
      case_prod_beta distinct_map_filter)

text \<open>Applying the delta: deleting the tombstones, then upserting the dirty fields.\<close>

lemma hash_delta_apply:
  assumes "hash_ok h" "hash_delta_ok D h"
  shows "(case map_of (hash_dirty_items h) field of
            Some v \<Rightarrow> Some v
          | None \<Rightarrow> if field \<in> set (h_tombstones h) then None else D field) =
         hash_map h field"
proof -
  have "field_delta_ok (D field) (hash_find (h_fields h) field) (field \<in> set (h_tombstones h))"
    using assms(2) by (simp add: hash_delta_ok_def)
  then show ?thesis
    by (auto simp: map_of_dirty_items [OF assms(1)] hash_map_def field_delta_ok_def split: option.splits)
qed

section \<open>Properties\<close>

text \<open>
  A hash value is a map from fields to values: after \<open>HSET\<close> the field reads back, after \<open>HDEL\<close> it is
  gone, every other field is as before either way, and the replies tell whether the field was new or was
  there, so that a second \<open>HDEL\<close> reports nothing; the counters stay exact.
\<close>

lemma hash_is_map:
  assumes "hash_ok h" "pg_redis_hash_set h f v = Inr (new, h')"
  shows "hash_ok h' \<and> pg_redis_hash_get h' f' = (if f' = f then Some v else pg_redis_hash_get h f') \<and>
    (new \<longleftrightarrow> pg_redis_hash_get h f = None) \<and>
    hash_ok (snd (pg_redis_hash_del h f)) \<and>
    pg_redis_hash_get (snd (pg_redis_hash_del h f)) f' = (if f' = f then None else pg_redis_hash_get h f') \<and>
    (fst (pg_redis_hash_del h f) \<longleftrightarrow> pg_redis_hash_get h f \<noteq> None) \<and>
    \<not> fst (pg_redis_hash_del (snd (pg_redis_hash_del h f)) f)"
  using assms session_hash.get_set [OF assms] session_hash.set_new [OF assms]
    session_hash.get_del [OF assms(1)] session_hash.del_hit [OF assms(1)] session_hash.del_del [OF assms(1)]
  by (simp add: hash_ok_set hash_ok_del hash_get_map)



end
