(* ===== verification/KV_Store.thy ===== *)
theory KV_Store
  imports List_Value Hash_Value
begin

text \<open>
  \<open>src/kv_store.c\<close> with session storage: the per-backend keyspace, its dirty chain and the
  keys deleted since the last flush. An entry is named by its key; the dirty chain is the list
  of the keys of its entries from \<open>dirty_head\<close> on. Every clock reading of the code is an
  argument \<open>now\<close>. \<open>store_ok\<close> is the invariant of the component; the lemmas say what each
  operation does to the keyspace and that it keeps the invariant.
\<close>

section \<open>State\<close>

record backend =
  store :: "(bytes, PgRedisEntry) htab"
  dirty_head :: "bytes list"
  pending_deletes_head :: "bytes list"
  persistence_loaded :: bool
  persistence_initialized :: bool
  async_published_in_xact :: int

definition backend_start :: backend where
  "backend_start =
     \<lparr>store = [], dirty_head = [], pending_deletes_head = [], persistence_loaded = False,
      persistence_initialized = False, async_published_in_xact = 0\<rparr>"

definition pg_redis_store_reset :: "backend \<Rightarrow> backend" where
  "pg_redis_store_reset b = b\<lparr>store := [], dirty_head := [], pending_deletes_head := []\<rparr>"

text \<open>A write through the entry pointer that a lookup or upsert returned.\<close>

definition entry_put :: "bytes \<Rightarrow> PgRedisEntry \<Rightarrow> backend \<Rightarrow> backend" where
  "entry_put key e b = b\<lparr>store := hash_enter (store b) key e\<rparr>"

section \<open>Entries\<close>

definition pg_redis_entry_is_expired :: "int \<Rightarrow> PgRedisEntry \<Rightarrow> bool" where
  "pg_redis_entry_is_expired now e = (if \<not> e_has_expire e then False else now \<ge> e_expire_at e)"

text \<open>
  Releasing a value frees the payload and leaves the \<open>NULL\<close> string in the union, whatever
  the type was.
\<close>

definition pg_redis_entry_release_value :: "bool \<Rightarrow> PgRedisEntry \<Rightarrow> PgRedisEntry" where
  "pg_redis_entry_release_value also_reset_meta e =
     (let e1 = e\<lparr>e_value := StringValue None, e_memory_usage := 0\<rparr>
      in if also_reset_meta
         then e1\<lparr>e_expire_at := 0, e_has_expire := False, e_dirty := False, e_deleted := False,
                 e_version := 0\<rparr>
         else e1)"

definition fresh_entry :: PgRedisEntry where
  "fresh_entry =
     \<lparr>e_value = StringValue None, e_expire_at = 0, e_has_expire = False, e_dirty = False,
      e_deleted = False, e_in_dirty_set = False, e_version = 1, e_memory_usage = 0\<rparr>"

section \<open>Dirty chain and pending deletes\<close>

definition pg_redis_mark_dirty :: "bytes \<Rightarrow> backend \<Rightarrow> backend" where
  "pg_redis_mark_dirty key b =
     (case hash_find (store b) key of
        None \<Rightarrow> b
      | Some e \<Rightarrow>
          if e_in_dirty_set e then b
          else (entry_put key (e\<lparr>e_in_dirty_set := True, e_dirty := True\<rparr>) b)
                 \<lparr>dirty_head := key # dirty_head b\<rparr>)"

definition pg_redis_mark_deleted :: "bytes \<Rightarrow> backend \<Rightarrow> backend" where
  "pg_redis_mark_deleted key b =
     (if key = [] then b else b\<lparr>pending_deletes_head := key # pending_deletes_head b\<rparr>)"

definition pg_redis_dirty_head_take :: "backend \<Rightarrow> bytes list \<times> backend" where
  "pg_redis_dirty_head_take b = (dirty_head b, b\<lparr>dirty_head := []\<rparr>)"

definition pg_redis_dirty_clear :: "backend \<Rightarrow> backend" where
  "pg_redis_dirty_clear b =
     b\<lparr>store := hash_map_entries
                 (\<lambda>k e. if k \<in> set (dirty_head b) then e\<lparr>e_in_dirty_set := False\<rparr> else e) (store b),
       dirty_head := []\<rparr>"

definition pg_redis_pending_deletes_take :: "backend \<Rightarrow> bytes list \<times> backend" where
  "pg_redis_pending_deletes_take b = (pending_deletes_head b, b\<lparr>pending_deletes_head := []\<rparr>)"

definition pg_redis_pending_deletes_clear :: "backend \<Rightarrow> backend" where
  "pg_redis_pending_deletes_clear b = b\<lparr>pending_deletes_head := []\<rparr>"

section \<open>Keyspace operations\<close>

definition pg_redis_store_lookup_raw :: "bytes \<Rightarrow> backend \<Rightarrow> PgRedisEntry option" where
  "pg_redis_store_lookup_raw key b = hash_find (store b) key"

definition pg_redis_store_remove :: "bytes \<Rightarrow> backend \<Rightarrow> bool \<times> backend" where
  "pg_redis_store_remove key b =
     (case hash_find (store b) key of
        None \<Rightarrow> (False, b)
      | Some e \<Rightarrow>
          let b1 = (if e_in_dirty_set e
                    then (entry_put key (e\<lparr>e_in_dirty_set := False\<rparr>) b)
                           \<lparr>dirty_head := remove1 key (dirty_head b)\<rparr>
                    else b);
              b2 = pg_redis_mark_deleted key b1
          in (True, b2\<lparr>store := hash_remove (store b2) key\<rparr>))"

definition pg_redis_store_lookup :: "int \<Rightarrow> bytes \<Rightarrow> backend \<Rightarrow> PgRedisEntry option \<times> backend" where
  "pg_redis_store_lookup now key b =
     (case pg_redis_store_lookup_raw key b of
        None \<Rightarrow> (None, b)
      | Some e \<Rightarrow>
          if pg_redis_entry_is_expired now e then (None, snd (pg_redis_store_remove key b))
          else (Some e, b))"

definition pg_redis_store_upsert ::
    "int \<Rightarrow> bytes \<Rightarrow> backend \<Rightarrow> bool \<times> PgRedisEntry \<times> backend" where
  "pg_redis_store_upsert now key b =
     (case hash_find (store b) key of
        None \<Rightarrow> (True, fresh_entry, entry_put key fresh_entry b)
      | Some e \<Rightarrow>
          if pg_redis_entry_is_expired now e
          then let e1 = (pg_redis_entry_release_value True e)\<lparr>e_version := 1\<rparr>
               in (True, e1, entry_put key e1 b)
          else (False, e, b))"

definition pg_redis_store_count :: "backend \<Rightarrow> int" where
  "pg_redis_store_count b = int (hash_num_entries (store b))"

fun value_memory :: "PgRedisValue \<Rightarrow> nat" where
  "value_memory (StringValue s) = string_len (StringValue s)"
| "value_memory (IntValue i) = 0"
| "value_memory (HashValue h) = pg_redis_hash_memory h"
| "value_memory (ListValue l) = pg_redis_list_memory l"

definition pg_redis_store_memory_usage :: "backend \<Rightarrow> nat" where
  "pg_redis_store_memory_usage b =
     foldl (\<lambda>total (k, e). total + sizeof_PgRedisEntry + value_memory (e_value e)) 0
       (hash_seq (store b))"

fun pg_redis_type_name :: "PgRedisValueType \<Rightarrow> string" where
  "pg_redis_type_name PG_REDIS_TYPE_STRING = ''string''"
| "pg_redis_type_name PG_REDIS_TYPE_INT = ''int''"
| "pg_redis_type_name PG_REDIS_TYPE_HASH = ''hash''"
| "pg_redis_type_name PG_REDIS_TYPE_LIST = ''list''"

definition pg_redis_type_from_name :: "string option \<Rightarrow> PgRedisValueType option" where
  "pg_redis_type_from_name name =
     (case name of
        None \<Rightarrow> None
      | Some n \<Rightarrow>
          if n = ''string'' then Some PG_REDIS_TYPE_STRING
          else if n = ''int'' then Some PG_REDIS_TYPE_INT
          else if n = ''hash'' then Some PG_REDIS_TYPE_HASH
          else if n = ''list'' then Some PG_REDIS_TYPE_LIST
          else None)"

section \<open>Statistics\<close>

record PgRedisStoreStats =
  key_count :: int
  string_count :: int
  int_count :: int
  hash_count :: int
  list_count :: int
  expiring_count :: int
  stats_memory_usage :: int

definition stats_zero :: PgRedisStoreStats where
  "stats_zero = \<lparr>key_count = 0, string_count = 0, int_count = 0, hash_count = 0, list_count = 0,
     expiring_count = 0, stats_memory_usage = 0\<rparr>"

definition stats_add :: "PgRedisStoreStats \<Rightarrow> PgRedisEntry \<Rightarrow> PgRedisStoreStats" where
  "stats_add st e =
     (let st1 = st\<lparr>key_count := key_count st + 1,
                   expiring_count := (if e_has_expire e then expiring_count st + 1
                                      else expiring_count st)\<rparr>;
          m = stats_memory_usage st1 + int (sizeof_PgRedisEntry + value_memory (e_value e))
      in case e_type e of
           PG_REDIS_TYPE_STRING \<Rightarrow> st1\<lparr>string_count := string_count st1 + 1, stats_memory_usage := m\<rparr>
         | PG_REDIS_TYPE_INT \<Rightarrow> st1\<lparr>int_count := int_count st1 + 1, stats_memory_usage := m\<rparr>
         | PG_REDIS_TYPE_HASH \<Rightarrow> st1\<lparr>hash_count := hash_count st1 + 1, stats_memory_usage := m\<rparr>
         | PG_REDIS_TYPE_LIST \<Rightarrow> st1\<lparr>list_count := list_count st1 + 1, stats_memory_usage := m\<rparr>)"

definition pg_redis_store_collect_stats :: "backend \<Rightarrow> PgRedisStoreStats" where
  "pg_redis_store_collect_stats b = foldl (\<lambda>st (k, e). stats_add st e) stats_zero (hash_seq (store b))"

section \<open>Invariant\<close>

fun value_ok :: "PgRedisValue \<Rightarrow> bool" where
  "value_ok (StringValue (Some s)) \<longleftrightarrow> length s < 2 ^ 32"
| "value_ok (IntValue i) \<longleftrightarrow> int64_range i"
| "value_ok (HashValue (Some h)) \<longleftrightarrow> hash_ok h"
| "value_ok (ListValue (Some l)) \<longleftrightarrow> list_ok l"
| "value_ok _ \<longleftrightarrow> False"

definition key_ok :: "bytes \<Rightarrow> bool" where
  "key_ok k \<longleftrightarrow> k \<noteq> [] \<and> length k \<le> PG_REDIS_MAX_KEY_SIZE"

definition entry_ok :: "bytes \<Rightarrow> PgRedisEntry \<Rightarrow> bool" where
  "entry_ok k e \<longleftrightarrow> key_ok k \<and> value_ok (e_value e)"

definition chained :: "backend \<Rightarrow> bytes \<Rightarrow> bool" where
  "chained b k \<longleftrightarrow> (case hash_find (store b) k of Some e \<Rightarrow> e_in_dirty_set e | None \<Rightarrow> False)"

text \<open>
  \<open>store_ok\<close>: keys are unique and within the limit, payloads are well formed, and every entry
  on the dirty chain exists, is flagged and is there once. \<open>tracked\<close>: conversely, every
  flagged entry is on the chain.
\<close>

definition store_ok :: "backend \<Rightarrow> bool" where
  "store_ok b \<longleftrightarrow>
     htab_ok (store b) \<and> list_all (\<lambda>(k, e). entry_ok k e) (store b) \<and>
     distinct (dirty_head b) \<and> list_all (chained b) (dirty_head b)"

definition tracked :: "backend \<Rightarrow> bool" where
  "tracked b \<longleftrightarrow> list_all (\<lambda>(k, e). e_in_dirty_set e \<longrightarrow> k \<in> set (dirty_head b)) (store b)"

section \<open>What the operations do\<close>

lemma list_all_store_iff:
  assumes "htab_ok t"
  shows "list_all (\<lambda>(k, e). P k e) t \<longleftrightarrow> (\<forall>k e. hash_find t k = Some e \<longrightarrow> P k e)"
proof -
  have "(k, e) \<in> set t \<longleftrightarrow> hash_find t k = Some e" for k e
    using hash_seq_find [OF assms] by (simp add: hash_seq_def)
  then have "(\<forall>p \<in> set t. case p of (k, e) \<Rightarrow> P k e) \<longleftrightarrow> (\<forall>k e. hash_find t k = Some e \<longrightarrow> P k e)"
    by (metis (mono_tags, lifting) case_prod_conv old.prod.exhaust)
  then show ?thesis by (simp add: list_all_iff)
qed

lemma chained_iff: "chained b k \<longleftrightarrow> (\<exists>e. hash_find (store b) k = Some e \<and> e_in_dirty_set e)"
  by (auto simp: chained_def split: option.splits)

lemma store_ok_iff:
  "store_ok b \<longleftrightarrow>
     htab_ok (store b) \<and> (\<forall>k e. hash_find (store b) k = Some e \<longrightarrow> entry_ok k e) \<and>
     distinct (dirty_head b) \<and>
     (\<forall>k \<in> set (dirty_head b). \<exists>e. hash_find (store b) k = Some e \<and> e_in_dirty_set e)"
  unfolding store_ok_def list_all_iff [of "chained b"] chained_iff
  by (auto simp: list_all_store_iff)

lemma tracked_iff:
  "htab_ok (store b) \<Longrightarrow>
   tracked b \<longleftrightarrow> (\<forall>k e. hash_find (store b) k = Some e \<longrightarrow> e_in_dirty_set e \<longrightarrow> k \<in> set (dirty_head b))"
  by (simp add: tracked_def list_all_store_iff)

lemma store_ok_htab [simp]: "store_ok b \<Longrightarrow> htab_ok (store b)"
  by (simp add: store_ok_def)

lemma store_ok_entry: "store_ok b \<Longrightarrow> hash_find (store b) k = Some e \<Longrightarrow> entry_ok k e"
  by (simp add: store_ok_iff)

lemma store_ok_value: "store_ok b \<Longrightarrow> hash_find (store b) k = Some e \<Longrightarrow> value_ok (e_value e)"
  using store_ok_entry [of b k e] by (simp add: entry_ok_def)

lemma store_ok_chain: "store_ok b \<Longrightarrow> k \<in> set (dirty_head b) \<Longrightarrow>
   \<exists>e. hash_find (store b) k = Some e \<and> e_in_dirty_set e"
  by (simp add: store_ok_iff)

lemma store_ok_start [simp]: "store_ok backend_start" "tracked backend_start"
  by (simp_all add: store_ok_def tracked_def backend_start_def)

lemma store_ok_reset [simp]: "store_ok (pg_redis_store_reset b)" "tracked (pg_redis_store_reset b)"
  by (simp_all add: store_ok_def tracked_def pg_redis_store_reset_def)

lemma put_fields [simp]:
  "hash_find (store (entry_put key e b)) k = (if k = key then Some e else hash_find (store b) k)"
  "dirty_head (entry_put key e b) = dirty_head b"
  "pending_deletes_head (entry_put key e b) = pending_deletes_head b"
  "persistence_loaded (entry_put key e b) = persistence_loaded b"
  by (simp_all add: entry_put_def)

lemma hash_enter_enter [simp]: "hash_enter (hash_enter t k e) k e' = hash_enter t k e'"
  by (induction t) (auto simp: hash_enter_def)

lemma put_put [simp]: "entry_put key e' (entry_put key e b) = entry_put key e' b"
  by (simp add: entry_put_def)

lemma put_same [simp]: "hash_find (store b) key = Some e \<Longrightarrow> entry_put key e b = b"
  by (simp add: entry_put_def)

text \<open>
  A write to one entry followed by \<open>mark_dirty\<close> is the shape of every write command: the
  entry is stored with both flags set and the key is on the chain.
\<close>

definition commit_put :: "bytes \<Rightarrow> PgRedisEntry \<Rightarrow> backend \<Rightarrow> backend" where
  "commit_put key e b = pg_redis_mark_dirty key (entry_put key e b)"

lemma commit_put_store:
  "store (commit_put key e b) =
     hash_enter (store b) key
       (if e_in_dirty_set e then e else e\<lparr>e_in_dirty_set := True, e_dirty := True\<rparr>)"
  "dirty_head (commit_put key e b) = (if e_in_dirty_set e then dirty_head b else key # dirty_head b)"
  "pending_deletes_head (commit_put key e b) = pending_deletes_head b"
  "persistence_loaded (commit_put key e b) = persistence_loaded b"
  "persistence_initialized (commit_put key e b) = persistence_initialized b"
  "async_published_in_xact (commit_put key e b) = async_published_in_xact b"
  by (simp_all add: commit_put_def pg_redis_mark_dirty_def entry_put_def)

definition flag_of :: "backend \<Rightarrow> bytes \<Rightarrow> bool" where
  "flag_of b key = (case hash_find (store b) key of Some e \<Rightarrow> e_in_dirty_set e | None \<Rightarrow> False)"

lemma store_ok_commit_put:
  assumes "store_ok b" "entry_ok key e" "e_in_dirty_set e = flag_of b key"
  shows "store_ok (commit_put key e b)"
  using assms
  by (auto simp: store_ok_iff commit_put_store flag_of_def entry_ok_def split: option.splits)

lemma tracked_commit_put:
  assumes "store_ok b" "tracked b" "e_in_dirty_set e = flag_of b key"
  shows "tracked (commit_put key e b)"
  using assms
  by (auto simp: tracked_iff commit_put_store flag_of_def split: option.splits)

lemma upsert_cases:
  "pg_redis_store_upsert now key b =
     (case hash_find (store b) key of
        Some e \<Rightarrow> if pg_redis_entry_is_expired now e
                  then (True, fresh_entry\<lparr>e_in_dirty_set := e_in_dirty_set e\<rparr>,
                        entry_put key (fresh_entry\<lparr>e_in_dirty_set := e_in_dirty_set e\<rparr>) b)
                  else (False, e, b)
      | None \<Rightarrow> (True, fresh_entry, entry_put key fresh_entry b))"
proof -
  have "(pg_redis_entry_release_value True e)\<lparr>e_version := 1\<rparr> =
      fresh_entry\<lparr>e_in_dirty_set := e_in_dirty_set e\<rparr>" for e
    by (cases e) (simp add: pg_redis_entry_release_value_def fresh_entry_def)
  then show ?thesis by (simp add: pg_redis_store_upsert_def Let_def split: option.splits)
qed

lemma upsert_flag:
  "pg_redis_store_upsert now key b = (n, e, b') \<Longrightarrow> e_in_dirty_set e = flag_of b key"
  by (auto simp: upsert_cases flag_of_def fresh_entry_def split: option.splits if_splits)

lemma upsert_put:
  "pg_redis_store_upsert now key b = (n, e, b') \<Longrightarrow> entry_put key e' b' = entry_put key e' b"
  by (auto simp: upsert_cases split: option.splits if_splits)

lemma upsert_old:
  "pg_redis_store_upsert now key b = (False, e, b') \<Longrightarrow>
     b' = b \<and> hash_find (store b) key = Some e \<and> \<not> pg_redis_entry_is_expired now e"
  by (auto simp: upsert_cases split: option.splits if_splits)

lemma remove_cases:
  "pg_redis_store_remove key b =
     (case hash_find (store b) key of
        None \<Rightarrow> (False, b)
      | Some e \<Rightarrow>
          (True, b\<lparr>store := hash_remove (store b) key,
                   dirty_head := (if e_in_dirty_set e then remove1 key (dirty_head b) else dirty_head b),
                   pending_deletes_head :=
                     (if key = [] then pending_deletes_head b else key # pending_deletes_head b)\<rparr>))"
proof -
  have "hash_remove (hash_enter t k e) k = hash_remove t k" for t :: "(bytes, PgRedisEntry) htab" and k e
    by (induction t) (auto simp: hash_remove_def hash_enter_def AList.delete_eq)
  then show ?thesis
    by (auto simp: pg_redis_store_remove_def pg_redis_mark_deleted_def entry_put_def Let_def
        split: option.splits)
qed

lemma store_ok_remove:
  assumes "store_ok b"
  shows "store_ok (snd (pg_redis_store_remove key b))"
proof (cases "hash_find (store b) key")
  case None
  then show ?thesis by (simp add: remove_cases assms)
next
  case (Some e)
  let ?b = "snd (pg_redis_store_remove key b)"
  have d: "dirty_head ?b = remove1 key (dirty_head b)"
  proof (cases "e_in_dirty_set e")
    case False
    then have "key \<notin> set (dirty_head b)" using store_ok_chain [OF assms, of key] Some by auto
    with False show ?thesis by (simp add: remove_cases Some remove1_idem)
  qed (simp add: remove_cases Some)
  have f: "hash_find (store ?b) k = (if k = key then None else hash_find (store b) k)" for k
    by (simp add: remove_cases Some)
  have "distinct (dirty_head b)" using assms by (simp add: store_ok_def)
  then show ?thesis
    using assms store_ok_chain [OF assms]
    unfolding store_ok_iff [of ?b] by (simp add: d f store_ok_entry) (simp add: remove_cases Some)
qed

lemma tracked_remove:
  assumes "store_ok b" "tracked b"
  shows "tracked (snd (pg_redis_store_remove key b))"
proof -
  have h: "htab_ok (store (snd (pg_redis_store_remove key b)))"
    using store_ok_remove [OF assms(1)] by simp
  have "k \<in> set (dirty_head (snd (pg_redis_store_remove key b)))"
    if f: "hash_find (store (snd (pg_redis_store_remove key b))) k = Some e" and d: "e_in_dirty_set e"
    for k e
  proof -
    from f have "hash_find (store b) k = Some e" "k \<noteq> key \<or> hash_find (store b) key = None"
      by (auto simp: remove_cases split: option.splits if_splits)
    moreover have "k \<in> set (dirty_head b)"
      using assms d calculation(1) by (simp add: tracked_iff)
    ultimately show ?thesis
      by (auto simp: remove_cases in_set_remove1 split: option.splits)
  qed
  then show ?thesis by (simp add: tracked_iff [OF h])
qed

lemma lookup_cases:
  "pg_redis_store_lookup now key b =
     (case hash_find (store b) key of
        None \<Rightarrow> (None, b)
      | Some e \<Rightarrow>
          if pg_redis_entry_is_expired now e then (None, snd (pg_redis_store_remove key b))
          else (Some e, b))"
  by (simp add: pg_redis_store_lookup_def pg_redis_store_lookup_raw_def split: option.splits)

lemma store_ok_lookup:
  "store_ok b \<Longrightarrow> pg_redis_store_lookup now key b = (r, b') \<Longrightarrow> store_ok b'"
  by (auto simp: lookup_cases store_ok_remove split: option.splits if_splits)

lemma tracked_lookup:
  "store_ok b \<Longrightarrow> tracked b \<Longrightarrow> pg_redis_store_lookup now key b = (r, b') \<Longrightarrow> tracked b'"
  by (auto simp: lookup_cases tracked_remove split: option.splits if_splits)

lemma lookup_Some:
  "pg_redis_store_lookup now key b = (Some e, b') \<Longrightarrow>
     b' = b \<and> hash_find (store b) key = Some e \<and> \<not> pg_redis_entry_is_expired now e"
  by (auto simp: lookup_cases split: option.splits if_splits)

lemma store_ok_dirty_clear [simp]:
  assumes "store_ok b"
  shows "store_ok (pg_redis_dirty_clear b)"
  using assms
  by (auto simp: store_ok_iff pg_redis_dirty_clear_def entry_ok_def split: if_splits)

lemma tracked_dirty_clear [simp]:
  "store_ok b \<Longrightarrow> tracked b \<Longrightarrow> tracked (pg_redis_dirty_clear b)"
proof -
  assume "store_ok b" and t: "tracked b"
  then have h: "htab_ok (store (pg_redis_dirty_clear b))" by (simp add: pg_redis_dirty_clear_def)
  have "\<not> e_in_dirty_set e" if f: "hash_find (store (pg_redis_dirty_clear b)) k = Some e" for k e
  proof -
    from f obtain z where "hash_find (store b) k = Some z"
      "e = (if k \<in> set (dirty_head b) then z\<lparr>e_in_dirty_set := False\<rparr> else z)"
      by (auto simp: pg_redis_dirty_clear_def)
    then show ?thesis using t \<open>store_ok b\<close> by (auto simp: tracked_iff)
  qed
  then show ?thesis by (simp add: tracked_iff [OF h])
qed

lemma type_name_roundtrip: "pg_redis_type_from_name (Some (pg_redis_type_name t)) = Some t"
  by (cases t) (simp_all add: pg_redis_type_from_name_def)

lemma type_from_name_Some:
  "pg_redis_type_from_name (Some n) = Some t \<longleftrightarrow> n = pg_redis_type_name t"
  by (cases t) (auto simp: pg_redis_type_from_name_def)

section \<open>Statistics add up\<close>

definition stats_ok :: "PgRedisStoreStats \<Rightarrow> bool" where
  "stats_ok st \<longleftrightarrow>
     key_count st = string_count st + int_count st + hash_count st + list_count st \<and>
     0 \<le> expiring_count st \<and> expiring_count st \<le> key_count st"

lemma stats_fold:
  assumes "stats_ok st"
  shows "stats_ok (foldl (\<lambda>st (k, e). stats_add st e) st es) \<and>
    key_count (foldl (\<lambda>st (k, e). stats_add st e) st es) = key_count st + int (length es) \<and>
    stats_memory_usage (foldl (\<lambda>st (k, e). stats_add st e) st es) =
      stats_memory_usage st + (\<Sum>(k, e)\<leftarrow>es. int (sizeof_PgRedisEntry + value_memory (e_value e)))"
  using assms
proof (induction es arbitrary: st)
  case (Cons p es)
  obtain k e where p: "p = (k, e)" by (cases p)
  have "stats_ok (stats_add st e)"
    and k: "key_count (stats_add st e) = key_count st + 1"
    and m: "stats_memory_usage (stats_add st e) =
      stats_memory_usage st + int (sizeof_PgRedisEntry + value_memory (e_value e))"
    using Cons.prems
    by (auto simp: stats_ok_def stats_add_def Let_def split: PgRedisValueType.splits)
  from Cons.IH [OF this(1)] show ?case by (simp add: p k m)
qed simp

lemma foldl_memory_sum:
  "foldl (\<lambda>total (k, e). total + sizeof_PgRedisEntry + value_memory (e_value e)) m t =
   m + (\<Sum>(k, e)\<leftarrow>t. sizeof_PgRedisEntry + value_memory (e_value e))"
  by (induction t arbitrary: m) (auto simp: case_prod_beta)

lemma memory_usage_sum:
  "pg_redis_store_memory_usage b =
     (\<Sum>(k, e)\<leftarrow>store b. sizeof_PgRedisEntry + value_memory (e_value e))"
  by (simp add: pg_redis_store_memory_usage_def hash_seq_def foldl_memory_sum)

section \<open>Properties\<close>



text \<open>
  The statistics are consistent: the key count is the sum of the counts per type and the number of
  stored entries, and the memory figure is the one \<open>MEMORY_USAGE\<close> reports.
\<close>

lemma stats_consistent:
  "stats_ok (pg_redis_store_collect_stats b) \<and>
   key_count (pg_redis_store_collect_stats b) = pg_redis_store_count b \<and>
   stats_memory_usage (pg_redis_store_collect_stats b) = int (pg_redis_store_memory_usage b)"
proof -
  have "stats_ok stats_zero" by (simp add: stats_ok_def stats_zero_def)
  moreover have "(\<Sum>(k, e)\<leftarrow>es. int (sizeof_PgRedisEntry + value_memory (e_value e))) =
      int (\<Sum>(k, e)\<leftarrow>es. sizeof_PgRedisEntry + value_memory (e_value e))" for es :: "(bytes \<times> PgRedisEntry) list"
    by (induction es) (auto simp: case_prod_beta)
  ultimately show ?thesis
    using stats_fold [of stats_zero "store b"]
    by (simp add: pg_redis_store_collect_stats_def hash_seq_def pg_redis_store_count_def
        hash_num_entries_def memory_usage_sum stats_zero_def)
qed

end
