(* ===== verification/Keyspace.thy ===== *)
theory Keyspace
  imports KV_Store
begin

text \<open>
  What a backend's store stands for: a map from keys to values with an optional expiry. \<open>live\<close>
  is the view a client has at a given time, in which an expired entry does not exist whether or
  not it has been evicted. The lemmas give the effect of each store operation on that view.
\<close>

datatype rvalue =
    RString bytes
  | RInt int
  | RHash "bytes \<Rightarrow> bytes option"
  | RList "bytes list"

type_synonym keyspace = "bytes \<Rightarrow> (rvalue \<times> int option) option"

fun abs_value :: "PgRedisValue \<Rightarrow> rvalue" where
  "abs_value (StringValue s) = RString (case s of None \<Rightarrow> [] | Some b \<Rightarrow> b)"
| "abs_value (IntValue i) = RInt i"
| "abs_value (HashValue h) = RHash (case h of None \<Rightarrow> Map.empty | Some h' \<Rightarrow> hash_map h')"
| "abs_value (ListValue l) = RList (case l of None \<Rightarrow> [] | Some l' \<Rightarrow> list_vals l')"

definition e_expiry :: "PgRedisEntry \<Rightarrow> int option" where
  "e_expiry e = (if e_has_expire e then Some (e_expire_at e) else None)"

definition abs_entry :: "PgRedisEntry \<Rightarrow> rvalue \<times> int option" where
  "abs_entry e = (abs_value (e_value e), e_expiry e)"

definition raw_view :: "backend \<Rightarrow> keyspace" where
  "raw_view b k = map_option abs_entry (hash_find (store b) k)"

definition expired_at :: "int \<Rightarrow> rvalue \<times> int option \<Rightarrow> bool" where
  "expired_at now p \<longleftrightarrow> (case snd p of None \<Rightarrow> False | Some t \<Rightarrow> now \<ge> t)"

definition drop_expired :: "int \<Rightarrow> keyspace \<Rightarrow> keyspace" where
  "drop_expired now m k =
     (case m k of None \<Rightarrow> None | Some p \<Rightarrow> if expired_at now p then None else Some p)"

definition live :: "int \<Rightarrow> backend \<Rightarrow> keyspace" where
  "live now b = drop_expired now (raw_view b)"

lemma expired_abs_entry [simp]:
  "expired_at now (abs_entry e) = pg_redis_entry_is_expired now e"
  by (simp add: expired_at_def abs_entry_def e_expiry_def pg_redis_entry_is_expired_def)

lemma live_find:
  "live now b k = (case hash_find (store b) k of
     None \<Rightarrow> None
   | Some e \<Rightarrow> if pg_redis_entry_is_expired now e then None else Some (abs_entry e))"
  by (simp add: live_def drop_expired_def raw_view_def split: option.splits)

lemma drop_expired_upd [simp]:
  "drop_expired now (m(k \<mapsto> p)) =
     (drop_expired now m)(k := if expired_at now p then None else Some p)"
  "drop_expired now (m(k := None)) = (drop_expired now m)(k := None)"
  by (auto simp: drop_expired_def)

lemma drop_expired_twice:
  "now \<le> now' \<Longrightarrow> drop_expired now' (drop_expired now m) = drop_expired now' m"
  by (rule ext) (auto simp: drop_expired_def expired_at_def split: option.splits)

lemma drop_expired_same [simp]: "drop_expired now (drop_expired now m) = drop_expired now m"
  by (simp add: drop_expired_twice)

text \<open>Between commands time passes, and that is all that happens to the view.\<close>

lemma live_later: "now \<le> now' \<Longrightarrow> live now' b = drop_expired now' (live now b)"
  by (simp add: live_def drop_expired_twice)

lemma raw_view_cong: "store b = store b' \<Longrightarrow> raw_view b = raw_view b'"
  by (rule ext) (simp add: raw_view_def)

lemma raw_view_put: "raw_view (entry_put key e b) = (raw_view b)(key \<mapsto> abs_entry e)"
  by (rule ext) (simp add: raw_view_def)

lemma abs_entry_flags [simp]:
  "abs_entry (e\<lparr>e_in_dirty_set := x\<rparr>) = abs_entry e"
  "abs_entry (e\<lparr>e_dirty := x\<rparr>) = abs_entry e"
  "abs_entry (e\<lparr>e_deleted := x\<rparr>) = abs_entry e"
  "abs_entry (e\<lparr>e_version := n\<rparr>) = abs_entry e"
  by (simp_all add: abs_entry_def e_expiry_def)

lemma raw_view_commit_put: "raw_view (commit_put key e b) = (raw_view b)(key \<mapsto> abs_entry e)"
  by (rule ext) (simp add: raw_view_def commit_put_store)

lemma live_commit_put:
  "\<not> pg_redis_entry_is_expired now e \<Longrightarrow>
     live now (commit_put key e b) = (live now b)(key \<mapsto> abs_entry e)"
  by (simp add: live_def raw_view_commit_put)

lemma raw_view_remove: "raw_view (snd (pg_redis_store_remove key b)) = (raw_view b)(key := None)"
  by (rule ext) (auto simp: raw_view_def remove_cases split: option.splits)

lemma live_remove: "live now (snd (pg_redis_store_remove key b)) = (live now b)(key := None)"
  by (simp add: live_def raw_view_remove)

lemma fst_remove: "fst (pg_redis_store_remove key b) = (hash_find (store b) key \<noteq> None)"
  by (simp add: remove_cases split: option.splits)

lemma live_lookup:
  assumes "pg_redis_store_lookup now key b = (r, b')"
  shows "live now b' = live now b" "live now b key = map_option abs_entry r"
proof -
  show k: "live now b key = map_option abs_entry r"
  proof (cases "hash_find (store b) key")
    case (Some e)
    then have "r = (if pg_redis_entry_is_expired now e then None else Some e)"
      using assms by (simp add: lookup_cases split: if_splits)
    then show ?thesis by (simp add: live_find Some)
  qed (use assms in \<open>simp add: lookup_cases live_find\<close>)
  show "live now b' = live now b"
  proof (cases r)
    case None
    then have "b' = b \<or> b' = snd (pg_redis_store_remove key b)"
      using assms by (auto simp: lookup_cases split: option.splits if_splits)
    with None k show ?thesis by (auto simp: live_remove)
  next
    case (Some e)
    with assms show ?thesis by (auto dest: lookup_Some)
  qed
qed

lemma live_upsert:
  assumes "pg_redis_store_upsert now key b = (n, e, b')"
  shows "n \<longleftrightarrow> live now b key = None" "\<not> n \<Longrightarrow> live now b key = Some (abs_entry e)"
    "\<not> pg_redis_entry_is_expired now e" "n \<Longrightarrow> e_expiry e = None"
  using assms
  by (auto simp: upsert_cases live_find fresh_entry_def e_expiry_def pg_redis_entry_is_expired_def
      split: option.splits if_splits)

lemma find_raw_view_eq: "raw_view b k = None \<longleftrightarrow> hash_find (store b) k = None"
  by (simp add: raw_view_def)

lemma raw_view_dirty_clear [simp]: "raw_view (pg_redis_dirty_clear b) = raw_view b"
proof
  show "raw_view (pg_redis_dirty_clear b) k = raw_view b k" for k
    by (cases "hash_find (store b) k") (simp_all add: raw_view_def pg_redis_dirty_clear_def)
qed

end
