(* ===== verification/Durable.thy ===== *)
theory Durable
  imports Binval Keyspace "HOL-Library.List_Lexorder"
begin

text \<open>
  The durable tables \<open>pgredis.store\<close>, \<open>pgredis.hash_fields\<close> and \<open>pgredis.list_items\<close> and
  the six array plans of \<open>src/persistence.c\<close>. A table is the list of its rows under its primary
  key. The plans raise what the schema raises: a second row for a primary key, and a child row
  whose parent does not exist; deleting a parent row deletes its children
  (\<open>ON DELETE CASCADE\<close>). \<open>db_view\<close> is the keyspace the tables stand for.
\<close>

section \<open>Tables\<close>

record store_row =
  r_type :: string
  r_value :: "bytea option"
  r_expire :: "int option"
  r_version :: nat

record db =
  t_store :: "(bytes, store_row) htab"
  t_hash :: "(bytes \<times> bytes, bytes option) htab"
  t_list :: "(bytes \<times> int, bytes option) htab"

definition db_empty :: db where
  "db_empty = \<lparr>t_store = [], t_hash = [], t_list = []\<rparr>"

section \<open>Plans\<close>

text \<open>
  \<open>SELECT DISTINCT ON (k) \<dots> ORDER BY k, i DESC\<close>: of the rows with one key, the one that came
  last.
\<close>

fun distinct_on_last :: "('k \<times> 'r) list \<Rightarrow> ('k \<times> 'r) list" where
  "distinct_on_last [] = []"
| "distinct_on_last ((k, r) # rows) =
     (if k \<in> set (map fst rows) then distinct_on_last rows else (k, r) # distinct_on_last rows)"

definition insert_on_conflict_update :: "('k \<times> 'r) list \<Rightarrow> ('k, 'r) htab \<Rightarrow> ('k, 'r) htab" where
  "insert_on_conflict_update rows t = foldl (\<lambda>t (k, r). hash_enter t k r) t rows"

definition fk_ok :: "db \<Rightarrow> bytes list \<Rightarrow> bool" where
  "fk_ok d keys \<longleftrightarrow> list_all (\<lambda>k. hash_find (t_store d) k \<noteq> None) keys"

definition sql_store_upsert :: "(bytes \<times> store_row) list \<Rightarrow> db \<Rightarrow> db result" where
  "sql_store_upsert rows d =
     Inr (d\<lparr>t_store := insert_on_conflict_update (distinct_on_last rows) (t_store d)\<rparr>)"

definition sql_store_delete :: "bytes list \<Rightarrow> db \<Rightarrow> db result" where
  "sql_store_delete keys d =
     Inr (d\<lparr>t_store := filter (\<lambda>(k, r). k \<notin> set keys) (t_store d),
            t_hash := filter (\<lambda>((k, f), v). k \<notin> set keys) (t_hash d),
            t_list := filter (\<lambda>((k, n), v). k \<notin> set keys) (t_list d)\<rparr>)"

definition sql_hash_field_upsert :: "((bytes \<times> bytes) \<times> bytes option) list \<Rightarrow> db \<Rightarrow> db result" where
  "sql_hash_field_upsert rows d =
     (if fk_ok d (map (fst \<circ> fst) rows)
      then Inr (d\<lparr>t_hash := insert_on_conflict_update (distinct_on_last rows) (t_hash d)\<rparr>)
      else Inl ForeignKeyViolation)"

definition sql_hash_field_delete :: "(bytes \<times> bytes) list \<Rightarrow> db \<Rightarrow> db result" where
  "sql_hash_field_delete kfs d = Inr (d\<lparr>t_hash := filter (\<lambda>(kf, v). kf \<notin> set kfs) (t_hash d)\<rparr>)"

definition sql_list_item_insert :: "((bytes \<times> int) \<times> bytes option) list \<Rightarrow> db \<Rightarrow> db result" where
  "sql_list_item_insert rows d =
     (if \<not> distinct (map fst rows) \<or> \<not> list_all (\<lambda>(ko, v). hash_find (t_list d) ko = None) rows
      then Inl UniqueViolation
      else if fk_ok d (map (fst \<circ> fst) rows)
      then Inr (d\<lparr>t_list := insert_on_conflict_update rows (t_list d)\<rparr>)
      else Inl ForeignKeyViolation)"

definition sql_list_item_delete :: "(bytes \<times> int) list \<Rightarrow> db \<Rightarrow> db result" where
  "sql_list_item_delete kos d = Inr (d\<lparr>t_list := filter (\<lambda>(ko, v). ko \<notin> set kos) (t_list d)\<rparr>)"

definition sql_truncate :: "db \<Rightarrow> db" where
  "sql_truncate d = db_empty"

section \<open>What the tables stand for\<close>

definition cell :: "bytes option \<Rightarrow> bytes" where
  "cell v = (case v of None \<Rightarrow> [] | Some s \<Rightarrow> s)"

definition db_fields :: "db \<Rightarrow> bytes \<Rightarrow> bytes \<Rightarrow> bytes option" where
  "db_fields d k f = map_option cell (hash_find (t_hash d) (k, f))"

definition db_items :: "db \<Rightarrow> bytes \<Rightarrow> int \<Rightarrow> bytes option" where
  "db_items d k n = map_option cell (hash_find (t_list d) (k, n))"

definition rows_of :: "(bytes \<times> 'n, bytes option) htab \<Rightarrow> bytes \<Rightarrow> ('n \<times> bytes) list" where
  "rows_of t k = map (\<lambda>((k', n), v). (n, cell v)) (filter (\<lambda>((k', n), v). k' = k) t)"

definition items_of :: "db \<Rightarrow> bytes \<Rightarrow> (int \<times> bytes) list" where
  "items_of d k = sort_key fst (rows_of (t_list d) k)"

definition row_view :: "db \<Rightarrow> bytes \<Rightarrow> store_row \<Rightarrow> (rvalue \<times> int option) option" where
  "row_view d k r =
     (let p = (\<lambda>v. (v, r_expire r))
      in if r_type r = ''string'' then map_option (p \<circ> RString) (pg_redis_decode_string (r_value r))
         else if r_type r = ''int'' then map_option (p \<circ> RInt) (pg_redis_decode_int (r_value r))
         else if r_type r = ''hash'' then Some (p (RHash (db_fields d k)))
         else if r_type r = ''list'' then Some (p (RList (map snd (items_of d k))))
         else None)"

definition db_view :: "db \<Rightarrow> keyspace" where
  "db_view d k = (case hash_find (t_store d) k of None \<Rightarrow> None | Some r \<Rightarrow> row_view d k r)"

section \<open>Well-formed tables\<close>

definition row_ok :: "store_row \<Rightarrow> bool" where
  "row_ok r \<longleftrightarrow>
     (if r_type r = ''string'' then pg_redis_decode_string (r_value r) \<noteq> None
      else if r_type r = ''int'' then pg_redis_decode_int (r_value r) \<noteq> None
      else r_type r = ''hash'' \<or> r_type r = ''list'')"

definition db_ok :: "db \<Rightarrow> bool" where
  "db_ok d \<longleftrightarrow>
     htab_ok (t_store d) \<and> htab_ok (t_hash d) \<and> htab_ok (t_list d) \<and>
     list_all (\<lambda>(k, r). key_ok k \<and> row_ok r) (t_store d) \<and>
     list_all (\<lambda>((k, f), v). hash_find (t_store d) k \<noteq> None \<and> length f \<le> PG_REDIS_MAX_FIELD_SIZE)
       (t_hash d) \<and>
     list_all (\<lambda>((k, n), v). hash_find (t_store d) k \<noteq> None) (t_list d)"

section \<open>Effect of the plans\<close>

lemma hash_find_filter:
  "hash_find (filter (\<lambda>p. P (fst p)) t) k = (if P k then hash_find t k else None)"
  by (simp add: hash_find_def map_of_filter_keys)

lemma hash_find_filter_case [simp]:
  "hash_find (filter (\<lambda>(k, r). P k) t) k = (if P k then hash_find t k else None)"
  by (simp add: case_prod_unfold hash_find_filter)

lemma hash_find_filter_case2 [simp]:
  "hash_find (filter (\<lambda>((k, n), r). P k) t) (k, n) = (if P k then hash_find t (k, n) else None)"
  using hash_find_filter [of "\<lambda>kn. P (fst kn)" t "(k, n)"] by (simp add: case_prod_unfold)

lemma htab_ok_filter [simp]: "htab_ok t \<Longrightarrow> htab_ok (filter P t)"
  by (simp add: htab_ok_def distinct_map_filter)

lemma find_distinct_on_last: "map_of (distinct_on_last rows) k = map_of (rev rows) k"
proof (induction rows)
  case (Cons p rows)
  obtain k' r where p: "p = (k', r)" by (cases p)
  have "map_of (rev rows) k' \<noteq> None \<longleftrightarrow> k' \<in> fst ` set rows"
    by (simp add: map_of_eq_None_iff)
  with Cons show ?case
    by (auto simp: p map_add_def split: option.splits)
qed simp

lemma distinct_distinct_on_last: "distinct (map fst (distinct_on_last rows))"
proof (induction rows)
  case (Cons p rows)
  have "set (map fst (distinct_on_last rows)) \<subseteq> set (map fst rows)" for rows :: "('a \<times> 'b) list"
    by (induction rows rule: distinct_on_last.induct) auto
  with Cons show ?case by (cases p) auto
qed simp

lemma find_insert_rows:
  "hash_find (insert_on_conflict_update rows t) k =
     (case map_of (rev rows) k of Some r \<Rightarrow> Some r | None \<Rightarrow> hash_find t k)"
proof (induction rows arbitrary: t)
  case (Cons p rows)
  then show ?case
    by (cases p) (auto simp: insert_on_conflict_update_def map_add_def split: option.splits)
qed (simp add: insert_on_conflict_update_def)

lemma htab_ok_insert_rows [simp]: "htab_ok t \<Longrightarrow> htab_ok (insert_on_conflict_update rows t)"
  by (induction rows arbitrary: t) (auto simp: insert_on_conflict_update_def)

text \<open>Keeping the last of several rows for a key gives the same table as writing all of them.\<close>

lemma find_upsert_rows:
  "hash_find (insert_on_conflict_update (distinct_on_last rows) t) k =
     (case map_of (rev rows) k of Some r \<Rightarrow> Some r | None \<Rightarrow> hash_find t k)"
proof -
  have "map_of (rev (distinct_on_last rows)) k = map_of (distinct_on_last rows) k"
    using map_of_inject_set [of "rev (distinct_on_last rows)" "distinct_on_last rows"]
      distinct_distinct_on_last [of rows] by (simp add: rev_map [symmetric])
  then show ?thesis by (simp add: find_insert_rows find_distinct_on_last)
qed

lemma map_of_rev_distinct: "distinct (map fst xs) \<Longrightarrow> map_of (rev xs) = map_of xs"
  using map_of_inject_set [of "rev xs" xs] by (simp add: rev_map [symmetric])

section \<open>Items in order\<close>

lemma distinct_rows_of: "htab_ok t \<Longrightarrow> distinct (map fst (rows_of t k))"
  by (induction t) (auto simp: htab_ok_def rows_of_def image_iff)

lemma map_of_rows_of: "map_of (rows_of t k) n = map_option cell (hash_find t (k, n))"
  by (induction t) (auto simp: rows_of_def hash_find_def)

lemma map_of_items_of:
  assumes "htab_ok (t_list d)"
  shows "map_of (items_of d k) n = db_items d k n"
    and "sorted_wrt (<) (map fst (items_of d k))"
proof -
  note dist = distinct_rows_of [OF assms, of k]
  have dist': "distinct (map fst (items_of d k))"
    using dist by (simp add: items_of_def distinct_map)
  have "set (items_of d k) = set (rows_of (t_list d) k)" by (simp add: items_of_def)
  then have "map_of (items_of d k) = map_of (rows_of (t_list d) k)"
    using map_of_inject_set [OF dist' dist] by simp
  then show "map_of (items_of d k) n = db_items d k n"
    by (simp add: map_of_rows_of db_items_def)
  show "sorted_wrt (<) (map fst (items_of d k))"
    using dist' by (simp add: items_of_def strict_sorted_iff)
qed

text \<open>A strictly increasing list of pairs is determined by its map.\<close>

lemma sorted_map_of_unique:
  assumes "sorted_wrt (<) (map fst xs)" "sorted_wrt (<) (map fst ys)" "map_of xs = map_of ys"
  shows "xs = (ys :: (int \<times> 'v) list)"
proof -
  have d: "distinct (map fst xs)" "distinct (map fst ys)"
    using assms by (simp_all add: sorted_wrt_less_distinct)
  then have s: "set xs = set ys" using map_of_inject_set [of xs ys] assms(3) by simp
  have "map fst xs = map fst ys"
    using assms(1,2) s by (intro strict_sorted_equal) (simp_all add: image_image)
  moreover have "xs = map (\<lambda>k. (k, the (map_of xs k))) (map fst xs)" if "distinct (map fst xs)"
    for xs :: "(int \<times> 'v) list"
    using that by (simp add: comp_def) (rule sym, rule map_idI, auto)
  ultimately show ?thesis using d assms(3) by metis
qed

end
