(* ===== verification/Flush.thy ===== *)
theory Flush
  imports Durable
begin

text \<open>
  The writing half of \<open>src/persistence.c\<close> in session storage: \<open>run_flush\<close>, which the
  transaction callback calls before a commit, the callback itself and the wrappers around the
  dirty set. The flush collects the parent rows and the deltas of every dirty entry, runs the six
  plans in an order that respects the foreign keys, and clears the tracking. \<open>flush_inv\<close> is
  what holds between a backend and the tables during a transaction; under it the flush succeeds
  and leaves the tables in agreement with the store.
\<close>

section \<open>Collecting the vectors\<close>

record flush_vecs =
  v_store :: "(bytes \<times> store_row) list"
  v_hf_up :: "((bytes \<times> bytes) \<times> bytes option) list"
  v_hf_del :: "(bytes \<times> bytes) list"
  v_li_ins :: "((bytes \<times> int) \<times> bytes option) list"
  v_li_del :: "(bytes \<times> int) list"

definition vecs_init :: flush_vecs where
  "vecs_init = \<lparr>v_store = [], v_hf_up = [], v_hf_del = [], v_li_ins = [], v_li_del = []\<rparr>"

definition store_row_of :: "PgRedisEntry \<Rightarrow> store_row" where
  "store_row_of e =
     \<lparr>r_type = pg_redis_type_name (e_type e),
      r_value = (case e_type e of
                   PG_REDIS_TYPE_STRING \<Rightarrow> pg_redis_encode_value (e_value e)
                 | PG_REDIS_TYPE_INT \<Rightarrow> pg_redis_encode_value (e_value e)
                 | _ \<Rightarrow> None),
      r_expire = (if e_has_expire e then Some (e_expire_at e) else None),
      r_version = e_version e\<rparr>"

definition collect_entry :: "bytes \<Rightarrow> PgRedisEntry \<Rightarrow> flush_vecs \<Rightarrow> flush_vecs" where
  "collect_entry key e v =
     (let v1 = v\<lparr>v_store := v_store v @ [(key, store_row_of e)]\<rparr>
      in case e_value e of
           HashValue (Some h) \<Rightarrow>
             v1\<lparr>v_hf_up := v_hf_up v1 @ map (\<lambda>(f, x). ((key, f), Some x)) (hash_dirty_items h),
                v_hf_del := v_hf_del v1 @ map (\<lambda>f. (key, f)) (h_tombstones h)\<rparr>
         | ListValue (Some l) \<Rightarrow>
             v1\<lparr>v_li_ins := v_li_ins v1 @ map (\<lambda>(n, x). ((key, n), Some x)) (list_pending_items l),
                v_li_del := v_li_del v1 @ map (\<lambda>n. (key, n)) (l_pending_delete_ords l)\<rparr>
         | _ \<Rightarrow> v1)"

text \<open>While it collects, the loop clears the flags of the fields and nodes it has copied.\<close>

definition collected_entry :: "PgRedisEntry \<Rightarrow> PgRedisEntry" where
  "collected_entry e =
     (case e_value e of
        HashValue (Some h) \<Rightarrow>
          e\<lparr>e_value := HashValue (Some (h\<lparr>h_fields := hash_map_entries (\<lambda>k f. f\<lparr>hf_dirty := False\<rparr>) (h_fields h)\<rparr>))\<rparr>
      | ListValue (Some l) \<Rightarrow>
          e\<lparr>e_value := ListValue (Some (l\<lparr>l_nodes := map (\<lambda>n. n\<lparr>ln_pending_insert := False\<rparr>) (l_nodes l)\<rparr>))\<rparr>
      | _ \<Rightarrow> e)"

definition collect_dirty :: "backend \<Rightarrow> bytes list \<Rightarrow> flush_vecs" where
  "collect_dirty b dirty =
     foldl (\<lambda>v k. case hash_find (store b) k of None \<Rightarrow> v | Some e \<Rightarrow> collect_entry k e v)
       vecs_init dirty"

definition collect_deletes :: "bytes list \<Rightarrow> bytes list \<Rightarrow> bytes list" where
  "collect_deletes dirty deletes = filter (\<lambda>p. \<not> list_ex (\<lambda>d. d = p) dirty) deletes"

text \<open>The last loop: the tracking of a flushed entry.\<close>

definition flushed_entry :: "PgRedisEntry \<Rightarrow> PgRedisEntry" where
  "flushed_entry e0 =
     (let e = e0\<lparr>e_in_dirty_set := False, e_dirty := False\<rparr>
      in case e_value e of
           HashValue (Some h) \<Rightarrow> e\<lparr>e_value := HashValue (Some (h\<lparr>h_tombstones := []\<rparr>))\<rparr>
         | ListValue (Some l) \<Rightarrow> e\<lparr>e_value := ListValue (Some (l\<lparr>l_pending_delete_ords := []\<rparr>))\<rparr>
         | _ \<Rightarrow> e)"

definition map_keys :: "bytes list \<Rightarrow> (PgRedisEntry \<Rightarrow> PgRedisEntry) \<Rightarrow> backend \<Rightarrow> backend" where
  "map_keys ks f b = b\<lparr>store := hash_map_entries (\<lambda>k e. if k \<in> set ks then f e else e) (store b)\<rparr>"

section \<open>Executing the plans\<close>

definition run_plan :: "('r list \<Rightarrow> db \<Rightarrow> db result) \<Rightarrow> 'r list \<Rightarrow> db \<Rightarrow> db result" where
  "run_plan plan rows d = (if length rows > 0 then plan rows d else Inr d)"

fun and_then :: "'a result \<Rightarrow> ('a \<Rightarrow> 'b result) \<Rightarrow> 'b result" where
  "and_then (Inl err) f = Inl err"
| "and_then (Inr x) f = f x"

definition flush_plans :: "flush_vecs \<Rightarrow> bytes list \<Rightarrow> db \<Rightarrow> db result" where
  "flush_plans v store_delete_keys d =
     and_then (run_plan sql_store_upsert (v_store v) d) (\<lambda>d.
     and_then (run_plan sql_hash_field_delete (v_hf_del v) d) (\<lambda>d.
     and_then (run_plan sql_hash_field_upsert (v_hf_up v) d) (\<lambda>d.
     and_then (run_plan sql_list_item_delete (v_li_del v) d) (\<lambda>d.
     and_then (run_plan sql_list_item_insert (v_li_ins v) d) (\<lambda>d.
     run_plan sql_store_delete store_delete_keys d)))))"

definition run_flush :: "bool \<Rightarrow> db \<Rightarrow> backend \<Rightarrow> db result \<times> backend" where
  "run_flush spi_ok d b =
     (let (dirty, b1) = pg_redis_dirty_head_take b;
          (deletes, b2) = pg_redis_pending_deletes_take b1
      in if dirty = [] \<and> deletes = [] then (Inr d, b2)
         else if \<not> spi_ok then (Inl SpiConnectFailed, b2)
         else
           let v = collect_dirty b2 dirty;
               b3 = map_keys dirty collected_entry b2
           in case flush_plans v (collect_deletes dirty deletes) d of
                Inl err \<Rightarrow> (Inl err, b3)
              | Inr d' \<Rightarrow> (Inr d', map_keys dirty flushed_entry b3))"

section \<open>Transaction callbacks\<close>

datatype XactEvent = XACT_EVENT_PRE_COMMIT | XACT_EVENT_ABORT | XACT_EVENT_OTHER

definition pg_redis_persistence_init :: "backend \<Rightarrow> backend" where
  "pg_redis_persistence_init b =
     (if persistence_initialized b then b else b\<lparr>persistence_initialized := True\<rparr>)"

definition pg_redis_persistence_invalidate_load :: "backend \<Rightarrow> backend" where
  "pg_redis_persistence_invalidate_load b = b\<lparr>persistence_loaded := False\<rparr>"

definition pg_redis_xact_cb_persistence ::
    "guc \<Rightarrow> bool \<Rightarrow> XactEvent \<Rightarrow> db \<Rightarrow> backend \<Rightarrow> db result \<times> backend" where
  "pg_redis_xact_cb_persistence g spi_ok event d b =
     (let mode = pg_redis_effective_persistence_mode g;
          cleared = pg_redis_pending_deletes_clear (pg_redis_dirty_clear b)
      in case event of
           XACT_EVENT_PRE_COMMIT \<Rightarrow>
             if mode = PG_REDIS_PERSIST_ASYNC_TABLE
             then (Inr d, cleared\<lparr>async_published_in_xact := 0\<rparr>)
             else if mode = PG_REDIS_PERSIST_SYNC_TABLE \<or> mode = PG_REDIS_PERSIST_ASYNC_TABLE
             then run_flush spi_ok d b
             else (Inr d, cleared)
         | XACT_EVENT_ABORT \<Rightarrow>
             if mode = PG_REDIS_PERSIST_ASYNC_TABLE
             then (Inr d, cleared\<lparr>async_published_in_xact := 0\<rparr>)
             else (Inr d, cleared\<lparr>async_published_in_xact := 0, persistence_loaded := False\<rparr>)
         | XACT_EVENT_OTHER \<Rightarrow> (Inr d, b))"

definition pg_redis_xact_cb :: "XactEvent \<Rightarrow> backend \<Rightarrow> backend" where
  "pg_redis_xact_cb event b =
     (if event = XACT_EVENT_ABORT then pg_redis_persistence_invalidate_load b else b)"

section \<open>Wrappers\<close>

definition persistence_writes_enabled :: "guc \<Rightarrow> bool" where
  "persistence_writes_enabled g =
     (let m = pg_redis_resolve_persistence_mode g
      in m = PG_REDIS_PERSIST_SYNC_TABLE \<or> m = PG_REDIS_PERSIST_ASYNC_TABLE)"

definition pg_redis_persistence_save_entry :: "guc \<Rightarrow> bytes \<Rightarrow> backend \<Rightarrow> backend" where
  "pg_redis_persistence_save_entry g key b =
     (if \<not> persistence_writes_enabled g then b
      else case hash_find (store b) key of
             None \<Rightarrow> b
           | Some e \<Rightarrow> if e_deleted e then b else pg_redis_mark_dirty key b)"

definition pg_redis_persistence_delete_key :: "guc \<Rightarrow> bytes \<Rightarrow> backend \<Rightarrow> backend" where
  "pg_redis_persistence_delete_key g key b =
     (if \<not> persistence_writes_enabled g then b else pg_redis_mark_deleted key b)"

definition pg_redis_persistence_flush_dirty_batch ::
    "guc \<Rightarrow> bool \<Rightarrow> db \<Rightarrow> backend \<Rightarrow> db result \<times> backend" where
  "pg_redis_persistence_flush_dirty_batch g spi_ok d b =
     (if \<not> persistence_writes_enabled g then (Inr d, b) else run_flush spi_ok d b)"

definition pg_redis_persistence_flushall :: "guc \<Rightarrow> bool \<Rightarrow> db \<Rightarrow> backend \<Rightarrow> db \<times> backend" where
  "pg_redis_persistence_flushall g spi_ok d b =
     (if persistence_writes_enabled g \<and> spi_ok then sql_truncate d else d,
      b\<lparr>persistence_loaded := True\<rparr>)"

section \<open>What the collected vectors hold\<close>

definition hf_up_at :: "backend \<Rightarrow> bytes \<Rightarrow> (bytes \<times> bytes) list" where
  "hf_up_at b k = (case hash_find (store b) k of
     Some e \<Rightarrow> (case e_value e of HashValue (Some h) \<Rightarrow> hash_dirty_items h | _ \<Rightarrow> []) | None \<Rightarrow> [])"

definition hf_del_at :: "backend \<Rightarrow> bytes \<Rightarrow> bytes list" where
  "hf_del_at b k = (case hash_find (store b) k of
     Some e \<Rightarrow> (case e_value e of HashValue (Some h) \<Rightarrow> h_tombstones h | _ \<Rightarrow> []) | None \<Rightarrow> [])"

definition li_ins_at :: "backend \<Rightarrow> bytes \<Rightarrow> (int \<times> bytes) list" where
  "li_ins_at b k = (case hash_find (store b) k of
     Some e \<Rightarrow> (case e_value e of ListValue (Some l) \<Rightarrow> list_pending_items l | _ \<Rightarrow> []) | None \<Rightarrow> [])"

definition li_del_at :: "backend \<Rightarrow> bytes \<Rightarrow> int list" where
  "li_del_at b k = (case hash_find (store b) k of
     Some e \<Rightarrow> (case e_value e of ListValue (Some l) \<Rightarrow> l_pending_delete_ords l | _ \<Rightarrow> []) | None \<Rightarrow> [])"

definition spread :: "('k \<Rightarrow> ('f \<times> 'x) list) \<Rightarrow> 'k list \<Rightarrow> (('k \<times> 'f) \<times> 'x option) list" where
  "spread F ks = concat (map (\<lambda>k. map (\<lambda>(f, x). ((k, f), Some x)) (F k)) ks)"

lemma collect_dirty_rec:
  "collect_dirty b [] = vecs_init"
  "collect_dirty b (ks @ [k]) =
     (case hash_find (store b) k of None \<Rightarrow> collect_dirty b ks
      | Some e \<Rightarrow> collect_entry k e (collect_dirty b ks))"
  by (simp_all add: collect_dirty_def split: option.splits)

lemmas collect_rec_simps = collect_dirty_rec vecs_init_def collect_entry_def Let_def spread_def

lemma collect_store:
  "v_store (collect_dirty b ks) =
     concat (map (\<lambda>k. case hash_find (store b) k of None \<Rightarrow> [] | Some e \<Rightarrow> [(k, store_row_of e)]) ks)"
  by (induction ks rule: rev_induct)
    (simp_all add: collect_rec_simps split: option.splits PgRedisValue.splits)

lemma collect_hf_up: "v_hf_up (collect_dirty b ks) = spread (hf_up_at b) ks"
  by (induction ks rule: rev_induct)
    (simp_all add: collect_rec_simps hf_up_at_def split: option.splits PgRedisValue.splits)

lemma collect_hf_del:
  "v_hf_del (collect_dirty b ks) = concat (map (\<lambda>k. map (Pair k) (hf_del_at b k)) ks)"
  by (induction ks rule: rev_induct)
    (simp_all add: collect_rec_simps hf_del_at_def split: option.splits PgRedisValue.splits)

lemma collect_li_ins: "v_li_ins (collect_dirty b ks) = spread (li_ins_at b) ks"
  by (induction ks rule: rev_induct)
    (simp_all add: collect_rec_simps li_ins_at_def split: option.splits PgRedisValue.splits)

lemma collect_li_del:
  "v_li_del (collect_dirty b ks) = concat (map (\<lambda>k. map (Pair k) (li_del_at b k)) ks)"
  by (induction ks rule: rev_induct)
    (simp_all add: collect_rec_simps li_del_at_def split: option.splits PgRedisValue.splits)

lemmas collect_vecs = collect_store collect_hf_up collect_hf_del collect_li_ins collect_li_del

lemma map_of_tagged:
  "map_of (map (\<lambda>(f, x). ((k', f), Some x)) xs) (k, f) =
     (if k' = k then map_option Some (map_of xs f) else None)"
  by (induction xs) auto

lemma map_of_spread:
  "map_of (spread F ks) (k, f) = (if k \<in> set ks then map_option Some (map_of (F k) f) else None)"
  by (induction ks) (auto simp: spread_def map_add_def map_of_tagged split: option.splits)

lemma distinct_spread:
  assumes "distinct ks" "\<And>k. k \<in> set ks \<Longrightarrow> distinct (map fst (F k))"
  shows "distinct (map fst (spread F ks))"
  using assms
proof (induction ks)
  case (Cons k ks)
  have keys: "map fst (map (\<lambda>(f, x). ((k, f), Some x)) (F k)) = map (Pair k) (map fst (F k))"
    by (induction "F k") auto
  have "distinct (map (Pair k) (map fst (F k)))"
    using Cons.prems(2) [of k] by (simp add: distinct_map comp_inj_on inj_on_def)
  moreover have "Pair k ` fst ` set (F k) \<inter> fst ` set (spread F ks) = {}"
    using Cons.prems(1) by (auto simp: spread_def)
  moreover have "distinct (map fst (spread F ks))" using Cons by simp
  ultimately show ?case
    using keys by (simp add: spread_def del: map_map)
qed (simp add: spread_def)

lemma map_of_store_rows:
  "map_of (concat (map (\<lambda>k. case hash_find t k of None \<Rightarrow> [] | Some e \<Rightarrow> [(k, g e)]) ks)) k =
     (if k \<in> set ks then map_option g (hash_find t k) else None)"
  by (induction ks) (auto split: option.splits)

lemma distinct_store_rows:
  "distinct ks \<Longrightarrow>
   distinct (map fst (concat (map (\<lambda>k. case hash_find t k of None \<Rightarrow> [] | Some e \<Rightarrow> [(k, g e)]) ks)))"
  by (induction ks) (auto split: option.splits)

section \<open>The plans on collected vectors\<close>

lemma run_plan_simps:
  "run_plan sql_store_upsert rows d = sql_store_upsert rows d"
  "run_plan sql_hash_field_delete kfs d = sql_hash_field_delete kfs d"
  "run_plan sql_hash_field_upsert hrows d = sql_hash_field_upsert hrows d"
  "run_plan sql_list_item_delete kos d = sql_list_item_delete kos d"
  "run_plan sql_list_item_insert lrows d = sql_list_item_insert lrows d"
  "run_plan sql_store_delete keys d = sql_store_delete keys d"
  by (simp_all add: run_plan_def sql_store_upsert_def sql_hash_field_delete_def
      sql_hash_field_upsert_def sql_list_item_delete_def sql_list_item_insert_def
      sql_store_delete_def insert_on_conflict_update_def fk_ok_def case_prod_beta)

definition flushed_db :: "backend \<Rightarrow> bytes list \<Rightarrow> bytes list \<Rightarrow> db \<Rightarrow> db" where
  "flushed_db b ks dels d =
     (let v = collect_dirty b ks
      in \<lparr>t_store = filter (\<lambda>(k, r). k \<notin> set dels)
            (insert_on_conflict_update (distinct_on_last (v_store v)) (t_store d)),
          t_hash = filter (\<lambda>((k, f), x). k \<notin> set dels)
            (insert_on_conflict_update (distinct_on_last (v_hf_up v))
               (filter (\<lambda>(kf, x). kf \<notin> set (v_hf_del v)) (t_hash d))),
          t_list = filter (\<lambda>((k, n), x). k \<notin> set dels)
            (insert_on_conflict_update (v_li_ins v)
               (filter (\<lambda>(ko, x). ko \<notin> set (v_li_del v)) (t_list d)))\<rparr>)"

lemma in_spread:
  "((k, f), x) \<in> set (spread F ks) \<Longrightarrow> k \<in> set ks \<and> f \<in> fst ` set (F k)"
  by (force simp: spread_def)

lemma find_flushed_parent:
  assumes "distinct ks"
  shows "hash_find (insert_on_conflict_update (distinct_on_last (v_store (collect_dirty b ks))) t) k =
    (if k \<in> set ks \<and> hash_find (store b) k \<noteq> None
     then map_option store_row_of (hash_find (store b) k) else hash_find t k)"
  by (auto simp: find_upsert_rows collect_store map_of_rev_distinct [OF distinct_store_rows [OF assms]]
      map_of_store_rows split: option.splits)

lemma fk_spread:
  assumes "\<And>k. k \<in> set ks \<Longrightarrow> hash_find (t_store d) k \<noteq> None"
  shows "fk_ok d (map (fst \<circ> fst) (spread F ks))"
  using assms in_spread [of _ _ _ F ks] by (fastforce simp: fk_ok_def list_all_iff)

lemma fresh_spread:
  assumes fresh: "\<And>k n. k \<in> set ks \<Longrightarrow> n \<in> fst ` set (F k) \<Longrightarrow> n \<notin> set (G k) \<Longrightarrow>
      hash_find t (k, n) = None"
  shows "list_all (\<lambda>(ko, x). hash_find (filter (\<lambda>(ko, x). ko \<notin> set (concat (map (\<lambda>k. map (Pair k) (G k)) ks))) t) ko = None)
      (spread F ks)"
  using fresh in_spread [of _ _ _ F ks] by (fastforce simp: list_all_iff)

lemma flush_plans_Inr:
  assumes dist: "distinct ks"
    and parent: "\<And>k. k \<in> set ks \<Longrightarrow> hash_find (store b) k \<noteq> None"
    and li: "\<And>k. k \<in> set ks \<Longrightarrow> distinct (map fst (li_ins_at b k))"
    and fresh: "\<And>k n. k \<in> set ks \<Longrightarrow> n \<in> fst ` set (li_ins_at b k) \<Longrightarrow>
        n \<notin> set (li_del_at b k) \<Longrightarrow> hash_find (t_list d) (k, n) = None"
  shows "flush_plans (collect_dirty b ks) dels d = Inr (flushed_db b ks dels d)"
proof -
  let ?d = "d\<lparr>t_store := insert_on_conflict_update (distinct_on_last (v_store (collect_dirty b ks))) (t_store d)\<rparr>"
  have "hash_find (t_store ?d) k \<noteq> None" if "k \<in> set ks" for k
    using parent that by (simp add: find_flushed_parent [OF dist])
  then have fk: "fk_ok (?d\<lparr>t_hash := h\<rparr>) (map (fst \<circ> fst) (spread (hf_up_at b) ks))"
    "fk_ok (?d\<lparr>t_hash := h, t_list := l\<rparr>) (map (fst \<circ> fst) (spread (li_ins_at b) ks))" for h l
    by (simp_all add: fk_spread)
  have "distinct (map fst (spread (li_ins_at b) ks))"
    using dist li by (rule distinct_spread)
  then show ?thesis
    using fk fresh_spread [of ks "li_ins_at b" "li_del_at b" "t_list d", OF fresh]
    by (simp add: flush_plans_def run_plan_simps sql_store_upsert_def sql_hash_field_delete_def
        sql_hash_field_upsert_def sql_list_item_delete_def sql_list_item_insert_def
        sql_store_delete_def flushed_db_def Let_def collect_hf_up collect_hf_del collect_li_ins
        collect_li_del cong: if_cong)
qed

end
