(* ===== verification/Durability.thy ===== *)
theory Durability
  imports Flush
begin

text \<open>
  The contract between a backend and the durable tables. \<open>flush_inv t d b\<close> holds during a
  transaction: every change the store has over the tables is recorded, either in the dirty chain
  with its field and item deltas or in the pending deletes. \<open>visible t\<close> is what a load at time
  \<open>t\<close> can see of a keyspace: an expired key and an empty collection are not there. The main
  lemma, \<open>run_flush_inv\<close>, says that a flush under the invariant succeeds, keeps the store,
  clears the tracking and leaves tables that stand for the store.
\<close>

section \<open>The invariant\<close>

fun empty_coll :: "rvalue \<Rightarrow> bool" where
  "empty_coll (RHash m) \<longleftrightarrow> m = Map.empty"
| "empty_coll (RList xs) \<longleftrightarrow> xs = []"
| "empty_coll _ \<longleftrightarrow> False"

definition visible :: "int \<Rightarrow> keyspace \<Rightarrow> keyspace" where
  "visible now m k =
     (case m k of None \<Rightarrow> None
      | Some p \<Rightarrow> if expired_at now p \<or> empty_coll (fst p) then None else Some p)"

fun value_synced :: "db \<Rightarrow> bytes \<Rightarrow> PgRedisValue \<Rightarrow> bool" where
  "value_synced d k (HashValue (Some h)) \<longleftrightarrow> hash_delta_ok (db_fields d k) h"
| "value_synced d k (ListValue (Some l)) \<longleftrightarrow> list_delta_ok (db_items d k) l"
| "value_synced d k _ \<longleftrightarrow> True"

fun value_clean :: "PgRedisValue \<Rightarrow> bool" where
  "value_clean (HashValue (Some h)) \<longleftrightarrow>
     h_tombstones h = [] \<and> list_all (\<lambda>(k, f). \<not> hf_dirty f) (h_fields h)"
| "value_clean (ListValue (Some l)) \<longleftrightarrow>
     l_pending_delete_ords l = [] \<and> list_all (\<lambda>n. \<not> ln_pending_insert n) (l_nodes l)"
| "value_clean _ \<longleftrightarrow> True"

definition key_inv :: "int \<Rightarrow> db \<Rightarrow> backend \<Rightarrow> bytes \<Rightarrow> bool" where
  "key_inv t d b k \<longleftrightarrow>
     (case hash_find (store b) k of
        None \<Rightarrow> k \<in> set (pending_deletes_head b) \<or> visible t (db_view d) k = None
      | Some e \<Rightarrow>
          value_synced d k (e_value e) \<and>
          (k \<in> set (dirty_head b) \<or>
           k \<notin> set (pending_deletes_head b) \<and> db_view d k = Some (abs_entry e) \<and>
           value_clean (e_value e)))"

definition flush_inv :: "int \<Rightarrow> db \<Rightarrow> backend \<Rightarrow> bool" where
  "flush_inv t d b \<longleftrightarrow> store_ok b \<and> tracked b \<and> db_ok d \<and> (\<forall>k. key_inv t d b k)"

section \<open>Tables, key by key\<close>

lemma list_all_pairs_iff:
  assumes "htab_ok t"
  shows "list_all (\<lambda>((k, n), r). P k n r) t \<longleftrightarrow> (\<forall>k n r. hash_find t (k, n) = Some r \<longrightarrow> P k n r)"
  using list_all_store_iff [OF assms, of "\<lambda>kn r. P (fst kn) (snd kn) r"]
  by (simp add: case_prod_unfold)

lemma db_ok_iff:
  "db_ok d \<longleftrightarrow>
     htab_ok (t_store d) \<and> htab_ok (t_hash d) \<and> htab_ok (t_list d) \<and>
     (\<forall>k r. hash_find (t_store d) k = Some r \<longrightarrow> key_ok k \<and> row_ok r) \<and>
     (\<forall>k f v. hash_find (t_hash d) (k, f) = Some v \<longrightarrow>
        hash_find (t_store d) k \<noteq> None \<and> length f \<le> PG_REDIS_MAX_FIELD_SIZE) \<and>
     (\<forall>k n v. hash_find (t_list d) (k, n) = Some v \<longrightarrow> hash_find (t_store d) k \<noteq> None)"
proof (cases "htab_ok (t_store d) \<and> htab_ok (t_hash d) \<and> htab_ok (t_list d)")
  case True
  then show ?thesis by (simp add: db_ok_def list_all_store_iff list_all_pairs_iff)
next
  case False
  then show ?thesis by (auto simp: db_ok_def)
qed

lemma db_ok_store: "db_ok d \<Longrightarrow> hash_find (t_store d) k = Some r \<Longrightarrow> key_ok k \<and> row_ok r"
  unfolding db_ok_iff by blast

lemma db_ok_hash:
  "db_ok d \<Longrightarrow> hash_find (t_hash d) (k, f) = Some v \<Longrightarrow>
   hash_find (t_store d) k \<noteq> None \<and> length f \<le> PG_REDIS_MAX_FIELD_SIZE"
  unfolding db_ok_iff by blast

lemma db_ok_list:
  "db_ok d \<Longrightarrow> hash_find (t_list d) (k, n) = Some v \<Longrightarrow> hash_find (t_store d) k \<noteq> None"
  unfolding db_ok_iff by blast

lemma items_of_eqI:
  assumes "htab_ok (t_list d)" "sorted_wrt (<) (map fst xs)" "map_of xs = db_items d k"
  shows "items_of d k = xs"
  using assms by (intro sorted_map_of_unique) (auto simp: map_of_items_of)

text \<open>Two databases that agree on the rows of a key agree on its value.\<close>

lemma db_view_cong:
  assumes "htab_ok (t_list d)" "htab_ok (t_list d')"
    and "hash_find (t_store d') k = hash_find (t_store d) k"
    and "db_fields d' k = db_fields d k" "db_items d' k = db_items d k"
  shows "db_view d' k = db_view d k"
proof -
  have "map_of (items_of d k) = db_items d' k"
    using assms by (simp add: fun_eq_iff map_of_items_of(1))
  then have "items_of d' k = items_of d k"
    using assms by (intro items_of_eqI) (auto simp: map_of_items_of)
  then show ?thesis using assms by (simp add: db_view_def row_view_def split: option.splits)
qed

lemma row_view_of_entry:
  assumes "value_ok (e_value e)"
    and "\<And>h. e_value e = HashValue (Some h) \<Longrightarrow> db_fields d k = hash_map h"
    and "\<And>l. e_value e = ListValue (Some l) \<Longrightarrow> map snd (items_of d k) = list_vals l"
  shows "row_view d k (store_row_of e) = Some (abs_entry e)"
  using assms
  by (cases "e_value e")
    (auto simp: row_view_def store_row_of_def e_type_def abs_entry_def e_expiry_def Let_def
      decode_encode_string decode_encode_int
      simp del: pg_redis_encode_value.simps split: option.splits elim: value_ok.elims)

lemma row_ok_of_entry: "value_ok (e_value e) \<Longrightarrow> row_ok (store_row_of e)"
  by (cases "e_value e")
    (auto simp: row_ok_def store_row_of_def e_type_def decode_encode_string decode_encode_int
      simp del: pg_redis_encode_value.simps elim: value_ok.elims)

section \<open>Flushed entries\<close>

definition clean_hash :: "PgRedisHash \<Rightarrow> PgRedisHash" where
  "clean_hash h = h\<lparr>h_fields := hash_map_entries (\<lambda>k f. f\<lparr>hf_dirty := False\<rparr>) (h_fields h),
     h_tombstones := []\<rparr>"

definition clean_list :: "PgRedisList \<Rightarrow> PgRedisList" where
  "clean_list l = l\<lparr>l_nodes := map (\<lambda>n. n\<lparr>ln_pending_insert := False\<rparr>) (l_nodes l),
     l_pending_delete_ords := []\<rparr>"

fun clean_value :: "PgRedisValue \<Rightarrow> PgRedisValue" where
  "clean_value (HashValue (Some h)) = HashValue (Some (clean_hash h))"
| "clean_value (ListValue (Some l)) = ListValue (Some (clean_list l))"
| "clean_value v = v"

lemma flushed_collected:
  "flushed_entry (collected_entry e) =
     e\<lparr>e_value := clean_value (e_value e), e_in_dirty_set := False, e_dirty := False\<rparr>"
  by (cases e)
    (auto simp: flushed_entry_def collected_entry_def clean_hash_def clean_list_def Let_def
      split: PgRedisValue.splits option.splits)

lemma hash_map_clean [simp]: "hash_map (clean_hash h) = hash_map h"
  by (rule ext) (simp add: hash_map_def clean_hash_def option.map_comp comp_def)

lemma list_clean [simp]:
  "list_vals (clean_list l) = list_vals l" "list_ords (clean_list l) = list_ords l"
  "list_items (clean_list l) = list_items l"
  "list_durable_items (clean_list l) = list_items l"
  by (simp_all add: list_vals_def list_ords_def list_items_def list_durable_items_def clean_list_def
      comp_def filter_map)

lemma hash_ok_clean [simp]: "hash_ok h \<Longrightarrow> hash_ok (clean_hash h)"
  by (auto simp: hash_ok_def clean_hash_def hash_map_entries_def hash_num_entries_def
      field_bytes_sum_def list_all_iff comp_def case_prod_unfold htab_ok_def)

lemma list_ok_clean [simp]: "list_ok l \<Longrightarrow> list_ok (clean_list l)"
  by (simp add: list_ok_def clean_list_def list_ords_def node_bytes_sum_def comp_def hd_map last_map)

lemma value_ok_clean [simp]: "value_ok v \<Longrightarrow> value_ok (clean_value v)"
  by (cases v rule: clean_value.cases) auto

lemma abs_value_clean [simp]: "abs_value (clean_value v) = abs_value v"
  by (cases v rule: clean_value.cases) auto

lemma value_clean_clean [simp]: "value_clean (clean_value v)"
  by (cases v rule: clean_value.cases)
    (auto simp: clean_hash_def clean_list_def hash_map_entries_def list_all_iff)

text \<open>A clean value is synced with exactly its own rows.\<close>

lemma value_synced_clean:
  assumes "\<And>h. v = HashValue (Some h) \<Longrightarrow> db_fields d k = hash_map h"
    and "\<And>l. v = ListValue (Some l) \<Longrightarrow> db_items d k = map_of (list_items l)"
  shows "value_synced d k (clean_value v)"
  using assms
  by (cases v rule: clean_value.cases)
    (auto simp: hash_delta_ok_def field_delta_ok_def list_delta_ok_def clean_list_def hash_map_def
      clean_hash_def list_clean(4) [unfolded clean_list_def] split: option.splits)

section \<open>The flush under the invariant\<close>

lemma flush_inv_parts:
  assumes "flush_inv t d b"
  shows "store_ok b" "tracked b" "db_ok d" "\<And>k. key_inv t d b k"
  using assms by (simp_all add: flush_inv_def)

lemma flush_inv_dirty:
  assumes "flush_inv t d b" "k \<in> set (dirty_head b)"
  obtains e where "hash_find (store b) k = Some e" "value_ok (e_value e)"
    "value_synced d k (e_value e)" "key_ok k"
proof -
  obtain e where e: "hash_find (store b) k = Some e"
    using store_ok_chain [OF flush_inv_parts(1) [OF assms(1)] assms(2)] by auto
  with flush_inv_parts(4) [OF assms(1), of k] have "value_synced d k (e_value e)"
    by (simp add: key_inv_def)
  with e store_ok_entry [OF flush_inv_parts(1) [OF assms(1)] e] show thesis
    by (intro that) (simp_all add: entry_ok_def)
qed

lemma flushed_db_Nil: "flushed_db b [] [] d = d"
  by (simp add: flushed_db_def collect_dirty_rec vecs_init_def insert_on_conflict_update_def
      case_prod_unfold)

lemma distinct_at:
  assumes "value_ok (e_value e)" "hash_find (store b) k = Some e"
  shows "distinct (map fst (hf_up_at b k))" "distinct (map fst (li_ins_at b k))"
  using assms
  by (auto simp: hf_up_at_def li_ins_at_def distinct_dirty_items distinct_pending_items
      split: PgRedisValue.splits option.splits)

definition flushed_be :: "backend \<Rightarrow> backend" where
  "flushed_be b = map_keys (dirty_head b) (flushed_entry \<circ> collected_entry)
     (b\<lparr>dirty_head := [], pending_deletes_head := []\<rparr>)"

lemma map_keys_map_keys: "map_keys ks f (map_keys ks g b) = map_keys ks (f \<circ> g) b"
  by (simp add: map_keys_def hash_map_entries_def comp_def case_prod_unfold)

lemma hash_map_entries_id: "hash_map_entries (\<lambda>k e. e) t = t"
  by (simp add: hash_map_entries_def case_prod_unfold)

lemma run_flush_Inr:
  assumes inv: "flush_inv t d b"
  shows "run_flush True d b =
    (Inr (flushed_db b (dirty_head b) (collect_deletes (dirty_head b) (pending_deletes_head b)) d),
     flushed_be b)"
proof -
  let ?b2 = "b\<lparr>dirty_head := [], pending_deletes_head := []\<rparr>"
  have dist: "distinct (dirty_head b)"
    using flush_inv_parts(1) [OF inv] by (simp add: store_ok_def)
  have at: "hf_up_at ?b2 = hf_up_at b" "hf_del_at ?b2 = hf_del_at b" "li_ins_at ?b2 = li_ins_at b"
    "li_del_at ?b2 = li_del_at b" "collect_dirty ?b2 = collect_dirty b"
    by (simp_all add: fun_eq_iff hf_up_at_def hf_del_at_def li_ins_at_def li_del_at_def
        collect_dirty_def)
  have plans: "flush_plans (collect_dirty b (dirty_head b)) dels d =
      Inr (flushed_db b (dirty_head b) dels d)" for dels
  proof (rule flush_plans_Inr [OF dist])
    fix k assume "k \<in> set (dirty_head b)"
    with inv obtain e where e: "hash_find (store b) k = Some e" "value_ok (e_value e)"
      and syn: "value_synced d k (e_value e)" by (rule flush_inv_dirty)
    show "hash_find (store b) k \<noteq> None" by (simp add: e)
    show "distinct (map fst (li_ins_at b k))" using distinct_at [OF e(2,1)] by simp
    fix n assume n: "n \<in> fst ` set (li_ins_at b k)" "n \<notin> set (li_del_at b k)"
    show "hash_find (t_list d) (k, n) = None"
    proof (cases "\<exists>l. e_value e = ListValue (Some l)")
      case True
      then obtain l where l: "e_value e = ListValue (Some l)" by auto
      then have "db_items d k n = None"
        using n e syn by (intro list_delta_disjoint [of l]) (auto simp: li_ins_at_def li_del_at_def)
      then show ?thesis by (simp add: db_items_def)
    next
      case False
      then have "li_ins_at b k = []"
        by (cases "e_value e") (auto simp: li_ins_at_def e split: option.splits)
      with n show ?thesis by simp
    qed
  qed
  show ?thesis
  proof (cases "dirty_head b = [] \<and> pending_deletes_head b = []")
    case True
    then show ?thesis
      by (simp add: run_flush_def pg_redis_dirty_head_take_def pg_redis_pending_deletes_take_def
          flushed_be_def map_keys_def hash_map_entries_id collect_deletes_def flushed_db_Nil)
  next
    case False
    then show ?thesis
      by (auto simp: run_flush_def pg_redis_dirty_head_take_def pg_redis_pending_deletes_take_def
          flushed_be_def at plans map_keys_map_keys)
  qed
qed

lemma find_flushed_store:
  assumes inv: "flush_inv t d b"
  shows "hash_find (t_store (flushed_db b (dirty_head b) dels d)) k =
    (if k \<in> set dels then None
     else if k \<in> set (dirty_head b) then map_option store_row_of (hash_find (store b) k)
     else hash_find (t_store d) k)"
proof -
  have "distinct (dirty_head b)" using flush_inv_parts(1) [OF inv] by (simp add: store_ok_def)
  moreover have "hash_find (store b) k \<noteq> None" if "k \<in> set (dirty_head b)"
    using store_ok_chain [OF flush_inv_parts(1) [OF inv] that] by auto
  ultimately show ?thesis
    by (simp add: flushed_db_def Let_def find_flushed_parent cong: if_cong)
qed

lemma in_pairs_iff: "(k, n) \<in> set (concat (map (\<lambda>k. map (Pair k) (G k)) ks)) \<longleftrightarrow>
    k \<in> set ks \<and> n \<in> set (G k)"
  by auto

lemma find_flushed_hash:
  assumes inv: "flush_inv t d b"
  shows "hash_find (t_hash (flushed_db b (dirty_head b) dels d)) (k, f) =
    (if k \<in> set dels then None
     else if k \<in> set (dirty_head b)
     then (case map_of (hf_up_at b k) f of
             Some v \<Rightarrow> Some (Some v)
           | None \<Rightarrow> if f \<in> set (hf_del_at b k) then None else hash_find (t_hash d) (k, f))
     else hash_find (t_hash d) (k, f))"
proof -
  have "distinct (map fst (spread (hf_up_at b) (dirty_head b)))"
  proof (rule distinct_spread)
    show "distinct (dirty_head b)" using flush_inv_parts(1) [OF inv] by (simp add: store_ok_def)
    show "distinct (map fst (hf_up_at b k))" if "k \<in> set (dirty_head b)" for k
      using inv that by (rule flush_inv_dirty) (rule distinct_at(1))
  qed
  then show ?thesis
    by (simp add: flushed_db_def Let_def collect_hf_up collect_hf_del find_upsert_rows
        map_of_rev_distinct map_of_spread in_pairs_iff del: set_concat set_map
        split: option.splits)
qed

lemma find_flushed_list:
  assumes inv: "flush_inv t d b"
  shows "hash_find (t_list (flushed_db b (dirty_head b) dels d)) (k, n) =
    (if k \<in> set dels then None
     else if k \<in> set (dirty_head b)
     then (case map_of (li_ins_at b k) n of
             Some v \<Rightarrow> Some (Some v)
           | None \<Rightarrow> if n \<in> set (li_del_at b k) then None else hash_find (t_list d) (k, n))
     else hash_find (t_list d) (k, n))"
proof -
  have "distinct (map fst (spread (li_ins_at b) (dirty_head b)))"
  proof (rule distinct_spread)
    show "distinct (dirty_head b)" using flush_inv_parts(1) [OF inv] by (simp add: store_ok_def)
    show "distinct (map fst (li_ins_at b k))" if "k \<in> set (dirty_head b)" for k
      using inv that by (rule flush_inv_dirty) (rule distinct_at(2))
  qed
  then show ?thesis
    by (simp add: flushed_db_def Let_def collect_li_ins collect_li_del find_insert_rows
        map_of_rev_distinct map_of_spread in_pairs_iff del: set_concat set_map
        split: option.splits)
qed

lemma flushed_fields:
  assumes inv: "flush_inv t d b" and k: "k \<in> set (dirty_head b)" "k \<notin> set dels"
    and e: "hash_find (store b) k = Some e" "e_value e = HashValue (Some h)"
  shows "db_fields (flushed_db b (dirty_head b) dels d) k = hash_map h"
proof
  fix f
  have "value_ok (e_value e)" "value_synced d k (e_value e)"
    using flush_inv_dirty [OF inv k(1)] e(1) by (metis option.inject)+
  then have h: "hash_ok h" "hash_delta_ok (db_fields d k) h" by (simp_all add: e)
  show "db_fields (flushed_db b (dirty_head b) dels d) k f = hash_map h f"
    using hash_delta_apply [OF h, of f] k
    by (auto simp: db_fields_def find_flushed_hash [OF inv] hf_up_at_def hf_del_at_def e cell_def
        split: option.splits if_splits)
qed

lemma flushed_items:
  assumes inv: "flush_inv t d b" and k: "k \<in> set (dirty_head b)" "k \<notin> set dels"
    and e: "hash_find (store b) k = Some e" "e_value e = ListValue (Some l)"
  shows "db_items (flushed_db b (dirty_head b) dels d) k = map_of (list_items l)"
proof
  fix n
  have "value_ok (e_value e)" "value_synced d k (e_value e)"
    using flush_inv_dirty [OF inv k(1)] e(1) by (metis option.inject)+
  then have l: "list_ok l" "list_delta_ok (db_items d k) l" by (simp_all add: e)
  show "db_items (flushed_db b (dirty_head b) dels d) k n = map_of (list_items l) n"
    using list_delta_apply [OF l, of n] k
    by (auto simp: db_items_def find_flushed_list [OF inv] li_ins_at_def li_del_at_def e cell_def
        split: option.splits if_splits)
qed

lemma flushed_other:
  assumes inv: "flush_inv t d b" and k: "k \<notin> set (dirty_head b)" "k \<notin> set dels"
  shows "db_fields (flushed_db b (dirty_head b) dels d) k = db_fields d k"
    "db_items (flushed_db b (dirty_head b) dels d) k = db_items d k"
  using k
  by (simp_all add: fun_eq_iff db_fields_def db_items_def find_flushed_hash [OF inv]
      find_flushed_list [OF inv])

lemma htab_ok_flushed:
  "db_ok d \<Longrightarrow> htab_ok (t_store (flushed_db b ks dels d)) \<and> htab_ok (t_hash (flushed_db b ks dels d)) \<and>
     htab_ok (t_list (flushed_db b ks dels d))"
  by (simp add: flushed_db_def Let_def db_ok_def)

lemma find_flushed_be:
  "hash_find (store (flushed_be b)) k =
     map_option (\<lambda>e. if k \<in> set (dirty_head b)
       then e\<lparr>e_value := clean_value (e_value e), e_in_dirty_set := False, e_dirty := False\<rparr> else e)
     (hash_find (store b) k)"
  by (cases "hash_find (store b) k") (simp_all add: flushed_be_def map_keys_def flushed_collected)

lemma sorted_list_items: "list_ok l \<Longrightarrow> sorted_wrt (<) (map fst (list_items l))"
  by (simp add: list_ok_def list_items_def list_ords_def comp_def)

lemma flushed_view:
  assumes inv: "flush_inv t d b" and k: "k \<in> set (dirty_head b)" "k \<notin> set dels"
    and e: "hash_find (store b) k = Some e"
  shows "db_view (flushed_db b (dirty_head b) dels d) k = Some (abs_entry e)"
proof -
  let ?d = "flushed_db b (dirty_head b) dels d"
  have ok: "value_ok (e_value e)" using flush_inv_dirty [OF inv k(1)] e by (metis option.inject)
  have "row_view ?d k (store_row_of e) = Some (abs_entry e)"
  proof (rule row_view_of_entry [OF ok])
    fix h assume "e_value e = HashValue (Some h)"
    then show "db_fields ?d k = hash_map h" by (rule flushed_fields [OF inv k e])
  next
    fix l assume l: "e_value e = ListValue (Some l)"
    have "items_of ?d k = list_items l"
      using htab_ok_flushed [OF flush_inv_parts(3) [OF inv]] ok l
      by (intro items_of_eqI) (simp_all add: sorted_list_items flushed_items [OF inv k e l])
    then show "map snd (items_of ?d k) = list_vals l"
      by (simp add: list_items_def list_vals_def comp_def)
  qed
  then show ?thesis using k e by (simp add: db_view_def find_flushed_store [OF inv])
qed

lemma db_ok_flushed:
  assumes inv: "flush_inv t d b" and dels: "set dels \<inter> set (dirty_head b) = {}"
  shows "db_ok (flushed_db b (dirty_head b) dels d)"
proof -
  let ?d = "flushed_db b (dirty_head b) dels d"
  note d = flush_inv_parts(3) [OF inv, unfolded db_ok_iff]
  note dh = db_ok_hash [OF flush_inv_parts(3) [OF inv]]
  note dl = db_ok_list [OF flush_inv_parts(3) [OF inv]]
  have dirty: "\<exists>e. hash_find (store b) k = Some e \<and> value_ok (e_value e) \<and> key_ok k"
    if "k \<in> set (dirty_head b)" for k
    using flush_inv_dirty [OF inv that] by metis
  have rows: "key_ok k \<and> row_ok r" if "hash_find (t_store ?d) k = Some r" for k r
    using that d dirty [of k] by (auto simp: find_flushed_store [OF inv] row_ok_of_entry split: if_splits)
  have field_len: "length f \<le> PG_REDIS_MAX_FIELD_SIZE"
    if "k \<in> set (dirty_head b)" "map_of (hf_up_at b k) f = Some v" for k f v
  proof -
    from dirty [OF that(1)] obtain e where e: "hash_find (store b) k = Some e" "value_ok (e_value e)" by auto
    with that(2) obtain h where "e_value e = HashValue (Some h)"
      by (auto simp: hf_up_at_def split: PgRedisValue.splits option.splits)
    with that(2) e show ?thesis
      by (auto simp: hf_up_at_def map_of_dirty_items split: option.splits if_splits
          dest: hash_ok_field_len)
  qed
  have hash: "hash_find (t_store ?d) k \<noteq> None \<and> length f \<le> PG_REDIS_MAX_FIELD_SIZE"
    if "hash_find (t_hash ?d) (k, f) = Some v" for k f v
    using that dirty [of k] field_len [of k f] dh [of k f]
    by (auto simp: find_flushed_store [OF inv] find_flushed_hash [OF inv]
        split: if_splits option.splits)
  have items: "hash_find (t_store ?d) k \<noteq> None" if "hash_find (t_list ?d) (k, n) = Some v" for k n v
    using that dirty [of k] dl [of k n]
    by (auto simp: find_flushed_store [OF inv] find_flushed_list [OF inv]
        split: if_splits option.splits)
  show ?thesis
    unfolding db_ok_iff
    using htab_ok_flushed [OF flush_inv_parts(3) [OF inv]] rows hash items by blast
qed

lemma store_ok_flushed:
  assumes "store_ok b" "tracked b"
  shows "store_ok (flushed_be b)" "tracked (flushed_be b)" "raw_view (flushed_be b) = raw_view b"
proof -
  have h: "htab_ok (store (flushed_be b))"
    using assms by (simp add: flushed_be_def map_keys_def)
  have d: "dirty_head (flushed_be b) = []" by (simp add: flushed_be_def map_keys_def)
  have "entry_ok k e" if "hash_find (store (flushed_be b)) k = Some e" for k e
    using that store_ok_entry [OF assms(1), of k]
    by (auto simp: find_flushed_be entry_ok_def)
  then show "store_ok (flushed_be b)" by (simp add: store_ok_iff h d)
  have "\<not> e_in_dirty_set e" if "hash_find (store (flushed_be b)) k = Some e" for k e
  proof -
    from that obtain z where z: "hash_find (store b) k = Some z" and
      e: "e_in_dirty_set e = (if k \<in> set (dirty_head b) then False else e_in_dirty_set z)"
      by (auto simp: find_flushed_be)
    have "k \<in> set (dirty_head b) \<or> \<not> e_in_dirty_set z"
      using assms z by (auto simp: tracked_iff)
    with e show ?thesis by auto
  qed
  then show "tracked (flushed_be b)" by (simp add: tracked_iff h)
  show "raw_view (flushed_be b) = raw_view b"
  proof
    show "raw_view (flushed_be b) k = raw_view b k" for k
      by (cases "hash_find (store b) k")
        (simp_all add: raw_view_def find_flushed_be abs_entry_def e_expiry_def)
  qed
qed

text \<open>
  A flush under the invariant succeeds; afterwards nothing is pending, the store has not changed,
  and the tables stand for it.
\<close>

lemma run_flush_inv:
  assumes inv: "flush_inv t d b"
  obtains d' b' where "run_flush True d b = (Inr d', b')" "flush_inv t d' b'"
    "dirty_head b' = []" "pending_deletes_head b' = []" "raw_view b' = raw_view b"
    "persistence_loaded b' = persistence_loaded b"
proof -
  define dels where "dels = collect_deletes (dirty_head b) (pending_deletes_head b)"
  define d' where "d' = flushed_db b (dirty_head b) dels d"
  note so = store_ok_flushed [OF flush_inv_parts(1,2) [OF inv]]
  have dels: "k \<in> set dels \<longleftrightarrow> k \<in> set (pending_deletes_head b) \<and> k \<notin> set (dirty_head b)" for k
    by (auto simp: dels_def collect_deletes_def list_ex_iff)
  have ok: "db_ok d'" unfolding d'_def by (rule db_ok_flushed [OF inv]) (auto simp: dels)
  have heads: "dirty_head (flushed_be b) = []" "pending_deletes_head (flushed_be b) = []"
    "persistence_loaded (flushed_be b) = persistence_loaded b"
    by (simp_all add: flushed_be_def map_keys_def)
  have same: "db_view d' k = db_view d k" if "k \<notin> set (dirty_head b)" "k \<notin> set dels" for k
    using that ok flush_inv_parts(3) [OF inv] flushed_other [OF inv that]
    by (intro db_view_cong) (simp_all add: db_ok_def d'_def find_flushed_store [OF inv])
  have "key_inv t d' (flushed_be b) k" for k
  proof (cases "hash_find (store b) k")
    case None
    have nd: "k \<notin> set (dirty_head b)"
      using store_ok_chain [OF flush_inv_parts(1) [OF inv], of k] None by auto
    show ?thesis
    proof (cases "k \<in> set dels")
      case True
      then have "db_view d' k = None"
        by (simp add: d'_def db_view_def find_flushed_store [OF inv])
      with None show ?thesis by (simp add: key_inv_def find_flushed_be visible_def)
    next
      case False
      with None nd flush_inv_parts(4) [OF inv, of k] show ?thesis
        by (simp add: key_inv_def find_flushed_be visible_def same dels)
    qed
  next
    case (Some e)
    show ?thesis
    proof (cases "k \<in> set (dirty_head b)")
      case True
      then have kd: "k \<notin> set dels" by (simp add: dels)
      have "value_synced d' k (clean_value (e_value e))"
        unfolding d'_def
        by (rule value_synced_clean) (simp_all add: flushed_fields [OF inv True kd Some]
            flushed_items [OF inv True kd Some])
      moreover have "db_view d' k = Some (abs_entry e)"
        unfolding d'_def by (rule flushed_view [OF inv True kd Some])
      ultimately show ?thesis
        using Some True by (simp add: key_inv_def find_flushed_be heads abs_entry_def e_expiry_def)
    next
      case False
      with Some flush_inv_parts(4) [OF inv, of k]
      have e: "value_synced d k (e_value e)" "k \<notin> set dels" "db_view d k = Some (abs_entry e)"
        "value_clean (e_value e)"
        by (simp_all add: key_inv_def dels)
      have "value_synced d' k (e_value e)"
        using e(1) flushed_other [OF inv False e(2)] unfolding d'_def
        by (cases "e_value e" rule: clean_value.cases) simp_all
      with e False Some show ?thesis
        by (simp add: key_inv_def find_flushed_be heads same)
    qed
  qed
  then have "flush_inv t d' (flushed_be b)"
    using so ok by (simp add: flush_inv_def)
  then show thesis
    using that [of d' "flushed_be b"] run_flush_Inr [OF inv] heads so(3)
    by (simp add: d'_def dels_def)
qed

text \<open>With nothing pending, the tables stand for the store.\<close>

lemma flush_inv_settled:
  assumes inv: "flush_inv t d b" and "dirty_head b = []" "pending_deletes_head b = []" "t \<le> now"
  shows "visible now (db_view d) = visible now (raw_view b)"
proof
  fix k
  show "visible now (db_view d) k = visible now (raw_view b) k"
  proof (cases "hash_find (store b) k")
    case None
    then have "visible t (db_view d) k = None"
      using flush_inv_parts(4) [OF inv, of k] assms by (simp add: key_inv_def)
    then have "visible now (db_view d) k = None"
      using \<open>t \<le> now\<close> by (auto simp: visible_def expired_at_def split: option.splits if_splits)
    with None show ?thesis by (simp add: visible_def raw_view_def)
  next
    case (Some e)
    with flush_inv_parts(4) [OF inv, of k] assms show ?thesis
      by (simp add: key_inv_def visible_def raw_view_def)
  qed
qed

end
