(* ===== verification/Load.thy ===== *)
theory Load
  imports Durability
begin

text \<open>
  The reading half of \<open>src/persistence.c\<close> in session storage: the three queries of the
  cold-start load and \<open>pg_redis_persistence_load_if_needed\<close>. \<open>sql_now\<close> is the value of
  \<open>now()\<close> in the queries, \<open>now\<close> the clock reading of the entry operations while the rows
  are entered. The main lemma, \<open>do_load_inv\<close>, says that loading into an empty backend
  establishes the invariant of \<open>Durability\<close> with nothing pending.
\<close>

section \<open>Queries\<close>

definition unexpired :: "int \<Rightarrow> store_row \<Rightarrow> bool" where
  "unexpired sql_now r \<longleftrightarrow> (case r_expire r of None \<Rightarrow> True | Some t \<Rightarrow> t > sql_now)"

definition select_strings :: "int \<Rightarrow> db \<Rightarrow> (bytes \<times> store_row) list" where
  "select_strings sql_now d =
     filter (\<lambda>(k, r). (r_type r = ''string'' \<or> r_type r = ''int'') \<and> unexpired sql_now r) (t_store d)"

text \<open>The rows of a child table joined with their unexpired parents of one type.\<close>

definition select_join ::
    "int \<Rightarrow> string \<Rightarrow> db \<Rightarrow> (bytes \<times> 'n, bytes option) htab \<Rightarrow> (bytes \<times> 'n \<times> bytes option \<times> int option) list"
where
  "select_join sql_now ty d t =
     concat (map (\<lambda>((k, n), v).
       case hash_find (t_store d) k of
         None \<Rightarrow> []
       | Some r \<Rightarrow> if r_type r = ty \<and> unexpired sql_now r then [(k, n, v, r_expire r)] else []) t)"

definition select_hashes :: "int \<Rightarrow> db \<Rightarrow> (bytes \<times> bytes \<times> bytes option \<times> int option) list" where
  "select_hashes sql_now d = select_join sql_now ''hash'' d (t_hash d)"

definition select_lists :: "int \<Rightarrow> db \<Rightarrow> (bytes \<times> int \<times> bytes option \<times> int option) list" where
  "select_lists sql_now d =
     sort_key fst (sort_key (fst \<circ> snd) (select_join sql_now ''list'' d (t_list d)))"

section \<open>Entering rows\<close>

text \<open>
  A \<open>NULL\<close> value leaves the union as it is: a string stays, the zeroed union of a fresh entry
  is the \<open>NULL\<close> string and the integer 0.
\<close>

definition union_string :: "PgRedisValue \<Rightarrow> PgRedisValue" where
  "union_string v = (case v of StringValue s \<Rightarrow> StringValue s | _ \<Rightarrow> StringValue None)"

definition union_int :: "PgRedisValue \<Rightarrow> PgRedisValue" where
  "union_int v = (case v of IntValue i \<Rightarrow> IntValue i | _ \<Rightarrow> IntValue 0)"

definition load_string_meta :: "int option \<Rightarrow> PgRedisEntry \<Rightarrow> PgRedisEntry" where
  "load_string_meta expire e =
     (case expire of
        Some t \<Rightarrow> e\<lparr>e_has_expire := True, e_expire_at := t, e_dirty := False\<rparr>
      | None \<Rightarrow> e\<lparr>e_has_expire := False, e_dirty := False\<rparr>)"

definition load_string_row :: "int \<Rightarrow> backend \<Rightarrow> bytes \<times> store_row \<Rightarrow> backend" where
  "load_string_row now b row =
     (case row of (key, r) \<Rightarrow>
        if length key > PG_REDIS_MAX_KEY_SIZE then b
        else case pg_redis_store_upsert now key b of (is_new, e, b1) \<Rightarrow>
          if r_type r = ''string'' then
            (case r_value r of
               None \<Rightarrow> entry_put key (load_string_meta (r_expire r) (e\<lparr>e_value := union_string (e_value e)\<rparr>)) b1
             | Some raw \<Rightarrow>
                 (case pg_redis_decode_string (Some raw) of
                    Some s \<Rightarrow> entry_put key (load_string_meta (r_expire r) (e\<lparr>e_value := StringValue (Some s)\<rparr>)) b1
                  | None \<Rightarrow> snd (pg_redis_store_remove key b1)))
          else if r_type r = ''int'' then
            (case r_value r of
               None \<Rightarrow> entry_put key (load_string_meta (r_expire r) (e\<lparr>e_value := union_int (e_value e)\<rparr>)) b1
             | Some raw \<Rightarrow>
                 (case pg_redis_decode_int (Some raw) of
                    Some i \<Rightarrow> entry_put key (load_string_meta (r_expire r) (e\<lparr>e_value := IntValue i\<rparr>)) b1
                  | None \<Rightarrow> snd (pg_redis_store_remove key b1)))
          else b1)"

definition load_strings_and_ints :: "int \<Rightarrow> int \<Rightarrow> db \<Rightarrow> backend \<Rightarrow> backend" where
  "load_strings_and_ints sql_now now d b = foldl (load_string_row now) b (select_strings sql_now d)"

definition load_child_meta :: "int option \<Rightarrow> PgRedisEntry \<Rightarrow> PgRedisEntry" where
  "load_child_meta expire e =
     (case expire of
        Some t \<Rightarrow> e\<lparr>e_has_expire := True, e_expire_at := t, e_dirty := False\<rparr>
      | None \<Rightarrow> e\<lparr>e_dirty := False\<rparr>)"

definition hash_of :: "PgRedisValue \<Rightarrow> PgRedisHash" where
  "hash_of v = (case v of HashValue (Some h) \<Rightarrow> h | _ \<Rightarrow> pg_redis_hash_create)"

definition list_of :: "PgRedisValue \<Rightarrow> PgRedisList" where
  "list_of v = (case v of ListValue (Some l) \<Rightarrow> l | _ \<Rightarrow> pg_redis_list_create)"

definition hash_clear_dirty :: "PgRedisHash \<Rightarrow> PgRedisHash" where
  "hash_clear_dirty h = h\<lparr>h_fields := hash_map_entries (\<lambda>k f. f\<lparr>hf_dirty := False\<rparr>) (h_fields h)\<rparr>"

text \<open>\<open>pg_redis_hash_set\<close> raises for a long field only, and such a row has been skipped.\<close>

definition load_hash_entry :: "bool \<Rightarrow> PgRedisEntry \<Rightarrow> bytes \<Rightarrow> bytes option \<Rightarrow> int option \<Rightarrow> PgRedisEntry" where
  "load_hash_entry is_new e field value expire =
     (let e1 = (if is_new \<or> e_type e \<noteq> PG_REDIS_TYPE_HASH
                then (pg_redis_entry_release_value False e)\<lparr>e_value := HashValue (Some pg_redis_hash_create)\<rparr>
                else e);
          h1 = (case pg_redis_hash_set (hash_of (e_value e1)) field (cell value) of
                  Inr (_, h) \<Rightarrow> h | Inl _ \<Rightarrow> hash_of (e_value e1))
      in load_child_meta expire (e1\<lparr>e_value := HashValue (Some (hash_clear_dirty h1))\<rparr>))"

definition load_hash_row ::
    "int \<Rightarrow> backend \<Rightarrow> bytes \<times> bytes \<times> bytes option \<times> int option \<Rightarrow> backend" where
  "load_hash_row now b row =
     (case row of (key, field, value, expire) \<Rightarrow>
        if length key > PG_REDIS_MAX_KEY_SIZE then b
        else if length field > PG_REDIS_MAX_FIELD_SIZE then b
        else case pg_redis_store_upsert now key b of (is_new, e, b1) \<Rightarrow>
          entry_put key (load_hash_entry is_new e field value expire) b1)"

definition load_hashes :: "int \<Rightarrow> int \<Rightarrow> db \<Rightarrow> backend \<Rightarrow> backend" where
  "load_hashes sql_now now d b = foldl (load_hash_row now) b (select_hashes sql_now d)"

text \<open>The tail that \<open>rpush\<close> appended gets the ordinal of the row.\<close>

definition list_set_tail :: "int \<Rightarrow> PgRedisList \<Rightarrow> PgRedisList" where
  "list_set_tail ord l =
     (let ns = butlast (l_nodes l) @ [(last (l_nodes l))\<lparr>ln_ord := ord, ln_pending_insert := False\<rparr>];
          l1 = l\<lparr>l_nodes := ns\<rparr>;
          l2 = (if length ns = 1 then l1\<lparr>l_min_ord := ord\<rparr> else l1)
      in l2\<lparr>l_max_ord := ord, l_ord_initialized := True\<rparr>)"

definition load_list_entry :: "bool \<Rightarrow> PgRedisEntry \<Rightarrow> int \<Rightarrow> bytes option \<Rightarrow> int option \<Rightarrow> PgRedisEntry" where
  "load_list_entry is_new e ord value expire =
     (let e1 = (if is_new \<or> e_type e \<noteq> PG_REDIS_TYPE_LIST
                then (pg_redis_entry_release_value False e)\<lparr>e_value := ListValue (Some pg_redis_list_create)\<rparr>
                else e);
          l1 = list_set_tail ord (snd (pg_redis_list_rpush (cell value) (list_of (e_value e1))))
      in load_child_meta expire (e1\<lparr>e_value := ListValue (Some l1)\<rparr>))"

definition load_list_row ::
    "int \<Rightarrow> backend \<Rightarrow> bytes \<times> int \<times> bytes option \<times> int option \<Rightarrow> backend" where
  "load_list_row now b row =
     (case row of (key, ord, value, expire) \<Rightarrow>
        if length key > PG_REDIS_MAX_KEY_SIZE then b
        else case pg_redis_store_upsert now key b of (is_new, e, b1) \<Rightarrow>
          entry_put key (load_list_entry is_new e ord value expire) b1)"

definition load_lists :: "int \<Rightarrow> int \<Rightarrow> db \<Rightarrow> backend \<Rightarrow> backend" where
  "load_lists sql_now now d b = foldl (load_list_row now) b (select_lists sql_now d)"

section \<open>The load\<close>

definition pg_redis_persistence_do_load ::
    "bool \<Rightarrow> int \<Rightarrow> int \<Rightarrow> db \<Rightarrow> backend \<Rightarrow> backend result" where
  "pg_redis_persistence_do_load spi_ok sql_now now d b =
     (if \<not> spi_ok then Inl SpiConnectFailed
      else Inr (load_lists sql_now now d (load_hashes sql_now now d (load_strings_and_ints sql_now now d b))))"

definition pg_redis_persistence_load_if_needed ::
    "guc \<Rightarrow> bool \<Rightarrow> int \<Rightarrow> int \<Rightarrow> db \<Rightarrow> backend \<Rightarrow> unit result \<times> backend" where
  "pg_redis_persistence_load_if_needed g spi_ok sql_now now d b =
     (if persistence_loaded b then (Inr (), b)
      else
        let b1 = pg_redis_persistence_init b
        in if pg_redis_resolve_persistence_mode g = PG_REDIS_PERSIST_NONE
           then (Inr (), b1\<lparr>persistence_loaded := True\<rparr>)
           else case pg_redis_persistence_do_load spi_ok sql_now now d b1 of
                  Inl err \<Rightarrow> (Inl err, b1)
                | Inr b2 \<Rightarrow> (Inr (), b2\<lparr>persistence_loaded := True\<rparr>))"

section \<open>Loading, key by key\<close>

definition up_entry :: "int \<Rightarrow> PgRedisEntry option \<Rightarrow> bool \<times> PgRedisEntry" where
  "up_entry now eo =
     (case eo of
        None \<Rightarrow> (True, fresh_entry)
      | Some e \<Rightarrow> if pg_redis_entry_is_expired now e
                  then (True, fresh_entry\<lparr>e_in_dirty_set := e_in_dirty_set e\<rparr>) else (False, e))"

lemma upsert_up_entry:
  "pg_redis_store_upsert now key b =
     (case up_entry now (hash_find (store b) key) of (n, e) \<Rightarrow> (n, e, entry_put key e b))"
  by (simp add: upsert_cases up_entry_def split: option.splits)

lemma fold_rows:
  assumes "\<And>b r. r \<in> set rows \<Longrightarrow> step b r = entry_put (ky r) (est (hash_find (store b) (ky r)) r) b"
  shows "hash_find (store (foldl step b rows)) k =
      foldl (\<lambda>eo r. Some (est eo r)) (hash_find (store b) k) (filter (\<lambda>r. ky r = k) rows)"
    and "dirty_head (foldl step b rows) = dirty_head b"
    and "pending_deletes_head (foldl step b rows) = pending_deletes_head b"
    and "htab_ok (store b) \<Longrightarrow> htab_ok (store (foldl step b rows))"
  using assms
  by (induction rows arbitrary: b) (simp_all add: entry_put_def)

text \<open>What an entry holds after the rows \<open>rs\<close> of its key.\<close>

definition loaded_meta :: "int option \<Rightarrow> PgRedisEntry \<Rightarrow> bool" where
  "loaded_meta x e \<longleftrightarrow> \<not> e_in_dirty_set e \<and> e_expiry e = x"

definition hash_loaded :: "int option \<Rightarrow> (bytes \<times> bytes) list \<Rightarrow> PgRedisEntry \<Rightarrow> bool" where
  "hash_loaded x rs e \<longleftrightarrow> loaded_meta x e \<and>
     (\<exists>h. e_value e = HashValue (Some h) \<and> hash_ok h \<and> hash_map h = map_of (rev rs) \<and>
          value_clean (HashValue (Some h)))"

definition list_loaded :: "int option \<Rightarrow> (int \<times> bytes) list \<Rightarrow> PgRedisEntry \<Rightarrow> bool" where
  "list_loaded x rs e \<longleftrightarrow> loaded_meta x e \<and>
     (\<exists>l. e_value e = ListValue (Some l) \<and> list_ok l \<and> list_items l = rs \<and>
          value_clean (ListValue (Some l)))"

definition fresh_at :: "int \<Rightarrow> int option \<Rightarrow> bool" where
  "fresh_at now x \<longleftrightarrow> (case x of None \<Rightarrow> True | Some t \<Rightarrow> now < t)"

lemma up_entry_loaded:
  "loaded_meta x e \<Longrightarrow> fresh_at now x \<Longrightarrow> up_entry now (Some e) = (False, e)"
  by (auto simp: loaded_meta_def fresh_at_def up_entry_def pg_redis_entry_is_expired_def e_expiry_def
      split: if_splits option.splits)

lemma loaded_meta_child:
  "loaded_meta x e \<Longrightarrow> loaded_meta x (load_child_meta x (e\<lparr>e_value := v\<rparr>))"
  "loaded_meta x (load_child_meta x ((pg_redis_entry_release_value False fresh_entry)\<lparr>e_value := v\<rparr>))"
  by (auto simp: loaded_meta_def load_child_meta_def e_expiry_def fresh_entry_def
      pg_redis_entry_release_value_def Let_def split: option.splits if_splits)

lemma e_value_child_meta [simp]: "e_value (load_child_meta x e) = e_value e"
  by (simp add: load_child_meta_def split: option.splits)

lemma hash_step_clean:
  assumes "hash_ok h" "hash_map h = map_of (rev rs)" "h_tombstones h = []"
    and "length f \<le> PG_REDIS_MAX_FIELD_SIZE"
  shows "\<exists>h'. pg_redis_hash_set h f v = Inr h' \<and> hash_ok (hash_clear_dirty (snd h')) \<and>
    hash_map (hash_clear_dirty (snd h')) = map_of (rev (rs @ [(f, v)])) \<and>
    value_clean (HashValue (Some (hash_clear_dirty (snd h'))))"
proof -
  obtain new h' where s: "pg_redis_hash_set h f v = Inr (new, h')"
    using hash_set_Inr [OF assms(4)] by blast
  have ok: "hash_ok h'" by (rule hash_ok_set [OF assms(1) s])
  have t: "h_tombstones h' = []" using hash_set_cases [OF s] assms(3) by simp
  then have "hash_clear_dirty h' = clean_hash h'" by (simp add: hash_clear_dirty_def clean_hash_def)
  then show ?thesis
    using s ok assms(2) hash_map_set [OF s] value_clean_clean [of "HashValue (Some h')"] by auto
qed

lemma load_hash_first:
  assumes "length f \<le> PG_REDIS_MAX_FIELD_SIZE"
  shows "hash_loaded x [(f, cell v)] (load_hash_entry True fresh_entry f v x)"
proof -
  have "hash_map pg_redis_hash_create = map_of (rev [])" "h_tombstones pg_redis_hash_create = []"
    by (simp_all add: fun_eq_iff pg_redis_hash_create_def hash_map_def)
  from hash_step_clean [OF hash_ok_create this assms, of "cell v"] show ?thesis
    by (auto simp: hash_loaded_def load_hash_entry_def Let_def hash_of_def loaded_meta_child)
qed

lemma load_hash_next:
  assumes "hash_loaded x rs e" "length f \<le> PG_REDIS_MAX_FIELD_SIZE"
  shows "hash_loaded x (rs @ [(f, cell v)]) (load_hash_entry False e f v x)"
proof -
  obtain h where h: "e_value e = HashValue (Some h)" "hash_ok h" "hash_map h = map_of (rev rs)"
    "h_tombstones h = []" and m: "loaded_meta x e"
    using assms(1) by (auto simp: hash_loaded_def)
  from hash_step_clean [OF h(2-4) assms(2), of "cell v"] h(1) m show ?thesis
    by (auto simp: hash_loaded_def load_hash_entry_def Let_def hash_of_def e_type_def loaded_meta_child)
qed

lemma list_step_clean:
  fixes l :: PgRedisList and v :: bytes and ord :: int
  assumes "list_ok l" "list_items l = rs" "value_clean (ListValue (Some l))"
    and "\<forall>n \<in> fst ` set rs. n < ord"
  defines "l' \<equiv> list_set_tail ord (snd (pg_redis_list_rpush v l))"
  shows "list_ok l' \<and> list_items l' = rs @ [(ord, v)] \<and> value_clean (ListValue (Some l'))"
proof -
  let ?n = "\<lparr>ln_value = v, ln_ord = ord, ln_pending_insert = False\<rparr>"
  have nodes: "l_nodes l' = l_nodes l @ [?n]"
    by (simp add: l'_def list_set_tail_def list_op_defs)
  have flds: "l_length l' = l_length l + 1"
    "l_memory_usage l' = l_memory_usage l + (sizeof_PgRedisListNode + length v)"
    "l_min_ord l' = (if l_nodes l = [] then ord else l_min_ord l)" "l_max_ord l' = ord"
    "l_ord_initialized l'" "l_pending_delete_ords l' = l_pending_delete_ords l"
    using assms(1) by (auto simp: l'_def list_set_tail_def list_op_defs list_ok_def)
  have "\<forall>n \<in> ln_ord ` set (l_nodes l). n < ord"
    using assms(2,4) by (auto simp: list_items_def)
  then show ?thesis
    using assms(1-3) nodes flds
    by (auto simp: list_ok_def list_items_def list_ords_def node_bytes_sum_def sorted_wrt_append)
qed

lemma load_list_first:
  "list_loaded x [(n, cell v)] (load_list_entry True fresh_entry n v x)"
proof -
  have "list_items pg_redis_list_create = []" "value_clean (ListValue (Some pg_redis_list_create))"
    by (simp_all add: pg_redis_list_create_def list_items_def)
  from list_step_clean [OF list_ok_create this, of n "cell v"] show ?thesis
    by (simp add: list_loaded_def load_list_entry_def Let_def list_of_def loaded_meta_child)
qed

lemma load_list_next:
  assumes "list_loaded x rs e" "\<forall>m \<in> fst ` set rs. m < n"
  shows "list_loaded x (rs @ [(n, cell v)]) (load_list_entry False e n v x)"
proof -
  obtain l where l: "e_value e = ListValue (Some l)" "list_ok l" "list_items l = rs"
    "value_clean (ListValue (Some l))" and m: "loaded_meta x e"
    using assms(1) by (auto simp: list_loaded_def)
  from list_step_clean [OF l(2-4) assms(2), of "cell v"] l(1) m show ?thesis
    by (simp add: list_loaded_def load_list_entry_def Let_def list_of_def e_type_def loaded_meta_child)
qed

section \<open>The rows of one key\<close>

lemma filter_key_distinct:
  "distinct (map fst xs) \<Longrightarrow>
   filter (\<lambda>r. fst r = k) xs = (case map_of xs k of None \<Rightarrow> [] | Some v \<Rightarrow> [(k, v)])"
proof (induction xs)
  case (Cons p xs)
  have "filter (\<lambda>r. fst r = k) xs = []" if "k \<notin> fst ` set xs"
    using that by (auto simp: filter_empty_conv)
  with Cons show ?case by (cases p) (auto simp: map_of_eq_None_iff)
qed simp

definition raw_rows :: "(bytes \<times> 'n, bytes option) htab \<Rightarrow> bytes \<Rightarrow> ('n \<times> bytes option) list" where
  "raw_rows t k = map (\<lambda>((k', n), v). (n, v)) (filter (\<lambda>((k', n), v). k' = k) t)"

lemma rows_of_raw: "rows_of t k = map (\<lambda>(n, v). (n, cell v)) (raw_rows t k)"
  by (simp add: rows_of_def raw_rows_def comp_def case_prod_unfold)

lemma filter_select_join:
  "filter (\<lambda>r. fst r = k) (select_join sql_now ty d t) =
     (case hash_find (t_store d) k of
        None \<Rightarrow> []
      | Some r \<Rightarrow> if r_type r = ty \<and> unexpired sql_now r
                  then map (\<lambda>(n, v). (k, n, v, r_expire r)) (raw_rows t k) else [])"
proof (induction t)
  case (Cons p t)
  obtain k' n v where p: "p = ((k', n), v)" by (metis surj_pair)
  show ?case
  proof (cases "k' = k")
    case True
    with Cons show ?thesis
      by (auto simp: select_join_def raw_rows_def p split: option.splits)
  next
    case False
    then have "filter (\<lambda>r. fst r = k)
        (case hash_find (t_store d) k' of None \<Rightarrow> []
         | Some r \<Rightarrow> if r_type r = ty \<and> unexpired sql_now r then [(k', n, v, r_expire r)] else []) = []"
      by (auto split: option.splits)
    moreover have rr: "raw_rows (p # t) k = raw_rows t k" using False by (simp add: raw_rows_def p)
    ultimately show ?thesis unfolding rr using Cons by (simp add: select_join_def p)
  qed
qed (simp add: select_join_def raw_rows_def split: option.splits)

lemma hash_fold_loaded:
  assumes "fresh_at now x" "rs \<noteq> []" "\<forall>(f, v) \<in> set rs. length f \<le> PG_REDIS_MAX_FIELD_SIZE"
  shows "\<exists>e. foldl (\<lambda>eo (f, v). Some (case up_entry now eo of (n, e) \<Rightarrow> load_hash_entry n e f v x)) None rs =
      Some e \<and> hash_loaded x (map (\<lambda>(f, v). (f, cell v)) rs) e"
  using assms(2,3)
proof (induction rs rule: rev_nonempty_induct)
  case (single p)
  obtain f v where "p = (f, v)" by (cases p)
  with single show ?case by (simp add: up_entry_def load_hash_first)
next
  case (snoc p rs)
  obtain f v where p: "p = (f, v)" by (cases p)
  from snoc obtain e where "foldl (\<lambda>eo (f, v). Some (case up_entry now eo of (n, e) \<Rightarrow> load_hash_entry n e f v x)) None rs =
      Some e" and e: "hash_loaded x (map (\<lambda>(f, v). (f, cell v)) rs) e" by auto
  moreover have "up_entry now (Some e) = (False, e)"
    using e assms(1) by (intro up_entry_loaded) (simp_all add: hash_loaded_def)
  ultimately show ?case using load_hash_next [OF e, of f v] snoc.prems by (simp add: p)
qed

lemma list_fold_loaded:
  assumes "fresh_at now x" "rs \<noteq> []" "sorted_wrt (<) (map fst rs)"
  shows "\<exists>e. foldl (\<lambda>eo (n, v). Some (case up_entry now eo of (nw, e) \<Rightarrow> load_list_entry nw e n v x)) None rs =
      Some e \<and> list_loaded x (map (\<lambda>(n, v). (n, cell v)) rs) e"
  using assms(2,3)
proof (induction rs rule: rev_nonempty_induct)
  case (single p)
  obtain n v where "p = (n, v)" by (cases p)
  then show ?case by (simp add: up_entry_def load_list_first)
next
  case (snoc p rs)
  obtain n v where p: "p = (n, v)" by (cases p)
  from snoc obtain e where "foldl (\<lambda>eo (n, v). Some (case up_entry now eo of (nw, e) \<Rightarrow> load_list_entry nw e n v x)) None rs =
      Some e" and e: "list_loaded x (map (\<lambda>(n, v). (n, cell v)) rs) e" by (auto simp: sorted_wrt_append)
  moreover have "up_entry now (Some e) = (False, e)"
    using e assms(1) by (intro up_entry_loaded) (simp_all add: list_loaded_def)
  moreover have "\<forall>m \<in> fst ` set (map (\<lambda>(n, v). (n, cell v)) rs). m < n"
    using snoc.prems by (auto simp: p sorted_wrt_append)
  ultimately show ?case using load_list_next [OF e, of n v] by (simp add: p)
qed

section \<open>The three stages\<close>

lemma sort_key_map: "sort_key g (map h xs) = map h (sort_key (g \<circ> h) xs)"
proof (induction xs)
  case (Cons a xs)
  have "insort_key g (h a) (map h ys) = map h (insort_key (g \<circ> h) a ys)" for ys
    by (induction ys) auto
  with Cons show ?case by (simp add: comp_def)
qed simp

definition est_string :: "int \<Rightarrow> PgRedisEntry option \<Rightarrow> bytes \<times> store_row \<Rightarrow> PgRedisEntry" where
  "est_string now eo row =
     (let r = snd row; e = snd (up_entry now eo)
      in load_string_meta (r_expire r)
        (e\<lparr>e_value := (if r_type r = ''string'' then StringValue (pg_redis_decode_string (r_value r))
                     else IntValue (the (pg_redis_decode_int (r_value r))))\<rparr>))"

lemma load_string_row_put:
  assumes "key_ok (fst row)" "row_ok (snd row)" "r_type (snd row) \<in> {''string'', ''int''}"
  shows "load_string_row now b row =
    entry_put (fst row) (est_string now (hash_find (store b) (fst row)) row) b"
proof -
  obtain k r where row: "row = (k, r)" by (cases row)
  have "pg_redis_decode_string None = None" "pg_redis_decode_int None = None"
    by (simp_all add: pg_redis_decode_string_def pg_redis_decode_int_def decode_header_def)
  with assms show ?thesis
    by (cases "r_value r")
      (auto simp: row load_string_row_def est_string_def Let_def upsert_up_entry key_ok_def row_ok_def
        split: prod.splits option.splits)
qed

lemma load_hash_row_put:
  assumes "key_ok (fst row)" "length (fst (snd row)) \<le> PG_REDIS_MAX_FIELD_SIZE"
  shows "load_hash_row now b row = entry_put (fst row)
    (case row of (k, f, v, x) \<Rightarrow> case up_entry now (hash_find (store b) (fst row)) of
       (n, e) \<Rightarrow> load_hash_entry n e f v x) b"
  using assms
  by (auto simp: load_hash_row_def upsert_up_entry key_ok_def split: prod.splits)

lemma load_list_row_put:
  assumes "key_ok (fst row)"
  shows "load_list_row now b row = entry_put (fst row)
    (case row of (k, o', v, x) \<Rightarrow> case up_entry now (hash_find (store b) (fst row)) of
       (n, e) \<Rightarrow> load_list_entry n e o' v x) b"
  using assms
  by (auto simp: load_list_row_def upsert_up_entry key_ok_def split: prod.splits)

lemma in_select_join:
  "(k, n, v, x) \<in> set (select_join sql_now ty d t) \<Longrightarrow>
     hash_find (t_store d) k \<noteq> None \<and> ((k, n), v) \<in> set t"
  by (cases "hash_find (t_store d) k") (auto simp: select_join_def split: option.splits if_splits)

lemma stage_strings:
  fixes sql_now now :: int and b :: backend
  assumes d: "db_ok d"
  defines "b' \<equiv> load_strings_and_ints sql_now now d b"
  shows "hash_find (store b') k =
      (case hash_find (t_store d) k of
         Some r \<Rightarrow> if r_type r \<in> {''string'', ''int''} \<and> unexpired sql_now r
                   then Some (est_string now (hash_find (store b) k) (k, r)) else hash_find (store b) k
       | None \<Rightarrow> hash_find (store b) k)"
    and "dirty_head b' = dirty_head b" "pending_deletes_head b' = pending_deletes_head b"
    and "htab_ok (store b) \<Longrightarrow> htab_ok (store b')"
proof -
  have put: "load_string_row now b r = entry_put (fst r) (est_string now (hash_find (store b) (fst r)) r) b"
    if "r \<in> set (select_strings sql_now d)" for b r
  proof (rule load_string_row_put)
    have m: "(fst r, snd r) \<in> set (t_store d)" "r_type (snd r) \<in> {''string'', ''int''}"
      using that by (auto simp: select_strings_def)
    then have "hash_find (t_store d) (fst r) = Some (snd r)"
      using hash_seq_find [of "t_store d" "fst r" "snd r"] d by (simp add: hash_seq_def db_ok_def)
    with m show "key_ok (fst r)" "row_ok (snd r)" "r_type (snd r) \<in> {''string'', ''int''}"
      using db_ok_store [OF d] by blast+
  qed
  have dist: "distinct (map fst (t_store d))" using d by (simp add: db_ok_def htab_ok_def)
  have "filter (\<lambda>r. fst r = k) (select_strings sql_now d) =
      (case hash_find (t_store d) k of
         Some r \<Rightarrow> if r_type r \<in> {''string'', ''int''} \<and> unexpired sql_now r then [(k, r)] else []
       | None \<Rightarrow> [])"
    using filter_key_distinct [of "select_strings sql_now d" k]
      map_of_filter_Some [OF dist, of "\<lambda>(k, r). (r_type r = ''string'' \<or> r_type r = ''int'') \<and> unexpired sql_now r" k]
    by (auto simp: select_strings_def hash_find_def distinct_map_filter dist split: option.splits)
  then show "hash_find (store b') k =
      (case hash_find (t_store d) k of
         Some r \<Rightarrow> if r_type r \<in> {''string'', ''int''} \<and> unexpired sql_now r
                   then Some (est_string now (hash_find (store b) k) (k, r)) else hash_find (store b) k
       | None \<Rightarrow> hash_find (store b) k)"
    unfolding b'_def load_strings_and_ints_def
    by (subst fold_rows(1) [OF put]) (simp_all split: option.splits)
  show "dirty_head b' = dirty_head b" "pending_deletes_head b' = pending_deletes_head b"
    "htab_ok (store b) \<Longrightarrow> htab_ok (store b')"
    unfolding b'_def load_strings_and_ints_def by (simp_all add: fold_rows(2-4) [OF put])
qed

lemma stage_hashes:
  fixes sql_now now :: int and b :: backend
  assumes d: "db_ok d"
  defines "b' \<equiv> load_hashes sql_now now d b"
  shows "hash_find (store b') k =
      (case hash_find (t_store d) k of
         Some r \<Rightarrow> if r_type r = ''hash'' \<and> unexpired sql_now r
           then foldl (\<lambda>eo (f, v). Some (case up_entry now eo of (n, e) \<Rightarrow> load_hash_entry n e f v (r_expire r)))
                  (hash_find (store b) k) (raw_rows (t_hash d) k)
           else hash_find (store b) k
       | None \<Rightarrow> hash_find (store b) k)"
    and "dirty_head b' = dirty_head b" "pending_deletes_head b' = pending_deletes_head b"
    and "htab_ok (store b) \<Longrightarrow> htab_ok (store b')"
proof -
  have put: "load_hash_row now b row = entry_put (fst row)
      (case row of (k, f, v, x) \<Rightarrow> case up_entry now (hash_find (store b) (fst row)) of
         (n, e) \<Rightarrow> load_hash_entry n e f v x) b"
    if "row \<in> set (select_hashes sql_now d)" for b row
  proof (rule load_hash_row_put)
    obtain k f v x where row: "row = (k, f, v, x)" by (metis surj_pair)
    with that have m: "hash_find (t_store d) k \<noteq> None" "((k, f), v) \<in> set (t_hash d)"
      using in_select_join by (fastforce simp: select_hashes_def)+
    then have "hash_find (t_hash d) (k, f) = Some v"
      using hash_seq_find [of "t_hash d"] d by (simp add: hash_seq_def db_ok_def)
    with m(1) show "key_ok (fst row)" "length (fst (snd row)) \<le> PG_REDIS_MAX_FIELD_SIZE"
      using db_ok_hash [OF d, of k f v] db_ok_store [OF d, of k] by (auto simp: row)
  qed
  show "hash_find (store b') k =
      (case hash_find (t_store d) k of
         Some r \<Rightarrow> if r_type r = ''hash'' \<and> unexpired sql_now r
           then foldl (\<lambda>eo (f, v). Some (case up_entry now eo of (n, e) \<Rightarrow> load_hash_entry n e f v (r_expire r)))
                  (hash_find (store b) k) (raw_rows (t_hash d) k)
           else hash_find (store b) k
       | None \<Rightarrow> hash_find (store b) k)"
    unfolding b'_def load_hashes_def
    by (subst fold_rows(1) [OF put], assumption)
      (simp add: select_hashes_def filter_select_join foldl_map case_prod_unfold split: option.splits)
  show "dirty_head b' = dirty_head b" "pending_deletes_head b' = pending_deletes_head b"
    "htab_ok (store b) \<Longrightarrow> htab_ok (store b')"
    unfolding b'_def load_hashes_def by (simp_all add: fold_rows(2-4) [OF put])
qed

lemma stage_lists:
  fixes sql_now now :: int and b :: backend
  assumes d: "db_ok d"
  defines "b' \<equiv> load_lists sql_now now d b"
  shows "hash_find (store b') k =
      (case hash_find (t_store d) k of
         Some r \<Rightarrow> if r_type r = ''list'' \<and> unexpired sql_now r
           then foldl (\<lambda>eo (o', v). Some (case up_entry now eo of (n, e) \<Rightarrow> load_list_entry n e o' v (r_expire r)))
                  (hash_find (store b) k) (sort_key fst (raw_rows (t_list d) k))
           else hash_find (store b) k
       | None \<Rightarrow> hash_find (store b) k)"
    and "dirty_head b' = dirty_head b" "pending_deletes_head b' = pending_deletes_head b"
    and "htab_ok (store b) \<Longrightarrow> htab_ok (store b')"
proof -
  have put: "load_list_row now b row = entry_put (fst row)
      (case row of (k, o', v, x) \<Rightarrow> case up_entry now (hash_find (store b) (fst row)) of
         (n, e) \<Rightarrow> load_list_entry n e o' v x) b"
    if "row \<in> set (select_lists sql_now d)" for b row
  proof (rule load_list_row_put)
    obtain k f v x where row: "row = (k, f, v, x)" by (metis surj_pair)
    with that have "hash_find (t_store d) k \<noteq> None"
      using in_select_join by (fastforce simp: select_lists_def)
    then show "key_ok (fst row)" using db_ok_store [OF d] by (auto simp: row)
  qed
  have rows: "filter (\<lambda>r. fst r = k) (select_lists sql_now d) =
      sort_key (fst \<circ> snd) (filter (\<lambda>r. fst r = k) (select_join sql_now ''list'' d (t_list d)))"
    by (simp add: select_lists_def sort_key_stable filter_sort)
  show "hash_find (store b') k =
      (case hash_find (t_store d) k of
         Some r \<Rightarrow> if r_type r = ''list'' \<and> unexpired sql_now r
           then foldl (\<lambda>eo (o', v). Some (case up_entry now eo of (n, e) \<Rightarrow> load_list_entry n e o' v (r_expire r)))
                  (hash_find (store b) k) (sort_key fst (raw_rows (t_list d) k))
           else hash_find (store b) k
       | None \<Rightarrow> hash_find (store b) k)"
    unfolding b'_def load_lists_def
    by (subst fold_rows(1) [OF put], assumption)
      (simp add: rows filter_select_join sort_key_map comp_def foldl_map case_prod_unfold
        split: option.splits)
  show "dirty_head b' = dirty_head b" "pending_deletes_head b' = pending_deletes_head b"
    "htab_ok (store b) \<Longrightarrow> htab_ok (store b')"
    unfolding b'_def load_lists_def by (simp_all add: fold_rows(2-4) [OF put])
qed

section \<open>A load into an empty backend\<close>

lemma decode_string_value_ok:
  assumes "pg_redis_decode_string r = Some s"
  shows "length s < 2 ^ 32"
proof -
  obtain payload len where h: "decode_header r PG_REDIS_TLV_STRING = Some (payload, len)"
    and s: "s = take (unat len) payload"
    using assms by (auto simp: pg_redis_decode_string_def split: option.splits)
  have "length s \<le> unat len" by (simp add: s)
  also have "unat len < 2 ^ LENGTH(32)" by (rule unsigned_less)
  finally show ?thesis by simp
qed

lemma decode_int_value_ok: "pg_redis_decode_int r = Some i \<Longrightarrow> int64_range i"
  by (auto simp: pg_redis_decode_int_def get_i64_range split: option.splits if_splits)

definition entry_loaded :: "db \<Rightarrow> bytes \<Rightarrow> PgRedisEntry \<Rightarrow> bool" where
  "entry_loaded d k e \<longleftrightarrow>
     value_ok (e_value e) \<and> \<not> e_in_dirty_set e \<and> value_synced d k (e_value e) \<and>
     value_clean (e_value e) \<and> db_view d k = Some (abs_entry e)"

lemma string_entry_loaded:
  assumes "hash_find (t_store d) k = Some r" "row_ok r" "r_type r \<in> {''string'', ''int''}"
  shows "entry_loaded d k (est_string now None (k, r))"
proof -
  have flags: "e_in_dirty_set (est_string now None (k, r)) = False"
    "e_expiry (est_string now None (k, r)) = r_expire r"
    by (simp_all add: est_string_def Let_def up_entry_def fresh_entry_def load_string_meta_def
        e_expiry_def split: option.splits)
  have val: "e_value (est_string now None (k, r)) =
      (if r_type r = ''string'' then StringValue (pg_redis_decode_string (r_value r))
       else IntValue (the (pg_redis_decode_int (r_value r))))"
    by (simp add: est_string_def Let_def load_string_meta_def split: option.splits)
  show ?thesis
  proof (cases "r_type r = ''string''")
    case True
    with assms obtain x where x: "pg_redis_decode_string (r_value r) = Some x" by (auto simp: row_ok_def)
    then have "length x < 2 ^ 32" by (rule decode_string_value_ok)
    with True x assms show ?thesis
      by (simp add: entry_loaded_def flags val abs_entry_def db_view_def row_view_def)
  next
    case False
    with assms obtain i where i: "pg_redis_decode_int (r_value r) = Some i" by (auto simp: row_ok_def)
    then have "int64_range i" by (rule decode_int_value_ok)
    with False i assms show ?thesis
      by (simp add: entry_loaded_def flags val abs_entry_def db_view_def row_view_def)
  qed
qed

lemma hash_entry_loaded:
  assumes "db_ok d" "hash_find (t_store d) k = Some r" "r_type r = ''hash''"
    and "hash_loaded (r_expire r) (rows_of (t_hash d) k) e"
  shows "entry_loaded d k e"
proof -
  obtain h where h: "e_value e = HashValue (Some h)" "hash_ok h"
    "hash_map h = map_of (rev (rows_of (t_hash d) k))" "value_clean (HashValue (Some h))"
    and m: "\<not> e_in_dirty_set e" "e_expiry e = r_expire r"
    using assms(4) by (auto simp: hash_loaded_def loaded_meta_def)
  have "hash_map h = map_of (rows_of (t_hash d) k)"
    using h(3) distinct_rows_of [of "t_hash d" k] assms(1)
    by (simp add: map_of_rev_distinct db_ok_def)
  then have f: "db_fields d k = hash_map h"
    by (simp add: fun_eq_iff db_fields_def map_of_rows_of)
  have "hash_delta_ok (db_fields d k) h"
    using h(4) unfolding f hash_delta_ok_def field_delta_ok_def hash_map_def
    by (auto simp: list_all_iff hash_find_def dest: map_of_SomeD split: option.splits)
  with h m f assms show ?thesis
    by (simp add: entry_loaded_def abs_entry_def db_view_def row_view_def)
qed

lemma list_entry_loaded:
  assumes "db_ok d" "hash_find (t_store d) k = Some r" "r_type r = ''list''"
    and "list_loaded (r_expire r) (items_of d k) e"
  shows "entry_loaded d k e"
proof -
  obtain l where l: "e_value e = ListValue (Some l)" "list_ok l" "list_items l = items_of d k"
    "value_clean (ListValue (Some l))"
    and m: "\<not> e_in_dirty_set e" "e_expiry e = r_expire r"
    using assms(4) by (auto simp: list_loaded_def loaded_meta_def)
  have "list_durable_items l = items_of d k"
    using l(3,4) by (simp add: list_durable_items_def list_items_def list_all_iff filter_id_conv)
  then have "list_delta_ok (db_items d k) l"
    using l(4) assms(1) by (simp add: list_delta_ok_def map_of_items_of(1) db_ok_def)
  moreover have "list_vals l = map snd (items_of d k)"
    unfolding l(3) [symmetric] by (simp add: list_vals_def list_items_def comp_def)
  ultimately show ?thesis using l m assms
    by (simp add: entry_loaded_def abs_entry_def db_view_def row_view_def)
qed

lemma fresh_from:
  "unexpired sql_now r \<Longrightarrow> list_all (\<lambda>(k, r). unexpired sql_now r \<longrightarrow> unexpired now r) (t_store d) \<Longrightarrow>
   htab_ok (t_store d) \<Longrightarrow> hash_find (t_store d) k = Some r \<Longrightarrow> fresh_at now (r_expire r)"
  by (auto simp: list_all_store_iff unexpired_def fresh_at_def split: option.splits)

text \<open>
  The key-wise result of a load into an empty backend. The premise \<open>list_all \<dots>\<close> says that no
  row expires between the time of the queries and the clock readings of the entry operations.
\<close>

lemma load_key:
  assumes d: "db_ok d"
    and clock: "list_all (\<lambda>(k, r). unexpired sql_now r \<longrightarrow> unexpired now r) (t_store d)"
    and emp: "hash_find (store b) k = None"
  defines "b' \<equiv> load_lists sql_now now d (load_hashes sql_now now d (load_strings_and_ints sql_now now d b))"
  shows "case hash_find (store b') k of
      None \<Rightarrow> visible sql_now (db_view d) k = None
    | Some e \<Rightarrow> key_ok k \<and> entry_loaded d k e"
proof (cases "hash_find (t_store d) k")
  case None
  with emp have "hash_find (store b') k = None"
    by (simp add: b'_def stage_lists(1) [OF d] stage_hashes(1) [OF d] stage_strings(1) [OF d])
  then show ?thesis by (simp add: visible_def db_view_def None)
next
  case (Some r)
  have ok: "key_ok k" "row_ok r" using db_ok_store [OF d Some] by simp_all
  have ht: "htab_ok (t_store d)" "htab_ok (t_hash d)" "htab_ok (t_list d)"
    using d by (simp_all add: db_ok_def)
  note stages = b'_def stage_lists(1) [OF d] stage_hashes(1) [OF d] stage_strings(1) [OF d] Some emp
  consider (exp) "\<not> unexpired sql_now r"
    | (str) "unexpired sql_now r" "r_type r \<in> {''string'', ''int''}"
    | (hash) "unexpired sql_now r" "r_type r = ''hash''"
    | (lst) "unexpired sql_now r" "r_type r = ''list''"
    using ok(2) by (auto simp: row_ok_def split: if_splits)
  then show ?thesis
  proof cases
    case exp
    then have "expired_at sql_now (v, r_expire r)" for v
      by (auto simp: unexpired_def expired_at_def split: option.splits)
    with exp show ?thesis
      by (auto simp: stages visible_def db_view_def row_view_def Let_def split: option.splits)
  next
    case str
    then show ?thesis
      using string_entry_loaded [OF Some ok(2) str(2), of now] ok(1) by (auto simp: stages)
  next
    case hash
    have fr: "fresh_at now (r_expire r)" using hash(1) clock ht(1) Some by (rule fresh_from)
    show ?thesis
    proof (cases "raw_rows (t_hash d) k = []")
      case True
      then have "db_fields d k = Map.empty"
        using map_of_rows_of [of "t_hash d" k] by (simp add: fun_eq_iff db_fields_def rows_of_raw)
      with True hash show ?thesis
        by (simp add: stages visible_def db_view_def row_view_def)
    next
      case False
      have "length f \<le> PG_REDIS_MAX_FIELD_SIZE" if "(f, v) \<in> set (raw_rows (t_hash d) k)" for f v
        using that hash_seq_find [OF ht(2), of "(k, f)" v] db_ok_hash [OF d, of k f v]
        by (auto simp: raw_rows_def hash_seq_def)
      then obtain e where "hash_find (store b') k = Some e"
        and "hash_loaded (r_expire r) (rows_of (t_hash d) k) e"
        using hash_fold_loaded [OF fr False] hash by (auto simp: stages rows_of_raw)
      then show ?thesis using hash_entry_loaded [OF d Some hash(2)] ok(1) by simp
    qed
  next
    case lst
    have fr: "fresh_at now (r_expire r)" using lst(1) clock ht(1) Some by (rule fresh_from)
    have items: "items_of d k = map (\<lambda>(n, v). (n, cell v)) (sort_key fst (raw_rows (t_list d) k))"
      by (simp add: items_of_def rows_of_raw sort_key_map comp_def case_prod_unfold)
    show ?thesis
    proof (cases "raw_rows (t_list d) k = []")
      case True
      with lst show ?thesis
        by (simp add: stages visible_def db_view_def row_view_def items)
    next
      case False
      have sort_ne: "sort_key fst (raw_rows (t_list d) k) \<noteq> []"
        using False length_sort [of fst "raw_rows (t_list d) k"] by (metis length_0_conv)
      have sorted: "sorted_wrt (<) (map fst (sort_key fst (raw_rows (t_list d) k)))"
        using map_of_items_of(2) [OF ht(3), of k] by (simp add: items comp_def case_prod_unfold)
      obtain e where "hash_find (store b') k = Some e"
        and "list_loaded (r_expire r) (items_of d k) e"
        using list_fold_loaded [OF fr sort_ne sorted] lst by (auto simp: stages items)
      then show ?thesis using list_entry_loaded [OF d Some lst(2)] ok(1) by simp
    qed
  qed
qed

lemma do_load_inv:
  assumes d: "db_ok d"
    and clock: "list_all (\<lambda>(k, r). unexpired sql_now r \<longrightarrow> unexpired now r) (t_store d)"
    and emp: "store b = []" "dirty_head b = []" "pending_deletes_head b = []"
  obtains b' where "pg_redis_persistence_do_load True sql_now now d b = Inr b'"
    "flush_inv sql_now d b'" "dirty_head b' = []" "pending_deletes_head b' = []"
proof -
  define b' where
    "b' = load_lists sql_now now d (load_hashes sql_now now d (load_strings_and_ints sql_now now d b))"
  have heads: "dirty_head b' = []" "pending_deletes_head b' = []"
    unfolding b'_def
    by (simp_all add: stage_lists(2,3) [OF d] stage_hashes(2,3) [OF d] stage_strings(2,3) [OF d] emp)
  have ht: "htab_ok (store b')"
    unfolding b'_def by (intro stage_lists(4) stage_hashes(4) stage_strings(4) d) (simp add: emp)
  have key: "case hash_find (store b') k of
      None \<Rightarrow> visible sql_now (db_view d) k = None
    | Some e \<Rightarrow> key_ok k \<and> entry_loaded d k e" for k
    unfolding b'_def by (rule load_key [OF d clock]) (simp add: emp)
  have e: "key_ok k \<and> entry_loaded d k e" if "hash_find (store b') k = Some e" for k e
    using key [of k] that by simp
  have "store_ok b'" using e ht by (auto simp: store_ok_iff heads entry_ok_def entry_loaded_def)
  moreover have "tracked b'" using e by (auto simp: tracked_iff [OF ht] entry_loaded_def)
  moreover have "key_inv sql_now d b' k" for k
    using key [of k] by (auto simp: key_inv_def heads entry_loaded_def split: option.splits)
  ultimately have "flush_inv sql_now d b'" using d by (simp add: flush_inv_def)
  then show thesis using that heads by (simp add: pg_redis_persistence_do_load_def b'_def)
qed

text \<open>A load into a backend that has the list already appends the rows to it.\<close>

lemma list_set_tail_vals [simp]: "l_nodes l \<noteq> [] \<Longrightarrow> list_vals (list_set_tail n l) = list_vals l"
  by (cases "l_nodes l" rule: rev_cases) (simp_all add: list_set_tail_def list_vals_def Let_def)

lemma list_fold_appends:
  assumes "\<not> e_has_expire e" "abs_value (e_value e) = RList xs"
  shows "\<exists>e'. foldl (\<lambda>eo (n, v). Some (case up_entry now eo of (new, e) \<Rightarrow> load_list_entry new e n v None)) (Some e) rows = Some e' \<and>
    abs_entry e' = (RList (xs @ map (cell \<circ> snd) rows), None)"
  using assms
proof (induction rows arbitrary: e xs)
  case Nil
  then show ?case by (simp add: abs_entry_def e_expiry_def)
next
  case (Cons row rows)
  obtain n v where row: "row = (n, v)" by force
  define e1 where "e1 = load_list_entry False e n v None"
  have ty: "e_type e = PG_REDIS_TYPE_LIST" and l: "list_vals (list_of (e_value e)) = xs"
    using Cons.prems(2) by (cases "e_value e"; auto simp: e_type_def list_of_def split: option.splits)+
  have ne: "l_nodes (snd (pg_redis_list_rpush w l)) \<noteq> []" for w l
    using list_vals_rpush [of w l] by (auto simp: list_vals_def)
  have e1: "\<not> e_has_expire e1" "abs_value (e_value e1) = RList (xs @ [cell v])"
    using Cons.prems(1) ty l ne by (simp_all add: e1_def load_list_entry_def load_child_meta_def Let_def)
  have "up_entry now (Some e) = (False, e)" using Cons.prems(1) by (simp add: up_entry_def pg_redis_entry_is_expired_def)
  then show ?case using Cons.IH [OF e1] by (simp add: row flip: e1_def)
qed

lemma load_appends_list:
  assumes d: "db_ok d" and l: "pg_redis_persistence_do_load True sql_now now d b = Inr b'"
    and b: "raw_view b k = Some (RList xs, None)" and r: "db_view d k = Some (RList ys, None)"
  shows "raw_view b' k = Some (RList (xs @ ys), None)"
proof -
  obtain row where row: "hash_find (t_store d) k = Some row" "r_type row = ''list''" "r_expire row = None" "ys = map snd (items_of d k)"
    using r by (auto simp: db_view_def row_view_def Let_def split: option.splits if_splits)
  obtain e where e: "hash_find (store b) k = Some e" "\<not> e_has_expire e" "abs_value (e_value e) = RList xs"
    using b by (auto simp: raw_view_def abs_entry_def e_expiry_def split: if_splits)
  have ys: "ys = map (cell \<circ> snd) (sort_key fst (raw_rows (t_list d) k))"
    by (simp add: row(4) items_of_def rows_of_raw sort_key_map comp_def case_prod_beta)
  have un: "unexpired sql_now row" using row(3) by (simp add: unexpired_def)
  have "hash_find (store b') k = foldl (\<lambda>eo (n, v). Some (case up_entry now eo of (new, e) \<Rightarrow> load_list_entry new e n v None)) (Some e)
      (sort_key fst (raw_rows (t_list d) k))"
    using l row un e(1)
    by (auto simp: pg_redis_persistence_do_load_def stage_lists(1) [OF d] stage_hashes(1) [OF d] stage_strings(1) [OF d])
  then show ?thesis using list_fold_appends [OF e(2,3), of now] ys by (auto simp: raw_view_def)
qed

end
