(* ===== verification/Ttl.thy ===== *)
theory Ttl
  imports Keyspace
begin

text \<open>
  \<open>src/ttl.c\<close>: setting an expiry, the remaining time and the sweep of expired keys. Times are
  microseconds, \<open>clock_ok\<close> keeps them in the first half of the 64-bit range, where no sum with
  a 32-bit number of seconds overflows.
\<close>

section \<open>Operations\<close>

definition TimestampTzPlusMilliseconds :: "int \<Rightarrow> int \<Rightarrow> int" where
  "TimestampTzPlusMilliseconds tz ms = wrap64 (tz + wrap64 (ms * 1000))"

definition pg_redis_set_expire_seconds ::
    "int \<Rightarrow> int \<Rightarrow> bytes \<Rightarrow> int \<Rightarrow> backend \<Rightarrow> bool \<times> backend" where
  "pg_redis_set_expire_seconds now now2 key seconds b =
     (case pg_redis_store_lookup now key b of
        (None, b1) \<Rightarrow> (False, b1)
      | (Some e, b1) \<Rightarrow>
          if seconds \<le> 0 then (True, snd (pg_redis_store_remove key b1))
          else (True, entry_put key
                  (e\<lparr>e_has_expire := True,
                     e_expire_at := TimestampTzPlusMilliseconds now2 (seconds * 1000),
                     e_dirty := True,
                     e_version := e_version e + 1\<rparr>) b1))"

definition pg_redis_ttl_seconds :: "int \<Rightarrow> int \<Rightarrow> bytes \<Rightarrow> backend \<Rightarrow> int \<times> backend" where
  "pg_redis_ttl_seconds now now2 key b =
     (case pg_redis_store_lookup now key b of
        (None, b1) \<Rightarrow> (-2, b1)
      | (Some e, b1) \<Rightarrow>
          if \<not> e_has_expire e then (-1, b1)
          else if now2 \<ge> e_expire_at e then (-2, snd (pg_redis_store_remove key b1))
          else let diff_us = wrap64 (e_expire_at e - now2)
               in (wrap32 (wrap64 (diff_us + 999999) div 1000000), b1))"

text \<open>The sweep reads the clock at every entry: \<open>clk k\<close> is the reading at the entry of \<open>k\<close>.\<close>

definition sweep_victims :: "(bytes \<Rightarrow> int) \<Rightarrow> backend \<Rightarrow> bytes list" where
  "sweep_victims clk b =
     map fst (filter (\<lambda>(k, e). pg_redis_entry_is_expired (clk k) e) (hash_seq (store b)))"

definition pg_redis_ttl_sweep :: "(bytes \<Rightarrow> int) \<Rightarrow> backend \<Rightarrow> int \<times> backend" where
  "pg_redis_ttl_sweep clk b =
     foldl (\<lambda>(removed, b) k.
              case pg_redis_store_remove k b of
                (True, b') \<Rightarrow> (removed + 1, b') | (False, b') \<Rightarrow> (removed, b'))
       (0, b) (sweep_victims clk b)"

section \<open>Expiry and remaining time\<close>

definition clock_ok :: "int \<Rightarrow> bool" where
  "clock_ok now \<longleftrightarrow> 0 \<le> now \<and> now < 2 ^ 62"

definition expiry_ok :: "int option \<Rightarrow> bool" where
  "expiry_ok x \<longleftrightarrow> (case x of None \<Rightarrow> True | Some t \<Rightarrow> int64_range t)"

definition int32_range :: "int \<Rightarrow> bool" where
  "int32_range s \<longleftrightarrow> - (2 ^ 31) \<le> s \<and> s < 2 ^ 31"

lemma plus_milliseconds:
  "clock_ok now \<Longrightarrow> int32_range s \<Longrightarrow> TimestampTzPlusMilliseconds now (s * 1000) = now + s * 1000000"
  by (simp add: TimestampTzPlusMilliseconds_def clock_ok_def int32_range_def wrap64_id
      int64_range_def)

lemma set_expire_cases:
  assumes "clock_ok now2" "int32_range s"
  shows "pg_redis_set_expire_seconds now now2 key s b =
    (case hash_find (store b) key of
       None \<Rightarrow> (False, b)
     | Some e \<Rightarrow>
         if pg_redis_entry_is_expired now e then (False, snd (pg_redis_store_remove key b))
         else if s \<le> 0 then (True, snd (pg_redis_store_remove key b))
         else (True, entry_put key
                 (e\<lparr>e_has_expire := True, e_expire_at := now2 + s * 1000000, e_dirty := True,
                    e_version := e_version e + 1\<rparr>) b))"
  by (simp add: pg_redis_set_expire_seconds_def lookup_cases plus_milliseconds [OF assms]
      split: option.splits)

text \<open>Rounding up: the least number of seconds that covers the rest of the time.\<close>

definition ceil_seconds :: "int \<Rightarrow> int" where
  "ceil_seconds us = (us + 999999) div 1000000"

lemma ceil_seconds_bounds:
  "us \<le> ceil_seconds us * 1000000" "ceil_seconds us * 1000000 < us + 1000000"
proof -
  have "us + 999999 = ceil_seconds us * 1000000 + (us + 999999) mod 1000000"
    by (simp add: ceil_seconds_def)
  moreover have "0 \<le> (us + 999999) mod 1000000" "(us + 999999) mod 1000000 < 1000000"
    by simp_all
  ultimately show "us \<le> ceil_seconds us * 1000000" "ceil_seconds us * 1000000 < us + 1000000"
    by linarith+
qed

lemma ceil_seconds_exact: "ceil_seconds (s * 1000000) = s"
  using ceil_seconds_bounds [of "s * 1000000"] by linarith

lemma ceil_seconds_mono: "us \<le> us' \<Longrightarrow> ceil_seconds us \<le> ceil_seconds us'"
  unfolding ceil_seconds_def by (rule zdiv_mono1) simp_all

lemma ttl_wrap:
  assumes "\<not> t \<le> now2" "t - now2 \<le> 2147483647 * 1000000"
  shows "wrap32 (wrap64 (wrap64 (t - now2) + 999999) div 1000000) = ceil_seconds (t - now2)"
proof -
  have "wrap64 (t - now2) = t - now2" "wrap64 (t - now2 + 999999) = t - now2 + 999999"
    using assms by (simp_all add: wrap64_id int64_range_def)
  moreover have "0 \<le> ceil_seconds (t - now2)" "ceil_seconds (t - now2) \<le> 2147483647"
    using ceil_seconds_mono [of 0 "t - now2"] ceil_seconds_mono [OF assms(2)]
      ceil_seconds_exact [of 0] ceil_seconds_exact [of 2147483647] assms(1) by simp_all
  ultimately show ?thesis by (simp add: ceil_seconds_def wrap32_id)
qed

lemma ttl_cases:
  assumes "clock_ok now2"
    and small: "\<And>e. hash_find (store b) key = Some e \<Longrightarrow> e_has_expire e \<Longrightarrow>
      e_expire_at e - now2 \<le> 2147483647 * 1000000"
  shows "pg_redis_ttl_seconds now now2 key b =
    (case hash_find (store b) key of
       None \<Rightarrow> (-2, b)
     | Some e \<Rightarrow>
         if pg_redis_entry_is_expired now e then (-2, snd (pg_redis_store_remove key b))
         else if \<not> e_has_expire e then (-1, b)
         else if e_expire_at e \<le> now2 then (-2, snd (pg_redis_store_remove key b))
         else (ceil_seconds (e_expire_at e - now2), b))"
proof -
  show ?thesis
    using small ttl_wrap [of _ now2] by (auto simp: pg_redis_ttl_seconds_def lookup_cases Let_def split: option.splits)
qed

section \<open>The sweep\<close>

lemma sweep_fold:
  assumes "store_ok b" "distinct ks" "\<forall>k \<in> set ks. hash_find (store b) k \<noteq> None"
  shows "foldl (\<lambda>(removed, b) k.
            case pg_redis_store_remove k b of
              (True, b') \<Rightarrow> (removed + 1, b') | (False, b') \<Rightarrow> (removed, b')) (n, b) ks =
         (n + int (length ks), foldl (\<lambda>b k. snd (pg_redis_store_remove k b)) b ks)"
  using assms
proof (induction ks arbitrary: n b)
  case (Cons k ks)
  obtain b' where r: "pg_redis_store_remove k b = (True, b')"
    using Cons.prems(3) by (auto simp: remove_cases)
  then have b': "b' = snd (pg_redis_store_remove k b)" by simp
  have "\<forall>j \<in> set ks. hash_find (store b') j \<noteq> None"
    using Cons.prems(2,3) unfolding b' by (auto simp: remove_cases split: option.splits)
  moreover have "store_ok b'" using Cons.prems(1) by (simp add: b' store_ok_remove)
  ultimately show ?case using Cons.IH [of b' "n + 1"] Cons.prems(2) by (simp add: r)
qed simp

lemma store_ok_removes: "store_ok b \<Longrightarrow> store_ok (foldl (\<lambda>b k. snd (pg_redis_store_remove k b)) b ks)"
  by (induction ks arbitrary: b) (simp_all add: store_ok_remove)

lemma tracked_removes:
  "store_ok b \<Longrightarrow> tracked b \<Longrightarrow> tracked (foldl (\<lambda>b k. snd (pg_redis_store_remove k b)) b ks)"
  by (induction ks arbitrary: b) (simp_all add: store_ok_remove tracked_remove)

lemma raw_view_removes:
  "raw_view (foldl (\<lambda>b k. snd (pg_redis_store_remove k b)) b ks) =
     (\<lambda>k. if k \<in> set ks then None else raw_view b k)"
  by (induction ks arbitrary: b) (auto simp: raw_view_remove)

lemma sweep_victims_iff:
  assumes "store_ok b"
  shows "k \<in> set (sweep_victims clk b) \<longleftrightarrow>
    (\<exists>e. hash_find (store b) k = Some e \<and> pg_redis_entry_is_expired (clk k) e)"
  using hash_seq_find [OF store_ok_htab [OF assms], of k]
  by (force simp: sweep_victims_def)

lemma distinct_sweep_victims: "store_ok b \<Longrightarrow> distinct (sweep_victims clk b)"
  using htab.seq_distinct [of "store b"]
  by (simp add: sweep_victims_def distinct_map_filter)

lemma sweep_cases:
  assumes "store_ok b"
  shows "pg_redis_ttl_sweep clk b =
    (int (length (sweep_victims clk b)),
     foldl (\<lambda>b k. snd (pg_redis_store_remove k b)) b (sweep_victims clk b))"
proof -
  have "\<forall>k \<in> set (sweep_victims clk b). hash_find (store b) k \<noteq> None"
    using sweep_victims_iff [OF assms] by auto
  from sweep_fold [OF assms distinct_sweep_victims [OF assms] this, of 0] show ?thesis
    by (simp add: pg_redis_ttl_sweep_def)
qed

section \<open>Properties\<close>

text \<open>
  \<open>EXPIRE\<close> with a positive time and \<open>TTL\<close> agree: at the moment it is set the remaining time is the
  number of seconds given; until the expiry it is the rest rounded up, between 1 and that number;
  from the expiry on the key is gone.
\<close>

lemma expire_then_ttl:
  assumes "clock_ok t0" "clock_ok u" "int32_range s" "0 < s" "t0 \<le> u"
    and "hash_find (store b) key = Some e" "\<not> pg_redis_entry_is_expired now e"
    and b': "b' = snd (pg_redis_set_expire_seconds now t0 key s b)"
  shows "fst (pg_redis_ttl_seconds u u key b') =
      (if u < t0 + s * 1000000 then ceil_seconds (t0 + s * 1000000 - u) else -2) \<and>
    (u < t0 + s * 1000000 \<longrightarrow> 1 \<le> fst (pg_redis_ttl_seconds u u key b') \<and>
       fst (pg_redis_ttl_seconds u u key b') \<le> s) \<and>
    fst (pg_redis_ttl_seconds t0 t0 key b') = s"
proof -
  let ?e = "e\<lparr>e_has_expire := True, e_expire_at := t0 + s * 1000000, e_dirty := True,
    e_version := e_version e + 1\<rparr>"
  have f: "hash_find (store b') key = Some ?e"
    using assms by (simp add: set_expire_cases)
  have ttl: "fst (pg_redis_ttl_seconds v v key b') =
      (if v < t0 + s * 1000000 then ceil_seconds (t0 + s * 1000000 - v) else -2)"
    if "clock_ok v" "t0 \<le> v" for v
    using that assms(3)
    by (subst ttl_cases) (auto simp: f pg_redis_entry_is_expired_def int32_range_def)
  have "1 \<le> ceil_seconds (t0 + s * 1000000 - u)" if "u < t0 + s * 1000000"
    using ceil_seconds_bounds(1) [of "t0 + s * 1000000 - u"] that by linarith
  moreover have "ceil_seconds (t0 + s * 1000000 - u) \<le> s"
    using ceil_seconds_mono [of "t0 + s * 1000000 - u" "s * 1000000"] ceil_seconds_exact [of s] assms(5)
    by simp
  moreover have "ceil_seconds (t0 + s * 1000000 - t0) = s"
    using ceil_seconds_exact [of s] by simp
  ultimately show ?thesis
    using ttl [OF assms(2,5)] ttl [OF assms(1)] assms(4) by auto
qed

text \<open>
  A sweep removes exactly the entries that were expired when it visited them, reports how many
  that were, records each of them for the durable delete, and keeps the keyspace invariant.
\<close>

lemma sweep_exact:
  assumes "store_ok b"
  shows "raw_view (snd (pg_redis_ttl_sweep clk b)) =
      (\<lambda>k. if k \<in> set (sweep_victims clk b) then None else raw_view b k) \<and>
    (\<forall>k. k \<in> set (sweep_victims clk b) \<longleftrightarrow>
       (\<exists>e. hash_find (store b) k = Some e \<and> pg_redis_entry_is_expired (clk k) e)) \<and>
    fst (pg_redis_ttl_sweep clk b) = int (card (set (sweep_victims clk b))) \<and>
    store_ok (snd (pg_redis_ttl_sweep clk b))"
  using assms
  by (simp add: sweep_cases raw_view_removes sweep_victims_iff store_ok_removes distinct_sweep_victims
      distinct_card)

end
