(* ===== verification/Commands.thy ===== *)
theory Commands
  imports Load Ttl
begin

text \<open>
  \<open>src/pg_redis.c\<close> with session storage: the SQL-callable commands. A command takes the
  configuration \<open>g\<close>, the outcomes of the environment \<open>cx\<close> (clock readings, whether SPI can be
  entered), the tables \<open>d\<close> it may have to load from, its arguments and the backend; it returns
  what it returns or raises, and the backend after it. A hash or list entry never has a
  \<open>NULL\<close> payload (\<open>store_ok\<close>), so \<open>hash_of\<close> and \<open>list_of\<close> read the payload.
\<close>

section \<open>Environment and control flow\<close>

record cmd_env =
  cx_now :: int
  cx_now2 :: int
  cx_sql_now :: int
  cx_spi_ok :: bool

fun on_ok :: "'a result \<times> backend \<Rightarrow> ('a \<Rightarrow> backend \<Rightarrow> 'r result \<times> backend) \<Rightarrow> 'r result \<times> backend" where
  "on_ok (Inl err, b) f = (Inl err, b)"
| "on_ok (Inr x, b) f = f x b"

definition ensure_loaded :: "guc \<Rightarrow> cmd_env \<Rightarrow> db \<Rightarrow> backend \<Rightarrow> unit result \<times> backend" where
  "ensure_loaded g cx d b =
     pg_redis_persistence_load_if_needed g (cx_spi_ok cx) (cx_sql_now cx) (cx_now cx) d
       (pg_redis_persistence_init b)"

definition argtext_to_pstring :: "guc \<Rightarrow> bytes \<Rightarrow> bool \<Rightarrow> bytes result" where
  "argtext_to_pstring g t check_key =
     (case (if check_key then pg_redis_check_key_len g (length t)
            else pg_redis_check_value_len g (length t)) of
        Inl err \<Rightarrow> Inl err
      | Inr _ \<Rightarrow> Inr t)"

definition key_arg :: "guc \<Rightarrow> bytes \<Rightarrow> bytes result" where
  "key_arg g t = pg_redis_text_to_cstring_stack g t True False"

definition field_arg :: "guc \<Rightarrow> bytes \<Rightarrow> bytes result" where
  "field_arg g t = pg_redis_text_to_cstring_stack g t False True"

section \<open>Strings and generic commands\<close>

definition pg_redis_set ::
    "guc \<Rightarrow> cmd_env \<Rightarrow> db \<Rightarrow> bytes \<Rightarrow> bytes \<Rightarrow> backend \<Rightarrow> bool result \<times> backend" where
  "pg_redis_set g cx d key_t val_t b =
     on_ok (ensure_loaded g cx d b) (\<lambda>_ b.
     on_ok (key_arg g key_t, b) (\<lambda>key b.
     on_ok (argtext_to_pstring g val_t False, b) (\<lambda>val b.
       case pg_redis_store_upsert (cx_now cx) key b of (is_new, e, b) \<Rightarrow>
         let e = (if \<not> is_new \<and> e_type e \<noteq> PG_REDIS_TYPE_STRING
                  then pg_redis_entry_release_value False e else e);
             e = e\<lparr>e_value := StringValue (Some val), e_version := e_version e + 1, e_dirty := True,
                   e_deleted := False\<rparr>
         in (Inr True, pg_redis_mark_dirty key (entry_put key e b)))))"

definition pg_redis_get ::
    "guc \<Rightarrow> cmd_env \<Rightarrow> db \<Rightarrow> bytes \<Rightarrow> backend \<Rightarrow> bytes option result \<times> backend" where
  "pg_redis_get g cx d key_t b =
     on_ok (ensure_loaded g cx d b) (\<lambda>_ b.
     on_ok (key_arg g key_t, b) (\<lambda>key b.
       case pg_redis_store_lookup (cx_now cx) key b of
         (None, b) \<Rightarrow> (Inr None, b)
       | (Some e, b) \<Rightarrow>
           (case e_value e of
              StringValue s \<Rightarrow> (Inr s, b)
            | IntValue i \<Rightarrow>
                (case pg_redis_format_int64 i of Inl err \<Rightarrow> (Inl err, b) | Inr s \<Rightarrow> (Inr (Some s), b))
            | HashValue _ \<Rightarrow> (Inl (WrongType key PG_REDIS_TYPE_HASH PG_REDIS_TYPE_STRING), b)
            | ListValue _ \<Rightarrow> (Inl (WrongType key PG_REDIS_TYPE_LIST PG_REDIS_TYPE_STRING), b))))"

definition pg_redis_del :: "guc \<Rightarrow> cmd_env \<Rightarrow> db \<Rightarrow> bytes \<Rightarrow> backend \<Rightarrow> bool result \<times> backend" where
  "pg_redis_del g cx d key_t b =
     on_ok (ensure_loaded g cx d b) (\<lambda>_ b.
     on_ok (key_arg g key_t, b) (\<lambda>key b.
       case pg_redis_store_remove key b of (removed, b) \<Rightarrow> (Inr removed, b)))"

definition pg_redis_exists :: "guc \<Rightarrow> cmd_env \<Rightarrow> db \<Rightarrow> bytes \<Rightarrow> backend \<Rightarrow> bool result \<times> backend" where
  "pg_redis_exists g cx d key_t b =
     on_ok (ensure_loaded g cx d b) (\<lambda>_ b.
     on_ok (key_arg g key_t, b) (\<lambda>key b.
       case pg_redis_store_lookup (cx_now cx) key b of (e, b) \<Rightarrow> (Inr (e \<noteq> None), b)))"

definition pg_redis_expire ::
    "guc \<Rightarrow> cmd_env \<Rightarrow> db \<Rightarrow> bytes \<Rightarrow> int \<Rightarrow> backend \<Rightarrow> bool result \<times> backend" where
  "pg_redis_expire g cx d key_t seconds b =
     on_ok (ensure_loaded g cx d b) (\<lambda>_ b.
     on_ok (key_arg g key_t, b) (\<lambda>key b.
       case pg_redis_set_expire_seconds (cx_now cx) (cx_now2 cx) key seconds b of (ok, b) \<Rightarrow>
         if ok \<and> seconds > 0
         then (case pg_redis_store_lookup_raw key b of
                 None \<Rightarrow> (Inr ok, b)
               | Some e \<Rightarrow> (Inr ok, pg_redis_mark_dirty key b))
         else (Inr ok, b)))"

definition pg_redis_ttl :: "guc \<Rightarrow> cmd_env \<Rightarrow> db \<Rightarrow> bytes \<Rightarrow> backend \<Rightarrow> int result \<times> backend" where
  "pg_redis_ttl g cx d key_t b =
     on_ok (ensure_loaded g cx d b) (\<lambda>_ b.
     on_ok (key_arg g key_t, b) (\<lambda>key b.
       case pg_redis_ttl_seconds (cx_now cx) (cx_now2 cx) key b of (out, b) \<Rightarrow> (Inr out, b)))"

definition incrdecr ::
    "guc \<Rightarrow> cmd_env \<Rightarrow> db \<Rightarrow> bytes \<Rightarrow> int \<Rightarrow> backend \<Rightarrow> int result \<times> backend" where
  "incrdecr g cx d key_t delta b =
     on_ok (ensure_loaded g cx d b) (\<lambda>_ b.
     on_ok (key_arg g key_t, b) (\<lambda>key b.
       case pg_redis_store_upsert (cx_now cx) key b of (is_new, e, b) \<Rightarrow>
         let base = (if is_new then Inr 0
                     else case e_value e of
                       StringValue s \<Rightarrow>
                         (case s of
                            None \<Rightarrow> Inl (NotAnInteger key)
                          | Some str \<Rightarrow>
                              (case pg_redis_parse_int64 str of
                                 None \<Rightarrow> Inl (NotAnInteger key) | Some parsed \<Rightarrow> Inr parsed))
                     | IntValue i \<Rightarrow> Inr i
                     | _ \<Rightarrow> Inl (WrongType key (e_type e) PG_REDIS_TYPE_INT))
         in on_ok (base, b) (\<lambda>i b.
              let newval = wrap64 (i + delta);
                  e = e\<lparr>e_value := IntValue newval, e_version := e_version e + 1\<rparr>
              in (Inr newval, pg_redis_mark_dirty key (entry_put key e b)))))"

definition pg_redis_incr :: "guc \<Rightarrow> cmd_env \<Rightarrow> db \<Rightarrow> bytes \<Rightarrow> backend \<Rightarrow> int result \<times> backend" where
  "pg_redis_incr g cx d key_t b = incrdecr g cx d key_t 1 b"

definition pg_redis_decr :: "guc \<Rightarrow> cmd_env \<Rightarrow> db \<Rightarrow> bytes \<Rightarrow> backend \<Rightarrow> int result \<times> backend" where
  "pg_redis_decr g cx d key_t b = incrdecr g cx d key_t (-1) b"

section \<open>Hashes\<close>

definition pg_redis_hset ::
    "guc \<Rightarrow> cmd_env \<Rightarrow> db \<Rightarrow> bytes \<Rightarrow> bytes \<Rightarrow> bytes \<Rightarrow> backend \<Rightarrow> bool result \<times> backend" where
  "pg_redis_hset g cx d key_t field_t val_t b =
     on_ok (ensure_loaded g cx d b) (\<lambda>_ b.
     on_ok (key_arg g key_t, b) (\<lambda>key b.
     on_ok (field_arg g field_t, b) (\<lambda>field b.
     on_ok (argtext_to_pstring g val_t False, b) (\<lambda>val b.
       case pg_redis_store_upsert (cx_now cx) key b of (is_new, e, b) \<Rightarrow>
         if \<not> is_new \<and> e_type e \<noteq> PG_REDIS_TYPE_HASH
         then (Inl (WrongType key (e_type e) PG_REDIS_TYPE_HASH), b)
         else
           let h = (if is_new then pg_redis_hash_create else hash_of (e_value e))
           in case pg_redis_hash_set h field val of
                Inl err \<Rightarrow> (Inl err, entry_put key (e\<lparr>e_value := HashValue (Some h)\<rparr>) b)
              | Inr (new_field, h') \<Rightarrow>
                  (Inr new_field, pg_redis_mark_dirty key
                     (entry_put key (e\<lparr>e_value := HashValue (Some h'), e_version := e_version e + 1\<rparr>) b))))))"

definition with_hash ::
    "cmd_env \<Rightarrow> bytes \<Rightarrow> 'r \<Rightarrow> (PgRedisEntry \<Rightarrow> PgRedisHash \<Rightarrow> backend \<Rightarrow> 'r result \<times> backend) \<Rightarrow> backend \<Rightarrow>
     'r result \<times> backend" where
  "with_hash cx key missing f b =
     (case pg_redis_store_lookup (cx_now cx) key b of
        (None, b) \<Rightarrow> (Inr missing, b)
      | (Some e, b) \<Rightarrow>
          if e_type e \<noteq> PG_REDIS_TYPE_HASH then (Inl (WrongType key (e_type e) PG_REDIS_TYPE_HASH), b)
          else f e (hash_of (e_value e)) b)"

definition pg_redis_hget ::
    "guc \<Rightarrow> cmd_env \<Rightarrow> db \<Rightarrow> bytes \<Rightarrow> bytes \<Rightarrow> backend \<Rightarrow> bytes option result \<times> backend" where
  "pg_redis_hget g cx d key_t field_t b =
     on_ok (ensure_loaded g cx d b) (\<lambda>_ b.
     on_ok (key_arg g key_t, b) (\<lambda>key b.
     on_ok (field_arg g field_t, b) (\<lambda>field b.
       with_hash cx key None (\<lambda>e h b. (Inr (pg_redis_hash_get h field), b)) b)))"

definition pg_redis_hdel ::
    "guc \<Rightarrow> cmd_env \<Rightarrow> db \<Rightarrow> bytes \<Rightarrow> bytes \<Rightarrow> backend \<Rightarrow> bool result \<times> backend" where
  "pg_redis_hdel g cx d key_t field_t b =
     on_ok (ensure_loaded g cx d b) (\<lambda>_ b.
     on_ok (key_arg g key_t, b) (\<lambda>key b.
     on_ok (field_arg g field_t, b) (\<lambda>field b.
       with_hash cx key False (\<lambda>e h b.
         case pg_redis_hash_del h field of (removed, h') \<Rightarrow>
           if removed
           then (Inr removed, pg_redis_mark_dirty key
                  (entry_put key (e\<lparr>e_value := HashValue (Some h'), e_version := e_version e + 1\<rparr>) b))
           else (Inr removed, b)) b)))"

definition pg_redis_hexists ::
    "guc \<Rightarrow> cmd_env \<Rightarrow> db \<Rightarrow> bytes \<Rightarrow> bytes \<Rightarrow> backend \<Rightarrow> bool result \<times> backend" where
  "pg_redis_hexists g cx d key_t field_t b =
     on_ok (ensure_loaded g cx d b) (\<lambda>_ b.
     on_ok (key_arg g key_t, b) (\<lambda>key b.
     on_ok (field_arg g field_t, b) (\<lambda>field b.
       with_hash cx key False (\<lambda>e h b. (Inr (pg_redis_hash_exists h field), b)) b)))"

section \<open>Lists\<close>

definition list_push ::
    "guc \<Rightarrow> cmd_env \<Rightarrow> db \<Rightarrow> bytes \<Rightarrow> bytes \<Rightarrow> bool \<Rightarrow> backend \<Rightarrow> int result \<times> backend" where
  "list_push g cx d key_t val_t left b =
     on_ok (ensure_loaded g cx d b) (\<lambda>_ b.
     on_ok (key_arg g key_t, b) (\<lambda>key b.
     on_ok (argtext_to_pstring g val_t False, b) (\<lambda>val b.
       case pg_redis_store_upsert (cx_now cx) key b of (is_new, e, b) \<Rightarrow>
         if \<not> is_new \<and> e_type e \<noteq> PG_REDIS_TYPE_LIST
         then (Inl (WrongType key (e_type e) PG_REDIS_TYPE_LIST), b)
         else
           let l = (if is_new then pg_redis_list_create else list_of (e_value e))
           in case (if left then pg_redis_list_lpush val l else pg_redis_list_rpush val l) of
                (newlen, l') \<Rightarrow>
                  (Inr newlen, pg_redis_mark_dirty key
                     (entry_put key (e\<lparr>e_value := ListValue (Some l'), e_version := e_version e + 1\<rparr>) b)))))"

definition with_list ::
    "cmd_env \<Rightarrow> bytes \<Rightarrow> 'r \<Rightarrow> (PgRedisEntry \<Rightarrow> PgRedisList \<Rightarrow> backend \<Rightarrow> 'r result \<times> backend) \<Rightarrow> backend \<Rightarrow>
     'r result \<times> backend" where
  "with_list cx key missing f b =
     (case pg_redis_store_lookup (cx_now cx) key b of
        (None, b) \<Rightarrow> (Inr missing, b)
      | (Some e, b) \<Rightarrow>
          if e_type e \<noteq> PG_REDIS_TYPE_LIST then (Inl (WrongType key (e_type e) PG_REDIS_TYPE_LIST), b)
          else f e (list_of (e_value e)) b)"

definition list_pop ::
    "guc \<Rightarrow> cmd_env \<Rightarrow> db \<Rightarrow> bytes \<Rightarrow> bool \<Rightarrow> backend \<Rightarrow> bytes option result \<times> backend" where
  "list_pop g cx d key_t left b =
     on_ok (ensure_loaded g cx d b) (\<lambda>_ b.
     on_ok (key_arg g key_t, b) (\<lambda>key b.
       with_list cx key None (\<lambda>e l b.
         case (if left then pg_redis_list_lpop l else pg_redis_list_rpop l) of
           (None, l') \<Rightarrow> (Inr None, b)
         | (Some popped, l') \<Rightarrow>
             (Inr (Some popped), pg_redis_mark_dirty key
                (entry_put key (e\<lparr>e_value := ListValue (Some l'), e_version := e_version e + 1\<rparr>) b))) b))"

definition pg_redis_llen :: "guc \<Rightarrow> cmd_env \<Rightarrow> db \<Rightarrow> bytes \<Rightarrow> backend \<Rightarrow> int result \<times> backend" where
  "pg_redis_llen g cx d key_t b =
     on_ok (ensure_loaded g cx d b) (\<lambda>_ b.
     on_ok (key_arg g key_t, b) (\<lambda>key b.
       with_list cx key 0 (\<lambda>e l b. (Inr (pg_redis_list_length (Some l)), b)) b))"

section \<open>Administration\<close>

text \<open>\<open>KEYS\<close> reads the clock at every entry: \<open>clk k\<close> is the reading at the entry of \<open>k\<close>.\<close>

definition pg_redis_keys ::
    "guc \<Rightarrow> cmd_env \<Rightarrow> (bytes \<Rightarrow> int) \<Rightarrow> db \<Rightarrow> backend \<Rightarrow> bytes list result \<times> backend" where
  "pg_redis_keys g cx clk d b =
     on_ok (ensure_loaded g cx d b) (\<lambda>_ b.
       (Inr (map fst (filter (\<lambda>(k, e). \<not> pg_redis_entry_is_expired (clk k) e) (hash_seq (store b)))), b))"

definition pg_redis_flushall :: "guc \<Rightarrow> cmd_env \<Rightarrow> db \<Rightarrow> backend \<Rightarrow> bool \<times> db \<times> backend" where
  "pg_redis_flushall g cx d b =
     (case pg_redis_persistence_flushall g (cx_spi_ok cx) d (pg_redis_store_reset b) of
        (d', b') \<Rightarrow> (True, d', b'))"

definition pg_redis_memory_usage :: "guc \<Rightarrow> cmd_env \<Rightarrow> db \<Rightarrow> backend \<Rightarrow> int result \<times> backend" where
  "pg_redis_memory_usage g cx d b =
     on_ok (ensure_loaded g cx d b) (\<lambda>_ b. (Inr (int (pg_redis_store_memory_usage b)), b))"

definition pg_redis_stats :: "guc \<Rightarrow> cmd_env \<Rightarrow> db \<Rightarrow> backend \<Rightarrow> PgRedisStoreStats result \<times> backend" where
  "pg_redis_stats g cx d b =
     on_ok (ensure_loaded g cx d b) (\<lambda>_ b. (Inr (pg_redis_store_collect_stats b), b))"

end
