(* ===== verification/Redis_Spec.thy ===== *)
theory Redis_Spec
  imports Commands
begin

text \<open>
  The command language and its abstract meaning. \<open>exec\<close> dispatches a command to the function of
  \<open>src/pg_redis.c\<close> that implements it; \<open>redis_step\<close> is what the command does to a keyspace. The
  refinement lemma \<open>exec_refines\<close> relates the two through the live view of the backend; its proof
  goes through \<open>core\<close>, which describes a command by its effect on the entry of its key.
\<close>

section \<open>Commands and replies\<close>

datatype redis_cmd =
    CSet bytes bytes
  | CGet bytes
  | CDel bytes
  | CExists bytes
  | CExpire bytes int
  | CTtl bytes
  | CIncr bytes
  | CDecr bytes
  | CHset bytes bytes bytes
  | CHget bytes bytes
  | CHdel bytes bytes
  | CHexists bytes bytes
  | CLpush bytes bytes
  | CRpush bytes bytes
  | CLpop bytes
  | CRpop bytes
  | CLlen bytes

datatype reply = RBool bool | RText "bytes option" | RNum int

fun reply_of :: "('a \<Rightarrow> reply) \<Rightarrow> 'a result \<times> backend \<Rightarrow> reply result \<times> backend" where
  "reply_of f (Inl err, b) = (Inl err, b)"
| "reply_of f (Inr x, b) = (Inr (f x), b)"

fun exec :: "guc \<Rightarrow> cmd_env \<Rightarrow> db \<Rightarrow> redis_cmd \<Rightarrow> backend \<Rightarrow> reply result \<times> backend" where
  "exec g cx d (CSet k v) b = reply_of RBool (pg_redis_set g cx d k v b)"
| "exec g cx d (CGet k) b = reply_of RText (pg_redis_get g cx d k b)"
| "exec g cx d (CDel k) b = reply_of RBool (pg_redis_del g cx d k b)"
| "exec g cx d (CExists k) b = reply_of RBool (pg_redis_exists g cx d k b)"
| "exec g cx d (CExpire k s) b = reply_of RBool (pg_redis_expire g cx d k s b)"
| "exec g cx d (CTtl k) b = reply_of RNum (pg_redis_ttl g cx d k b)"
| "exec g cx d (CIncr k) b = reply_of RNum (pg_redis_incr g cx d k b)"
| "exec g cx d (CDecr k) b = reply_of RNum (pg_redis_decr g cx d k b)"
| "exec g cx d (CHset k f v) b = reply_of RBool (pg_redis_hset g cx d k f v b)"
| "exec g cx d (CHget k f) b = reply_of RText (pg_redis_hget g cx d k f b)"
| "exec g cx d (CHdel k f) b = reply_of RBool (pg_redis_hdel g cx d k f b)"
| "exec g cx d (CHexists k f) b = reply_of RBool (pg_redis_hexists g cx d k f b)"
| "exec g cx d (CLpush k v) b = reply_of RNum (list_push g cx d k v True b)"
| "exec g cx d (CRpush k v) b = reply_of RNum (list_push g cx d k v False b)"
| "exec g cx d (CLpop k) b = reply_of RText (list_pop g cx d k True b)"
| "exec g cx d (CRpop k) b = reply_of RText (list_pop g cx d k False b)"
| "exec g cx d (CLlen k) b = reply_of RNum (pg_redis_llen g cx d k b)"

fun cmd_key :: "redis_cmd \<Rightarrow> bytes" where
  "cmd_key (CSet k v) = k" | "cmd_key (CGet k) = k" | "cmd_key (CDel k) = k"
| "cmd_key (CExists k) = k" | "cmd_key (CExpire k s) = k" | "cmd_key (CTtl k) = k"
| "cmd_key (CIncr k) = k" | "cmd_key (CDecr k) = k" | "cmd_key (CHset k f v) = k"
| "cmd_key (CHget k f) = k" | "cmd_key (CHdel k f) = k" | "cmd_key (CHexists k f) = k"
| "cmd_key (CLpush k v) = k" | "cmd_key (CRpush k v) = k" | "cmd_key (CLpop k) = k"
| "cmd_key (CRpop k) = k" | "cmd_key (CLlen k) = k"

fun cmd_field :: "redis_cmd \<Rightarrow> bytes option" where
  "cmd_field (CHset k f v) = Some f" | "cmd_field (CHget k f) = Some f"
| "cmd_field (CHdel k f) = Some f" | "cmd_field (CHexists k f) = Some f"
| "cmd_field _ = None"

fun cmd_value :: "redis_cmd \<Rightarrow> bytes option" where
  "cmd_value (CSet k v) = Some v" | "cmd_value (CHset k f v) = Some v"
| "cmd_value (CLpush k v) = Some v" | "cmd_value (CRpush k v) = Some v"
| "cmd_value _ = None"

section \<open>Abstract meaning\<close>

text \<open>Arguments are checked first: the key, then the field, then the value.\<close>

definition arg_error :: "guc \<Rightarrow> redis_cmd \<Rightarrow> pg_error option" where
  "arg_error g c =
     (case pg_redis_check_key_len g (length (cmd_key c)) of
        Inl err \<Rightarrow> Some err
      | Inr _ \<Rightarrow>
          (case (case cmd_field c of None \<Rightarrow> Inr () | Some f \<Rightarrow> pg_redis_check_field_len (length f)) of
             Inl err \<Rightarrow> Some err
           | Inr _ \<Rightarrow>
               (case (case cmd_value c of None \<Rightarrow> Inr () | Some v \<Rightarrow> pg_redis_check_value_len g (length v)) of
                  Inl err \<Rightarrow> Some err
                | Inr _ \<Rightarrow> None)))"

fun rvalue_type :: "rvalue \<Rightarrow> PgRedisValueType" where
  "rvalue_type (RString _) = PG_REDIS_TYPE_STRING"
| "rvalue_type (RInt _) = PG_REDIS_TYPE_INT"
| "rvalue_type (RHash _) = PG_REDIS_TYPE_HASH"
| "rvalue_type (RList _) = PG_REDIS_TYPE_LIST"

definition spec_incr :: "bytes \<Rightarrow> int \<Rightarrow> keyspace \<Rightarrow> reply result \<times> keyspace" where
  "spec_incr k delta m =
     (let put = (\<lambda>i x. (Inr (RNum (wrap64 (i + delta))), m(k \<mapsto> (RInt (wrap64 (i + delta)), x))))
      in case m k of
           None \<Rightarrow> put 0 None
         | Some (RInt i, x) \<Rightarrow> put i x
         | Some (RString s, x) \<Rightarrow>
             (case pg_redis_parse_int64 s of None \<Rightarrow> (Inl (NotAnInteger k), m) | Some i \<Rightarrow> put i x)
         | Some (v, x) \<Rightarrow> (Inl (WrongType k (rvalue_type v) PG_REDIS_TYPE_INT), m))"

definition spec_push :: "bytes \<Rightarrow> (bytes list \<Rightarrow> bytes list) \<Rightarrow> keyspace \<Rightarrow> reply result \<times> keyspace" where
  "spec_push k f m =
     (let put = (\<lambda>xs x. (Inr (RNum (int (length (f xs)))), m(k \<mapsto> (RList (f xs), x))))
      in case m k of
           None \<Rightarrow> put [] None
         | Some (RList xs, x) \<Rightarrow> put xs x
         | Some (v, x) \<Rightarrow> (Inl (WrongType k (rvalue_type v) PG_REDIS_TYPE_LIST), m))"

definition spec_list :: "bytes \<Rightarrow> reply \<Rightarrow> (bytes list \<Rightarrow> int option \<Rightarrow> reply result \<times> keyspace) \<Rightarrow> keyspace \<Rightarrow>
    reply result \<times> keyspace" where
  "spec_list k missing f m =
     (case m k of
        None \<Rightarrow> (Inr missing, m)
      | Some (RList xs, x) \<Rightarrow> f xs x
      | Some (v, x) \<Rightarrow> (Inl (WrongType k (rvalue_type v) PG_REDIS_TYPE_LIST), m))"

definition spec_hash :: "bytes \<Rightarrow> reply \<Rightarrow> ((bytes \<Rightarrow> bytes option) \<Rightarrow> int option \<Rightarrow> reply result \<times> keyspace) \<Rightarrow>
    keyspace \<Rightarrow> reply result \<times> keyspace" where
  "spec_hash k missing f m =
     (case m k of
        None \<Rightarrow> (Inr missing, m)
      | Some (RHash h, x) \<Rightarrow> f h x
      | Some (v, x) \<Rightarrow> (Inl (WrongType k (rvalue_type v) PG_REDIS_TYPE_HASH), m))"

text \<open>\<open>now2\<close> is the second clock reading of a command that takes two.\<close>

fun redis_step :: "int \<Rightarrow> redis_cmd \<Rightarrow> keyspace \<Rightarrow> reply result \<times> keyspace" where
  "redis_step now2 (CSet k v) m =
     (Inr (RBool True), m(k \<mapsto> (RString v, case m k of None \<Rightarrow> None | Some (_, x) \<Rightarrow> x)))"
| "redis_step now2 (CGet k) m =
     (case m k of
        None \<Rightarrow> (Inr (RText None), m)
      | Some (RString s, x) \<Rightarrow> (Inr (RText (Some s)), m)
      | Some (RInt i, x) \<Rightarrow> (Inr (RText (Some (snprintf_int64 i))), m)
      | Some (v, x) \<Rightarrow> (Inl (WrongType k (rvalue_type v) PG_REDIS_TYPE_STRING), m))"
| "redis_step now2 (CDel k) m = (Inr (RBool (m k \<noteq> None)), m(k := None))"
| "redis_step now2 (CExists k) m = (Inr (RBool (m k \<noteq> None)), m)"
| "redis_step now2 (CExpire k s) m =
     (case m k of
        None \<Rightarrow> (Inr (RBool False), m)
      | Some (v, x) \<Rightarrow>
          if s \<le> 0 then (Inr (RBool True), m(k := None))
          else (Inr (RBool True), m(k \<mapsto> (v, Some (now2 + s * 1000000)))))"
| "redis_step now2 (CTtl k) m =
     (case m k of
        None \<Rightarrow> (Inr (RNum (-2)), m)
      | Some (v, None) \<Rightarrow> (Inr (RNum (-1)), m)
      | Some (v, Some t) \<Rightarrow>
          if t \<le> now2 then (Inr (RNum (-2)), m(k := None))
          else (Inr (RNum (ceil_seconds (t - now2))), m))"
| "redis_step now2 (CIncr k) m = spec_incr k 1 m"
| "redis_step now2 (CDecr k) m = spec_incr k (-1) m"
| "redis_step now2 (CHset k f v) m =
     (case m k of
        None \<Rightarrow> (Inr (RBool True), m(k \<mapsto> (RHash [f \<mapsto> v], None)))
      | Some (RHash h, x) \<Rightarrow> (Inr (RBool (h f = None)), m(k \<mapsto> (RHash (h(f \<mapsto> v)), x)))
      | Some (w, x) \<Rightarrow> (Inl (WrongType k (rvalue_type w) PG_REDIS_TYPE_HASH), m))"
| "redis_step now2 (CHget k f) m = spec_hash k (RText None) (\<lambda>h x. (Inr (RText (h f)), m)) m"
| "redis_step now2 (CHdel k f) m =
     spec_hash k (RBool False) (\<lambda>h x. (Inr (RBool (h f \<noteq> None)), m(k \<mapsto> (RHash (h(f := None)), x)))) m"
| "redis_step now2 (CHexists k f) m = spec_hash k (RBool False) (\<lambda>h x. (Inr (RBool (h f \<noteq> None)), m)) m"
| "redis_step now2 (CLpush k v) m = spec_push k (\<lambda>xs. v # xs) m"
| "redis_step now2 (CRpush k v) m = spec_push k (\<lambda>xs. xs @ [v]) m"
| "redis_step now2 (CLpop k) m =
     spec_list k (RText None) (\<lambda>xs x. if xs = [] then (Inr (RText None), m)
       else (Inr (RText (Some (hd xs))), m(k \<mapsto> (RList (tl xs), x)))) m"
| "redis_step now2 (CRpop k) m =
     spec_list k (RText None) (\<lambda>xs x. if xs = [] then (Inr (RText None), m)
       else (Inr (RText (Some (last xs))), m(k \<mapsto> (RList (butlast xs), x)))) m"
| "redis_step now2 (CLlen k) m = spec_list k (RNum 0) (\<lambda>xs x. (Inr (RNum (int (length xs))), m)) m"

definition redis_cmd_step :: "guc \<Rightarrow> int \<Rightarrow> redis_cmd \<Rightarrow> keyspace \<Rightarrow> reply result \<times> keyspace" where
  "redis_cmd_step g now2 c m =
     (case arg_error g c of Some err \<Rightarrow> (Inl err, m) | None \<Rightarrow> redis_step now2 c m)"

end
