(* ===== verification/Refinement.thy ===== *)
theory Refinement
  imports Redis_Spec
begin

text \<open>
  Every command refines its abstract meaning. \<open>core\<close> gives the reply of a command and its effect
  on the entry of its key; \<open>exec_core\<close> shows that the functions of \<open>src/pg_redis.c\<close> do exactly
  that, whatever the rest of the store holds. What the effects keep (the store invariant) and mean
  (the live view) is then proved on single entries.
\<close>

section \<open>Commands as effects on one entry\<close>

datatype effect = Keep | Remove | Put PgRedisEntry

fun apply_effect :: "bytes \<Rightarrow> effect \<Rightarrow> backend \<Rightarrow> backend" where
  "apply_effect k Keep b = b"
| "apply_effect k Remove b = snd (pg_redis_store_remove k b)"
| "apply_effect k (Put e) b = commit_put k e b"

definition live_entry :: "int \<Rightarrow> PgRedisEntry option \<Rightarrow> PgRedisEntry option" where
  "live_entry now eo =
     (case eo of None \<Rightarrow> None | Some e \<Rightarrow> if pg_redis_entry_is_expired now e then None else Some e)"

text \<open>Reading a key: an expired entry is removed, a live one is handed on.\<close>

definition core_read ::
    "int \<Rightarrow> PgRedisEntry option \<Rightarrow> reply result \<Rightarrow> (PgRedisEntry \<Rightarrow> reply result \<times> effect) \<Rightarrow>
     reply result \<times> effect" where
  "core_read now eo missing f =
     (case eo of
        None \<Rightarrow> (missing, Keep)
      | Some e \<Rightarrow> if pg_redis_entry_is_expired now e then (missing, Remove) else f e)"

definition core_set :: "int \<Rightarrow> bytes \<Rightarrow> PgRedisEntry option \<Rightarrow> reply result \<times> effect" where
  "core_set now v eo =
     (case up_entry now eo of (n, e) \<Rightarrow>
        let e = (if \<not> n \<and> e_type e \<noteq> PG_REDIS_TYPE_STRING then pg_redis_entry_release_value False e else e)
        in (Inr (RBool True), Put (e\<lparr>e_value := StringValue (Some v), e_version := e_version e + 1,
              e_dirty := True, e_deleted := False\<rparr>)))"

definition core_incr :: "int \<Rightarrow> bytes \<Rightarrow> int \<Rightarrow> PgRedisEntry option \<Rightarrow> reply result \<times> effect" where
  "core_incr now k delta eo =
     (case up_entry now eo of (n, e) \<Rightarrow>
        let put = (\<lambda>i. (Inr (RNum (wrap64 (i + delta))),
              Put (e\<lparr>e_value := IntValue (wrap64 (i + delta)), e_version := e_version e + 1\<rparr>)))
        in if n then put 0
           else case e_value e of
             IntValue i \<Rightarrow> put i
           | StringValue (Some s) \<Rightarrow>
               (case pg_redis_parse_int64 s of None \<Rightarrow> (Inl (NotAnInteger k), Keep) | Some i \<Rightarrow> put i)
           | StringValue None \<Rightarrow> (Inl (NotAnInteger k), Keep)
           | _ \<Rightarrow> (Inl (WrongType k (e_type e) PG_REDIS_TYPE_INT), Keep))"

definition core_hset :: "int \<Rightarrow> bytes \<Rightarrow> bytes \<Rightarrow> bytes \<Rightarrow> PgRedisEntry option \<Rightarrow> reply result \<times> effect" where
  "core_hset now k f v eo =
     (case up_entry now eo of (n, e) \<Rightarrow>
        if \<not> n \<and> e_type e \<noteq> PG_REDIS_TYPE_HASH
        then (Inl (WrongType k (e_type e) PG_REDIS_TYPE_HASH), Keep)
        else case pg_redis_hash_set (if n then pg_redis_hash_create else hash_of (e_value e)) f v of
          Inr (new_field, h') \<Rightarrow>
            (Inr (RBool new_field), Put (e\<lparr>e_value := HashValue (Some h'), e_version := e_version e + 1\<rparr>))
        | Inl err \<Rightarrow> (Inl err, Keep))"

definition core_hash ::
    "int \<Rightarrow> bytes \<Rightarrow> reply \<Rightarrow> (PgRedisEntry \<Rightarrow> PgRedisHash \<Rightarrow> reply result \<times> effect) \<Rightarrow> PgRedisEntry option \<Rightarrow>
     reply result \<times> effect" where
  "core_hash now k missing f eo = core_read now eo (Inr missing) (\<lambda>e.
     if e_type e \<noteq> PG_REDIS_TYPE_HASH then (Inl (WrongType k (e_type e) PG_REDIS_TYPE_HASH), Keep)
     else f e (hash_of (e_value e)))"

definition core_push :: "int \<Rightarrow> bytes \<Rightarrow> bytes \<Rightarrow> bool \<Rightarrow> PgRedisEntry option \<Rightarrow> reply result \<times> effect" where
  "core_push now k v left eo =
     (case up_entry now eo of (n, e) \<Rightarrow>
        if \<not> n \<and> e_type e \<noteq> PG_REDIS_TYPE_LIST
        then (Inl (WrongType k (e_type e) PG_REDIS_TYPE_LIST), Keep)
        else
          let l = (if n then pg_redis_list_create else list_of (e_value e));
              p = (if left then pg_redis_list_lpush v l else pg_redis_list_rpush v l)
          in (Inr (RNum (fst p)), Put (e\<lparr>e_value := ListValue (Some (snd p)), e_version := e_version e + 1\<rparr>)))"

definition core_list ::
    "int \<Rightarrow> bytes \<Rightarrow> reply \<Rightarrow> (PgRedisEntry \<Rightarrow> PgRedisList \<Rightarrow> reply result \<times> effect) \<Rightarrow> PgRedisEntry option \<Rightarrow>
     reply result \<times> effect" where
  "core_list now k missing f eo = core_read now eo (Inr missing) (\<lambda>e.
     if e_type e \<noteq> PG_REDIS_TYPE_LIST then (Inl (WrongType k (e_type e) PG_REDIS_TYPE_LIST), Keep)
     else f e (list_of (e_value e)))"

definition core_pop :: "int \<Rightarrow> bytes \<Rightarrow> bool \<Rightarrow> PgRedisEntry option \<Rightarrow> reply result \<times> effect" where
  "core_pop now k left = core_list now k (RText None) (\<lambda>e l.
     case (if left then pg_redis_list_lpop l else pg_redis_list_rpop l) of
       (None, l') \<Rightarrow> (Inr (RText None), Keep)
     | (Some x, l') \<Rightarrow>
         (Inr (RText (Some x)), Put (e\<lparr>e_value := ListValue (Some l'), e_version := e_version e + 1\<rparr>)))"

fun core :: "int \<Rightarrow> int \<Rightarrow> redis_cmd \<Rightarrow> PgRedisEntry option \<Rightarrow> reply result \<times> effect" where
  "core now now2 (CSet k v) eo = core_set now v eo"
| "core now now2 (CGet k) eo = core_read now eo (Inr (RText None)) (\<lambda>e.
     (case e_value e of
        StringValue s \<Rightarrow> Inr (RText s)
      | IntValue i \<Rightarrow> (case pg_redis_format_int64 i of Inl err \<Rightarrow> Inl err | Inr s \<Rightarrow> Inr (RText (Some s)))
      | HashValue _ \<Rightarrow> Inl (WrongType k PG_REDIS_TYPE_HASH PG_REDIS_TYPE_STRING)
      | ListValue _ \<Rightarrow> Inl (WrongType k PG_REDIS_TYPE_LIST PG_REDIS_TYPE_STRING), Keep))"
| "core now now2 (CDel k) eo = (Inr (RBool (eo \<noteq> None)), Remove)"
| "core now now2 (CExists k) eo = core_read now eo (Inr (RBool False)) (\<lambda>e. (Inr (RBool True), Keep))"
| "core now now2 (CExpire k s) eo = core_read now eo (Inr (RBool False)) (\<lambda>e.
     if s \<le> 0 then (Inr (RBool True), Remove)
     else (Inr (RBool True), Put (e\<lparr>e_has_expire := True,
       e_expire_at := TimestampTzPlusMilliseconds now2 (s * 1000), e_dirty := True,
       e_version := e_version e + 1\<rparr>)))"
| "core now now2 (CTtl k) eo = core_read now eo (Inr (RNum (-2))) (\<lambda>e.
     if \<not> e_has_expire e then (Inr (RNum (-1)), Keep)
     else if now2 \<ge> e_expire_at e then (Inr (RNum (-2)), Remove)
     else (Inr (RNum (wrap32 (wrap64 (wrap64 (e_expire_at e - now2) + 999999) div 1000000))), Keep))"
| "core now now2 (CIncr k) eo = core_incr now k 1 eo"
| "core now now2 (CDecr k) eo = core_incr now k (-1) eo"
| "core now now2 (CHset k f v) eo = core_hset now k f v eo"
| "core now now2 (CHget k f) eo =
     core_hash now k (RText None) (\<lambda>e h. (Inr (RText (pg_redis_hash_get h f)), Keep)) eo"
| "core now now2 (CHdel k f) eo =
     core_hash now k (RBool False) (\<lambda>e h.
       case pg_redis_hash_del h f of (removed, h') \<Rightarrow>
         (Inr (RBool removed), if removed
            then Put (e\<lparr>e_value := HashValue (Some h'), e_version := e_version e + 1\<rparr>) else Keep)) eo"
| "core now now2 (CHexists k f) eo =
     core_hash now k (RBool False) (\<lambda>e h. (Inr (RBool (pg_redis_hash_exists h f)), Keep)) eo"
| "core now now2 (CLpush k v) eo = core_push now k v True eo"
| "core now now2 (CRpush k v) eo = core_push now k v False eo"
| "core now now2 (CLpop k) eo = core_pop now k True eo"
| "core now now2 (CRpop k) eo = core_pop now k False eo"
| "core now now2 (CLlen k) eo =
     core_list now k (RNum 0) (\<lambda>e l. (Inr (RNum (pg_redis_list_length (Some l))), Keep)) eo"

section \<open>The implementation has these effects\<close>

lemma ensure_loaded_loaded:
  "persistence_loaded b \<Longrightarrow> ensure_loaded g cx d b = (Inr (), pg_redis_persistence_init b)"
  by (simp add: ensure_loaded_def pg_redis_persistence_load_if_needed_def pg_redis_persistence_init_def)

lemma init_fields [simp]:
  "store (pg_redis_persistence_init b) = store b"
  "dirty_head (pg_redis_persistence_init b) = dirty_head b"
  "pending_deletes_head (pg_redis_persistence_init b) = pending_deletes_head b"
  "persistence_loaded (pg_redis_persistence_init b) = persistence_loaded b"
  by (simp_all add: pg_redis_persistence_init_def)

text \<open>The argument checks and their order.\<close>

lemma key_arg_check:
  "key_arg g k = (case pg_redis_check_key_len g (length k) of Inl err \<Rightarrow> Inl err | Inr _ \<Rightarrow> Inr k)"
  by (simp add: key_arg_def pg_redis_text_to_cstring_stack_def Let_def)

lemma field_arg_check:
  "field_arg g f = (case pg_redis_check_field_len (length f) of Inl err \<Rightarrow> Inl err | Inr _ \<Rightarrow> Inr f)"
  by (simp add: field_arg_def pg_redis_text_to_cstring_stack_def Let_def)

lemma value_arg_check:
  "argtext_to_pstring g v False =
     (case pg_redis_check_value_len g (length v) of Inl err \<Rightarrow> Inl err | Inr _ \<Rightarrow> Inr v)"
  by (simp add: argtext_to_pstring_def)

lemmas arg_checks = key_arg_check field_arg_check value_arg_check

lemma arg_error_None:
  "arg_error g c = None \<longleftrightarrow>
     pg_redis_check_key_len g (length (cmd_key c)) = Inr () \<and>
     (\<forall>f. cmd_field c = Some f \<longrightarrow> pg_redis_check_field_len (length f) = Inr ()) \<and>
     (\<forall>v. cmd_value c = Some v \<longrightarrow> pg_redis_check_value_len g (length v) = Inr ())"
  by (auto simp: arg_error_def split: sum.splits option.splits)

lemma exec_arg_error:
  assumes "persistence_loaded b" "arg_error g c = Some err"
  shows "exec g cx d c b = (Inl err, pg_redis_persistence_init b)"
  using assms
  by (cases c)
    (auto simp: arg_error_def arg_checks ensure_loaded_loaded pg_redis_set_def pg_redis_get_def
      pg_redis_del_def pg_redis_exists_def pg_redis_expire_def pg_redis_ttl_def incrdecr_def
      pg_redis_incr_def pg_redis_decr_def pg_redis_hset_def pg_redis_hget_def pg_redis_hdel_def
      pg_redis_hexists_def list_push_def list_pop_def pg_redis_llen_def split: sum.splits)

lemma up_entry_old: "up_entry now (Some e) = (False, e') \<Longrightarrow> e' = e"
  by (simp add: up_entry_def split: if_splits)

lemma up_entry_None [simp]: "up_entry now None = (True, fresh_entry)"
  by (simp add: up_entry_def)

lemma put_old:
  "up_entry now (hash_find (store b) k) = (False, e) \<Longrightarrow> entry_put k e b = b"
  by (cases "hash_find (store b) k") (auto dest: up_entry_old)

definition exec_shape :: "cmd_env \<Rightarrow> redis_cmd \<Rightarrow> backend \<Rightarrow> reply result \<times> backend" where
  "exec_shape cx c b =
     (case core (cx_now cx) (cx_now2 cx) c (hash_find (store b) (cmd_key c)) of
        (r, eff) \<Rightarrow> (r, apply_effect (cmd_key c) eff (pg_redis_persistence_init b)))"

lemmas exec_shape_simps = exec_shape_def arg_error_None arg_checks ensure_loaded_loaded
  upsert_up_entry commit_put_def Let_def

lemma exec_core_set:
  "persistence_loaded b \<Longrightarrow> arg_error g (CSet k v) = None \<Longrightarrow> exec g cx d (CSet k v) b = exec_shape cx (CSet k v) b"
  by (simp add: exec_shape_simps pg_redis_set_def core_set_def split: prod.splits)

lemma exec_core_incr:
  assumes "persistence_loaded b" "pg_redis_check_key_len g (length k) = Inr ()"
  shows "reply_of RNum (incrdecr g cx d k delta b) =
    (case core_incr (cx_now cx) k delta (hash_find (store b) k) of
       (r, eff) \<Rightarrow> (r, apply_effect k eff (pg_redis_persistence_init b)))"
proof -
  obtain n e where u: "up_entry (cx_now cx) (hash_find (store b) k) = (n, e)" by force
  have "\<not> n \<Longrightarrow> entry_put k e (pg_redis_persistence_init b) = pg_redis_persistence_init b"
    using u by (intro put_old [of "cx_now cx"]) simp
  with assms u show ?thesis
    by (cases n)
      (auto simp: incrdecr_def arg_checks ensure_loaded_loaded upsert_up_entry commit_put_def
        core_incr_def Let_def split: PgRedisValue.splits option.splits)
qed

lemma exec_core_hset:
  assumes "persistence_loaded b" "arg_error g (CHset k f v) = None"
  shows "exec g cx d (CHset k f v) b = exec_shape cx (CHset k f v) b"
proof -
  obtain n e where u: "up_entry (cx_now cx) (hash_find (store b) k) = (n, e)" by force
  have "\<not> n \<Longrightarrow> entry_put k e (pg_redis_persistence_init b) = pg_redis_persistence_init b"
    using u by (intro put_old [of "cx_now cx"]) simp
  moreover have "\<exists>new h'. pg_redis_hash_set h f v = Inr (new, h')" for h
    using assms(2) by (intro hash_set_Inr) (simp add: arg_error_None check_field_len_iff)
  ultimately show ?thesis
    using assms u
    by (auto simp: exec_shape_simps pg_redis_hset_def core_hset_def split: sum.splits prod.splits)
       (metis sum.distinct(1))+
qed

lemma exec_core_push:
  assumes "persistence_loaded b" "arg_error g (CLpush k v) = None"
  shows "reply_of RNum (list_push g cx d k v left b) =
    (case core_push (cx_now cx) k v left (hash_find (store b) k) of
       (r, eff) \<Rightarrow> (r, apply_effect k eff (pg_redis_persistence_init b)))"
proof -
  obtain n e where u: "up_entry (cx_now cx) (hash_find (store b) k) = (n, e)" by force
  have "\<not> n \<Longrightarrow> entry_put k e (pg_redis_persistence_init b) = pg_redis_persistence_init b"
    using u by (intro put_old [of "cx_now cx"]) simp
  with assms u show ?thesis
    by (cases left; cases n)
      (simp_all add: exec_shape_simps list_push_def core_push_def case_prod_unfold del: fst_list_push)
qed

lemma exec_core_hash:
  assumes "persistence_loaded b" "arg_error g c = None"
    and "c \<in> {CHget k f, CHdel k f, CHexists k f}"
  shows "exec g cx d c b = exec_shape cx c b"
  using assms
  by (auto simp: exec_shape_simps pg_redis_hget_def pg_redis_hdel_def pg_redis_hexists_def with_hash_def
      core_hash_def core_read_def lookup_cases split: option.splits prod.splits)

lemma exec_core_list:
  assumes "persistence_loaded b" "arg_error g c = None"
    and "c \<in> {CLpop k, CRpop k, CLlen k}"
  shows "exec g cx d c b = exec_shape cx c b"
  using assms
  by (auto simp: exec_shape_simps list_pop_def pg_redis_llen_def with_list_def core_pop_def
      core_list_def core_read_def lookup_cases split: option.splits prod.splits)

lemma exec_core_get:
  assumes "persistence_loaded b" "arg_error g c = None" and "c \<in> {CGet k, CExists k}"
  shows "exec g cx d c b = exec_shape cx c b"
  using assms
  by (auto simp: exec_shape_simps pg_redis_get_def pg_redis_exists_def core_read_def lookup_cases
      split: option.splits prod.splits PgRedisValue.splits sum.splits)

lemma exec_core_del:
  assumes "persistence_loaded b" "arg_error g (CDel k) = None"
  shows "exec g cx d (CDel k) b = exec_shape cx (CDel k) b"
  using assms fst_remove [of k "pg_redis_persistence_init b"]
  by (simp add: exec_shape_simps pg_redis_del_def case_prod_unfold)

lemma exec_core_ttl:
  assumes "persistence_loaded b" "arg_error g (CTtl k) = None"
  shows "exec g cx d (CTtl k) b = exec_shape cx (CTtl k) b"
  using assms
  by (cases "hash_find (store b) k")
    (simp_all add: exec_shape_simps pg_redis_ttl_def pg_redis_ttl_seconds_def core_read_def lookup_cases)

lemma exec_core_expire:
  assumes "persistence_loaded b" "arg_error g (CExpire k s) = None"
  shows "exec g cx d (CExpire k s) b = exec_shape cx (CExpire k s) b"
  using assms
  by (auto simp: exec_shape_simps pg_redis_expire_def pg_redis_set_expire_seconds_def
      pg_redis_store_lookup_raw_def core_read_def lookup_cases split: option.splits prod.splits)

text \<open>Every command is its effect on the entry of its key.\<close>

lemma exec_core:
  assumes "persistence_loaded b" "arg_error g c = None"
  shows "exec g cx d c b = exec_shape cx c b"
proof (cases c)
  case (CIncr k)
  with assms show ?thesis
    using exec_core_incr [OF assms(1), of g k cx d 1]
    by (simp add: exec_shape_def pg_redis_incr_def arg_error_None)
next
  case (CDecr k)
  with assms show ?thesis
    using exec_core_incr [OF assms(1), of g k cx d "-1"]
    by (simp add: exec_shape_def pg_redis_decr_def arg_error_None)
next
  case (CLpush k v)
  with assms show ?thesis
    using exec_core_push [OF assms(1), of g k v cx d True] by (simp add: exec_shape_def)
next
  case (CRpush k v)
  with assms have "arg_error g (CLpush k v) = None" by (simp add: arg_error_None)
  with CRpush show ?thesis
    using exec_core_push [OF assms(1), of g k v cx d False] by (simp add: exec_shape_def)
qed (use assms in \<open>auto simp del: exec.simps intro: exec_core_set exec_core_hset exec_core_expire
       exec_core_del exec_core_ttl exec_core_get exec_core_hash exec_core_list\<close>)

section \<open>What the effects keep\<close>

definition texts_ok :: "redis_cmd \<Rightarrow> bool" where
  "texts_ok c \<longleftrightarrow> (case cmd_value c of None \<Rightarrow> True | Some v \<Rightarrow> length v < 2 ^ 30)"

definition eo_ok :: "PgRedisEntry option \<Rightarrow> bool" where
  "eo_ok eo \<longleftrightarrow> (case eo of None \<Rightarrow> True | Some e \<Rightarrow> value_ok (e_value e))"

lemma value_ok_cases [consumes 1, case_names String Int Hash List]:
  assumes "value_ok v"
  obtains s where "v = StringValue (Some s)" "length s < 2 ^ 32"
    | i where "v = IntValue i" "int64_range i"
    | h where "v = HashValue (Some h)" "hash_ok h"
    | l where "v = ListValue (Some l)" "list_ok l"
  using assms by (cases v rule: value_ok.cases) auto

definition eo_flag :: "PgRedisEntry option \<Rightarrow> bool" where
  "eo_flag eo = (case eo of Some e \<Rightarrow> e_in_dirty_set e | None \<Rightarrow> False)"

lemma up_entry_flag: "up_entry now eo = (n, e) \<Longrightarrow> e_in_dirty_set e = eo_flag eo"
  by (auto simp: up_entry_def eo_flag_def fresh_entry_def split: option.splits if_splits)

lemma up_entry_ok: "eo_ok eo \<Longrightarrow> up_entry now eo = (False, e) \<Longrightarrow> value_ok (e_value e)"
  by (auto simp: up_entry_def eo_ok_def split: option.splits if_splits)

text \<open>Where an entry that a command stores comes from.\<close>

definition put_ok :: "redis_cmd \<Rightarrow> PgRedisEntry option \<Rightarrow> PgRedisEntry \<Rightarrow> bool" where
  "put_ok c eo e' \<longleftrightarrow> value_ok (e_value e') \<and> e_in_dirty_set e' = eo_flag eo"

lemma core_put_set:
  "length v < 2 ^ 30 \<Longrightarrow> core_set now v eo = (r, Put e') \<Longrightarrow> put_ok (CSet k v) eo e'"
  by (auto simp: core_set_def put_ok_def pg_redis_entry_release_value_def Let_def
      split: prod.splits if_splits dest: up_entry_flag)

lemma core_put_incr:
  "core_incr now k delta eo = (r, Put e') \<Longrightarrow> put_ok c eo e'"
  by (auto simp: core_incr_def put_ok_def Let_def
      split: prod.splits if_splits PgRedisValue.splits option.splits dest: up_entry_flag)

lemma hash_of_ok: "value_ok (e_value e) \<Longrightarrow> e_type e = PG_REDIS_TYPE_HASH \<Longrightarrow>
    \<exists>h. e_value e = HashValue (Some h) \<and> hash_of (e_value e) = h \<and> hash_ok h"
  by (cases "e_value e" rule: value_ok_cases) (auto simp: e_type_def hash_of_def)

lemma list_of_ok: "value_ok (e_value e) \<Longrightarrow> e_type e = PG_REDIS_TYPE_LIST \<Longrightarrow>
    \<exists>l. e_value e = ListValue (Some l) \<and> list_of (e_value e) = l \<and> list_ok l"
  by (cases "e_value e" rule: value_ok_cases) (auto simp: e_type_def list_of_def)

lemma core_put_hset:
  assumes "eo_ok eo" "core_hset now k f v eo = (r, Put e')"
  shows "put_ok c eo e'"
proof -
  obtain n e where u: "up_entry now eo = (n, e)" by force
  let ?h = "if n then pg_redis_hash_create else hash_of (e_value e)"
  obtain new h' where s: "pg_redis_hash_set ?h f v = Inr (new, h')" and
    e': "e' = e\<lparr>e_value := HashValue (Some h'), e_version := e_version e + 1\<rparr>" and
    t: "n \<or> e_type e = PG_REDIS_TYPE_HASH"
    using assms(2) by (auto simp: core_hset_def u split: if_splits sum.splits prod.splits)
  have "hash_ok ?h" using t up_entry_ok [OF assms(1), of now e] hash_of_ok [of e] u by auto
  from hash_ok_set [OF this s] show ?thesis using e' up_entry_flag [OF u] by (simp add: put_ok_def)
qed

lemma core_put_push:
  assumes "eo_ok eo" "core_push now k v left eo = (r, Put e')"
  shows "put_ok c eo e'"
proof -
  obtain n e where u: "up_entry now eo = (n, e)" by force
  let ?l = "if n then pg_redis_list_create else list_of (e_value e)"
  have e': "e' = e\<lparr>e_value := ListValue (Some (snd (if left then pg_redis_list_lpush v ?l
        else pg_redis_list_rpush v ?l))), e_version := e_version e + 1\<rparr>" and
    t: "n \<or> e_type e = PG_REDIS_TYPE_LIST"
    using assms(2) by (auto simp: core_push_def u Let_def split: if_splits)
  have "list_ok ?l" using t up_entry_ok [OF assms(1), of now e] list_of_ok [of e] u by auto
  then show ?thesis using e' up_entry_flag [OF u] by (simp add: put_ok_def)
qed

lemma core_read_Put:
  assumes "core_read now eo missing f = (r, Put e')"
  obtains e where "eo = Some e" "\<not> pg_redis_entry_is_expired now e" "f e = (r, Put e')"
  using assms by (auto simp: core_read_def split: option.splits if_splits)

lemma core_put_hdel:
  assumes "eo_ok eo" "core now now2 (CHdel k f) eo = (r, Put e')"
  shows "put_ok c eo e'"
proof -
  obtain e where e: "eo = Some e" "e_type e = PG_REDIS_TYPE_HASH"
    "e' = e\<lparr>e_value := HashValue (Some (snd (pg_redis_hash_del (hash_of (e_value e)) f))), e_version := e_version e + 1\<rparr>"
    using assms(2)
    by (auto simp: core_hash_def elim!: core_read_Put split: if_splits prod.splits)
  then have "hash_ok (hash_of (e_value e))"
    using assms(1) hash_of_ok [of e] by (auto simp: eo_ok_def)
  with e show ?thesis by (simp add: put_ok_def eo_flag_def hash_ok_del)
qed

lemma core_put_pop:
  assumes "eo_ok eo" "core_pop now k left eo = (r, Put e')"
  shows "put_ok c eo e'"
proof -
  obtain e where e: "eo = Some e" "e_type e = PG_REDIS_TYPE_LIST"
    "e' = e\<lparr>e_value := ListValue (Some (snd (if left then pg_redis_list_lpop (list_of (e_value e))
       else pg_redis_list_rpop (list_of (e_value e))))), e_version := e_version e + 1\<rparr>"
    using assms(2)
    by (auto simp: core_pop_def core_list_def elim!: core_read_Put split: if_splits prod.splits option.splits)
  then have "list_ok (list_of (e_value e))"
    using assms(1) list_of_ok [of e] by (auto simp: eo_ok_def)
  with e show ?thesis by (simp add: put_ok_def eo_flag_def)
qed

lemma core_put_ok:
  assumes "eo_ok eo" "texts_ok c" "core now now2 c eo = (r, Put e')"
  shows "put_ok c eo e'"
proof (cases c)
  case (CExpire k s)
  with assms show ?thesis
    by (auto simp: put_ok_def eo_ok_def eo_flag_def elim!: core_read_Put split: if_splits)
next
  case (CSet k v)
  with assms show ?thesis by (auto simp: texts_ok_def intro: core_put_set)
next
  case (CHdel k f)
  with assms show ?thesis by (blast intro: core_put_hdel)
qed (use assms in \<open>auto simp: core_hash_def core_list_def elim!: core_read_Put
       intro: core_put_incr core_put_hset core_put_push core_put_pop split: if_splits\<close>)

section \<open>What the effects mean\<close>

fun apply_view :: "bytes \<Rightarrow> effect \<Rightarrow> keyspace \<Rightarrow> keyspace" where
  "apply_view k Keep m = m"
| "apply_view k Remove m = m(k := None)"
| "apply_view k (Put e) m = m(k \<mapsto> abs_entry e)"

definition eo_view :: "int \<Rightarrow> PgRedisEntry option \<Rightarrow> (rvalue \<times> int option) option" where
  "eo_view now eo = map_option abs_entry (live_entry now eo)"

lemma eo_view_simps:
  "eo_view now None = None"
  "pg_redis_entry_is_expired now e \<Longrightarrow> eo_view now (Some e) = None"
  "\<not> pg_redis_entry_is_expired now e \<Longrightarrow> eo_view now (Some e) = Some (abs_entry e)"
  by (simp_all add: eo_view_def live_entry_def)

text \<open>
  \<open>means now2 c m k (r, eff)\<close>: the reply and the effect are those of the abstract command. Only
  the reply of \<open>DEL\<close> may differ: it is true as well for an expired key that is still stored.
\<close>

definition means :: "int \<Rightarrow> redis_cmd \<Rightarrow> keyspace \<Rightarrow> reply result \<times> effect \<Rightarrow> bool" where
  "means now2 c m p \<longleftrightarrow>
     snd (redis_step now2 c m) = apply_view (cmd_key c) (snd p) m \<and>
     (fst (redis_step now2 c m) = fst p \<or>
      (\<exists>k. c = CDel k \<and> m k = None \<and> fst p = Inr (RBool True)))"

lemma eo_cases [case_names None Expired Live]:
  obtains "eo = None" "eo_view now eo = None" "up_entry now eo = (True, fresh_entry)"
  | e where "eo = Some e" "pg_redis_entry_is_expired now e" "eo_view now eo = None"
      "up_entry now eo = (True, fresh_entry\<lparr>e_in_dirty_set := e_in_dirty_set e\<rparr>)"
  | e where "eo = Some e" "\<not> pg_redis_entry_is_expired now e" "eo_view now eo = Some (abs_entry e)"
      "up_entry now eo = (False, e)"
proof (cases eo)
  case None
  with that(1) show thesis by (simp add: eo_view_simps)
next
  case (Some e)
  with that(2,3) show thesis
    by (cases "pg_redis_entry_is_expired now e") (simp_all add: eo_view_simps up_entry_def)
qed

lemma abs_entry_fresh [simp]: "e_expiry fresh_entry = None" "e_expiry (fresh_entry\<lparr>e_in_dirty_set := x\<rparr>) = None"
  by (simp_all add: fresh_entry_def e_expiry_def)

lemma e_expiry_upd [simp]:
  "e_expiry (e\<lparr>e_value := v\<rparr>) = e_expiry e" "e_expiry (e\<lparr>e_version := n\<rparr>) = e_expiry e"
  "e_expiry (e\<lparr>e_dirty := x\<rparr>) = e_expiry e" "e_expiry (e\<lparr>e_deleted := x\<rparr>) = e_expiry e"
  "e_expiry (pg_redis_entry_release_value False e) = e_expiry e"
  by (simp_all add: e_expiry_def pg_redis_entry_release_value_def)

lemma means_set:
  assumes "m k = eo_view now eo"
  shows "means now2 (CSet k v) m (core_set now v eo)"
  using assms
  by (cases rule: eo_cases [where eo = eo and now = now])
    (auto simp: means_def core_set_def abs_entry_def Let_def)

lemma means_incr:
  assumes "m k = eo_view now eo" "eo_ok eo"
  shows "spec_incr k delta m =
    (fst (core_incr now k delta eo), apply_view k (snd (core_incr now k delta eo)) m)"
proof (cases rule: eo_cases [where eo = eo and now = now])
  case (Live e)
  then have "value_ok (e_value e)" using assms(2) by (simp add: eo_ok_def)
  then show ?thesis
    using assms Live
    by (cases rule: value_ok_cases)
      (auto simp: spec_incr_def core_incr_def abs_entry_def Let_def e_type_def split: option.splits)
qed (use assms in \<open>auto simp: spec_incr_def core_incr_def abs_entry_def Let_def\<close>)

lemma means_hset:
  assumes "m k = eo_view now eo" "eo_ok eo" "length f \<le> PG_REDIS_MAX_FIELD_SIZE"
  shows "means now2 (CHset k f v) m (core_hset now k f v eo)"
proof -
  have new: "\<exists>h'. pg_redis_hash_set pg_redis_hash_create f v = Inr (True, h') \<and> hash_map h' = [f \<mapsto> v]"
  proof -
    obtain n h' where s: "pg_redis_hash_set pg_redis_hash_create f v = Inr (n, h')"
      using hash_set_Inr [OF assms(3)] by blast
    moreover have "hash_map pg_redis_hash_create = Map.empty" by (rule ext) simp
    ultimately show ?thesis
      using hash_map_set [OF s] session_hash.set_new [OF hash_ok_create s] by simp
  qed
  show ?thesis
  proof (cases rule: eo_cases [where eo = eo and now = now])
    case (Live e)
    then have "value_ok (e_value e)" using assms(2) by (simp add: eo_ok_def)
    then show ?thesis
    proof (cases rule: value_ok_cases)
      case (Hash h)
      obtain n h' where s: "pg_redis_hash_set h f v = Inr (n, h')"
        using hash_set_Inr [OF assms(3)] by blast
      then show ?thesis
        using Live Hash assms(1) hash_map_set [OF s] session_hash.set_new [OF Hash(2) s]
        by (simp add: means_def core_hset_def abs_entry_def e_type_def hash_of_def)
    qed (use Live assms(1) in \<open>auto simp: means_def core_hset_def abs_entry_def e_type_def\<close>)
  qed (use new assms(1) in \<open>auto simp: means_def core_hset_def abs_entry_def\<close>)
qed

lemma means_push:
  assumes "m k = eo_view now eo" "eo_ok eo"
  shows "spec_push k (\<lambda>xs. if left then v # xs else xs @ [v]) m =
    (fst (core_push now k v left eo), apply_view k (snd (core_push now k v left eo)) m)"
proof (cases rule: eo_cases [where eo = eo and now = now])
  case (Live e)
  then have "value_ok (e_value e)" using assms(2) by (simp add: eo_ok_def)
  then show ?thesis
    using assms Live
    by (cases rule: value_ok_cases)
      (auto simp: spec_push_def core_push_def abs_entry_def Let_def e_type_def list_of_def)
qed (use assms in \<open>auto simp: spec_push_def core_push_def abs_entry_def Let_def\<close>)

lemma means_get:
  assumes "m k = eo_view now eo" "eo_ok eo"
  shows "means now2 (CGet k) m (core now now2 (CGet k) eo)"
    "means now2 (CExists k) m (core now now2 (CExists k) eo)"
proof -
  show "means now2 (CGet k) m (core now now2 (CGet k) eo)"
  proof (cases rule: eo_cases [where eo = eo and now = now])
    case (Live e)
    then have "value_ok (e_value e)" using assms(2) by (simp add: eo_ok_def)
    then show ?thesis
      using assms Live
      by (cases rule: value_ok_cases)
        (auto simp: means_def core_read_def abs_entry_def format_int64_total)
  qed (use assms in \<open>auto simp: means_def core_read_def\<close>)
  show "means now2 (CExists k) m (core now now2 (CExists k) eo)"
    using assms
    by (cases rule: eo_cases [where eo = eo and now = now]) (auto simp: means_def core_read_def)
qed

lemma means_del:
  assumes "m k = eo_view now eo"
  shows "means now2 (CDel k) m (core now now2 (CDel k) eo)"
  using assms by (cases rule: eo_cases [where eo = eo and now = now]) (auto simp: means_def)

definition expiry_small :: "int \<Rightarrow> keyspace \<Rightarrow> bool" where
  "expiry_small now m \<longleftrightarrow> (\<forall>k v t. m k = Some (v, Some t) \<longrightarrow> t - now \<le> 2147483647 * 1000000)"

lemma means_expire:
  assumes "m k = eo_view now eo" "clock_ok now2" "int32_range s"
  shows "means now2 (CExpire k s) m (core now now2 (CExpire k s) eo)"
  using assms
  by (cases rule: eo_cases [where eo = eo and now = now])
    (auto simp: means_def core_read_def abs_entry_def plus_milliseconds e_expiry_def)

lemma ttl_reply:
  assumes "now2 < t" "t - now2 \<le> 2147483647 * 1000000"
  shows "wrap32 (wrap64 (wrap64 (t - now2) + 999999) div 1000000) = ceil_seconds (t - now2)"
proof -
  have "wrap64 (t - now2) = t - now2" "wrap64 (t - now2 + 999999) = t - now2 + 999999"
    using assms by (simp_all add: wrap64_id int64_range_def)
  moreover have "0 \<le> ceil_seconds (t - now2)" "ceil_seconds (t - now2) \<le> 2147483647"
    using ceil_seconds_mono [of 0 "t - now2"] ceil_seconds_mono [OF assms(2)]
      ceil_seconds_exact [of 0] ceil_seconds_exact [of 2147483647] assms(1) by simp_all
  ultimately show ?thesis by (simp add: ceil_seconds_def wrap32_id)
qed

lemma means_ttl:
  assumes "m k = eo_view now eo" "expiry_small now2 m"
  shows "means now2 (CTtl k) m (core now now2 (CTtl k) eo)"
proof (cases rule: eo_cases [where eo = eo and now = now])
  case (Live e)
  show ?thesis
  proof (cases "e_has_expire e")
    case True
    then have "e_expire_at e - now2 \<le> 2147483647 * 1000000"
      using Live assms by (simp add: expiry_small_def abs_entry_def e_expiry_def)
    then show ?thesis
      using True Live assms(1) ttl_reply [of now2 "e_expire_at e"]
      by (auto simp: means_def core_read_def abs_entry_def e_expiry_def)
  next
    case False
    then show ?thesis
      using Live assms(1) by (simp add: means_def core_read_def abs_entry_def e_expiry_def)
  qed
qed (use assms in \<open>auto simp: means_def core_read_def\<close>)

lemma means_hash:
  assumes "m k = eo_view now eo" "eo_ok eo" and c: "c \<in> {CHget k f, CHexists k f, CHdel k f}"
  shows "means now2 c m (core now now2 c eo)"
proof (cases rule: eo_cases [where eo = eo and now = now])
  case (Live e)
  then have "value_ok (e_value e)" using assms(2) by (simp add: eo_ok_def)
  then show ?thesis
  proof (cases rule: value_ok_cases)
    case (Hash h)
    obtain r h' where dl: "pg_redis_hash_del h f = (r, h')" by force
    have "r = (hash_map h f \<noteq> None)" "hash_map h' = (hash_map h)(f := None)"
      using session_hash.del_hit [OF Hash(2), of f] hash_map_del [OF Hash(2), of f] dl by simp_all
    moreover have "m(k \<mapsto> (RHash ((hash_map h)(f := None)), e_expiry e)) = m" if "hash_map h f = None"
      using that Live(3) Hash assms(1) by (simp add: abs_entry_def fun_upd_idem)
    ultimately show ?thesis
      using c Live Hash assms(1) dl
      by (auto simp: means_def core_hash_def core_read_def spec_hash_def abs_entry_def e_type_def
          hash_of_def hash_get_map pg_redis_hash_exists_def)
  qed (use c Live assms(1) in \<open>auto simp: means_def core_hash_def core_read_def spec_hash_def
         abs_entry_def e_type_def\<close>)
qed (use c assms in \<open>auto simp: means_def core_hash_def core_read_def spec_hash_def\<close>)

lemma means_list:
  assumes "m k = eo_view now eo" "eo_ok eo" and c: "c \<in> {CLpop k, CRpop k, CLlen k}"
  shows "means now2 c m (core now now2 c eo)"
proof (cases rule: eo_cases [where eo = eo and now = now])
  case (Live e)
  then have "value_ok (e_value e)" using assms(2) by (simp add: eo_ok_def)
  then show ?thesis
  proof (cases rule: value_ok_cases)
    case (List l)
    obtain x l1 y l2 where p: "pg_redis_list_lpop l = (x, l1)" "pg_redis_list_rpop l = (y, l2)" by force
    then have "x = (if list_vals l = [] then None else Some (hd (list_vals l)))"
      "list_vals l1 = tl (list_vals l)"
      "y = (if list_vals l = [] then None else Some (last (list_vals l)))"
      "list_vals l2 = butlast (list_vals l)"
      using list_pop_cases [of l] by simp_all
    then show ?thesis
      using c Live List assms(1) p
      by (auto simp: means_def core_pop_def core_list_def core_read_def spec_list_def abs_entry_def
          e_type_def list_of_def list_length_vals)
  qed (use c Live assms(1) in \<open>auto simp: means_def core_pop_def core_list_def core_read_def
         spec_list_def abs_entry_def e_type_def\<close>)
qed (use c assms in \<open>auto simp: means_def core_pop_def core_list_def core_read_def spec_list_def\<close>)

section \<open>Refinement\<close>

fun cmd_ok :: "redis_cmd \<Rightarrow> bool" where
  "cmd_ok (CExpire k s) \<longleftrightarrow> int32_range s"
| "cmd_ok c \<longleftrightarrow> texts_ok c"

definition env_ok :: "cmd_env \<Rightarrow> bool" where
  "env_ok cx \<longleftrightarrow> cx_now cx \<le> cx_now2 cx \<and> clock_ok (cx_now2 cx)"

lemma cmd_ok_texts: "cmd_ok c \<Longrightarrow> texts_ok c"
  by (cases c) (simp_all add: texts_ok_def)

lemma core_means:
  assumes "m (cmd_key c) = eo_view now eo" "eo_ok eo" "clock_ok now2" "expiry_small now2 m"
    and "cmd_ok c" "arg_error g c = None"
  shows "means now2 c m (core now now2 c eo)"
proof (cases c)
  case (CIncr k)
  with assms means_incr [of m k now eo 1] show ?thesis by (simp add: means_def)
next
  case (CDecr k)
  with assms means_incr [of m k now eo "-1"] show ?thesis by (simp add: means_def)
next
  case (CLpush k v)
  with assms means_push [of m k now eo True v] show ?thesis by (simp add: means_def)
next
  case (CRpush k v)
  with assms means_push [of m k now eo False v] show ?thesis by (simp add: means_def)
next
  case (CHset k f v)
  with assms have "length f \<le> PG_REDIS_MAX_FIELD_SIZE"
    by (simp add: arg_error_None check_field_len_iff)
  with assms CHset show ?thesis using means_hset by simp
next
  case (CSet k v)
  with assms show ?thesis using means_set by simp
qed (use assms in \<open>auto simp del: core.simps redis_step.simps
       intro: means_get means_del means_expire means_ttl means_hash means_list\<close>)

lemma is_expired_expiry:
  "pg_redis_entry_is_expired now e = (case e_expiry e of None \<Rightarrow> False | Some t \<Rightarrow> now \<ge> t)"
  by (simp add: pg_redis_entry_is_expired_def e_expiry_def)

lemma up_entry_live: "up_entry now eo = (n, e) \<Longrightarrow> \<not> pg_redis_entry_is_expired now e"
  by (auto simp: up_entry_def is_expired_expiry split: option.splits if_splits)

text \<open>An entry that a command stores is live.\<close>

lemma core_put_live:
  assumes put: "core now now2 c eo = (r, Put e')" and "cmd_ok c" "now \<le> now2" "clock_ok now2"
  shows "\<not> pg_redis_entry_is_expired now e'"
proof (cases c)
  case (CExpire k s)
  with assms show ?thesis
    by (auto elim!: core_read_Put simp: plus_milliseconds pg_redis_entry_is_expired_def split: if_splits)
next
  case (CSet k v)
  obtain n e where u: "up_entry now eo = (n, e)" by force
  with put CSet up_entry_live [OF u] show ?thesis
    by (auto simp: core_set_def Let_def is_expired_expiry split: if_splits)
next
  case (CIncr k)
  obtain n e where u: "up_entry now eo = (n, e)" by force
  with put CIncr up_entry_live [OF u] show ?thesis
    by (auto simp: core_incr_def Let_def is_expired_expiry
        split: if_splits PgRedisValue.splits option.splits)
next
  case (CDecr k)
  obtain n e where u: "up_entry now eo = (n, e)" by force
  with put CDecr up_entry_live [OF u] show ?thesis
    by (auto simp: core_incr_def Let_def is_expired_expiry
        split: if_splits PgRedisValue.splits option.splits)
next
  case (CHset k f v)
  obtain n e where u: "up_entry now eo = (n, e)" by force
  with put CHset up_entry_live [OF u] show ?thesis
    by (auto simp: core_hset_def is_expired_expiry split: if_splits sum.splits prod.splits)
next
  case (CLpush k v)
  obtain n e where u: "up_entry now eo = (n, e)" by force
  with put CLpush up_entry_live [OF u] show ?thesis
    by (auto simp: core_push_def Let_def is_expired_expiry split: if_splits)
next
  case (CRpush k v)
  obtain n e where u: "up_entry now eo = (n, e)" by force
  with put CRpush up_entry_live [OF u] show ?thesis
    by (auto simp: core_push_def Let_def is_expired_expiry split: if_splits)
qed (use put in \<open>auto simp: core_hash_def core_pop_def core_list_def is_expired_expiry elim!: core_read_Put
       split: if_splits prod.splits option.splits\<close>)

lemma init_view [simp]:
  "raw_view (pg_redis_persistence_init b) = raw_view b" "live now (pg_redis_persistence_init b) = live now b"
  "store_ok (pg_redis_persistence_init b) = store_ok b" "tracked (pg_redis_persistence_init b) = tracked b"
  "flag_of (pg_redis_persistence_init b) k = flag_of b k"
  by (simp_all add: fun_eq_iff raw_view_def live_find store_ok_def tracked_def chained_def flag_of_def
      list_all_iff)

lemma live_eo_view: "live now b k = eo_view now (hash_find (store b) k)"
  by (simp add: live_find eo_view_def live_entry_def split: option.splits)

lemma store_ok_eo: "store_ok b \<Longrightarrow> eo_ok (hash_find (store b) k)"
  by (auto simp: eo_ok_def store_ok_value split: option.splits)

lemma flag_of_eo: "flag_of b k = eo_flag (hash_find (store b) k)"
  by (simp add: flag_of_def eo_flag_def)

lemma live_apply_effect:
  assumes "\<And>e. eff = Put e \<Longrightarrow> \<not> pg_redis_entry_is_expired now e"
  shows "live now (apply_effect k eff b) = apply_view k eff (live now b)"
  using assms by (cases eff) (simp_all add: live_remove live_commit_put)

lemma ok_apply_effect:
  assumes "store_ok b" "key_ok k" "\<And>e. eff = Put e \<Longrightarrow> put_ok c (hash_find (store b) k) e"
  shows "store_ok (apply_effect k eff b)" "tracked b \<Longrightarrow> tracked (apply_effect k eff b)"
    "persistence_loaded (apply_effect k eff b) = persistence_loaded b"
  using assms
  by (cases eff; auto simp: store_ok_remove tracked_remove put_ok_def entry_ok_def flag_of_eo
      intro!: store_ok_commit_put tracked_commit_put; simp add: remove_cases commit_put_store split: option.splits)+

lemma exec_refines:
  assumes ok: "store_ok b" "persistence_loaded b" and env: "env_ok cx" and c: "cmd_ok c"
    and small: "expiry_small (cx_now2 cx) (live (cx_now cx) b)"
    and ex: "exec g cx d c b = (r, b')"
    and spec: "redis_cmd_step g (cx_now2 cx) c (live (cx_now cx) b) = (r0, m')"
  shows "live (cx_now cx) b' = m'"
    and "r = r0 \<or> (\<exists>k. c = CDel k) \<and> r = Inr (RBool True) \<and> r0 = Inr (RBool False)"
    and "store_ok b'" "persistence_loaded b'" "tracked b \<Longrightarrow> tracked b'"
proof -
  let ?eo = "hash_find (store b) (cmd_key c)"
  have "live (cx_now cx) b' = m' \<and>
      (r = r0 \<or> (\<exists>k. c = CDel k) \<and> r = Inr (RBool True) \<and> r0 = Inr (RBool False)) \<and>
      store_ok b' \<and> persistence_loaded b' \<and> (tracked b \<longrightarrow> tracked b')"
  proof (cases "arg_error g c")
    case (Some err)
    with ok ex spec show ?thesis
      using exec_arg_error [OF ok(2) Some, of cx d] by (auto simp: redis_cmd_step_def)
  next
    case None
    obtain r1 eff where core: "core (cx_now cx) (cx_now2 cx) c ?eo = (r1, eff)" by force
    have ex': "r = r1" "b' = apply_effect (cmd_key c) eff (pg_redis_persistence_init b)"
      using ex exec_core [OF ok(2) None, of cx d] core by (simp_all add: exec_shape_def)
    have "means (cx_now2 cx) c (live (cx_now cx) b) (r1, eff)"
      using core_means [OF live_eo_view store_ok_eo [OF ok(1)] _ small c None] env core
      by (simp add: env_ok_def)
    then have m: "m' = apply_view (cmd_key c) eff (live (cx_now cx) b)"
      "r1 = r0 \<or> (\<exists>k. c = CDel k) \<and> r1 = Inr (RBool True) \<and> r0 = Inr (RBool False)"
      using spec None by (auto simp: means_def redis_cmd_step_def)
    have key: "key_ok (cmd_key c)"
      using None by (auto simp: arg_error_None key_ok_def dest: check_key_len_bound)
    have live: "\<not> pg_redis_entry_is_expired (cx_now cx) e" if "eff = Put e" for e
      using core_put_live [of "cx_now cx" "cx_now2 cx" c ?eo r1 e] core that c env
      by (simp add: env_ok_def)
    have put: "put_ok c (hash_find (store (pg_redis_persistence_init b)) (cmd_key c)) e" if "eff = Put e" for e
      using core_put_ok [OF store_ok_eo [OF ok(1)] cmd_ok_texts [OF c], of "cx_now cx" "cx_now2 cx" "cmd_key c" r1 e]
        core that by simp
    show ?thesis
      using ok_apply_effect [of "pg_redis_persistence_init b" "cmd_key c" eff c] put key ok m live
      by (simp add: ex' live_apply_effect)
  qed
  then show "live (cx_now cx) b' = m'"
    and "r = r0 \<or> (\<exists>k. c = CDel k) \<and> r = Inr (RBool True) \<and> r0 = Inr (RBool False)"
    and "store_ok b'" "persistence_loaded b'" "tracked b \<Longrightarrow> tracked b'"
    by simp_all
qed

end
