(* ===== verification/Transactions.thy ===== *)
theory Transactions
  imports Refinement
begin

text \<open>
  Sequences of commands and their transactions. \<open>run_cmds\<close> runs commands one after the other,
  \<open>spec_run\<close> is what they mean; \<open>run_refines\<close> extends the refinement to sequences. A command
  that does not create a collection over durable rows of the same key (\<open>safe_cmd\<close>) keeps the
  invariant of \<open>Durability\<close>, so a commit writes the keyspace to the tables and a later load
  gives it back.
\<close>

section \<open>Sequences of commands\<close>

fun run_cmds ::
    "guc \<Rightarrow> db \<Rightarrow> (cmd_env \<times> redis_cmd) list \<Rightarrow> backend \<Rightarrow> reply result list \<times> backend" where
  "run_cmds g d [] b = ([], b)"
| "run_cmds g d ((cx, c) # cs) b =
     (case exec g cx d c b of (r, b1) \<Rightarrow> case run_cmds g d cs b1 of (rs, b2) \<Rightarrow> (r # rs, b2))"

fun spec_run ::
    "guc \<Rightarrow> (cmd_env \<times> redis_cmd) list \<Rightarrow> keyspace \<Rightarrow> reply result list \<times> keyspace" where
  "spec_run g [] m = ([], m)"
| "spec_run g ((cx, c) # cs) m =
     (case redis_cmd_step g (cx_now2 cx) c (drop_expired (cx_now cx) m) of
        (r, m1) \<Rightarrow> case spec_run g cs m1 of (rs, m2) \<Rightarrow> (r # rs, m2))"

text \<open>The clock does not go back, and the arguments are values of their SQL types.\<close>

fun clock_from :: "int \<Rightarrow> (cmd_env \<times> redis_cmd) list \<Rightarrow> bool" where
  "clock_from t [] \<longleftrightarrow> True"
| "clock_from t ((cx, c) # cs) \<longleftrightarrow> t \<le> cx_now cx \<and> env_ok cx \<and> cmd_ok c \<and> clock_from (cx_now2 cx) cs"

fun last_time :: "int \<Rightarrow> (cmd_env \<times> redis_cmd) list \<Rightarrow> int" where
  "last_time t [] = t"
| "last_time t ((cx, c) # cs) = last_time (cx_now2 cx) cs"

text \<open>Replies agree, except that \<open>DEL\<close> may report an expired key as deleted.\<close>

fun replies_agree :: "redis_cmd list \<Rightarrow> reply result list \<Rightarrow> reply result list \<Rightarrow> bool" where
  "replies_agree [] [] [] \<longleftrightarrow> True"
| "replies_agree (c # cs) (r # rs) (r0 # rs0) \<longleftrightarrow>
     (r = r0 \<or> (\<exists>k. c = CDel k) \<and> r = Inr (RBool True) \<and> r0 = Inr (RBool False)) \<and>
     replies_agree cs rs rs0"
| "replies_agree _ _ _ \<longleftrightarrow> False"

lemma expiry_small_later: "expiry_small t m \<Longrightarrow> t \<le> t' \<Longrightarrow> expiry_small t' m"
  by (force simp: expiry_small_def)

lemma expiry_small_drop: "expiry_small t m \<Longrightarrow> expiry_small t (drop_expired t' m)"
  by (auto simp: expiry_small_def drop_expired_def split: option.splits if_splits)

lemma expiry_small_None: "expiry_small t m \<Longrightarrow> expiry_small t (m(k := None))"
  by (simp add: expiry_small_def)

lemma expiry_small_put:
  "expiry_small t m \<Longrightarrow> (\<And>u. x = Some u \<Longrightarrow> u - t \<le> 2147483647 * 1000000) \<Longrightarrow> expiry_small t (m(k \<mapsto> (v, x)))"
  by (auto simp: expiry_small_def)

lemma expiry_small_keep:
  "expiry_small t m \<Longrightarrow> m k = Some (w, x) \<Longrightarrow> expiry_small t (m(k \<mapsto> (v, x)))"
  by (auto simp: expiry_small_def)

lemma expiry_small_step:
  assumes "expiry_small now2 m" "cmd_ok c"
  shows "expiry_small now2 (snd (redis_cmd_step g now2 c m))"
proof (cases "arg_error g c")
  case None
  have "expiry_small now2 (snd (redis_step now2 c m))"
  proof (cases c)
    case (CSet k v)
    then show ?thesis
      using assms by (cases "m k") (auto intro: expiry_small_put expiry_small_keep)
  next
    case (CExpire k s)
    then show ?thesis
      using assms by (cases "m k") (auto intro!: expiry_small_put expiry_small_None simp: int32_range_def)
  next
    case (CHset k f v)
    then show ?thesis
      using assms
      by (cases "m k") (auto intro: expiry_small_put expiry_small_keep split: rvalue.splits)
  qed (use assms in \<open>auto simp: spec_incr_def spec_push_def spec_list_def spec_hash_def Let_def
         intro: expiry_small_put expiry_small_keep expiry_small_None
         split: option.splits prod.splits rvalue.splits\<close>)
  with None show ?thesis by (simp add: redis_cmd_step_def)
qed (use assms in \<open>simp add: redis_cmd_step_def\<close>)

lemma run_refines:
  assumes "store_ok b" "persistence_loaded b" "clock_from t cs" "expiry_small t m"
    and "live t b = drop_expired t m"
    and "run_cmds g d cs b = (rs, b')" "spec_run g cs m = (rs0, m')"
  shows "store_ok b' \<and> persistence_loaded b' \<and> replies_agree (map snd cs) rs rs0 \<and>
    (\<forall>t' \<ge> last_time t cs. live t' b' = drop_expired t' m') \<and> expiry_small (last_time t cs) m' \<and>
    (tracked b \<longrightarrow> tracked b')"
  using assms
proof (induction cs arbitrary: t b m rs rs0)
  case Nil
  have "live t' b = drop_expired t' m" if "t \<le> t'" for t'
    using Nil.prems(5) that live_later [OF that, of b] by (simp add: drop_expired_twice)
  with Nil.prems show ?case by simp
next
  case (Cons p cs)
  obtain cx c where p: "p = (cx, c)" by (cases p)
  obtain r b1 where ex: "exec g cx d c b = (r, b1)" by force
  obtain rs1 where run: "run_cmds g d cs b1 = (rs1, b')" and rs: "rs = r # rs1"
    using Cons.prems(6) by (auto simp: p ex split: prod.splits)
  let ?m = "drop_expired (cx_now cx) m"
  obtain r0 m1 where sp: "redis_cmd_step g (cx_now2 cx) c ?m = (r0, m1)" by force
  obtain rs2 where srun: "spec_run g cs m1 = (rs2, m')" and rs0: "rs0 = r0 # rs2"
    using Cons.prems(7) by (auto simp: p sp split: prod.splits)
  have clk: "t \<le> cx_now cx" "env_ok cx" "cmd_ok c" "clock_from (cx_now2 cx) cs"
    using Cons.prems(3) by (simp_all add: p)
  then have le: "cx_now cx \<le> cx_now2 cx" by (simp add: env_ok_def)
  have lv: "live (cx_now cx) b = ?m"
    using live_later [OF clk(1), of b] Cons.prems(5) clk(1) by (simp add: drop_expired_twice)
  have small: "expiry_small (cx_now2 cx) ?m"
    using clk(1) le by (intro expiry_small_drop expiry_small_later [OF Cons.prems(4)]) simp
  note ref = exec_refines [OF Cons.prems(1,2) clk(2,3) small [folded lv] ex sp [folded lv]]
  have "live (cx_now2 cx) b1 = drop_expired (cx_now2 cx) m1"
    using live_later [OF le, of b1] ref(1) by simp
  moreover have "expiry_small (cx_now2 cx) m1"
    using expiry_small_step [OF small clk(3), of g] sp by simp
  ultimately have "store_ok b' \<and> persistence_loaded b' \<and> replies_agree (map snd cs) rs1 rs2 \<and>
      (\<forall>t' \<ge> last_time (cx_now2 cx) cs. live t' b' = drop_expired t' m') \<and>
      expiry_small (last_time (cx_now2 cx) cs) m' \<and> (tracked b1 \<longrightarrow> tracked b')"
    using ref(3,4) clk(4) run srun by (intro Cons.IH)
  then show ?case using ref(2,5) by (simp add: p rs rs0)
qed

section \<open>Commands keep the durability invariant\<close>

text \<open>
  A command that creates a collection must not find durable rows of a former collection under the
  same key: the flush upserts the parent row and would leave them in place.
\<close>

fun safe_cmd :: "int \<Rightarrow> db \<Rightarrow> backend \<Rightarrow> redis_cmd \<Rightarrow> bool" where
  "safe_cmd now d b (CHset k f v) \<longleftrightarrow> live now b k \<noteq> None \<or> rows_of (t_hash d) k = []"
| "safe_cmd now d b (CLpush k v) \<longleftrightarrow> live now b k \<noteq> None \<or> rows_of (t_list d) k = []"
| "safe_cmd now d b (CRpush k v) \<longleftrightarrow> live now b k \<noteq> None \<or> rows_of (t_list d) k = []"
| "safe_cmd now d b _ \<longleftrightarrow> True"

lemma rows_of_empty:
  "rows_of (t_hash d) k = [] \<Longrightarrow> db_fields d k = Map.empty"
  "rows_of (t_list d) k = [] \<Longrightarrow> db_items d k = Map.empty"
  using map_of_rows_of [of "t_hash d" k] map_of_rows_of [of "t_list d" k]
  by (simp_all add: fun_eq_iff db_fields_def db_items_def)

definition eo_synced :: "db \<Rightarrow> bytes \<Rightarrow> PgRedisEntry option \<Rightarrow> bool" where
  "eo_synced d k eo \<longleftrightarrow> (case eo of None \<Rightarrow> True | Some e \<Rightarrow> value_synced d k (e_value e))"

lemma up_entry_synced: "eo_synced d k eo \<Longrightarrow> up_entry now eo = (False, e) \<Longrightarrow> value_synced d k (e_value e)"
  by (auto simp: eo_synced_def up_entry_def split: option.splits if_splits)

lemma up_entry_new: "up_entry now eo = (True, e) \<Longrightarrow> eo_view now eo = None"
  by (auto simp: up_entry_def eo_view_def live_entry_def split: option.splits if_splits)

lemma synced_of:
  "value_ok (e_value e) \<Longrightarrow> value_synced d k (e_value e) \<Longrightarrow> e_type e = PG_REDIS_TYPE_HASH \<Longrightarrow>
     hash_ok (hash_of (e_value e)) \<and> hash_delta_ok (db_fields d k) (hash_of (e_value e))"
  "value_ok (e_value e) \<Longrightarrow> value_synced d k (e_value e) \<Longrightarrow> e_type e = PG_REDIS_TYPE_LIST \<Longrightarrow>
     list_ok (list_of (e_value e)) \<and> list_delta_ok (db_items d k) (list_of (e_value e))"
  by (cases "e_value e" rule: value_ok_cases; simp add: e_type_def hash_of_def list_of_def)+

lemma synced_hset:
  assumes syn: "eo_synced d k eo" "eo_ok eo" and safe: "eo_view now eo \<noteq> None \<or> rows_of (t_hash d) k = []"
    and put: "core_hset now k f v eo = (r, Put e')"
  shows "value_synced d k (e_value e')"
proof -
  obtain n e where u: "up_entry now eo = (n, e)" by force
  let ?h = "if n then pg_redis_hash_create else hash_of (e_value e)"
  obtain new h' where s: "pg_redis_hash_set ?h f v = Inr (new, h')" and
    e': "e_value e' = HashValue (Some h')" and t: "n \<or> e_type e = PG_REDIS_TYPE_HASH"
    using put by (auto simp: core_hset_def u split: if_splits sum.splits prod.splits)
  have "hash_delta_ok (db_fields d k) ?h"
  proof (cases n)
    case True
    then have "rows_of (t_hash d) k = []" using safe up_entry_new [of now eo e] u by simp
    then show ?thesis using True by (simp add: rows_of_empty hash_delta_create)
  next
    case False
    then have "value_ok (e_value e)" "value_synced d k (e_value e)"
      using u up_entry_ok [OF syn(2)] up_entry_synced [OF syn(1)] by auto
    with t False synced_of(1) [of e d k] show ?thesis by auto
  qed
  then show ?thesis using hash_delta_set [OF _ s] e' by simp
qed

lemma synced_push:
  assumes syn: "eo_synced d k eo" "eo_ok eo" and safe: "eo_view now eo \<noteq> None \<or> rows_of (t_list d) k = []"
    and put: "core_push now k v left eo = (r, Put e')"
  shows "value_synced d k (e_value e')"
proof -
  obtain n e where u: "up_entry now eo = (n, e)" by force
  let ?l = "if n then pg_redis_list_create else list_of (e_value e)"
  have e': "e_value e' = ListValue (Some (snd (if left then pg_redis_list_lpush v ?l
        else pg_redis_list_rpush v ?l)))" and t: "n \<or> e_type e = PG_REDIS_TYPE_LIST"
    using put by (auto simp: core_push_def u Let_def split: if_splits)
  have "list_delta_ok (db_items d k) ?l"
  proof (cases n)
    case True
    then have "rows_of (t_list d) k = []" using safe up_entry_new [of now eo e] u by simp
    then show ?thesis using True by (simp add: rows_of_empty list_delta_create)
  next
    case False
    then have "value_ok (e_value e)" "value_synced d k (e_value e)"
      using u up_entry_ok [OF syn(2)] up_entry_synced [OF syn(1)] by auto
    with t False synced_of(2) [of e d k] show ?thesis by auto
  qed
  then show ?thesis by (simp add: e')
qed

lemma synced_hdel:
  assumes syn: "eo_synced d k eo" "eo_ok eo" and put: "core now now2 (CHdel k f) eo = (r, Put e')"
  shows "value_synced d k (e_value e')"
proof -
  obtain e where e: "eo = Some e" "e_type e = PG_REDIS_TYPE_HASH"
    "e_value e' = HashValue (Some (snd (pg_redis_hash_del (hash_of (e_value e)) f)))"
    using put by (auto simp: core_hash_def elim!: core_read_Put split: if_splits prod.splits)
  then have "hash_ok (hash_of (e_value e))" "hash_delta_ok (db_fields d k) (hash_of (e_value e))"
    using syn synced_of(1) [of e d k] by (auto simp: eo_ok_def eo_synced_def)
  with e show ?thesis by (simp add: hash_delta_del)
qed

lemma synced_pop:
  assumes syn: "eo_synced d k eo" "eo_ok eo" and put: "core_pop now k left eo = (r, Put e')"
  shows "value_synced d k (e_value e')"
proof -
  obtain e where e: "eo = Some e" "e_type e = PG_REDIS_TYPE_LIST"
    "e_value e' = ListValue (Some (snd (if left then pg_redis_list_lpop (list_of (e_value e))
       else pg_redis_list_rpop (list_of (e_value e)))))"
    using put
    by (auto simp: core_pop_def core_list_def elim!: core_read_Put split: if_splits prod.splits option.splits)
  then have "list_ok (list_of (e_value e))" "list_delta_ok (db_items d k) (list_of (e_value e))"
    using syn synced_of(2) [of e d k] by (auto simp: eo_ok_def eo_synced_def)
  with e show ?thesis by (simp add: list_delta_lpop list_delta_rpop)
qed

lemma core_synced:
  assumes syn: "eo_synced d (cmd_key c) eo" "eo_ok eo"
    and put: "core now now2 c eo = (r, Put e')"
    and safe: "safe_cmd now d b c" "eo = hash_find (store b) (cmd_key c)"
  shows "value_synced d (cmd_key c) (e_value e')"
proof (cases c)
  case (CHset k f v)
  with assms show ?thesis by (auto simp: live_eo_view intro: synced_hset)
next
  case (CLpush k v)
  with assms show ?thesis by (auto simp: live_eo_view intro: synced_push)
next
  case (CRpush k v)
  with assms show ?thesis by (auto simp: live_eo_view intro: synced_push)
next
  case (CExpire k s)
  with put syn show ?thesis
    by (auto simp: eo_synced_def elim!: core_read_Put split: if_splits)
next
  case (CHdel k f)
  with syn put show ?thesis by (auto simp del: core.simps intro: synced_hdel)
next
  case (CSet k v)
  with put show ?thesis by (auto simp: core_set_def Let_def split: prod.splits if_splits)
qed (use assms in \<open>auto simp: core_incr_def Let_def core_hash_def core_list_def elim!: core_read_Put
       intro: synced_pop split: prod.splits if_splits option.splits PgRedisValue.splits\<close>)

lemma key_inv_remove:
  assumes "flush_inv t d b" "key \<noteq> []"
  shows "key_inv t d (snd (pg_redis_store_remove key b)) k"
proof (cases "hash_find (store b) key")
  case None
  then show ?thesis using flush_inv_parts(4) [OF assms(1), of k] by (simp add: remove_cases)
next
  case (Some e)
  show ?thesis
    using flush_inv_parts(4) [OF assms(1), of k] assms(2)
    by (cases "hash_find (store b) k") (auto simp: key_inv_def remove_cases Some)
qed

lemma key_inv_put:
  assumes inv: "flush_inv t d b" and e: "value_synced d key (e_value e)" "e_in_dirty_set e = flag_of b key"
  shows "key_inv t d (commit_put key e b) k"
proof (cases "k = key")
  case True
  have "key \<in> set (dirty_head b)" if "flag_of b key"
    using that flush_inv_parts(1,2) [OF inv] by (auto simp: flag_of_def tracked_iff split: option.splits)
  then show ?thesis using True e by (auto simp: key_inv_def commit_put_store)
next
  case False
  then show ?thesis
    using flush_inv_parts(4) [OF inv, of k]
    by (cases "hash_find (store b) k") (auto simp: key_inv_def commit_put_store)
qed

lemma key_inv_init [simp]: "key_inv t d (pg_redis_persistence_init b) k = key_inv t d b k"
  by (cases "hash_find (store b) k") (simp_all add: key_inv_def)

lemma flush_inv_init [simp]: "flush_inv t d (pg_redis_persistence_init b) = flush_inv t d b"
  by (simp add: flush_inv_def)

lemma flush_inv_synced: "flush_inv t d b \<Longrightarrow> eo_synced d k (hash_find (store b) k)"
  using flush_inv_parts(4) [of t d b k] by (simp add: eo_synced_def key_inv_def split: option.splits)

lemma flush_inv_effect:
  assumes inv: "flush_inv t d b" and key: "key_ok k"
    and put: "\<And>e. eff = Put e \<Longrightarrow> put_ok c (hash_find (store b) k) e \<and> value_synced d k (e_value e)"
  shows "flush_inv t d (apply_effect k eff b)"
proof -
  have "key_inv t d (apply_effect k eff b) j" for j
  proof (cases eff)
    case Keep
    then show ?thesis using flush_inv_parts(4) [OF inv] by simp
  next
    case Remove
    then show ?thesis using key_inv_remove [OF inv] key by (simp add: key_ok_def)
  next
    case (Put e)
    with put [OF Put] show ?thesis
      using key_inv_put [OF inv] by (simp add: put_ok_def flag_of_eo)
  qed
  then show ?thesis
    using ok_apply_effect [OF flush_inv_parts(1) [OF inv] key, of eff c] put flush_inv_parts(2,3) [OF inv]
    by (simp add: flush_inv_def)
qed

lemma exec_flush_inv:
  assumes inv: "flush_inv t d b" "persistence_loaded b" and c: "cmd_ok c"
    and safe: "safe_cmd (cx_now cx) d b c"
  shows "flush_inv t d (snd (exec g cx d c b))"
proof (cases "arg_error g c")
  case (Some err)
  then show ?thesis using exec_arg_error [OF inv(2) Some, of cx d] inv(1) by simp
next
  case None
  let ?eo = "hash_find (store b) (cmd_key c)"
  obtain r eff where core: "core (cx_now cx) (cx_now2 cx) c ?eo = (r, eff)" by force
  have eo: "eo_ok ?eo" by (rule store_ok_eo [OF flush_inv_parts(1) [OF inv(1)]])
  have "key_ok (cmd_key c)"
    using None by (auto simp: arg_error_None key_ok_def dest: check_key_len_bound)
  moreover have "put_ok c ?eo e \<and> value_synced d (cmd_key c) (e_value e)" if "eff = Put e" for e
    using core_put_ok [OF eo cmd_ok_texts [OF c] core [unfolded that]]
      core_synced [OF flush_inv_synced [OF inv(1)] eo core [unfolded that] safe refl] by simp
  ultimately have "flush_inv t d (apply_effect (cmd_key c) eff (pg_redis_persistence_init b))"
    using inv(1) by (intro flush_inv_effect [where c = c]) simp_all
  then show ?thesis using exec_core [OF inv(2) None, of cx d] core by (simp add: exec_shape_def)
qed

lemma exec_loaded:
  assumes "store_ok b" "persistence_loaded b" "cmd_ok c"
  shows "persistence_loaded (snd (exec g cx d c b))"
proof (cases "arg_error g c")
  case (Some err)
  then show ?thesis using exec_arg_error [OF assms(2) Some, of cx d] assms by simp
next
  case None
  obtain r eff where core: "core (cx_now cx) (cx_now2 cx) c (hash_find (store b) (cmd_key c)) = (r, eff)"
    by force
  then show ?thesis using exec_core [OF assms(2) None, of cx d] assms(2)
    by (cases eff) (simp_all add: exec_shape_def commit_put_store remove_cases split: option.splits)
qed

fun all_safe :: "guc \<Rightarrow> db \<Rightarrow> (cmd_env \<times> redis_cmd) list \<Rightarrow> backend \<Rightarrow> bool" where
  "all_safe g d [] b \<longleftrightarrow> True"
| "all_safe g d ((cx, c) # cs) b \<longleftrightarrow>
     cmd_ok c \<and> safe_cmd (cx_now cx) d b c \<and> all_safe g d cs (snd (exec g cx d c b))"

lemma run_flush_inv_cmds:
  assumes "flush_inv t d b" "persistence_loaded b" "all_safe g d cs b"
  shows "flush_inv t d (snd (run_cmds g d cs b)) \<and> persistence_loaded (snd (run_cmds g d cs b))"
  using assms
proof (induction cs arbitrary: b)
  case (Cons p cs)
  obtain cx c where p: "p = (cx, c)" by (cases p)
  have "flush_inv t d (snd (exec g cx d c b))" "persistence_loaded (snd (exec g cx d c b))"
    using Cons.prems exec_flush_inv exec_loaded flush_inv_parts(1) by (auto simp: p)
  with Cons.IH [of "snd (exec g cx d c b)"] Cons.prems(3) show ?case
    by (auto simp: p split: prod.splits)
qed simp

section \<open>Commit and restart\<close>

definition sync_session :: "guc \<Rightarrow> bool" where
  "sync_session g \<longleftrightarrow>
     \<not> pg_redis_storage_is_shared g \<and>
     pg_redis_resolve_persistence_mode g \<in> {PG_REDIS_PERSIST_SYNC_TABLE, PG_REDIS_PERSIST_ASYNC_TABLE}"

lemma sync_session_mode:
  "sync_session g \<Longrightarrow> pg_redis_effective_persistence_mode g = PG_REDIS_PERSIST_SYNC_TABLE"
  by (auto simp: sync_session_def pg_redis_effective_persistence_mode_def Let_def)

lemma commit_flush_inv:
  assumes "flush_inv t d b" "sync_session g"
  obtains d' b' where "pg_redis_xact_cb_persistence g True XACT_EVENT_PRE_COMMIT d b = (Inr d', b')"
    "flush_inv t d' b'" "dirty_head b' = []" "pending_deletes_head b' = []" "raw_view b' = raw_view b"
    "persistence_loaded b' = persistence_loaded b"
proof -
  have "pg_redis_xact_cb_persistence g True XACT_EVENT_PRE_COMMIT d b = run_flush True d b"
    using sync_session_mode [OF assms(2)] by (simp add: pg_redis_xact_cb_persistence_def)
  with run_flush_inv [OF assms(1)] that show thesis by metis
qed

text \<open>
  A new backend loads what was committed: the visible keyspace of the loaded backend is that of the
  backend that committed.
\<close>

lemma load_after_commit:
  assumes inv: "flush_inv t d b" "dirty_head b = []" "pending_deletes_head b = []"
    and t: "t \<le> sql_now"
    and clock: "list_all (\<lambda>(k, r). unexpired sql_now r \<longrightarrow> unexpired now r) (t_store d)"
  obtains b' where "pg_redis_persistence_do_load True sql_now now d backend_start = Inr b'"
    "flush_inv sql_now d b'"
    "\<And>u. sql_now \<le> u \<Longrightarrow> visible u (raw_view b') = visible u (raw_view b)"
proof -
  obtain b' where l: "pg_redis_persistence_do_load True sql_now now d backend_start = Inr b'"
    "flush_inv sql_now d b'" "dirty_head b' = []" "pending_deletes_head b' = []"
    using do_load_inv [OF flush_inv_parts(3) [OF inv(1)] clock, of backend_start]
    by (auto simp: backend_start_def)
  have "visible u (raw_view b') = visible u (raw_view b)" if "sql_now \<le> u" for u
    using flush_inv_settled [OF l(2-4) that] flush_inv_settled [OF inv, of u] t that by simp
  with l that show thesis by blast
qed

end
