(* ===== verification/Dsa.thy ===== *)
theory Dsa
  imports Types
begin

text \<open>
  The shared DSA segment and its wrappers in \<open>src/shmem.c\<close>. The segment is an explicit store from
  pointers to chunks; pointer \<open>0\<close> is \<open>InvalidDsaPointer\<close>. PostgreSQL's \<open>dsa_allocate_extended\<close> is a
  parameter \<open>al\<close>: from the segment and a size it picks a pointer, or \<open>0\<close> when out of memory
  (\<open>DSA_ALLOC_NO_OOM\<close>); the only thing relied on is that the pointer is not in use
  (\<open>dsa_alloc_ok\<close>). Reading through a pointer that is not a chunk of the expected kind is
  undefined in C; here it reads an empty object, and the invariants of the clients exclude it.
\<close>

section \<open>Chunks and the segment\<close>

type_synonym dsa_pointer = nat

datatype PgRedisSharedHashBucketState =
    PG_REDIS_SHB_EMPTY
  | PG_REDIS_SHB_OCCUPIED
  | PG_REDIS_SHB_TOMBSTONE

record PgRedisSharedHashBucket =
  sb_state :: PgRedisSharedHashBucketState
  sb_field_len :: nat
  sb_value_len :: nat
  sb_field_dsa :: dsa_pointer
  sb_value_dsa :: dsa_pointer

text \<open>The header of a table with the bucket array laid out behind it.\<close>

record PgRedisSharedHashTable =
  st_bucket_count :: nat
  st_occupied :: int
  st_tombstones :: int
  st_buckets :: "PgRedisSharedHashBucket list"

record PgRedisSharedListNode =
  sn_prev :: dsa_pointer
  sn_next :: dsa_pointer
  sn_ord :: int
  sn_value_len :: nat
  sn_value_dsa :: dsa_pointer

datatype chunk =
    Raw bytes
  | HashTable PgRedisSharedHashTable
  | ListNode PgRedisSharedListNode

type_synonym dsa_area = "(dsa_pointer, chunk) htab"

type_synonym allocator = "dsa_area \<Rightarrow> nat \<Rightarrow> dsa_pointer"

definition dsa_alloc_ok :: "allocator \<Rightarrow> bool" where
  "dsa_alloc_ok al \<longleftrightarrow> (\<forall>a n. al a n \<noteq> 0 \<longrightarrow> hash_find a (al a n) = None)"

section \<open>Wrappers\<close>

definition pg_redis_shared_palloc :: "allocator \<Rightarrow> nat \<Rightarrow> dsa_area \<Rightarrow> dsa_pointer \<times> dsa_area" where
  "pg_redis_shared_palloc al sz a =
     (let p = al a sz in if p = 0 then (0, a) else (p, hash_enter a p (Raw (replicate sz 0))))"

definition pg_redis_shared_pfree :: "dsa_pointer \<Rightarrow> dsa_area \<Rightarrow> dsa_area" where
  "pg_redis_shared_pfree p a = (if p = 0 then a else hash_remove a p)"

definition pg_redis_shared_addr :: "dsa_pointer \<Rightarrow> dsa_area \<Rightarrow> chunk option" where
  "pg_redis_shared_addr p a = (if p = 0 then None else hash_find a p)"

definition dsa_write :: "dsa_pointer \<Rightarrow> chunk \<Rightarrow> dsa_area \<Rightarrow> dsa_area" where
  "dsa_write p c a = hash_enter a p c"

fun raw_bytes :: "chunk option \<Rightarrow> bytes" where
  "raw_bytes (Some (Raw bs)) = bs"
| "raw_bytes _ = []"

text \<open>\<open>memcpy\<close> of the first \<open>n\<close> bytes of a chunk.\<close>

definition dsa_bytes :: "dsa_area \<Rightarrow> dsa_pointer \<Rightarrow> nat \<Rightarrow> bytes" where
  "dsa_bytes a p n = take n (raw_bytes (pg_redis_shared_addr p a))"

text \<open>A chunk for the bytes of a value; an empty value has none.\<close>

definition alloc_value :: "allocator \<Rightarrow> bytes \<Rightarrow> dsa_area \<Rightarrow> dsa_pointer \<times> dsa_area" where
  "alloc_value al value a =
     (if value = [] then (0, a)
      else case pg_redis_shared_palloc al (length value) a of (p, a) \<Rightarrow>
             if p = 0 then (0, a) else (p, dsa_write p (Raw value) a))"

definition UINT16_MAX :: int where
  "UINT16_MAX = 65535"

text \<open>The cast \<open>(uint16)\<close> of a length.\<close>

definition to_uint16 :: "nat \<Rightarrow> nat" where
  "to_uint16 n = unat (of_nat n :: 16 word)"

lemma to_uint16_id: "int n \<le> UINT16_MAX \<Longrightarrow> to_uint16 n = n"
  by (simp add: to_uint16_def UINT16_MAX_def unat_of_nat take_bit_nat_eq_self)

section \<open>Ownership\<close>

text \<open>
  \<open>dsa_frame a O1 b O2\<close>: between the segments \<open>a\<close> and \<open>b\<close> an owner that held the chunks \<open>O1\<close> now holds
  \<open>O2\<close>. Chunks of others are untouched, chunks it gained were free, chunks it gave up are freed.
\<close>

definition dsa_frame :: "dsa_area \<Rightarrow> dsa_pointer set \<Rightarrow> dsa_area \<Rightarrow> dsa_pointer set \<Rightarrow> bool" where
  "dsa_frame a O1 b O2 \<longleftrightarrow>
     (\<forall>q. q \<notin> O1 \<longrightarrow> q \<notin> O2 \<longrightarrow> hash_find b q = hash_find a q) \<and>
     (\<forall>q. q \<in> O2 \<longrightarrow> q \<notin> O1 \<longrightarrow> hash_find a q = None) \<and>
     (\<forall>q. q \<in> O1 \<longrightarrow> q \<notin> O2 \<longrightarrow> hash_find b q = None)"

lemma dsa_frame_refl [simp, intro]: "dsa_frame a O1 a O1"
  by (simp add: dsa_frame_def)

lemma dsa_frameD:
  assumes "dsa_frame a O1 b O2"
  shows "q \<notin> O1 \<Longrightarrow> q \<notin> O2 \<Longrightarrow> hash_find b q = hash_find a q"
    and "q \<in> O2 \<Longrightarrow> q \<notin> O1 \<Longrightarrow> hash_find a q = None"
    and "q \<in> O1 \<Longrightarrow> q \<notin> O2 \<Longrightarrow> hash_find b q = None"
  using assms by (simp_all add: dsa_frame_def)

lemma dsa_frame_trans:
  assumes "dsa_frame a O1 b O2" "dsa_frame b O2 c O3"
  shows "dsa_frame a O1 c O3"
  unfolding dsa_frame_def
proof (intro conjI allI impI)
  fix q
  note ab = dsa_frameD [OF assms(1), of q] and bc = dsa_frameD [OF assms(2), of q]
  show "hash_find c q = hash_find a q" if "q \<notin> O1" "q \<notin> O3"
    using that ab bc by (cases "q \<in> O2") simp_all
  show "hash_find a q = None" if "q \<in> O3" "q \<notin> O1"
    using that ab bc by (cases "q \<in> O2") simp_all
  show "hash_find c q = None" if "q \<in> O1" "q \<notin> O3"
    using that ab bc by (cases "q \<in> O2") simp_all
qed

lemma dsa_frame_others:
  assumes "dsa_frame a O1 b O2" "q \<notin> O1" "hash_find a q = Some c"
  shows "hash_find b q = Some c" "q \<notin> O2"
  using dsa_frameD [OF assms(1), of q] assms(2,3) by (cases "q \<in> O2"; simp)+

lemma dsa_frame_alloc:
  "hash_find a p = None \<Longrightarrow> dsa_frame a O1 (hash_enter a p c) (insert p O1)"
  by (auto simp: dsa_frame_def)

lemma dsa_frame_write: "p \<in> O1 \<Longrightarrow> dsa_frame a O1 (dsa_write p c a) O1"
  by (auto simp: dsa_frame_def dsa_write_def)

lemma dsa_frame_free: "p \<in> O1 \<or> p = 0 \<Longrightarrow> 0 \<notin> O1 \<Longrightarrow> dsa_frame a O1 (pg_redis_shared_pfree p a) (O1 - {p})"
  by (auto simp: dsa_frame_def pg_redis_shared_pfree_def)

lemma dsa_find_write [simp]: "hash_find (dsa_write p c a) q = (if q = p then Some c else hash_find a q)"
  by (simp add: dsa_write_def)

lemma dsa_find_free [simp]:
  "hash_find (pg_redis_shared_pfree p a) q = (if p \<noteq> 0 \<and> q = p then None else hash_find a q)"
  by (simp add: pg_redis_shared_pfree_def)

lemma dsa_alloc_fresh: "dsa_alloc_ok al \<Longrightarrow> al a n \<noteq> 0 \<Longrightarrow> hash_find a (al a n) = None"
  by (simp add: dsa_alloc_ok_def)

lemma palloc_cases:
  assumes "dsa_alloc_ok al" "pg_redis_shared_palloc al n a = (p, a')"
  obtains "p = 0" "a' = a"
  | "p \<noteq> 0" "hash_find a p = None" "a' = hash_enter a p (Raw (replicate n 0))"
proof (cases "al a n = 0")
  case True
  then show ?thesis using assms(2) that(1) by (simp add: pg_redis_shared_palloc_def)
next
  case False
  from dsa_alloc_fresh [OF assms(1) False] show ?thesis
    using assms(2) False that(2) by (auto simp: pg_redis_shared_palloc_def Let_def)
qed

text \<open>The segment after a successful allocation of a value.\<close>

definition value_area :: "dsa_area \<Rightarrow> bytes \<Rightarrow> dsa_pointer \<Rightarrow> dsa_area \<Rightarrow> bool" where
  "value_area a v vp a1 \<longleftrightarrow> (v = [] \<longleftrightarrow> vp = 0) \<and> (vp = 0 \<or> hash_find a vp = None) \<and>
     (\<forall>q. hash_find a1 q = (if vp \<noteq> 0 \<and> q = vp then Some (Raw v) else hash_find a q))"

lemma value_areaD:
  assumes "value_area a v vp a1"
  shows "v = [] \<longleftrightarrow> vp = 0" "vp = 0 \<or> hash_find a vp = None"
    "hash_find a1 q = (if vp \<noteq> 0 \<and> q = vp then Some (Raw v) else hash_find a q)"
  using assms by (simp_all add: value_area_def)

lemma alloc_value_cases:
  assumes "dsa_alloc_ok al" "alloc_value al v a = (vp, a')"
  obtains "v \<noteq> []" "vp = 0" "a' = a" | "value_area a v vp a'"
proof (cases "v = []")
  case True
  then show thesis using assms(2) that(2) by (simp add: alloc_value_def value_area_def)
next
  case False
  obtain p0 a0 where pa: "pg_redis_shared_palloc al (length v) a = (p0, a0)" by force
  show thesis
    by (rule palloc_cases [OF assms(1) pa])
      (use assms(2) pa False that in \<open>auto simp: alloc_value_def value_area_def\<close>)
qed

section \<open>A concrete allocator\<close>

text \<open>One past the largest pointer in use, within a budget of chunks.\<close>

definition bump_alloc :: "nat \<Rightarrow> allocator" where
  "bump_alloc budget a n = (if length a < budget then Suc (fold max (map fst a) 0) else 0)"

lemma fold_max_ge: "(y :: nat) \<le> fold max xs y" "x \<in> set xs \<Longrightarrow> x \<le> fold max xs y"
proof -
  have ge: "z \<le> fold max zs z" for z :: nat and zs
  proof (induction zs arbitrary: z)
    case (Cons w zs)
    show ?case using Cons.IH [of "max w z"] by simp
  qed simp
  show "y \<le> fold max xs y" by (rule ge)
  show "x \<in> set xs \<Longrightarrow> x \<le> fold max xs y"
  proof (induction xs arbitrary: y)
    case (Cons z zs)
    have "z \<le> fold max zs (max z y)" using ge [of "max z y" zs] by simp
    then show ?case using Cons by auto
  qed simp
qed

lemma bump_alloc_ok: "dsa_alloc_ok (bump_alloc budget)"
proof -
  have "hash_find a (Suc (fold max (map fst a) 0)) = None" for a :: dsa_area
    using fold_max_ge(2) [of _ "map fst a" 0] by (fastforce simp: hash_find_def map_of_eq_None_iff)
  then show ?thesis by (auto simp: dsa_alloc_ok_def bump_alloc_def)
qed

end
