(* ===== verification/Dirty_Event.thy ===== *)
theory Dirty_Event
  imports Dsa
begin

text \<open>
  The events of the dirty ring (\<open>src/dirty_ring.h\<close>, the encoders and decoders of \<open>src/dirty_ring.c\<close>).
  A backend encodes a change of the keyspace into a \<open>PgRedisDirtyEvent\<close>: the lengths of key, field and
  value in 16-bit fields, the bytes concatenated in the inline buffer or, when they do not fit, in one
  chunk of the segment. The drain decodes them again. An encoder that runs out of memory raises; the
  segment is then as before.
\<close>

section \<open>Events\<close>

datatype PgRedisDirtyEventType =
    PG_REDIS_EVENT_KEY_UPSERT
  | PG_REDIS_EVENT_KEY_DELETE
  | PG_REDIS_EVENT_HASH_FIELD_UPSERT
  | PG_REDIS_EVENT_HASH_FIELD_DELETE
  | PG_REDIS_EVENT_LIST_ITEM_INSERT
  | PG_REDIS_EVENT_LIST_ITEM_DELETE

datatype slot_state = SLOT_EMPTY | SLOT_WRITING | SLOT_READY | SLOT_DRAINING

record PgRedisDirtyEvent =
  ev_state :: slot_state
  ev_write_started_at :: int
  ev_type :: PgRedisDirtyEventType
  ev_value_type :: PgRedisValueType
  ev_key_len :: nat
  ev_field_len :: nat
  ev_ord :: int
  ev_expire_at :: int
  ev_has_expire :: bool
  ev_version :: nat
  ev_value_len :: nat
  ev_dsa_overflow :: bool
  ev_dsa_payload :: dsa_pointer
  ev_inline_bytes :: bytes

definition PG_REDIS_DIRTY_EVENT_INLINE_BYTES :: nat where
  "PG_REDIS_DIRTY_EVENT_INLINE_BYTES = 256"

text \<open>
  An event on the stack after \<open>memset\<close> of everything before the inline buffer, with its type set.
\<close>

definition event_zero :: "PgRedisDirtyEventType \<Rightarrow> PgRedisValueType \<Rightarrow> PgRedisDirtyEvent \<Rightarrow> PgRedisDirtyEvent" where
  "event_zero ty vt ev =
     \<lparr>ev_state = SLOT_EMPTY, ev_write_started_at = 0, ev_type = ty, ev_value_type = vt, ev_key_len = 0,
      ev_field_len = 0, ev_ord = 0, ev_expire_at = 0, ev_has_expire = False, ev_version = 0, ev_value_len = 0,
      ev_dsa_overflow = False, ev_dsa_payload = 0, ev_inline_bytes = ev_inline_bytes ev\<rparr>"

text \<open>A slot of the zeroed array; its type, which no one reads before an event is written, is arbitrary.\<close>

definition blank_slot :: PgRedisDirtyEvent where
  "blank_slot =
     \<lparr>ev_state = SLOT_EMPTY, ev_write_started_at = 0, ev_type = PG_REDIS_EVENT_KEY_UPSERT,
      ev_value_type = PG_REDIS_TYPE_STRING, ev_key_len = 0, ev_field_len = 0, ev_ord = 0, ev_expire_at = 0,
      ev_has_expire = False, ev_version = 0, ev_value_len = 0, ev_dsa_overflow = False, ev_dsa_payload = 0,
      ev_inline_bytes = replicate PG_REDIS_DIRTY_EVENT_INLINE_BYTES 0\<rparr>"

section \<open>Encoders\<close>

type_synonym encoded = "PgRedisDirtyEvent result \<times> dsa_area"

definition event_inline_write ::
    "allocator \<Rightarrow> bytes \<Rightarrow> bytes \<Rightarrow> bytes \<Rightarrow> PgRedisDirtyEvent \<Rightarrow> dsa_area \<Rightarrow> encoded" where
  "event_inline_write al part1 part2 part3 ev a =
     (let total = length part1 + length part2 + length part3 in
      if total > PG_REDIS_DIRTY_EVENT_INLINE_BYTES
      then case pg_redis_shared_palloc al total a of (dsa_p, a) \<Rightarrow>
             if dsa_p = 0 then (Inl OutOfSharedMemory, a)
             else (Inr (ev\<lparr>ev_dsa_overflow := True, ev_dsa_payload := dsa_p\<rparr>),
                   dsa_write dsa_p (Raw (part1 @ part2 @ part3)) a)
      else (Inr (ev\<lparr>ev_inline_bytes := part1 @ part2 @ part3 @ drop total (ev_inline_bytes ev),
                    ev_dsa_overflow := False, ev_dsa_payload := 0\<rparr>), a))"

definition pg_redis_event_encode_key_upsert ::
    "allocator \<Rightarrow> bytes \<Rightarrow> PgRedisEntry \<Rightarrow> bytes \<Rightarrow> PgRedisDirtyEvent \<Rightarrow> dsa_area \<Rightarrow> encoded" where
  "pg_redis_event_encode_key_upsert al key e tlv ev a =
     (let ev = (event_zero PG_REDIS_EVENT_KEY_UPSERT (e_type e) ev)
            \<lparr>ev_key_len := to_uint16 (length key), ev_field_len := 0, ev_ord := 0, ev_expire_at := e_expire_at e,
             ev_has_expire := e_has_expire e, ev_version := e_version e, ev_value_len := to_uint16 (length tlv)\<rparr>
      in event_inline_write al key [] tlv ev a)"

definition pg_redis_event_encode_key_delete ::
    "allocator \<Rightarrow> bytes \<Rightarrow> PgRedisDirtyEvent \<Rightarrow> dsa_area \<Rightarrow> encoded" where
  "pg_redis_event_encode_key_delete al key ev a =
     event_inline_write al key [] []
       ((event_zero PG_REDIS_EVENT_KEY_DELETE PG_REDIS_TYPE_STRING ev)\<lparr>ev_key_len := to_uint16 (length key)\<rparr>) a"

definition pg_redis_event_encode_hash_field_upsert ::
    "allocator \<Rightarrow> bytes \<Rightarrow> bytes \<Rightarrow> bytes \<Rightarrow> PgRedisDirtyEvent \<Rightarrow> dsa_area \<Rightarrow> encoded" where
  "pg_redis_event_encode_hash_field_upsert al key field val ev a =
     event_inline_write al key field val
       ((event_zero PG_REDIS_EVENT_HASH_FIELD_UPSERT PG_REDIS_TYPE_HASH ev)
          \<lparr>ev_key_len := to_uint16 (length key), ev_field_len := to_uint16 (length field),
           ev_value_len := to_uint16 (length val)\<rparr>) a"

definition pg_redis_event_encode_hash_field_delete ::
    "allocator \<Rightarrow> bytes \<Rightarrow> bytes \<Rightarrow> PgRedisDirtyEvent \<Rightarrow> dsa_area \<Rightarrow> encoded" where
  "pg_redis_event_encode_hash_field_delete al key field ev a =
     event_inline_write al key field []
       ((event_zero PG_REDIS_EVENT_HASH_FIELD_DELETE PG_REDIS_TYPE_HASH ev)
          \<lparr>ev_key_len := to_uint16 (length key), ev_field_len := to_uint16 (length field)\<rparr>) a"

definition pg_redis_event_encode_list_item_insert ::
    "allocator \<Rightarrow> bytes \<Rightarrow> int \<Rightarrow> bytes \<Rightarrow> PgRedisDirtyEvent \<Rightarrow> dsa_area \<Rightarrow> encoded" where
  "pg_redis_event_encode_list_item_insert al key ord val ev a =
     event_inline_write al key [] val
       ((event_zero PG_REDIS_EVENT_LIST_ITEM_INSERT PG_REDIS_TYPE_LIST ev)
          \<lparr>ev_key_len := to_uint16 (length key), ev_ord := ord, ev_value_len := to_uint16 (length val)\<rparr>) a"

definition pg_redis_event_encode_list_item_delete ::
    "allocator \<Rightarrow> bytes \<Rightarrow> int \<Rightarrow> PgRedisDirtyEvent \<Rightarrow> dsa_area \<Rightarrow> encoded" where
  "pg_redis_event_encode_list_item_delete al key ord ev a =
     event_inline_write al key [] []
       ((event_zero PG_REDIS_EVENT_LIST_ITEM_DELETE PG_REDIS_TYPE_LIST ev)
          \<lparr>ev_key_len := to_uint16 (length key), ev_ord := ord\<rparr>) a"

definition free_event_spill :: "PgRedisDirtyEvent \<Rightarrow> dsa_area \<Rightarrow> PgRedisDirtyEvent \<times> dsa_area" where
  "free_event_spill ev a =
     (if ev_dsa_overflow ev \<and> ev_dsa_payload ev \<noteq> 0
      then (ev\<lparr>ev_dsa_payload := 0, ev_dsa_overflow := False\<rparr>, pg_redis_shared_pfree (ev_dsa_payload ev) a)
      else (ev, a))"

section \<open>Decoders\<close>

definition event_payload_base :: "dsa_area \<Rightarrow> PgRedisDirtyEvent \<Rightarrow> bytes" where
  "event_payload_base a ev =
     (if ev_dsa_overflow ev then raw_bytes (pg_redis_shared_addr (ev_dsa_payload ev) a) else ev_inline_bytes ev)"

definition pg_redis_event_decode_key :: "dsa_area \<Rightarrow> PgRedisDirtyEvent \<Rightarrow> bytes" where
  "pg_redis_event_decode_key a ev = take (ev_key_len ev) (event_payload_base a ev)"

definition pg_redis_event_decode_field :: "dsa_area \<Rightarrow> PgRedisDirtyEvent \<Rightarrow> bytes" where
  "pg_redis_event_decode_field a ev = take (ev_field_len ev) (drop (ev_key_len ev) (event_payload_base a ev))"

definition pg_redis_event_decode_value :: "dsa_area \<Rightarrow> PgRedisDirtyEvent \<Rightarrow> bytes" where
  "pg_redis_event_decode_value a ev =
     take (ev_value_len ev) (drop (ev_key_len ev + ev_field_len ev) (event_payload_base a ev))"

section \<open>What an event stands for\<close>

text \<open>A change of the keyspace, and the encoder its publisher calls.\<close>

datatype change =
    KeyUpsert bytes PgRedisEntry bytes
  | KeyDelete bytes
  | HashFieldUpsert bytes bytes bytes
  | HashFieldDelete bytes bytes
  | ListItemInsert bytes int bytes
  | ListItemDelete bytes int

fun encode_change :: "allocator \<Rightarrow> change \<Rightarrow> PgRedisDirtyEvent \<Rightarrow> dsa_area \<Rightarrow> encoded" where
  "encode_change al (KeyUpsert k e tlv) ev a = pg_redis_event_encode_key_upsert al k e tlv ev a"
| "encode_change al (KeyDelete k) ev a = pg_redis_event_encode_key_delete al k ev a"
| "encode_change al (HashFieldUpsert k f v) ev a = pg_redis_event_encode_hash_field_upsert al k f v ev a"
| "encode_change al (HashFieldDelete k f) ev a = pg_redis_event_encode_hash_field_delete al k f ev a"
| "encode_change al (ListItemInsert k ord v) ev a = pg_redis_event_encode_list_item_insert al k ord v ev a"
| "encode_change al (ListItemDelete k ord) ev a = pg_redis_event_encode_list_item_delete al k ord ev a"

fun change_type :: "change \<Rightarrow> PgRedisDirtyEventType" where
  "change_type (KeyUpsert _ _ _) = PG_REDIS_EVENT_KEY_UPSERT"
| "change_type (KeyDelete _) = PG_REDIS_EVENT_KEY_DELETE"
| "change_type (HashFieldUpsert _ _ _) = PG_REDIS_EVENT_HASH_FIELD_UPSERT"
| "change_type (HashFieldDelete _ _) = PG_REDIS_EVENT_HASH_FIELD_DELETE"
| "change_type (ListItemInsert _ _ _) = PG_REDIS_EVENT_LIST_ITEM_INSERT"
| "change_type (ListItemDelete _ _) = PG_REDIS_EVENT_LIST_ITEM_DELETE"

fun change_key :: "change \<Rightarrow> bytes" where
  "change_key (KeyUpsert k _ _) = k"
| "change_key (KeyDelete k) = k"
| "change_key (HashFieldUpsert k _ _) = k"
| "change_key (HashFieldDelete k _) = k"
| "change_key (ListItemInsert k _ _) = k"
| "change_key (ListItemDelete k _) = k"

fun change_field :: "change \<Rightarrow> bytes" where
  "change_field (HashFieldUpsert _ f _) = f"
| "change_field (HashFieldDelete _ f) = f"
| "change_field _ = []"

fun change_value :: "change \<Rightarrow> bytes" where
  "change_value (KeyUpsert _ _ tlv) = tlv"
| "change_value (HashFieldUpsert _ _ v) = v"
| "change_value (ListItemInsert _ _ v) = v"
| "change_value _ = []"

fun change_ord :: "change \<Rightarrow> int" where
  "change_ord (ListItemInsert _ ord _) = ord"
| "change_ord (ListItemDelete _ ord) = ord"
| "change_ord _ = 0"

definition change_fits :: "change \<Rightarrow> bool" where
  "change_fits c \<longleftrightarrow> int (length (change_key c)) \<le> UINT16_MAX \<and> int (length (change_field c)) \<le> UINT16_MAX \<and>
     int (length (change_value c)) \<le> UINT16_MAX"

definition change_total :: "change \<Rightarrow> nat" where
  "change_total c = length (change_key c) + length (change_field c) + length (change_value c)"

text \<open>The chunk an event owns.\<close>

definition event_owned :: "PgRedisDirtyEvent \<Rightarrow> dsa_pointer set" where
  "event_owned ev = (if ev_dsa_overflow ev \<and> ev_dsa_payload ev \<noteq> 0 then {ev_dsa_payload ev} else {})"

text \<open>An event decodes to a change: the bytes of its payload and the fields beside them.\<close>

definition decodes :: "dsa_area \<Rightarrow> PgRedisDirtyEvent \<Rightarrow> change \<Rightarrow> bool" where
  "decodes a ev c \<longleftrightarrow>
     ev_type ev = change_type c \<and> pg_redis_event_decode_key a ev = change_key c \<and>
     pg_redis_event_decode_field a ev = change_field c \<and> pg_redis_event_decode_value a ev = change_value c \<and>
     ev_ord ev = change_ord c \<and>
     (case c of
        KeyUpsert _ e _ \<Rightarrow> ev_value_type ev = e_type e \<and> ev_expire_at ev = e_expire_at e \<and>
          ev_has_expire ev = e_has_expire e \<and> ev_version ev = e_version e
      | _ \<Rightarrow> True)"

lemmas encoder_defs =
  pg_redis_event_encode_key_upsert_def pg_redis_event_encode_key_delete_def
  pg_redis_event_encode_hash_field_upsert_def pg_redis_event_encode_hash_field_delete_def
  pg_redis_event_encode_list_item_insert_def pg_redis_event_encode_list_item_delete_def event_zero_def Let_def

text \<open>All encoders fill the fixed part and hand the three byte strings to \<open>event_inline_write\<close>.\<close>

lemma encode_change_write:
  obtains ev0 where
    "encode_change al c ev a = event_inline_write al (change_key c) (change_field c) (change_value c) ev0 a"
    "ev_type ev0 = change_type c" "ev_key_len ev0 = to_uint16 (length (change_key c))"
    "ev_field_len ev0 = to_uint16 (length (change_field c))" "ev_value_len ev0 = to_uint16 (length (change_value c))"
    "ev_ord ev0 = change_ord c" "ev_inline_bytes ev0 = ev_inline_bytes ev"
    "\<forall>k e tlv. c = KeyUpsert k e tlv \<longrightarrow> ev_value_type ev0 = e_type e \<and> ev_expire_at ev0 = e_expire_at e \<and>
       ev_has_expire ev0 = e_has_expire e \<and> ev_version ev0 = e_version e"
  by (cases c; simp add: encoder_defs to_uint16_def; blast?)

lemma event_inline_write_cases:
  assumes al: "dsa_alloc_ok al" and w: "event_inline_write al k f v ev a = (r, a')"
  obtains "r = Inl OutOfSharedMemory" "a' = a" "PG_REDIS_DIRTY_EVENT_INLINE_BYTES < length k + length f + length v"
  | ev' rest where "r = Inr ev'" "event_payload_base a' ev' = k @ f @ v @ rest" "dsa_frame a {} a' (event_owned ev')"
      "ev' = ev\<lparr>ev_dsa_overflow := ev_dsa_overflow ev', ev_dsa_payload := ev_dsa_payload ev', ev_inline_bytes := ev_inline_bytes ev'\<rparr>"
proof (cases "PG_REDIS_DIRTY_EVENT_INLINE_BYTES < length k + length f + length v")
  case True
  obtain p a1 where pa: "pg_redis_shared_palloc al (length k + length f + length v) a = (p, a1)" by force
  show thesis
  proof (rule palloc_cases [OF al pa])
    assume "p = 0" "a1 = a"
    then show thesis using w pa True by (intro that(1)) (simp_all add: event_inline_write_def)
  next
    assume p: "p \<noteq> 0" "hash_find a p = None" and a1: "a1 = hash_enter a p (Raw (replicate (length k + length f + length v) 0))"
    define ev' where "ev' = ev\<lparr>ev_dsa_overflow := True, ev_dsa_payload := p\<rparr>"
    have r: "r = Inr ev'" "a' = dsa_write p (Raw (k @ f @ v)) a1"
      using w pa True p by (simp_all add: event_inline_write_def ev'_def)
    have "event_payload_base a' ev' = k @ f @ v @ []"
      using p by (simp add: event_payload_base_def ev'_def pg_redis_shared_addr_def r)
    moreover have "dsa_frame a {} a' (event_owned ev')"
      using p by (auto simp: dsa_frame_def event_owned_def ev'_def r a1)
    moreover have "ev' = ev\<lparr>ev_dsa_overflow := ev_dsa_overflow ev', ev_dsa_payload := ev_dsa_payload ev',
        ev_inline_bytes := ev_inline_bytes ev'\<rparr>" by (cases ev) (simp add: ev'_def)
    ultimately show thesis using r(1) by (intro that(2))
  qed
next
  case False
  define ev' where "ev' = ev\<lparr>ev_inline_bytes := k @ f @ v @ drop (length k + length f + length v) (ev_inline_bytes ev),
    ev_dsa_overflow := False, ev_dsa_payload := 0\<rparr>"
  have "r = Inr ev'" "a' = a" using w False by (simp_all add: event_inline_write_def ev'_def)
  then show thesis by (intro that(2) [of ev']) (simp_all add: ev'_def event_payload_base_def event_owned_def)
qed

lemma encode_change_ok:
  assumes "dsa_alloc_ok al" "change_fits c" "encode_change al c ev a = (r, a')"
  shows "(r = Inl OutOfSharedMemory \<and> a' = a \<and> PG_REDIS_DIRTY_EVENT_INLINE_BYTES < change_total c) \<or>
    (\<exists>ev'. r = Inr ev' \<and> decodes a' ev' c \<and> dsa_frame a {} a' (event_owned ev'))"
proof -
  obtain ev0 where w: "encode_change al c ev a = event_inline_write al (change_key c) (change_field c) (change_value c) ev0 a"
    and f: "ev_type ev0 = change_type c" "ev_key_len ev0 = to_uint16 (length (change_key c))"
      "ev_field_len ev0 = to_uint16 (length (change_field c))" "ev_value_len ev0 = to_uint16 (length (change_value c))"
      "ev_ord ev0 = change_ord c"
      "\<forall>k e tlv. c = KeyUpsert k e tlv \<longrightarrow> ev_value_type ev0 = e_type e \<and> ev_expire_at ev0 = e_expire_at e \<and>
         ev_has_expire ev0 = e_has_expire e \<and> ev_version ev0 = e_version e"
    by (rule encode_change_write [of al c ev a])
  have len: "ev_key_len ev0 = length (change_key c)" "ev_field_len ev0 = length (change_field c)" "ev_value_len ev0 = length (change_value c)"
    using assms(2) f by (simp_all add: change_fits_def to_uint16_id)
  from assms(1) show ?thesis
  proof (rule event_inline_write_cases [OF _ w [symmetric, THEN trans, OF assms(3)]])
    fix ev' rest
    assume r: "r = Inr ev'" and p: "event_payload_base a' ev' = change_key c @ change_field c @ change_value c @ rest"
      and fr: "dsa_frame a {} a' (event_owned ev')"
      and e: "ev' = ev0\<lparr>ev_dsa_overflow := ev_dsa_overflow ev', ev_dsa_payload := ev_dsa_payload ev', ev_inline_bytes := ev_inline_bytes ev'\<rparr>"
    have same: "ev_type ev' = ev_type ev0" "ev_key_len ev' = ev_key_len ev0" "ev_field_len ev' = ev_field_len ev0"
      "ev_value_len ev' = ev_value_len ev0" "ev_ord ev' = ev_ord ev0" "ev_value_type ev' = ev_value_type ev0"
      "ev_expire_at ev' = ev_expire_at ev0" "ev_has_expire ev' = ev_has_expire ev0" "ev_version ev' = ev_version ev0"
      by (subst e, simp)+
    have "decodes a' ev' c"
      using f p by (auto simp: decodes_def same len pg_redis_event_decode_key_def pg_redis_event_decode_field_def
          pg_redis_event_decode_value_def split: change.splits)
    with r fr show ?thesis by blast
  qed (simp add: change_total_def)
qed

lemma decodes_frame:
  assumes "decodes a ev c" "\<And>q. q \<in> event_owned ev \<Longrightarrow> hash_find b q = hash_find a q"
  shows "decodes b ev c"
proof -
  have "event_payload_base b ev = event_payload_base a ev"
    using assms(2) by (auto simp: event_payload_base_def event_owned_def pg_redis_shared_addr_def split: if_splits)
  then show ?thesis
    using assms(1) by (simp add: decodes_def pg_redis_event_decode_key_def pg_redis_event_decode_field_def pg_redis_event_decode_value_def)
qed

text \<open>The chunk of an encoded event is in use.\<close>

lemma encode_change_used:
  assumes "encode_change al c ev a = (Inr ev', a')" "q \<in> event_owned ev'"
  shows "hash_find a' q \<noteq> None"
proof -
  obtain ev0 where w: "encode_change al c ev a = event_inline_write al (change_key c) (change_field c) (change_value c) ev0 a"
    by (rule encode_change_write [of al c ev a])
  then show ?thesis
    using assms by (auto simp: event_inline_write_def event_owned_def Let_def split: if_splits prod.splits)
qed

section \<open>Properties\<close>



end
