(* ===== verification/Dirty_Ring.thy ===== *)
theory Dirty_Ring
  imports Dirty_Event
begin

text \<open>
  \<open>src/dirty_ring.c\<close>: the bounded ring through which backends hand events to the drain. The functions
  are modelled as they run without interference; \<open>Ring_Steps\<close> has the same accesses as single steps of
  interleaved producers. \<open>ring_slots = []\<close> is the ring before shared memory is attached. The two heads
  are \<open>uint64\<close> counters that no run exhausts; only the subtraction of the full test, which can go below
  zero, is kept at its width. Positions are counters; a position's slot is its remainder.
\<close>

section \<open>Slots\<close>

record dirty_ring =
  ring_slots :: "PgRedisDirtyEvent list"
  ring_write_head :: nat
  ring_read_head :: nat

definition ring_capacity :: "dirty_ring \<Rightarrow> nat" where
  "ring_capacity R = length (ring_slots R)"

definition slot_at :: "dirty_ring \<Rightarrow> nat \<Rightarrow> PgRedisDirtyEvent" where
  "slot_at R pos = ring_slots R ! (pos mod ring_capacity R)"

definition slot_put :: "nat \<Rightarrow> PgRedisDirtyEvent \<Rightarrow> dirty_ring \<Rightarrow> dirty_ring" where
  "slot_put pos s R = R\<lparr>ring_slots := (ring_slots R)[pos mod ring_capacity R := s]\<rparr>"

definition slot_set_state :: "nat \<Rightarrow> slot_state \<Rightarrow> dirty_ring \<Rightarrow> dirty_ring" where
  "slot_set_state pos st R = slot_put pos ((slot_at R pos)\<lparr>ev_state := st\<rparr>) R"

definition pg_redis_dirty_ring_shmem_init :: "nat \<Rightarrow> dirty_ring" where
  "pg_redis_dirty_ring_shmem_init slot_count =
     \<lparr>ring_slots = replicate slot_count blank_slot, ring_write_head = 0, ring_read_head = 0\<rparr>"

definition pg_redis_dirty_ring_pending :: "dirty_ring \<Rightarrow> nat" where
  "pg_redis_dirty_ring_pending R =
     (if ring_write_head R > ring_read_head R then ring_write_head R - ring_read_head R else 0)"

definition pg_redis_dirty_ring_full :: "dirty_ring \<Rightarrow> bool" where
  "pg_redis_dirty_ring_full R \<longleftrightarrow> ring_capacity R > 0 \<and> pg_redis_dirty_ring_pending R \<ge> ring_capacity R"

text \<open>The heads, the pending count and the slots being written, for \<open>RING_INSPECT\<close>.\<close>

definition pg_redis_dirty_ring_inspect :: "dirty_ring \<Rightarrow> nat \<times> nat \<times> nat \<times> nat" where
  "pg_redis_dirty_ring_inspect R =
     (let w = ring_write_head R; r = ring_read_head R;
          stuck = length (filter (\<lambda>pos. ev_state (slot_at R pos) = SLOT_WRITING) [r ..< Suc w])
      in if ring_slots R = [] then (0, 0, 0, 0) else (w, r, (if w > r then w - r else 0), stuck))"

section \<open>Producers\<close>

datatype PgRedisRingPublishResult = PG_REDIS_RING_OK | PG_REDIS_RING_FULL

text \<open>\<open>w - r\<close> on \<open>uint64\<close>.\<close>

definition u64_sub :: "nat \<Rightarrow> nat \<Rightarrow> int" where
  "u64_sub w r = (int w - int r) mod 2 ^ 64"

text \<open>The payload of an event copied into a slot; the state of the slot stays.\<close>

definition write_payload :: "int \<Rightarrow> PgRedisDirtyEvent \<Rightarrow> PgRedisDirtyEvent \<Rightarrow> PgRedisDirtyEvent" where
  "write_payload now ev slot = ev\<lparr>ev_state := ev_state slot, ev_write_started_at := now\<rparr>"

text \<open>
  The reservation loop: a position whose slot went from empty to writing, or none when the ring is full.
  With a slot that is neither, it reads the same state again, and returns only if someone changes it.
\<close>

partial_function (option) reserve_loop :: "dirty_ring \<Rightarrow> (nat option \<times> dirty_ring) option" where
  "reserve_loop R =
     (let w = ring_write_head R; r = ring_read_head R in
      if u64_sub w r \<ge> int (ring_capacity R) then Some (None, R)
      else if ev_state (slot_at R w) = SLOT_EMPTY then Some (Some w, slot_set_state w SLOT_WRITING R)
      else reserve_loop R)"

definition pg_redis_dirty_ring_publish ::
    "int \<Rightarrow> PgRedisDirtyEvent \<Rightarrow> dirty_ring \<Rightarrow> (PgRedisRingPublishResult result \<times> dirty_ring) option" where
  "pg_redis_dirty_ring_publish now ev R =
     (if ring_slots R = [] then Some (Inl RingNotInitialized, R)
      else case reserve_loop R of
             None \<Rightarrow> None
           | Some (None, R) \<Rightarrow> Some (Inr PG_REDIS_RING_FULL, R)
           | Some (Some w, R) \<Rightarrow>
               let R = slot_put w (write_payload now ev (slot_at R w)) R in
               if ev_state (slot_at R w) \<noteq> SLOT_WRITING then Some (Inr PG_REDIS_RING_FULL, R)
               else
                 let R = slot_set_state w SLOT_READY R;
                     R = (if ring_write_head R = w then R\<lparr>ring_write_head := w + 1\<rparr> else R)
                 in Some (Inr PG_REDIS_RING_OK, R))"

section \<open>The consumer\<close>

fun collect_loop :: "nat \<Rightarrow> nat \<Rightarrow> nat \<Rightarrow> dirty_ring \<Rightarrow> PgRedisDirtyEvent list \<times> dirty_ring" where
  "collect_loop 0 pos w R = ([], R)"
| "collect_loop (Suc k) pos w R =
     (if pos < w \<and> ev_state (slot_at R pos) = SLOT_READY
      then let R = slot_set_state pos SLOT_DRAINING R; ev = slot_at R pos;
               (evs, R) = collect_loop k (Suc pos) w R
           in (ev # evs, R)
      else ([], R))"

text \<open>The batch, its base position, the ring with the batch draining.\<close>

definition pg_redis_dirty_ring_collect :: "nat \<Rightarrow> dirty_ring \<Rightarrow> PgRedisDirtyEvent list \<times> nat \<times> dirty_ring" where
  "pg_redis_dirty_ring_collect mx R =
     (if ring_slots R = [] then ([], 0, R)
      else case collect_loop mx (ring_read_head R) (ring_write_head R) R of (evs, R') \<Rightarrow> (evs, ring_read_head R, R'))"

text \<open>One slot freed together with its spilled payload.\<close>

definition slot_release :: "nat \<Rightarrow> dirty_ring \<times> dsa_area \<Rightarrow> dirty_ring \<times> dsa_area" where
  "slot_release pos S =
     (case S of (R, a) \<Rightarrow> case free_event_spill (slot_at R pos) a of (s, a) \<Rightarrow>
        (slot_put pos (s\<lparr>ev_state := SLOT_EMPTY\<rparr>) R, a))"

definition pg_redis_dirty_ring_release_batch :: "nat \<Rightarrow> nat \<Rightarrow> dirty_ring \<times> dsa_area \<Rightarrow> dirty_ring \<times> dsa_area" where
  "pg_redis_dirty_ring_release_batch base n S =
     (if ring_slots (fst S) = [] \<or> n = 0 then S
      else case fold slot_release [base ..< base + n] S of (R, a) \<Rightarrow> (R\<lparr>ring_read_head := base + n\<rparr>, a))"

definition pg_redis_dirty_ring_abort_batch :: "nat \<Rightarrow> nat \<Rightarrow> dirty_ring \<Rightarrow> dirty_ring" where
  "pg_redis_dirty_ring_abort_batch base n R =
     (if ring_slots R = [] \<or> n = 0 then R
      else fold (\<lambda>pos. slot_set_state pos SLOT_READY) [base ..< base + n] R)"

text \<open>\<open>TimestampDifferenceExceeds\<close>: timestamps are microseconds, the limit milliseconds.\<close>

definition TimestampDifferenceExceeds :: "int \<Rightarrow> int \<Rightarrow> int \<Rightarrow> bool" where
  "TimestampDifferenceExceeds start stop msec \<longleftrightarrow> stop - start \<ge> msec * 1000"

definition pg_redis_dirty_ring_reclaim_stuck :: "int \<Rightarrow> int \<Rightarrow> dirty_ring \<Rightarrow> nat \<times> dirty_ring" where
  "pg_redis_dirty_ring_reclaim_stuck now timeout R =
     (let w = ring_write_head R in
      if ring_slots R = [] then (0, R)
      else if ev_state (slot_at R w) = SLOT_WRITING \<and> TimestampDifferenceExceeds (ev_write_started_at (slot_at R w)) now timeout
      then (1, slot_set_state w SLOT_EMPTY R)
      else (0, R))"

fun drop_loop :: "nat \<Rightarrow> nat \<Rightarrow> dirty_ring \<times> dsa_area \<Rightarrow> nat \<times> dirty_ring \<times> dsa_area" where
  "drop_loop 0 r S = (r, S)"
| "drop_loop (Suc k) r S =
     (if ev_state (slot_at (fst S) r) \<noteq> SLOT_READY \<and> ev_state (slot_at (fst S) r) \<noteq> SLOT_DRAINING then (r, S)
      else drop_loop k (Suc r) (slot_release r S))"

definition pg_redis_dirty_ring_drop_all_pending :: "dirty_ring \<times> dsa_area \<Rightarrow> nat \<times> dirty_ring \<times> dsa_area" where
  "pg_redis_dirty_ring_drop_all_pending S =
     (if ring_slots (fst S) = [] then (0, S)
      else let r = ring_read_head (fst S); w = ring_write_head (fst S) in
        case drop_loop (w - r) r S of (r', R, a) \<Rightarrow>
          (r' - r, (if r' - r > 0 then R\<lparr>ring_read_head := r'\<rparr> else R), a))"

section \<open>Positions\<close>

lemma mod_window:
  assumes "p mod n = q mod (n :: nat)" "p < q + n" "q < p + n"
  shows "p = q"
proof -
  have "int n dvd int p - int q"
    using assms(1) by (metis mod_eq_dvd_iff zmod_int)
  moreover have "\<bar>int p - int q\<bar> < int n" using assms(2,3) by linarith
  ultimately show ?thesis using zdvd_not_zless by (metis dvd_abs_iff eq_iff_diff_eq_0 nat_int zero_less_abs_iff)
qed

lemma window_neq:
  assumes "r \<le> p" "p < r + n" "r \<le> q" "q < r + n" "p \<noteq> q"
  shows "p mod n \<noteq> q mod (n :: nat)"
  using mod_window [of p n q] assms by linarith

lemma capacity_simps [simp]:
  "ring_capacity (slot_put p s R) = ring_capacity R" "ring_capacity (slot_set_state p st R) = ring_capacity R"
  "ring_capacity (R\<lparr>ring_write_head := w\<rparr>) = ring_capacity R" "ring_capacity (R\<lparr>ring_read_head := w\<rparr>) = ring_capacity R"
  "ring_slots (slot_put p s R) = [] \<longleftrightarrow> ring_slots R = []" "ring_slots (slot_set_state p st R) = [] \<longleftrightarrow> ring_slots R = []"
  by (simp_all add: ring_capacity_def slot_put_def slot_set_state_def)

lemma head_simps [simp]:
  "ring_write_head (slot_put p s R) = ring_write_head R" "ring_write_head (slot_set_state p st R) = ring_write_head R"
  "ring_read_head (slot_put p s R) = ring_read_head R" "ring_read_head (slot_set_state p st R) = ring_read_head R"
  by (simp_all add: slot_put_def slot_set_state_def)

lemma slot_at_heads [simp]:
  "slot_at (R\<lparr>ring_write_head := w\<rparr>) p = slot_at R p" "slot_at (R\<lparr>ring_read_head := w\<rparr>) p = slot_at R p"
  by (simp_all add: slot_at_def ring_capacity_def)

lemma slot_at_put:
  assumes "0 < ring_capacity R"
  shows "slot_at (slot_put p s R) q = (if p mod ring_capacity R = q mod ring_capacity R then s else slot_at R q)"
  using assms by (auto simp: slot_at_def slot_put_def ring_capacity_def nth_list_update)

lemma slot_at_mod: "p mod ring_capacity R = q mod ring_capacity R \<Longrightarrow> slot_at R p = slot_at R q"
  by (simp add: slot_at_def)

lemma slot_at_set_state:
  assumes "0 < ring_capacity R"
  shows "slot_at (slot_set_state p st R) q =
    (if p mod ring_capacity R = q mod ring_capacity R then (slot_at R q)\<lparr>ev_state := st\<rparr> else slot_at R q)"
  using assms slot_at_mod [of p R q] by (simp add: slot_set_state_def slot_at_put)

section \<open>The queue contract\<close>

text \<open>
  What publishers and the drain rely on: a queue whose oldest events can be taken for processing, and
  then dropped for good or put back. \<open>ok n q\<close>: the first \<open>n\<close> events are being processed.
\<close>

locale event_queue =
  fixes put :: "'e \<Rightarrow> 'q \<Rightarrow> 'q option"
    and collect :: "nat \<Rightarrow> 'q \<Rightarrow> 'e list \<times> 'q"
    and commit :: "nat \<Rightarrow> 'q \<Rightarrow> 'q"
    and rollback :: "nat \<Rightarrow> 'q \<Rightarrow> 'q"
    and body :: "'e \<Rightarrow> 'b"
    and pend :: "'q \<Rightarrow> 'b list"
    and ok :: "nat \<Rightarrow> 'q \<Rightarrow> bool"
  assumes put_ok: "ok n q \<Longrightarrow> put e q = Some q' \<Longrightarrow> ok n q'"
    and put_pend: "ok n q \<Longrightarrow> put e q = Some q' \<Longrightarrow> pend q' = pend q @ [body e]"
    and collect_ok: "ok 0 q \<Longrightarrow> collect mx q = (es, q') \<Longrightarrow> ok (length es) q'"
    and collect_events: "ok 0 q \<Longrightarrow> collect mx q = (es, q') \<Longrightarrow> map body es = take mx (pend q)"
    and collect_pend: "ok 0 q \<Longrightarrow> collect mx q = (es, q') \<Longrightarrow> pend q' = pend q"
    and commit_ok: "ok n q \<Longrightarrow> ok 0 (commit n q)"
    and commit_pend: "ok n q \<Longrightarrow> pend (commit n q) = drop n (pend q)"
    and rollback_ok: "ok n q \<Longrightarrow> ok 0 (rollback n q)"
    and rollback_pend: "ok n q \<Longrightarrow> pend (rollback n q) = pend q"
begin

text \<open>A pass of the drain whose durable write succeeds, and one whose write fails.\<close>

definition pass :: "nat \<Rightarrow> bool \<Rightarrow> 'q \<Rightarrow> 'b list \<times> 'q" where
  "pass mx good q = (case collect mx q of (es, q') \<Rightarrow>
     if good then (map body es, commit (length es) q') else ([], rollback (length es) q'))"

lemma pass_split:
  assumes "ok 0 q" "pass mx good q = (es, q')"
  shows "ok 0 q'" "pend q = es @ pend q'" "good \<Longrightarrow> length es = min mx (length (pend q))"
proof -
  obtain cs q1 where c: "collect mx q = (cs, q1)" by force
  note C = collect_ok [OF assms(1) c] collect_events [OF assms(1) c] collect_pend [OF assms(1) c]
  have l: "length cs = min (length (pend q)) mx" using C(2) by (metis length_map length_take)
  have t: "take mx (pend q) @ drop (length cs) (pend q) = pend q" by (cases "mx \<le> length (pend q)") (simp_all add: l)
  show "ok 0 q'" "pend q = es @ pend q'"
    using assms(2) C t commit_ok [OF C(1)] rollback_ok [OF C(1)] commit_pend [OF C(1)] rollback_pend [OF C(1)]
    by (auto simp: pass_def c split: if_splits)
  show "length es = min mx (length (pend q))" if good
    using assms(2) that l by (auto simp: pass_def c)
qed

text \<open>Passes in a row, failed ones in between, apply the events of the queue in order, each exactly once.\<close>

primrec passes :: "(nat \<times> bool) list \<Rightarrow> 'q \<Rightarrow> 'b list \<times> 'q" where
  "passes [] q = ([], q)"
| "passes (p # ps) q = (case pass (fst p) (snd p) q of (es, q1) \<Rightarrow> case passes ps q1 of (es', q2) \<Rightarrow> (es @ es', q2))"

lemma passes_in_order: "ok 0 q \<Longrightarrow> passes ps q = (es, q') \<Longrightarrow> ok 0 q' \<and> pend q = es @ pend q'"
proof (induction ps arbitrary: q es q')
  case (Cons p ps)
  obtain es1 q1 where p: "pass (fst p) (snd p) q = (es1, q1)" by force
  obtain es2 q2 where r: "passes ps q1 = (es2, q2)" by force
  from Cons.IH [OF pass_split(1) [OF Cons.prems(1) p] r] pass_split(2) [OF Cons.prems(1) p] Cons.prems(2)
  show ?case by (simp add: p r)
qed simp

end

section \<open>The ring is a queue\<close>

definition ev_body :: "PgRedisDirtyEvent \<Rightarrow> PgRedisDirtyEvent" where
  "ev_body ev = ev\<lparr>ev_state := SLOT_EMPTY, ev_write_started_at := 0\<rparr>"

definition ring_queue :: "dirty_ring \<Rightarrow> PgRedisDirtyEvent list" where
  "ring_queue R = map (\<lambda>pos. ev_body (slot_at R pos)) [ring_read_head R ..< ring_write_head R]"

text \<open>The slots of the window behind the read head: \<open>n\<close> draining, then ready, then empty.\<close>

definition ring_ok :: "nat \<Rightarrow> dirty_ring \<Rightarrow> bool" where
  "ring_ok n R \<longleftrightarrow>
     (let r = ring_read_head R; w = ring_write_head R; cap = ring_capacity R in
      0 < cap \<and> int cap < 2 ^ 31 \<and> r + n \<le> w \<and> w \<le> r + cap \<and>
      (\<forall>pos \<in> set [r ..< r + cap]. ev_state (slot_at R pos) =
         (if pos < r + n then SLOT_DRAINING else if pos < w then SLOT_READY else SLOT_EMPTY)))"

lemma ring_okD:
  assumes "ring_ok n R"
  shows "0 < ring_capacity R" "int (ring_capacity R) < 2 ^ 31" "ring_read_head R + n \<le> ring_write_head R"
    "ring_write_head R \<le> ring_read_head R + ring_capacity R" "ring_slots R \<noteq> []"
    "\<And>pos. ring_read_head R \<le> pos \<Longrightarrow> pos < ring_read_head R + ring_capacity R \<Longrightarrow> ev_state (slot_at R pos) =
       (if pos < ring_read_head R + n then SLOT_DRAINING else if pos < ring_write_head R then SLOT_READY else SLOT_EMPTY)"
  using assms by (auto simp: ring_ok_def Let_def ring_capacity_def)

lemma ring_ok_init: "0 < n \<Longrightarrow> int n < 2 ^ 31 \<Longrightarrow> ring_ok 0 (pg_redis_dirty_ring_shmem_init n)"
  by (auto simp: ring_ok_def pg_redis_dirty_ring_shmem_init_def ring_capacity_def slot_at_def blank_slot_def)

lemma ev_body_state [simp]: "ev_body (s\<lparr>ev_state := st\<rparr>) = ev_body s"
  by (simp add: ev_body_def)

lemma ev_body_write [simp]: "ev_body (write_payload now ev s) = ev_body ev"
  by (simp add: ev_body_def write_payload_def)

lemma ev_body_idem [simp]: "ev_body (ev_body s) = ev_body s"
  by (simp add: ev_body_def)

lemma event_owned_body [simp]: "event_owned (ev_body s) = event_owned s"
  by (simp add: ev_body_def event_owned_def)

lemma u64_sub_small: "r \<le> w \<Longrightarrow> w \<le> r + cap \<Longrightarrow> int cap < 2 ^ 31 \<Longrightarrow> u64_sub w r = int (w - r)"
  by (simp add: u64_sub_def of_nat_diff)

text \<open>Publishing never spins: it appends the event, or answers that the ring is full.\<close>

lemma publish_ok:
  assumes ok: "ring_ok n R"
  shows "if ring_capacity R \<le> ring_write_head R - ring_read_head R
    then pg_redis_dirty_ring_publish now ev R = Some (Inr PG_REDIS_RING_FULL, R)
    else \<exists>R'. pg_redis_dirty_ring_publish now ev R = Some (Inr PG_REDIS_RING_OK, R') \<and> ring_ok n R' \<and>
      ring_queue R' = ring_queue R @ [ev_body ev] \<and> ring_read_head R' = ring_read_head R"
proof -
  note D = ring_okD [OF ok]
  have sub: "u64_sub (ring_write_head R) (ring_read_head R) = int (ring_write_head R - ring_read_head R)"
    using D(2-4) by (intro u64_sub_small) auto
  show ?thesis
  proof (cases "ring_capacity R \<le> ring_write_head R - ring_read_head R")
    case True
    then have "reserve_loop R = Some (None, R)" by (subst reserve_loop.simps) (simp add: sub)
    then show ?thesis using True D(5) by (simp add: pg_redis_dirty_ring_publish_def)
  next
    case False
    define w where "w = ring_write_head R"
    have e: "ev_state (slot_at R w) = SLOT_EMPTY" using D(6) [of w] D(3) False by (auto simp: w_def)
    then have rl: "reserve_loop R = Some (Some w, slot_set_state w SLOT_WRITING R)"
      using False by (subst reserve_loop.simps) (simp add: sub w_def Let_def)
    define R1 where "R1 = slot_set_state w SLOT_READY (slot_put w (write_payload now ev (slot_at (slot_set_state w SLOT_WRITING R) w)) (slot_set_state w SLOT_WRITING R))"
    define R' where "R' = R1\<lparr>ring_write_head := w + 1\<rparr>"
    have p: "pg_redis_dirty_ring_publish now ev R = Some (Inr PG_REDIS_RING_OK, R')"
      using rl D(1,5) by (simp add: pg_redis_dirty_ring_publish_def R'_def R1_def slot_at_put slot_at_set_state write_payload_def w_def)
    have s: "slot_at R' q = (if w mod ring_capacity R = q mod ring_capacity R
        then (write_payload now ev (slot_at (slot_set_state w SLOT_WRITING R) w))\<lparr>ev_state := SLOT_READY\<rparr> else slot_at R q)" for q
      using D(1) by (simp add: R'_def R1_def slot_at_put slot_at_set_state)
    have h: "ring_write_head R' = w + 1" "ring_read_head R' = ring_read_head R" "ring_capacity R' = ring_capacity R"
      by (simp_all add: R'_def R1_def)
    have other: "slot_at R' q = slot_at R q" if "ring_read_head R \<le> q" "q < ring_read_head R + ring_capacity R" "q \<noteq> w" for q
      using window_neq [of "ring_read_head R" w "ring_capacity R" q] that D(3) False by (auto simp: s w_def)
    have "ring_ok n R'"
      unfolding ring_ok_def Let_def h using D False other s [of w]
      by (auto simp: w_def less_Suc_eq)
    moreover have "ring_queue R' = ring_queue R @ [ev_body ev]"
      using D(3,4) False other s [of w] by (auto simp: ring_queue_def h w_def)
    ultimately show ?thesis using False p h(2) by auto
  qed
qed

lemma collect_step:
  assumes ok: "ring_ok n R" and less: "ring_read_head R + n < ring_write_head R"
  shows "ring_ok (Suc n) (slot_set_state (ring_read_head R + n) SLOT_DRAINING R)"
    "ring_queue (slot_set_state (ring_read_head R + n) SLOT_DRAINING R) = ring_queue R"
    "ev_state (slot_at R (ring_read_head R + n)) = SLOT_READY"
proof -
  note D = ring_okD [OF ok]
  show "ev_state (slot_at R (ring_read_head R + n)) = SLOT_READY" using D(4) D(6) [of "ring_read_head R + n"] less by simp
  have "slot_at (slot_set_state (ring_read_head R + n) SLOT_DRAINING R) q = slot_at R q"
    if "ring_read_head R \<le> q" "q < ring_read_head R + ring_capacity R" "q \<noteq> ring_read_head R + n" for q
    using window_neq [of "ring_read_head R" "ring_read_head R + n" "ring_capacity R" q] that D(1,4) less
    by (auto simp: slot_at_set_state)
  then show "ring_ok (Suc n) (slot_set_state (ring_read_head R + n) SLOT_DRAINING R)"
    unfolding ring_ok_def Let_def capacity_simps head_simps using D less
    by (auto simp: slot_at_set_state less_Suc_eq)
  show "ring_queue (slot_set_state (ring_read_head R + n) SLOT_DRAINING R) = ring_queue R"
    using D(1) by (auto simp: ring_queue_def slot_at_set_state)
qed

lemma collect_loop_ok:
  assumes "ring_ok n R" "collect_loop k (ring_read_head R + n) (ring_write_head R) R = (evs, R')"
  shows "ring_ok (n + length evs) R' \<and> ring_queue R' = ring_queue R \<and> ring_read_head R' = ring_read_head R \<and>
    map ev_body evs = take k (drop n (ring_queue R))"
  using assms
proof (induction k arbitrary: n R evs)
  case (Suc k)
  note D = ring_okD [OF Suc.prems(1)]
  show ?case
  proof (cases "ring_read_head R + n < ring_write_head R")
    case True
    define R1 where "R1 = slot_set_state (ring_read_head R + n) SLOT_DRAINING R"
    note S = collect_step [OF Suc.prems(1) True, folded R1_def]
    obtain es where es: "collect_loop k (ring_read_head R1 + Suc n) (ring_write_head R1) R1 = (es, R')" "evs = slot_at R1 (ring_read_head R + n) # es"
      using Suc.prems(2) True S(3) by (auto simp: R1_def Let_def split: prod.splits)
    have q: "drop n (ring_queue R) = ev_body (slot_at R1 (ring_read_head R + n)) # drop (Suc n) (ring_queue R)"
      using True D(1) by (subst Cons_nth_drop_Suc [symmetric]) (simp_all add: ring_queue_def R1_def slot_at_set_state)
    from Suc.IH [OF S(1) es(1)] show ?thesis using S(2) es(2) q by (simp add: R1_def)
  next
    case False
    then show ?thesis using Suc.prems D(3) by (simp add: ring_queue_def)
  qed
qed simp

lemma ring_collect_ok:
  assumes "ring_ok 0 R" "pg_redis_dirty_ring_collect mx R = (evs, base, R')"
  shows "ring_ok (length evs) R'" "ring_queue R' = ring_queue R" "base = ring_read_head R'"
    "map ev_body evs = take mx (ring_queue R)"
proof -
  obtain R1 where c: "collect_loop mx (ring_read_head R) (ring_write_head R) R = (evs, R1)" "base = ring_read_head R" "R' = R1"
    using assms(2) ring_okD(5) [OF assms(1)] by (auto simp: pg_redis_dirty_ring_collect_def split: prod.splits)
  from collect_loop_ok [OF assms(1), of mx evs R'] c
  show "ring_ok (length evs) R'" "ring_queue R' = ring_queue R" "base = ring_read_head R'" "map ev_body evs = take mx (ring_queue R)"
    by simp_all
qed

text \<open>Freeing the slots of a range of positions.\<close>

lemma free_event_spill_ok:
  assumes "free_event_spill ev a = (s, a')"
  shows "hash_find a' q = (if q \<in> event_owned ev then None else hash_find a q)" "event_owned s = {}"
  using assms by (auto simp: free_event_spill_def event_owned_def split: if_splits)

lemma slot_release_ok:
  assumes cap: "0 < ring_capacity R" and s: "slot_release pos (R, a) = (R', a')"
  shows "ring_capacity R' = ring_capacity R" "ring_read_head R' = ring_read_head R" "ring_write_head R' = ring_write_head R"
    "slot_at R' q = (if pos mod ring_capacity R = q mod ring_capacity R then slot_at R' pos else slot_at R q)"
    "ev_state (slot_at R' pos) = SLOT_EMPTY"
    "hash_find a' p = (if p \<in> event_owned (slot_at R pos) then None else hash_find a p)"
proof -
  obtain t b where f: "free_event_spill (slot_at R pos) a = (t, b)" by force
  then have e: "R' = slot_put pos (t\<lparr>ev_state := SLOT_EMPTY\<rparr>) R" "a' = b" using s by (simp_all add: slot_release_def)
  show "ring_capacity R' = ring_capacity R" "ring_read_head R' = ring_read_head R" "ring_write_head R' = ring_write_head R"
    "slot_at R' q = (if pos mod ring_capacity R = q mod ring_capacity R then slot_at R' pos else slot_at R q)"
    "ev_state (slot_at R' pos) = SLOT_EMPTY"
    using cap by (simp_all add: e slot_at_put)
  show "hash_find a' p = (if p \<in> event_owned (slot_at R pos) then None else hash_find a p)"
    using free_event_spill_ok(1) [OF f] e by simp
qed

lemma release_range:
  assumes "0 < ring_capacity R" "k \<le> ring_capacity R" "fold slot_release [base ..< base + k] (R, a) = (R', a')"
  shows "ring_capacity R' = ring_capacity R \<and> ring_read_head R' = ring_read_head R \<and> ring_write_head R' = ring_write_head R \<and>
    (\<forall>q. base \<le> q \<longrightarrow> q < base + k \<longrightarrow> ev_state (slot_at R' q) = SLOT_EMPTY) \<and>
    (\<forall>q. base + k \<le> q \<longrightarrow> q < base + ring_capacity R \<longrightarrow> slot_at R' q = slot_at R q) \<and>
    (\<forall>p. hash_find a' p = (if \<exists>q \<in> {base ..< base + k}. p \<in> event_owned (slot_at R q) then None else hash_find a p))"
  using assms
proof (induction k arbitrary: R' a')
  case (Suc k)
  obtain R1 a1 where f: "fold slot_release [base ..< base + k] (R, a) = (R1, a1)" by force
  have st: "slot_release (base + k) (R1, a1) = (R', a')" using Suc.prems(3) f by simp
  have IH: "ring_capacity R1 = ring_capacity R \<and> ring_read_head R1 = ring_read_head R \<and> ring_write_head R1 = ring_write_head R \<and>
    (\<forall>q. base \<le> q \<longrightarrow> q < base + k \<longrightarrow> ev_state (slot_at R1 q) = SLOT_EMPTY) \<and>
    (\<forall>q. base + k \<le> q \<longrightarrow> q < base + ring_capacity R \<longrightarrow> slot_at R1 q = slot_at R q) \<and>
    (\<forall>p. hash_find a1 p = (if \<exists>q \<in> {base ..< base + k}. p \<in> event_owned (slot_at R q) then None else hash_find a p))"
    using Suc.IH [OF Suc.prems(1) _ f] Suc.prems(2) by simp
  then have c1: "0 < ring_capacity R1" using Suc.prems(1) by simp
  note S = slot_release_ok [OF c1 st]
  have keep: "slot_at R' q = slot_at R1 q" if "base \<le> q" "q < base + ring_capacity R" "q \<noteq> base + k" for q
    using S(4) [of q] window_neq [of base "base + k" "ring_capacity R" q] IH that Suc.prems(2) by auto
  have "ev_state (slot_at R' q) = SLOT_EMPTY" if "base \<le> q" "q < base + Suc k" for q
    using that keep [of q] S(5) IH Suc.prems(2) by (cases "q = base + k") auto
  moreover have "slot_at R' q = slot_at R q" if "base + Suc k \<le> q" "q < base + ring_capacity R" for q
    using that keep [of q] IH by auto
  moreover have "slot_at R1 (base + k) = slot_at R (base + k)" using IH Suc.prems(2) by auto
  then have "hash_find a' p = (if \<exists>q \<in> {base ..< base + Suc k}. p \<in> event_owned (slot_at R q) then None else hash_find a p)" for p
    using S(6) [of p] IH by (auto simp: atLeastLessThanSuc)
  ultimately show ?case using S(1,2,3) IH by simp
qed simp

text \<open>Advancing the read head over emptied slots.\<close>

lemma ring_ok_advance:
  assumes ok: "ring_ok n R" and k: "k \<le> ring_write_head R - ring_read_head R" "n \<le> k"
    and f: "fold slot_release [ring_read_head R ..< ring_read_head R + k] (R, a) = (R', a')"
  shows "ring_ok 0 (R'\<lparr>ring_read_head := ring_read_head R + k\<rparr>)"
    "ring_queue (R'\<lparr>ring_read_head := ring_read_head R + k\<rparr>) = drop k (ring_queue R)"
    "hash_find a' p = (if \<exists>ev \<in> set (take k (ring_queue R)). p \<in> event_owned ev then None else hash_find a p)"
proof -
  note D = ring_okD [OF ok]
  define r where "r = ring_read_head R"
  define w where "w = ring_write_head R"
  define cap where "cap = ring_capacity R"
  have le: "k \<le> cap" "r + k \<le> w" "w \<le> r + cap" using k D(3,4) by (auto simp: r_def w_def cap_def)
  have "k \<le> ring_capacity R" using le by (simp add: cap_def)
  from release_range [OF D(1) this f] have
    F: "ring_capacity R' = cap" "ring_write_head R' = w"
      "\<And>q. r \<le> q \<Longrightarrow> q < r + k \<Longrightarrow> ev_state (slot_at R' q) = SLOT_EMPTY"
      "\<And>q. r + k \<le> q \<Longrightarrow> q < r + cap \<Longrightarrow> slot_at R' q = slot_at R q"
      "\<And>p. hash_find a' p = (if \<exists>q \<in> {r ..< r + k}. p \<in> event_owned (slot_at R q) then None else hash_find a p)"
    by (auto simp: r_def w_def cap_def)
  have "ev_state (slot_at R' q) = (if q < w then SLOT_READY else SLOT_EMPTY)" if "r + k \<le> q" "q < r + k + cap" for q
  proof (cases "q < r + cap")
    case True
    then show ?thesis using F(4) [of q] D(6) [of q] that k(2) by (auto simp: r_def w_def cap_def)
  next
    case False
    then have "slot_at R' q = slot_at R' (q - cap)" by (intro slot_at_mod) (simp add: F(1) le_mod_geq)
    then show ?thesis using F(3) [of "q - cap"] that False le(3) by auto
  qed
  then show "ring_ok 0 (R'\<lparr>ring_read_head := ring_read_head R + k\<rparr>)"
    using D(1,2) le F(1,2) by (simp add: ring_ok_def Let_def r_def [symmetric] cap_def [symmetric])
  have "map (\<lambda>pos. ev_body (slot_at R' pos)) [r + k ..< w] = map (\<lambda>pos. ev_body (slot_at R pos)) [r + k ..< w]"
    using F(4) le by auto
  then show "ring_queue (R'\<lparr>ring_read_head := ring_read_head R + k\<rparr>) = drop k (ring_queue R)"
    by (simp add: ring_queue_def F(2) drop_map r_def w_def)
  have "set (take k (ring_queue R)) = (\<lambda>pos. ev_body (slot_at R pos)) ` {r ..< r + k}"
    using le by (simp add: ring_queue_def take_map r_def w_def take_upt)
  then show "hash_find a' p = (if \<exists>ev \<in> set (take k (ring_queue R)). p \<in> event_owned ev then None else hash_find a p)"
    by (simp add: F(5))
qed

lemma release_batch_ok:
  assumes ok: "ring_ok n R" and b: "pg_redis_dirty_ring_release_batch (ring_read_head R) n (R, a) = (R', a')"
  shows "ring_ok 0 R'" "ring_queue R' = drop n (ring_queue R)"
    "hash_find a' p = (if \<exists>ev \<in> set (take n (ring_queue R)). p \<in> event_owned ev then None else hash_find a p)"
proof -
  obtain R1 a1 where f: "fold slot_release [ring_read_head R ..< ring_read_head R + n] (R, a) = (R1, a1)" by force
  have "n \<le> ring_write_head R - ring_read_head R" using ring_okD(3) [OF ok] by simp
  note A = ring_ok_advance [OF ok this _ f]
  have "n = 0 \<Longrightarrow> R' = R \<and> a' = a" "0 < n \<Longrightarrow> R' = R1\<lparr>ring_read_head := ring_read_head R + n\<rparr> \<and> a' = a1"
    using b f ring_okD(5) [OF ok] by (auto simp: pg_redis_dirty_ring_release_batch_def)
  then show "ring_ok 0 R'" "ring_queue R' = drop n (ring_queue R)"
    "hash_find a' p = (if \<exists>ev \<in> set (take n (ring_queue R)). p \<in> event_owned ev then None else hash_find a p)"
    using A ok by (cases "n = 0"; simp)+
qed

lemma abort_range:
  assumes "0 < ring_capacity R" "k \<le> ring_capacity R"
  shows "slot_at (fold (\<lambda>pos. slot_set_state pos SLOT_READY) [base ..< base + k] R) q =
      (if \<exists>p \<in> {base ..< base + k}. p mod ring_capacity R = q mod ring_capacity R then (slot_at R q)\<lparr>ev_state := SLOT_READY\<rparr> else slot_at R q)"
    "ring_capacity (fold (\<lambda>pos. slot_set_state pos SLOT_READY) [base ..< base + k] R) = ring_capacity R"
    "ring_read_head (fold (\<lambda>pos. slot_set_state pos SLOT_READY) [base ..< base + k] R) = ring_read_head R"
    "ring_write_head (fold (\<lambda>pos. slot_set_state pos SLOT_READY) [base ..< base + k] R) = ring_write_head R"
  using assms by (induction k) (auto simp: slot_at_set_state atLeastLessThanSuc)

lemma abort_batch_ok:
  assumes ok: "ring_ok n R"
  shows "ring_ok 0 (pg_redis_dirty_ring_abort_batch (ring_read_head R) n R)"
    "ring_queue (pg_redis_dirty_ring_abort_batch (ring_read_head R) n R) = ring_queue R"
proof -
  note D = ring_okD [OF ok]
  have "n \<le> ring_capacity R" using D(3,4) by simp
  note A = abort_range [OF D(1) this, of "ring_read_head R"]
  have b: "pg_redis_dirty_ring_abort_batch (ring_read_head R) n R =
      fold (\<lambda>pos. slot_set_state pos SLOT_READY) [ring_read_head R ..< ring_read_head R + n] R"
    using D(5) by (simp add: pg_redis_dirty_ring_abort_batch_def)
  have "ev_state (slot_at (fold (\<lambda>pos. slot_set_state pos SLOT_READY) [ring_read_head R ..< ring_read_head R + n] R) q) =
      (if q < ring_write_head R then SLOT_READY else SLOT_EMPTY)"
    if "ring_read_head R \<le> q" "q < ring_read_head R + ring_capacity R" for q
  proof (cases "q < ring_read_head R + n")
    case True
    then show ?thesis using that D(3) by (auto simp: A(1))
  next
    case False
    then have "\<not> (\<exists>p \<in> {ring_read_head R ..< ring_read_head R + n}. p mod ring_capacity R = q mod ring_capacity R)"
      using window_neq [of "ring_read_head R" _ "ring_capacity R" q] that \<open>n \<le> ring_capacity R\<close> by fastforce
    then show ?thesis using D(6) [OF that] False unfolding A(1) by simp
  qed
  then show "ring_ok 0 (pg_redis_dirty_ring_abort_batch (ring_read_head R) n R)"
    using D unfolding b by (simp add: ring_ok_def Let_def A(2-4))
  show "ring_queue (pg_redis_dirty_ring_abort_batch (ring_read_head R) n R) = ring_queue R"
    unfolding b ring_queue_def A(1,3,4) by simp
qed

lemma drop_loop_all:
  assumes "0 < ring_capacity (fst S)" "k \<le> ring_capacity (fst S)"
    and "\<And>q. r \<le> q \<Longrightarrow> q < r + k \<Longrightarrow> ev_state (slot_at (fst S) q) = SLOT_READY \<or> ev_state (slot_at (fst S) q) = SLOT_DRAINING"
  shows "drop_loop k r S = (r + k, fold slot_release [r ..< r + k] S)"
  using assms
proof (induction k arbitrary: r S)
  case (Suc k)
  obtain R a where S: "S = (R, a)" by force
  obtain R' a' where s: "slot_release r S = (R', a')" by force
  note L = slot_release_ok [OF Suc.prems(1) [unfolded S fst_conv] s [unfolded S]]
  have "slot_at R' q = slot_at R q" if "Suc r \<le> q" "q < Suc r + k" for q
    using L(4) [of q] window_neq [of r r "ring_capacity R" q] that Suc.prems(2) by (auto simp: S)
  then have "drop_loop k (Suc r) (R', a') = (Suc r + k, fold slot_release [Suc r ..< Suc r + k] (R', a'))"
    using Suc.prems by (intro Suc.IH) (auto simp: S L(1))
  moreover have "[r ..< r + Suc k] = r # [Suc r ..< Suc r + k]" by (simp add: upt_conv_Cons)
  ultimately show ?case using Suc.prems(3) [of r] s by auto
qed simp

lemma drop_all_ok:
  assumes ok: "ring_ok n R" and d: "pg_redis_dirty_ring_drop_all_pending (R, a) = (k, R', a')"
  shows "k = length (ring_queue R)" "ring_ok 0 R'" "ring_queue R' = []"
    "hash_find a' p = (if \<exists>ev \<in> set (ring_queue R). p \<in> event_owned ev then None else hash_find a p)"
proof -
  note D = ring_okD [OF ok]
  define m where "m = ring_write_head R - ring_read_head R"
  have m: "m \<le> ring_capacity R" "ring_read_head R + m = ring_write_head R" "n \<le> m" using D(3,4) by (auto simp: m_def)
  have lq: "length (ring_queue R) = m" by (simp add: ring_queue_def m_def)
  obtain R1 a1 where f: "fold slot_release [ring_read_head R ..< ring_read_head R + m] (R, a) = (R1, a1)" by force
  have "drop_loop m (ring_read_head R) (R, a) = (ring_read_head R + m, fold slot_release [ring_read_head R ..< ring_read_head R + m] (R, a))"
    using D(1,6) m by (intro drop_loop_all) auto
  then have dr: "k = m" "a' = a1" "R' = (if 0 < m then R1\<lparr>ring_read_head := ring_read_head R + m\<rparr> else R1)"
    using d f D(5) by (auto simp: pg_redis_dirty_ring_drop_all_pending_def m_def [symmetric] split: if_splits)
  note A = ring_ok_advance [OF ok _ m(3) f]
  show "k = length (ring_queue R)" using dr lq by simp
  have "m = 0 \<Longrightarrow> R1 = R \<and> a1 = a \<and> n = 0" using f m by simp
  then show "ring_ok 0 R'" "ring_queue R' = []" "hash_find a' p = (if \<exists>ev \<in> set (ring_queue R). p \<in> event_owned ev then None else hash_find a p)"
    using A dr lq ok by (cases "m = 0"; simp add: m_def)+
qed

lemma reserve_capacity:
  assumes "reserve_loop R = Some res"
  shows "ring_capacity (snd res) = ring_capacity R"
  using assms
proof (rule reserve_loop.raw_induct [rotated])
  fix loop R y
  assume "\<And>R y. loop R = Some y \<Longrightarrow> ring_capacity (snd y) = ring_capacity R"
    and "(let w = ring_write_head R; r = ring_read_head R in
      if u64_sub w r \<ge> int (ring_capacity R) then Some (None, R)
      else if ev_state (slot_at R w) = SLOT_EMPTY then Some (Some w, slot_set_state w SLOT_WRITING R)
      else loop R) = Some y"
  then show "ring_capacity (snd y) = ring_capacity R" by (auto simp: Let_def split: if_splits)
qed

lemma publish_capacity:
  assumes "pg_redis_dirty_ring_publish now ev R = Some (r, R')"
  shows "ring_capacity R' = ring_capacity R"
proof (cases "reserve_loop R")
  case (Some res)
  obtain w R1 where "res = (w, R1)" by force
  then show ?thesis
    using assms Some reserve_capacity [OF Some]
    by (auto simp: pg_redis_dirty_ring_publish_def Let_def split: if_splits option.splits)
qed (use assms in \<open>auto simp: pg_redis_dirty_ring_publish_def split: if_splits\<close>)

lemma collect_capacity: "pg_redis_dirty_ring_collect mx R = (evs, base, R') \<Longrightarrow> ring_capacity R' = ring_capacity R"
proof -
  have "collect_loop k pos w R = (evs, R') \<Longrightarrow> ring_capacity R' = ring_capacity R" for k pos w R evs R'
    by (induction k pos w R arbitrary: evs R' rule: collect_loop.induct) (auto simp: Let_def split: if_splits prod.splits)
  then show "pg_redis_dirty_ring_collect mx R = (evs, base, R') \<Longrightarrow> ring_capacity R' = ring_capacity R"
    by (auto simp: pg_redis_dirty_ring_collect_def split: if_splits prod.splits)
qed

lemma release_capacity:
  "pg_redis_dirty_ring_release_batch base n (R, a) = (R', a') \<Longrightarrow> ring_capacity R' = ring_capacity R"
proof -
  have "fold slot_release ps S = S' \<Longrightarrow> ring_capacity (fst S') = ring_capacity (fst S)" for ps S S'
    by (induction ps arbitrary: S) (auto simp: slot_release_def split: prod.splits)
  from this [of "[base ..< base + n]" "(R, a)"]
  show "pg_redis_dirty_ring_release_batch base n (R, a) = (R', a') \<Longrightarrow> ring_capacity R' = ring_capacity R"
    by (auto simp: pg_redis_dirty_ring_release_batch_def split: if_splits prod.splits)
qed

text \<open>The operations as the contract names them, on the ring together with the segment.\<close>

type_synonym shared_ring = "dirty_ring \<times> dsa_area"

definition ring_put :: "int \<Rightarrow> PgRedisDirtyEvent \<Rightarrow> shared_ring \<Rightarrow> shared_ring option" where
  "ring_put now ev S =
     (case pg_redis_dirty_ring_publish now ev (fst S) of
        Some (Inr PG_REDIS_RING_OK, R) \<Rightarrow> Some (R, snd S)
      | _ \<Rightarrow> None)"

definition ring_collect :: "nat \<Rightarrow> shared_ring \<Rightarrow> PgRedisDirtyEvent list \<times> shared_ring" where
  "ring_collect mx S = (case pg_redis_dirty_ring_collect mx (fst S) of (evs, _, R) \<Rightarrow> (evs, R, snd S))"

definition ring_commit :: "nat \<Rightarrow> shared_ring \<Rightarrow> shared_ring" where
  "ring_commit n S = pg_redis_dirty_ring_release_batch (ring_read_head (fst S)) n S"

definition ring_rollback :: "nat \<Rightarrow> shared_ring \<Rightarrow> shared_ring" where
  "ring_rollback n S = (pg_redis_dirty_ring_abort_batch (ring_read_head (fst S)) n (fst S), snd S)"

interpretation ring: event_queue "ring_put now" ring_collect ring_commit ring_rollback ev_body
    "\<lambda>S. ring_queue (fst S)" "\<lambda>n S. ring_ok n (fst S)" for now
proof unfold_locales
  fix n S e S'
  assume ok: "ring_ok n (fst S)" and p: "ring_put now e S = Some S'"
  from publish_ok [OF ok, of now e] p show "ring_ok n (fst S')" "ring_queue (fst S') = ring_queue (fst S) @ [ev_body e]"
    by (auto simp: ring_put_def split: if_splits)
next
  fix S mx es S'
  assume ok: "ring_ok 0 (fst S)" and c: "ring_collect mx S = (es, S')"
  obtain base where "pg_redis_dirty_ring_collect mx (fst S) = (es, base, fst S')"
    using c by (auto simp: ring_collect_def split: prod.splits)
  from ring_collect_ok [OF ok this] show "ring_ok (length es) (fst S')" "map ev_body es = take mx (ring_queue (fst S))"
    "ring_queue (fst S') = ring_queue (fst S)" by simp_all
next
  fix n and S :: shared_ring
  assume ok: "ring_ok n (fst S)"
  obtain R' a' where c: "pg_redis_dirty_ring_release_batch (ring_read_head (fst S)) n (fst S, snd S) = (R', a')" by force
  from release_batch_ok(1,2) [OF ok c] c
  show "ring_ok 0 (fst (ring_commit n S))" "ring_queue (fst (ring_commit n S)) = drop n (ring_queue (fst S))"
    by (simp_all add: ring_commit_def)
  from abort_batch_ok [OF ok]
  show "ring_ok 0 (fst (ring_rollback n S))" "ring_queue (fst (ring_rollback n S)) = ring_queue (fst S)"
    by (simp_all add: ring_rollback_def)
qed

section \<open>Properties\<close>

text \<open>
  Publishing without interference returns: with room in the ring the event is appended behind all
  pending ones, whatever is being drained, and otherwise the ring is full and untouched. The reservation
  loop never spins.
\<close>

lemma ring_publish_appends:
  assumes "ring_ok n R"
  shows "if pg_redis_dirty_ring_full R
    then pg_redis_dirty_ring_publish now ev R = Some (Inr PG_REDIS_RING_FULL, R)
    else \<exists>R'. pg_redis_dirty_ring_publish now ev R = Some (Inr PG_REDIS_RING_OK, R') \<and> ring_ok n R' \<and>
      ring_queue R' = ring_queue R @ [ev_body ev]"
  using publish_ok [OF assms, of now ev] ring_okD [OF assms]
  by (auto simp: pg_redis_dirty_ring_full_def pg_redis_dirty_ring_pending_def split: if_splits)

text \<open>
  C21: The two-phase drain keeps the queue: a collected batch is the oldest events in order; releasing it
  removes exactly these and frees exactly their spilled payloads; aborting it leaves every event pending
  for the next drain.
\<close>

theorem ring_drain_cycle:
  assumes "ring_ok 0 R" "pg_redis_dirty_ring_collect mx R = (evs, base, R1)"
    and "pg_redis_dirty_ring_release_batch base (length evs) (R1, a) = (R2, a2)"
    and "R3 = pg_redis_dirty_ring_abort_batch base (length evs) R1"
  shows "map ev_body evs = take mx (ring_queue R) \<and>
    ring_ok 0 R2 \<and> ring_queue R2 = drop (length evs) (ring_queue R) \<and>
    (\<forall>p. hash_find a2 p = (if \<exists>ev \<in> set evs. p \<in> event_owned ev then None else hash_find a p)) \<and>
    ring_ok 0 R3 \<and> ring_queue R3 = ring_queue R"
proof -
  note C = ring_collect_ok [OF assms(1,2)]
  note L = release_batch_ok [OF C(1) assms(3) [unfolded C(3)]] and A = abort_batch_ok [OF C(1)]
  have len: "length evs = min (length (ring_queue R)) mx" using C(4) by (metis length_map length_take)
  then have "take (length evs) (ring_queue R1) = map ev_body evs" using C(2,4) by (cases "mx \<le> length (ring_queue R)") simp_all
  then have "(\<exists>ev \<in> set (take (length evs) (ring_queue R1)). p \<in> event_owned ev) \<longleftrightarrow> (\<exists>ev \<in> set evs. p \<in> event_owned ev)" for p
    by simp
  then have "hash_find a2 p = (if \<exists>ev \<in> set evs. p \<in> event_owned ev then None else hash_find a p)" for p
    using L(3) [of p] by metis
  then show ?thesis using C L(1,2) A assms(4) by simp
qed

theorem ring_drain_cycle_witness:
  "\<exists>R1 R2 a2. pg_redis_dirty_ring_collect 3 (pg_redis_dirty_ring_shmem_init 2) = ([], 0, R1) \<and>
     pg_redis_dirty_ring_release_batch 0 0 (R1, []) = (R2, a2) \<and> ring_ok 0 R2"
proof -
  let ?R = "pg_redis_dirty_ring_shmem_init 2"
  have ok: "ring_ok 0 ?R" using ring_ok_init [of 2] by simp
  have c: "pg_redis_dirty_ring_collect 3 ?R = ([], 0, ?R)" by code_simp
  obtain R2 a2 where r: "pg_redis_dirty_ring_release_batch 0 (length ([] :: PgRedisDirtyEvent list)) (?R, []) = (R2, a2)" by force
  show ?thesis using ring_drain_cycle [OF ok c r refl] c r by auto
qed

end
