(* ===== verification/Ring_Steps.thy ===== *)
theory Ring_Steps
  imports Dirty_Ring
begin

text \<open>
  The ring under concurrency: any number of producers inside \<open>pg_redis_dirty_ring_publish\<close>, each access
  to shared memory a step of its own, and drains that hold the consumer lock. A producer may die at any
  point. Three things are assumed of the surroundings. A slot is reclaimed only when no live producer is
  writing it, which the timeout is meant to ensure; \<open>FLUSHALL\<close> does not run during a drain; memory is
  sequentially consistent, which the barriers of the code are for. The log, which the code does not have,
  records the events in the order in which the write head passed them.
\<close>

section \<open>Steps\<close>

text \<open>Where a producer is: the events and positions are its local variables.\<close>

datatype pc =
    Idle
  | Called PgRedisDirtyEvent
  | SawW PgRedisDirtyEvent nat
  | SawRoom PgRedisDirtyEvent nat
  | Reserved PgRedisDirtyEvent nat
  | Wrote PgRedisDirtyEvent nat
  | Readied PgRedisDirtyEvent nat
  | Returned PgRedisRingPublishResult PgRedisDirtyEvent

record run =
  run_ring :: dirty_ring
  run_area :: dsa_area
  run_pcs :: "pc list"
  run_batch :: "(nat \<times> nat) option"
  run_log :: "PgRedisDirtyEvent list"

definition run_init :: "nat \<Rightarrow> nat \<Rightarrow> run" where
  "run_init slots producers =
     \<lparr>run_ring = pg_redis_dirty_ring_shmem_init slots, run_area = [], run_pcs = replicate producers Idle,
      run_batch = None, run_log = []\<rparr>"

text \<open>The position whose slot a producer is writing.\<close>

fun holds :: "pc \<Rightarrow> nat option" where
  "holds (Reserved _ w) = Some w"
| "holds (Wrote _ w) = Some w"
| "holds _ = None"

fun pos_of :: "pc \<Rightarrow> nat option" where
  "pos_of (SawW _ w) = Some w"
| "pos_of (SawRoom _ w) = Some w"
| "pos_of (Reserved _ w) = Some w"
| "pos_of (Wrote _ w) = Some w"
| "pos_of (Readied _ w) = Some w"
| "pos_of _ = None"

abbreviation head_w :: "run \<Rightarrow> nat" where
  "head_w S \<equiv> ring_write_head (run_ring S)"

abbreviation head_r :: "run \<Rightarrow> nat" where
  "head_r S \<equiv> ring_read_head (run_ring S)"

abbreviation cap_of :: "run \<Rightarrow> nat" where
  "cap_of S \<equiv> ring_capacity (run_ring S)"

abbreviation slot_of :: "run \<Rightarrow> nat \<Rightarrow> PgRedisDirtyEvent" where
  "slot_of S pos \<equiv> slot_at (run_ring S) pos"

definition at_pc :: "run \<Rightarrow> nat \<Rightarrow> pc \<Rightarrow> bool" where
  "at_pc S i p \<longleftrightarrow> i < length (run_pcs S) \<and> run_pcs S ! i = p"

definition goto :: "nat \<Rightarrow> pc \<Rightarrow> run \<Rightarrow> run" where
  "goto i p S = S\<lparr>run_pcs := (run_pcs S)[i := p]\<rparr>"

inductive ring_step :: "run \<Rightarrow> run \<Rightarrow> bool" where
  call: "at_pc S i Idle \<Longrightarrow> ring_step S (goto i (Called ev) S)"
| read_write_head: "at_pc S i (Called ev) \<Longrightarrow> ring_step S (goto i (SawW ev (head_w S)) S)"
| full: "at_pc S i (SawW ev w) \<Longrightarrow> u64_sub w (head_r S) \<ge> int (cap_of S) \<Longrightarrow>
    ring_step S (goto i (Returned PG_REDIS_RING_FULL ev) S)"
| room: "at_pc S i (SawW ev w) \<Longrightarrow> u64_sub w (head_r S) < int (cap_of S) \<Longrightarrow> ring_step S (goto i (SawRoom ev w) S)"
| reserve: "at_pc S i (SawRoom ev w) \<Longrightarrow> ev_state (slot_of S w) = SLOT_EMPTY \<Longrightarrow>
    ring_step S (goto i (Reserved ev w) (S\<lparr>run_ring := slot_set_state w SLOT_WRITING (run_ring S)\<rparr>))"
| retry: "at_pc S i (SawRoom ev w) \<Longrightarrow> ev_state (slot_of S w) \<noteq> SLOT_EMPTY \<Longrightarrow> ring_step S (goto i (Called ev) S)"
| copy: "at_pc S i (Reserved ev w) \<Longrightarrow>
    ring_step S (goto i (Wrote ev w) (S\<lparr>run_ring := slot_put w (write_payload now ev (slot_of S w)) (run_ring S)\<rparr>))"
| ready: "at_pc S i (Wrote ev w) \<Longrightarrow> ev_state (slot_of S w) = SLOT_WRITING \<Longrightarrow>
    ring_step S (goto i (Readied ev w) (S\<lparr>run_ring := slot_set_state w SLOT_READY (run_ring S)\<rparr>))"
| void: "at_pc S i (Wrote ev w) \<Longrightarrow> ev_state (slot_of S w) \<noteq> SLOT_WRITING \<Longrightarrow>
    ring_step S (goto i (Returned PG_REDIS_RING_FULL ev) S)"
| advance: "at_pc S i (Readied ev w) \<Longrightarrow> head_w S = w \<Longrightarrow>
    ring_step S (goto i (Returned PG_REDIS_RING_OK ev)
      (S\<lparr>run_ring := (run_ring S)\<lparr>ring_write_head := w + 1\<rparr>, run_log := run_log S @ [ev_body ev]\<rparr>))"
| advance_stale: "at_pc S i (Readied ev w) \<Longrightarrow> head_w S \<noteq> w \<Longrightarrow> ring_step S (goto i (Returned PG_REDIS_RING_OK ev) S)"
| leave: "at_pc S i (Returned res ev) \<Longrightarrow> ring_step S (goto i Idle S)"
| die: "at_pc S i p \<Longrightarrow> ring_step S (goto i Idle S)"
| collect: "pg_redis_dirty_ring_collect mx (run_ring S) = (evs, base, R) \<Longrightarrow>
    ring_step S (S\<lparr>run_ring := R, run_batch := (if evs = [] then run_batch S else Some (base, length evs))\<rparr>)"
| release: "run_batch S = Some (base, n) \<Longrightarrow> pg_redis_dirty_ring_release_batch base n (run_ring S, run_area S) = (R, a) \<Longrightarrow>
    ring_step S (S\<lparr>run_ring := R, run_area := a, run_batch := None\<rparr>)"
| abort: "run_batch S = Some (base, n) \<Longrightarrow>
    ring_step S (S\<lparr>run_ring := pg_redis_dirty_ring_abort_batch base n (run_ring S), run_batch := None\<rparr>)"
| reclaim: "\<forall>p \<in> set (run_pcs S). \<forall>u. holds p = Some u \<longrightarrow> u mod cap_of S \<noteq> head_w S mod cap_of S \<Longrightarrow>
    pg_redis_dirty_ring_reclaim_stuck now timeout (run_ring S) = (k, R) \<Longrightarrow> ring_step S (S\<lparr>run_ring := R\<rparr>)"
| drop_all: "run_batch S = None \<Longrightarrow> pg_redis_dirty_ring_drop_all_pending (run_ring S, run_area S) = (k, R, a) \<Longrightarrow>
    ring_step S (S\<lparr>run_ring := R, run_area := a\<rparr>)"

text \<open>The states that a ring of that many slots can get into with that many producers.\<close>

inductive reachable :: "nat \<Rightarrow> nat \<Rightarrow> run \<Rightarrow> bool" for slots producers where
  start: "reachable slots producers (run_init slots producers)"
| step: "reachable slots producers S \<Longrightarrow> ring_step S S' \<Longrightarrow> reachable slots producers S'"

section \<open>Invariant\<close>

definition draining :: "run \<Rightarrow> nat" where
  "draining S = (case run_batch S of None \<Rightarrow> 0 | Some (base, n) \<Rightarrow> n)"

text \<open>
  The window between the heads has no hole and holds the logged events; the slots ahead of the write
  head are not draining.
\<close>

definition window_ok :: "run \<Rightarrow> bool" where
  "window_ok S \<longleftrightarrow>
     0 < cap_of S \<and> int (cap_of S) < 2 ^ 31 \<and> head_r S + draining S \<le> head_w S \<and> head_w S \<le> head_r S + cap_of S \<and>
     (\<forall>base n. run_batch S = Some (base, n) \<longrightarrow> base = head_r S \<and> 0 < n) \<and>
     length (run_log S) = head_w S \<and>
     (\<forall>pos. head_r S \<le> pos \<longrightarrow> pos < head_w S \<longrightarrow>
        ev_state (slot_of S pos) = (if pos < head_r S + draining S then SLOT_DRAINING else SLOT_READY) \<and>
        ev_body (slot_of S pos) = run_log S ! pos) \<and>
     (\<forall>pos. head_w S \<le> pos \<longrightarrow> pos < head_r S + cap_of S \<longrightarrow> ev_state (slot_of S pos) \<noteq> SLOT_DRAINING)"

text \<open>What holds of one producer, and between two.\<close>

definition producer_ok :: "run \<Rightarrow> pc \<Rightarrow> bool" where
  "producer_ok S p \<longleftrightarrow>
     (\<forall>u. pos_of p = Some u \<longrightarrow> u \<le> head_w S) \<and>
     (\<forall>u. holds p = Some u \<longrightarrow> ev_state (slot_of S u) = SLOT_WRITING) \<and>
     (\<forall>ev u. p = Wrote ev u \<longrightarrow> ev_body (slot_of S u) = ev_body ev) \<and>
     (\<forall>ev u. p = Readied ev u \<longrightarrow> u = head_w S \<longrightarrow> ev_state (slot_of S u) = SLOT_READY \<and>
        ev_body (slot_of S u) = ev_body ev \<and> u < head_r S + cap_of S)"

definition apart :: "run \<Rightarrow> bool" where
  "apart S \<longleftrightarrow> (\<forall>i j u v. i < length (run_pcs S) \<longrightarrow> j < length (run_pcs S) \<longrightarrow> i \<noteq> j \<longrightarrow>
     holds (run_pcs S ! i) = Some u \<longrightarrow> holds (run_pcs S ! j) = Some v \<longrightarrow> u mod cap_of S \<noteq> v mod cap_of S)"

definition run_ok :: "run \<Rightarrow> bool" where
  "run_ok S \<longleftrightarrow> window_ok S \<and> (\<forall>p \<in> set (run_pcs S). producer_ok S p) \<and> apart S"

lemma window_okD:
  assumes "window_ok S"
  shows "0 < cap_of S" "int (cap_of S) < 2 ^ 31" "head_r S + draining S \<le> head_w S" "head_w S \<le> head_r S + cap_of S"
    "\<And>base n. run_batch S = Some (base, n) \<Longrightarrow> base = head_r S \<and> 0 < n" "length (run_log S) = head_w S"
    "\<And>pos. head_r S \<le> pos \<Longrightarrow> pos < head_w S \<Longrightarrow> ev_state (slot_of S pos) = (if pos < head_r S + draining S then SLOT_DRAINING else SLOT_READY)"
    "\<And>pos. head_r S \<le> pos \<Longrightarrow> pos < head_w S \<Longrightarrow> ev_body (slot_of S pos) = run_log S ! pos"
    "\<And>pos. head_w S \<le> pos \<Longrightarrow> pos < head_r S + cap_of S \<Longrightarrow> ev_state (slot_of S pos) \<noteq> SLOT_DRAINING"
  using assms by (simp_all add: window_ok_def)

lemma window_okI:
  assumes "0 < cap_of S" "int (cap_of S) < 2 ^ 31" "head_r S + draining S \<le> head_w S" "head_w S \<le> head_r S + cap_of S"
    "\<And>base n. run_batch S = Some (base, n) \<Longrightarrow> base = head_r S \<and> 0 < n" "length (run_log S) = head_w S"
    "\<And>pos. head_r S \<le> pos \<Longrightarrow> pos < head_w S \<Longrightarrow> ev_state (slot_of S pos) = (if pos < head_r S + draining S then SLOT_DRAINING else SLOT_READY)"
    "\<And>pos. head_r S \<le> pos \<Longrightarrow> pos < head_w S \<Longrightarrow> ev_body (slot_of S pos) = run_log S ! pos"
    "\<And>pos. head_w S \<le> pos \<Longrightarrow> pos < head_r S + cap_of S \<Longrightarrow> ev_state (slot_of S pos) \<noteq> SLOT_DRAINING"
  shows "window_ok S"
  using assms by (simp add: window_ok_def)

lemma goto_simps [simp]:
  "run_ring (goto i p S) = run_ring S" "run_area (goto i p S) = run_area S" "run_batch (goto i p S) = run_batch S"
  "run_log (goto i p S) = run_log S" "draining (goto i p S) = draining S"
  "run_pcs (goto i p S) = (run_pcs S)[i := p]"
  by (simp_all add: goto_def draining_def)

lemma window_ok_goto [simp]: "window_ok (goto i p S) = window_ok S"
  by (simp add: window_ok_def)

lemma producer_ok_goto [simp]: "producer_ok (goto i p S) q = producer_ok S q"
  by (simp add: producer_ok_def)

lemma draining_ring [simp]: "draining (S\<lparr>run_ring := R\<rparr>) = draining S" "draining (S\<lparr>run_log := l\<rparr>) = draining S"
  by (simp_all add: draining_def)

lemma at_pc_in: "at_pc S i p \<Longrightarrow> p \<in> set (run_pcs S)"
  by (auto simp: at_pc_def)

lemma at_pc_length: "at_pc S i p \<Longrightarrow> i < length (run_pcs S)"
  by (simp add: at_pc_def)

lemma run_okD:
  assumes "run_ok S"
  shows "window_ok S" "\<And>p. p \<in> set (run_pcs S) \<Longrightarrow> producer_ok S p" "apart S"
    "\<And>i p. at_pc S i p \<Longrightarrow> producer_ok S p"
  using assms at_pc_in by (auto simp: run_ok_def)

lemma apart_goto:
  assumes ap: "apart S"
    and p: "\<And>j v w. j < length (run_pcs S) \<Longrightarrow> j \<noteq> i \<Longrightarrow> holds p = Some w \<Longrightarrow> holds (run_pcs S ! j) = Some v \<Longrightarrow>
      w mod cap_of S \<noteq> v mod cap_of S"
  shows "apart (goto i p S)"
  unfolding apart_def
proof (intro allI impI)
  fix k j u v
  assume "k < length (run_pcs (goto i p S))" "j < length (run_pcs (goto i p S))" "k \<noteq> j"
    "holds (run_pcs (goto i p S) ! k) = Some u" "holds (run_pcs (goto i p S) ! j) = Some v"
  then show "u mod cap_of (goto i p S) \<noteq> v mod cap_of (goto i p S)"
    using ap p [of k v u] p [of j u v] unfolding apart_def by (cases "k = i"; cases "j = i") (auto 0 3)
qed

text \<open>A step of one producer that leaves its slot alone.\<close>

lemma run_ok_goto:
  assumes ok: "run_ok S" and p: "producer_ok S p" "holds p = None"
  shows "run_ok (goto i p S)"
proof -
  have "apart (goto i p S)"
    by (rule apart_goto [OF run_okD(3) [OF ok]]) (simp add: p(2))
  then show ?thesis
    using ok p(1) set_update_subset_insert [of "run_pcs S" i p] by (auto simp: run_ok_def)
qed

text \<open>A step of producer \<open>i\<close> on one slot outside the window that no other producer is writing.\<close>

lemma window_ok_put:
  assumes ok: "window_ok S" and out: "ev_state (slot_of S u) = SLOT_EMPTY \<or> ev_state (slot_of S u) = SLOT_WRITING"
    and s: "ev_state s \<noteq> SLOT_DRAINING"
  shows "window_ok (S\<lparr>run_ring := slot_put u s (run_ring S)\<rparr>)"
proof -
  note D = window_okD [OF ok]
  have ne: "u mod cap_of S \<noteq> pos mod cap_of S" if "head_r S \<le> pos" "pos < head_w S" for pos
    using D(7) [OF that] out slot_at_mod [of u "run_ring S" pos] by (auto split: if_splits)
  show ?thesis
    by (rule window_okI; use D s ne in \<open>simp add: slot_at_put\<close>)
qed

lemma producer_ok_put:
  assumes P: "producer_ok S q" and cap: "0 < cap_of S"
    and out: "ev_state (slot_of S u) = SLOT_EMPTY \<or> ev_state (slot_of S u) = SLOT_WRITING"
    and q: "\<And>v. holds q = Some v \<Longrightarrow> v mod cap_of S \<noteq> u mod cap_of S"
  shows "producer_ok (S\<lparr>run_ring := slot_put u s (run_ring S)\<rparr>) q"
proof -
  have "w mod cap_of S \<noteq> u mod cap_of S" if "q = Readied ev w" "w = head_w S" for ev w
    using P that out slot_at_mod [of w "run_ring S" u] by (auto simp: producer_ok_def)
  then show ?thesis using P q cap by (cases q) (auto simp: producer_ok_def slot_at_put)
qed

lemma run_ok_put:
  assumes ok: "run_ok S" and i: "i < length (run_pcs S)"
    and out: "ev_state (slot_of S u) = SLOT_EMPTY \<or> ev_state (slot_of S u) = SLOT_WRITING" and s: "ev_state s \<noteq> SLOT_DRAINING"
    and free: "\<And>j v. j < length (run_pcs S) \<Longrightarrow> j \<noteq> i \<Longrightarrow> holds (run_pcs S ! j) = Some v \<Longrightarrow> v mod cap_of S \<noteq> u mod cap_of S"
    and p: "producer_ok (S\<lparr>run_ring := slot_put u s (run_ring S)\<rparr>) p" "\<And>v. holds p = Some v \<Longrightarrow> v = u"
  shows "run_ok (goto i p (S\<lparr>run_ring := slot_put u s (run_ring S)\<rparr>))"
proof -
  let ?S = "S\<lparr>run_ring := slot_put u s (run_ring S)\<rparr>"
  have cap: "0 < cap_of S" using window_okD(1) [OF run_okD(1) [OF ok]] .
  have "producer_ok ?S ((run_pcs S)[i := p] ! j)" if j: "j < length (run_pcs S)" for j
  proof (cases "j = i")
    case False
    then show ?thesis using producer_ok_put [OF run_okD(2) [OF ok nth_mem [OF j]] cap out free [OF j False]] by simp
  qed (simp add: p(1) i)
  then have "\<forall>q \<in> set ((run_pcs S)[i := p]). producer_ok ?S q" by (auto simp: in_set_conv_nth)
  moreover have "apart (goto i p ?S)"
  proof (rule apart_goto)
    show "apart ?S" using run_okD(3) [OF ok] by (simp add: apart_def)
    show "w mod cap_of ?S \<noteq> v mod cap_of ?S"
      if "j < length (run_pcs ?S)" "j \<noteq> i" "holds p = Some w" "holds (run_pcs ?S ! j) = Some v" for j v w
      using free [of j v] p(2) that by auto
  qed
  ultimately show ?thesis using window_ok_put [OF run_okD(1) [OF ok] out s] by (simp add: run_ok_def)
qed

section \<open>Steps of the drain\<close>

text \<open>A step of the drain changes slots of the window only, and moves the read head forward only.\<close>

definition drain_frame :: "run \<Rightarrow> run \<Rightarrow> bool" where
  "drain_frame S S' \<longleftrightarrow>
     run_pcs S' = run_pcs S \<and> head_w S' = head_w S \<and> cap_of S' = cap_of S \<and> head_r S \<le> head_r S' \<and>
     (\<forall>pos. (\<forall>q. head_r S \<le> q \<longrightarrow> q < head_w S \<longrightarrow> q mod cap_of S \<noteq> pos mod cap_of S) \<longrightarrow> slot_of S' pos = slot_of S pos)"

lemma drain_frameI:
  assumes "run_pcs S' = run_pcs S" "head_w S' = head_w S" "cap_of S' = cap_of S" "head_r S \<le> head_r S'"
    and "\<And>pos. (\<And>q. head_r S \<le> q \<Longrightarrow> q < head_w S \<Longrightarrow> q mod cap_of S \<noteq> pos mod cap_of S) \<Longrightarrow> slot_of S' pos = slot_of S pos"
  shows "drain_frame S S'"
  using assms by (simp add: drain_frame_def)

lemma run_ok_consumer:
  assumes ok: "run_ok S" and w': "window_ok S'" and fr: "drain_frame S S'"
  shows "run_ok S'"
proof -
  have same: "run_pcs S' = run_pcs S" "head_w S' = head_w S" "cap_of S' = cap_of S" "head_r S \<le> head_r S'"
    and slots: "\<And>pos. (\<And>q. head_r S \<le> q \<Longrightarrow> q < head_w S \<Longrightarrow> q mod cap_of S \<noteq> pos mod cap_of S) \<Longrightarrow> slot_of S' pos = slot_of S pos"
    using fr by (simp_all add: drain_frame_def)
  note D = window_okD [OF run_okD(1) [OF ok]]
  have "producer_ok S' p" if "p \<in> set (run_pcs S)" for p
  proof -
    note P = run_okD(2) [OF ok that]
    have wr: "slot_of S' u = slot_of S u" if "ev_state (slot_of S u) = SLOT_WRITING" for u
    proof (rule slots)
      fix q assume "head_r S \<le> q" "q < head_w S"
      then show "q mod cap_of S \<noteq> u mod cap_of S"
        using D(7) [of q] that slot_at_mod [of q "run_ring S" u] by (auto split: if_splits)
    qed
    have hd: "slot_of S' (head_w S) = slot_of S (head_w S)" if "head_w S < head_r S + cap_of S"
    proof (rule slots)
      fix q assume "head_r S \<le> q" "q < head_w S"
      then show "q mod cap_of S \<noteq> head_w S mod cap_of S" using window_neq [of "head_r S" q "cap_of S" "head_w S"] that by simp
    qed
    show ?thesis using P wr hd same by (cases p) (auto simp: producer_ok_def)
  qed
  moreover have "apart S'" using run_okD(3) [OF ok] by (simp add: apart_def same)
  ultimately show ?thesis using w' by (simp add: run_ok_def same)
qed

lemma collect_loop_range:
  assumes "0 < ring_capacity R" "w \<le> pos + ring_capacity R" "\<And>q. pos \<le> q \<Longrightarrow> q < w \<Longrightarrow> ev_state (slot_at R q) = SLOT_READY"
    "collect_loop k pos w R = (evs, R')"
  shows "length evs = min k (w - pos) \<and> ring_capacity R' = ring_capacity R \<and> ring_read_head R' = ring_read_head R \<and>
    ring_write_head R' = ring_write_head R \<and> map ev_body evs = map (\<lambda>q. ev_body (slot_at R q)) [pos ..< pos + length evs] \<and>
    (\<forall>q. slot_at R' q = (if \<exists>p \<in> {pos ..< pos + length evs}. p mod ring_capacity R = q mod ring_capacity R
       then (slot_at R q)\<lparr>ev_state := SLOT_DRAINING\<rparr> else slot_at R q))"
  using assms
proof (induction k arbitrary: pos R evs)
  case (Suc k)
  show ?case
  proof (cases "pos < w")
    case True
    define R1 where "R1 = slot_set_state pos SLOT_DRAINING R"
    obtain es where es: "collect_loop k (Suc pos) w R1 = (es, R')" "evs = slot_at R1 pos # es"
      using Suc.prems(4) True Suc.prems(3) [of pos] by (auto simp: R1_def Let_def split: prod.splits)
    have s1: "slot_at R1 q = (if pos mod ring_capacity R = q mod ring_capacity R then (slot_at R q)\<lparr>ev_state := SLOT_DRAINING\<rparr> else slot_at R q)" for q
      using Suc.prems(1) by (simp add: R1_def slot_at_set_state)
    have "ev_state (slot_at R1 q) = SLOT_READY" if "Suc pos \<le> q" "q < w" for q
      using that Suc.prems(2,3) window_neq [of pos pos "ring_capacity R" q] by (simp add: s1)
    then have IH: "length es = min k (w - Suc pos) \<and> ring_capacity R' = ring_capacity R1 \<and> ring_read_head R' = ring_read_head R1 \<and>
      ring_write_head R' = ring_write_head R1 \<and> map ev_body es = map (\<lambda>q. ev_body (slot_at R1 q)) [Suc pos ..< Suc pos + length es] \<and>
      (\<forall>q. slot_at R' q = (if \<exists>p \<in> {Suc pos ..< Suc pos + length es}. p mod ring_capacity R1 = q mod ring_capacity R1
         then (slot_at R1 q)\<lparr>ev_state := SLOT_DRAINING\<rparr> else slot_at R1 q))"
      using Suc.prems(1,2) es(1) by (intro Suc.IH) (simp_all add: R1_def)
    have rng: "{pos ..< pos + length evs} = insert pos {Suc pos ..< Suc pos + length es}" using es(2) by auto
    have upt: "[pos ..< pos + length evs] = pos # [Suc pos ..< Suc pos + length es]" 
      by (subst upt_rec) (simp add: es(2) del: upt_Suc)
    have b: "ev_body (slot_at R1 q) = ev_body (slot_at R q)" for q by (simp add: s1)
    have "slot_at R' q = (if \<exists>p \<in> {pos ..< pos + length evs}. p mod ring_capacity R = q mod ring_capacity R
       then (slot_at R q)\<lparr>ev_state := SLOT_DRAINING\<rparr> else slot_at R q)" for q
    proof -
      have "slot_at R' q = (if \<exists>p \<in> {Suc pos ..< Suc pos + length es}. p mod ring_capacity R = q mod ring_capacity R
         then (slot_at R1 q)\<lparr>ev_state := SLOT_DRAINING\<rparr> else slot_at R1 q)"
        using IH by (simp add: R1_def)
      then show ?thesis unfolding rng s1 by simp
    qed
    moreover have "length evs = min (Suc k) (w - pos)" using IH es(2) True by auto
    moreover have "map ev_body evs = map (\<lambda>q. ev_body (slot_at R q)) [pos ..< pos + length evs]"
      using IH unfolding upt by (simp only: es(2) list.map b)
    moreover have "ring_capacity R' = ring_capacity R" "ring_read_head R' = ring_read_head R" "ring_write_head R' = ring_write_head R"
      using IH by (simp_all add: R1_def)
    ultimately show ?thesis by blast
  next
    case False
    then show ?thesis using Suc.prems(4) by simp
  qed
qed simp

lemma collect_step_ok:
  assumes ok: "run_ok S" and c: "pg_redis_dirty_ring_collect mx (run_ring S) = (evs, base, R)"
  shows "run_ok (S\<lparr>run_ring := R, run_batch := (if evs = [] then run_batch S else Some (base, length evs))\<rparr>)"
    "run_batch S = None \<Longrightarrow> map ev_body evs = take mx (drop (head_r S) (run_log S))"
    "drain_frame S (S\<lparr>run_ring := R, run_batch := (if evs = [] then run_batch S else Some (base, length evs))\<rparr>)"
proof -
  note D = window_okD [OF run_okD(1) [OF ok]]
  have ne: "ring_slots (run_ring S) \<noteq> []" using D(1) by (auto simp: ring_capacity_def)
  have l: "collect_loop mx (head_r S) (head_w S) (run_ring S) = (evs, R)" and b: "base = head_r S"
    using c ne by (auto simp: pg_redis_dirty_ring_collect_def split: prod.splits)
  let ?S = "S\<lparr>run_ring := R, run_batch := (if evs = [] then run_batch S else Some (base, length evs))\<rparr>"
  have "run_ok ?S \<and> (run_batch S = None \<longrightarrow> map ev_body evs = take mx (drop (head_r S) (run_log S))) \<and> drain_frame S ?S"
  proof (cases "run_batch S")
    case None
    then have d0: "draining S = 0" by (simp add: draining_def)
    have "length evs = min mx (head_w S - head_r S) \<and> ring_capacity R = cap_of S \<and> ring_read_head R = head_r S \<and>
      ring_write_head R = head_w S \<and> map ev_body evs = map (\<lambda>q. ev_body (slot_of S q)) [head_r S ..< head_r S + length evs] \<and>
      (\<forall>q. slot_at R q = (if \<exists>p \<in> {head_r S ..< head_r S + length evs}. p mod cap_of S = q mod cap_of S
         then (slot_of S q)\<lparr>ev_state := SLOT_DRAINING\<rparr> else slot_of S q))"
      using D(1,4) by (intro collect_loop_range [OF _ _ _ l]) (simp_all add: D(7) d0)
    then have L: "length evs = min mx (head_w S - head_r S)" "ring_capacity R = cap_of S" "ring_read_head R = head_r S"
      "ring_write_head R = head_w S" "map ev_body evs = map (\<lambda>q. ev_body (slot_of S q)) [head_r S ..< head_r S + length evs]"
      "\<And>q. slot_at R q = (if \<exists>p \<in> {head_r S ..< head_r S + length evs}. p mod cap_of S = q mod cap_of S
         then (slot_of S q)\<lparr>ev_state := SLOT_DRAINING\<rparr> else slot_of S q)" by blast+
    have n: "head_r S + length evs \<le> head_w S" using L(1) D(3) by simp
    have dr: "draining ?S = length evs" using None by (simp add: draining_def)
    have in_win: "(\<exists>p \<in> {head_r S ..< head_r S + length evs}. p mod cap_of S = q mod cap_of S) \<longleftrightarrow> q < head_r S + length evs"
      if "head_r S \<le> q" "q < head_r S + cap_of S" for q
      using window_neq [of "head_r S" _ "cap_of S" q] that n D(4) by (auto simp: Ball_def) (metis le_trans less_le_trans)
    have win: "window_ok ?S"
    proof (rule window_okI)
      fix pos
      assume pos: "head_r ?S \<le> pos" "pos < head_w ?S"
      then have pos': "head_r S \<le> pos" "pos < head_w S" "pos < head_r S + cap_of S" using D(4) L(3,4) by simp_all
      show "ev_state (slot_of ?S pos) = (if pos < head_r ?S + draining ?S then SLOT_DRAINING else SLOT_READY)"
        using in_win [OF pos'(1,3)] D(7) [OF pos'(1,2)] L(3) by (simp add: L(6) dr d0)
      show "ev_body (slot_of ?S pos) = run_log ?S ! pos" using D(8) [OF pos'(1,2)] by (simp add: L(6))
    next
      fix pos
      assume "head_w ?S \<le> pos" "pos < head_r ?S + cap_of ?S"
      then have pos: "head_w S \<le> pos" "pos < head_r S + cap_of S" "head_r S \<le> pos" using L(2-4) D(3) by simp_all
      show "ev_state (slot_of ?S pos) \<noteq> SLOT_DRAINING"
        using in_win [OF pos(3,2)] D(9) [OF pos(1,2)] n pos(1) by (simp add: L(6))
    qed (use D(1-6) n L(2-4) None b dr in \<open>auto split: if_splits\<close>)
    have fr: "drain_frame S ?S"
    proof (rule drain_frameI)
      fix pos
      assume "\<And>q. head_r S \<le> q \<Longrightarrow> q < head_w S \<Longrightarrow> q mod cap_of S \<noteq> pos mod cap_of S"
      then show "slot_of ?S pos = slot_of S pos" using n by (auto simp: L(6))
    qed (simp_all add: L)
    have "map ev_body evs = take mx (drop (head_r S) (run_log S))"
      unfolding L(5) by (rule nth_equalityI) (use L(1) D(6,8) n in auto)
    then show ?thesis using run_ok_consumer [OF ok win fr] fr by simp
  next
    case (Some bn)
    obtain b' n where bn: "bn = (b', n)" by force
    have "0 < draining S" using D(5) Some bn by (auto simp: draining_def)
    then have "ev_state (slot_of S (head_r S)) = SLOT_DRAINING" using D(3) D(7) [of "head_r S"] by simp
    then have "evs = []" "R = run_ring S" using l by (cases mx; simp)+
    then have "?S = S" by simp
    then show ?thesis using ok Some by (simp add: drain_frame_def)
  qed
  then show "run_ok ?S" "run_batch S = None \<Longrightarrow> map ev_body evs = take mx (drop (head_r S) (run_log S))" "drain_frame S ?S"
    by simp_all
qed

text \<open>Every position has the slot of one position of the window behind the read head.\<close>

lemma window_rep: "0 < n \<Longrightarrow> \<exists>q \<ge> r. q < r + n \<and> q mod n = pos mod (n :: nat)"
proof -
  assume n: "0 < n"
  define q where "q = r + (pos + (n - r mod n)) mod n"
  have "q mod n = (r mod n + (pos + (n - r mod n))) mod n" by (simp add: q_def mod_simps)
  also have "r mod n + (pos + (n - r mod n)) = pos + n" using mod_less_divisor [OF n, of r] by linarith
  finally have "q mod n = pos mod n" by simp
  moreover have "r \<le> q" "q < r + n" using n by (simp_all add: q_def)
  ultimately show ?thesis by blast
qed

lemma release_step_ok:
  assumes ok: "run_ok S" and k: "draining S \<le> k" "head_r S + k \<le> head_w S"
    and f: "fold slot_release [head_r S ..< head_r S + k] (run_ring S, run_area S) = (R, a)"
  shows "run_ok (S\<lparr>run_ring := R\<lparr>ring_read_head := head_r S + k\<rparr>, run_area := a, run_batch := None\<rparr>)"
    "drain_frame S (S\<lparr>run_ring := R\<lparr>ring_read_head := head_r S + k\<rparr>, run_area := a, run_batch := None\<rparr>)"
proof -
  note D = window_okD [OF run_okD(1) [OF ok]]
  have "k \<le> cap_of S" using k D(4) by linarith
  from release_range [OF D(1) this f] have
    F: "ring_capacity R = cap_of S" "ring_write_head R = head_w S"
      "\<And>q. head_r S \<le> q \<Longrightarrow> q < head_r S + k \<Longrightarrow> ev_state (slot_at R q) = SLOT_EMPTY"
      "\<And>q. head_r S + k \<le> q \<Longrightarrow> q < head_r S + cap_of S \<Longrightarrow> slot_at R q = slot_of S q"
    by blast+
  let ?S = "S\<lparr>run_ring := R\<lparr>ring_read_head := head_r S + k\<rparr>, run_area := a, run_batch := None\<rparr>"
  have dr: "draining ?S = 0" by (simp add: draining_def)
  have win: "window_ok ?S"
  proof (rule window_okI)
    fix pos
    assume "head_r ?S \<le> pos" "pos < head_w ?S"
    then have pos: "head_r S + k \<le> pos" "pos < head_w S" using F(2) by simp_all
    then have "slot_at R pos = slot_of S pos" using F(4) D(4) by simp
    then show "ev_state (slot_of ?S pos) = (if pos < head_r ?S + draining ?S then SLOT_DRAINING else SLOT_READY)"
      "ev_body (slot_of ?S pos) = run_log ?S ! pos" using D(7,8) [of pos] pos k(1) by (simp_all add: dr)
  next
    fix pos
    assume "head_w ?S \<le> pos" "pos < head_r ?S + cap_of ?S"
    then have pos: "head_w S \<le> pos" "pos < head_r S + k + cap_of S" using F(1,2) by simp_all
    show "ev_state (slot_of ?S pos) \<noteq> SLOT_DRAINING"
    proof (cases "pos < head_r S + cap_of S")
      case True
      then show ?thesis using F(4) [of pos] D(9) [of pos] pos k(2) by simp
    next
      case False
      then have "slot_at R pos = slot_at R (pos - cap_of S)" by (intro slot_at_mod) (simp add: F(1) le_mod_geq)
      then show ?thesis using F(3) [of "pos - cap_of S"] pos False by auto
    qed
  qed (use D k F dr in auto)
  show fr: "drain_frame S ?S"
  proof (rule drain_frameI)
    fix pos
    assume out: "\<And>q. head_r S \<le> q \<Longrightarrow> q < head_w S \<Longrightarrow> q mod cap_of S \<noteq> pos mod cap_of S"
    obtain q where q: "head_r S \<le> q" "q < head_r S + cap_of S" "q mod cap_of S = pos mod cap_of S"
      using window_rep [OF D(1), of "head_r S" pos] by blast
    have "slot_at R pos = slot_at R q" "slot_of S q = slot_of S pos"
      using q(3) by (auto intro!: slot_at_mod simp: F(1))
    moreover have "head_w S \<le> q" using out [OF q(1)] q(3) by (meson not_le)
    ultimately show "slot_of ?S pos = slot_of S pos" using F(4) [of q] q k(2) by simp
  qed (simp_all add: F)
  show "run_ok ?S" by (rule run_ok_consumer [OF ok win fr])
qed

lemma release_batch_step_ok:
  assumes ok: "run_ok S" and b: "run_batch S = Some (base, n)"
    and r: "pg_redis_dirty_ring_release_batch base n (run_ring S, run_area S) = (R, a)"
  shows "run_ok (S\<lparr>run_ring := R, run_area := a, run_batch := None\<rparr>)"
    "drain_frame S (S\<lparr>run_ring := R, run_area := a, run_batch := None\<rparr>)"
proof -
  note D = window_okD [OF run_okD(1) [OF ok]]
  have dn: "draining S = n" "base = head_r S" "0 < n" using D(5) [OF b] b by (simp_all add: draining_def)
  have ne: "ring_slots (run_ring S) \<noteq> []" using D(1) by (auto simp: ring_capacity_def)
  obtain R1 where f: "fold slot_release [head_r S ..< head_r S + n] (run_ring S, run_area S) = (R1, a)" "R = R1\<lparr>ring_read_head := head_r S + n\<rparr>"
    using r ne dn by (auto simp: pg_redis_dirty_ring_release_batch_def split: prod.splits)
  show "run_ok (S\<lparr>run_ring := R, run_area := a, run_batch := None\<rparr>)"
    "drain_frame S (S\<lparr>run_ring := R, run_area := a, run_batch := None\<rparr>)"
    using release_step_ok [OF ok _ _ f(1)] D(3) dn f(2) by simp_all
qed

lemma abort_step_ok:
  assumes ok: "run_ok S" and b: "run_batch S = Some (base, n)"
  shows "run_ok (S\<lparr>run_ring := pg_redis_dirty_ring_abort_batch base n (run_ring S), run_batch := None\<rparr>)"
    "drain_frame S (S\<lparr>run_ring := pg_redis_dirty_ring_abort_batch base n (run_ring S), run_batch := None\<rparr>)"
proof -
  note D = window_okD [OF run_okD(1) [OF ok]]
  have dn: "draining S = n" "base = head_r S" "0 < n" using D(5) [OF b] b by (simp_all add: draining_def)
  have n: "head_r S + n \<le> head_w S" "n \<le> cap_of S" using D(3,4) dn by simp_all
  have ne: "ring_slots (run_ring S) \<noteq> []" using D(1) by (auto simp: ring_capacity_def)
  define R where "R = fold (\<lambda>pos. slot_set_state pos SLOT_READY) [head_r S ..< head_r S + n] (run_ring S)"
  note A = abort_range [OF D(1) n(2), of "head_r S", folded R_def]
  have R: "pg_redis_dirty_ring_abort_batch base n (run_ring S) = R"
    using ne dn by (simp add: pg_redis_dirty_ring_abort_batch_def R_def)
  let ?S = "S\<lparr>run_ring := R, run_batch := None\<rparr>"
  have dr: "draining ?S = 0" by (simp add: draining_def)
  have win: "window_ok ?S"
  proof (rule window_okI)
    fix pos
    assume "head_r ?S \<le> pos" "pos < head_w ?S"
    then have pos: "head_r S \<le> pos" "pos < head_w S" by (simp_all add: A)
    show "ev_state (slot_of ?S pos) = (if pos < head_r ?S + draining ?S then SLOT_DRAINING else SLOT_READY)"
      using D(7) [OF pos] pos by (auto simp: A(1,3) dr dn(1))
    show "ev_body (slot_of ?S pos) = run_log ?S ! pos" using D(8) [OF pos] by (simp add: A(1))
  next
    fix pos
    assume "head_w ?S \<le> pos" "pos < head_r ?S + cap_of ?S"
    then show "ev_state (slot_of ?S pos) \<noteq> SLOT_DRAINING" using D(9) [of pos] by (simp add: A)
  qed (use D dr A in auto)
  have fr: "drain_frame S ?S"
  proof (rule drain_frameI)
    fix pos
    assume "\<And>q. head_r S \<le> q \<Longrightarrow> q < head_w S \<Longrightarrow> q mod cap_of S \<noteq> pos mod cap_of S"
    then show "slot_of ?S pos = slot_of S pos" using n(1) by (auto simp: A(1))
  qed (simp_all add: A)
  show "run_ok (S\<lparr>run_ring := pg_redis_dirty_ring_abort_batch base n (run_ring S), run_batch := None\<rparr>)"
    "drain_frame S (S\<lparr>run_ring := pg_redis_dirty_ring_abort_batch base n (run_ring S), run_batch := None\<rparr>)"
    using run_ok_consumer [OF ok win fr] fr by (simp_all add: R)
qed

lemma reclaim_step_ok:
  assumes ok: "run_ok S" and free: "\<forall>p \<in> set (run_pcs S). \<forall>u. holds p = Some u \<longrightarrow> u mod cap_of S \<noteq> head_w S mod cap_of S"
    and r: "pg_redis_dirty_ring_reclaim_stuck now timeout (run_ring S) = (k, R)"
  shows "run_ok (S\<lparr>run_ring := R\<rparr>)"
proof (cases "R = run_ring S")
  case False
  then have w: "ev_state (slot_of S (head_w S)) = SLOT_WRITING"
    and R: "R = slot_put (head_w S) ((slot_of S (head_w S))\<lparr>ev_state := SLOT_EMPTY\<rparr>) (run_ring S)"
    using r by (auto simp: pg_redis_dirty_ring_reclaim_stuck_def Let_def slot_set_state_def split: if_splits)
  have "producer_ok (S\<lparr>run_ring := R\<rparr>) p" if "p \<in> set (run_pcs S)" for p
    unfolding R using free that w
    by (intro producer_ok_put [OF run_okD(2) [OF ok that] window_okD(1) [OF run_okD(1) [OF ok]]]) auto
  moreover have "apart (S\<lparr>run_ring := R\<rparr>)" using run_okD(3) [OF ok] by (simp add: apart_def R)
  ultimately show ?thesis
    using window_ok_put [OF run_okD(1) [OF ok], of "head_w S" "(slot_of S (head_w S))\<lparr>ev_state := SLOT_EMPTY\<rparr>"] w
    by (simp add: run_ok_def R)
qed (use ok in simp)

lemma drop_step_ok:
  assumes ok: "run_ok S" and b: "run_batch S = None"
    and d: "pg_redis_dirty_ring_drop_all_pending (run_ring S, run_area S) = (k, R, a)"
  shows "run_ok (S\<lparr>run_ring := R, run_area := a\<rparr>)" "drain_frame S (S\<lparr>run_ring := R, run_area := a\<rparr>)"
proof -
  note D = window_okD [OF run_okD(1) [OF ok]]
  define m where "m = head_w S - head_r S"
  have m: "m \<le> cap_of S" "head_r S + m = head_w S" using D(3,4) by (auto simp: m_def)
  have ne: "ring_slots (run_ring S) \<noteq> []" using D(1) by (auto simp: ring_capacity_def)
  obtain R1 a1 where f: "fold slot_release [head_r S ..< head_r S + m] (run_ring S, run_area S) = (R1, a1)" by force
  have "drop_loop m (head_r S) (run_ring S, run_area S) = (head_r S + m, fold slot_release [head_r S ..< head_r S + m] (run_ring S, run_area S))"
    using D(1,7) m by (intro drop_loop_all) auto
  then have R: "a = a1" "R = (if 0 < m then R1\<lparr>ring_read_head := head_r S + m\<rparr> else R1)"
    using d f ne by (auto simp: pg_redis_dirty_ring_drop_all_pending_def m_def [symmetric] split: if_splits)
  have "run_ok (S\<lparr>run_ring := R1\<lparr>ring_read_head := head_r S + m\<rparr>, run_area := a1, run_batch := None\<rparr>)"
    "drain_frame S (S\<lparr>run_ring := R1\<lparr>ring_read_head := head_r S + m\<rparr>, run_area := a1, run_batch := None\<rparr>)"
    using b m by (intro release_step_ok [OF ok _ _ f]; simp add: draining_def)+
  moreover have "R1\<lparr>ring_read_head := head_r S + m\<rparr> = R"
  proof (cases "m = 0")
    case True
    then have "R1 = run_ring S" using f by simp
    then show ?thesis using R(2) True by simp
  qed (simp add: R(2))
  moreover have "S\<lparr>run_ring := R, run_area := a, run_batch := None\<rparr> = S\<lparr>run_ring := R, run_area := a\<rparr>" using b by simp
  ultimately show "run_ok (S\<lparr>run_ring := R, run_area := a\<rparr>)" "drain_frame S (S\<lparr>run_ring := R, run_area := a\<rparr>)"
    using R(1) by simp_all
qed

section \<open>The invariant holds\<close>

lemma run_ok_init: "0 < n \<Longrightarrow> int n < 2 ^ 31 \<Longrightarrow> run_ok (run_init n k)"
  by (auto simp: run_ok_def window_ok_def producer_ok_def apart_def run_init_def pg_redis_dirty_ring_shmem_init_def
      ring_capacity_def slot_at_def blank_slot_def draining_def)

lemma reserve_step_ok:
  assumes ok: "run_ok S" and at: "at_pc S i (SawRoom ev w)" and e: "ev_state (slot_of S w) = SLOT_EMPTY"
  shows "run_ok (goto i (Reserved ev w) (S\<lparr>run_ring := slot_set_state w SLOT_WRITING (run_ring S)\<rparr>))"
  unfolding slot_set_state_def
proof (rule run_ok_put [OF ok at_pc_length [OF at]])
  note D = window_okD [OF run_okD(1) [OF ok]]
  show "v mod cap_of S \<noteq> w mod cap_of S" if "j < length (run_pcs S)" "holds (run_pcs S ! j) = Some v" for j v
    using run_okD(2) [OF ok nth_mem [OF that(1)]] that(2) e slot_at_mod [of v "run_ring S" w] by (auto simp: producer_ok_def)
  show "producer_ok (S\<lparr>run_ring := slot_put w ((slot_of S w)\<lparr>ev_state := SLOT_WRITING\<rparr>) (run_ring S)\<rparr>) (Reserved ev w)"
    using run_okD(4) [OF ok at] D(1) by (simp add: producer_ok_def slot_at_put)
qed (use e in auto)

lemma others_apart:
  assumes ok: "run_ok S" and at: "at_pc S i p" "holds p = Some w"
    and j: "j < length (run_pcs S)" "j \<noteq> i" "holds (run_pcs S ! j) = Some v"
  shows "v mod cap_of S \<noteq> w mod cap_of S"
  using run_okD(3) [OF ok] at j by (auto simp: apart_def at_pc_def)

lemma copy_step_ok:
  assumes ok: "run_ok S" and at: "at_pc S i (Reserved ev w)"
  shows "run_ok (goto i (Wrote ev w) (S\<lparr>run_ring := slot_put w (write_payload now ev (slot_of S w)) (run_ring S)\<rparr>))"
proof (rule run_ok_put [OF ok at_pc_length [OF at]])
  note D = window_okD [OF run_okD(1) [OF ok]] and P = run_okD(4) [OF ok at]
  show "ev_state (slot_of S w) = SLOT_EMPTY \<or> ev_state (slot_of S w) = SLOT_WRITING"
    "ev_state (write_payload now ev (slot_of S w)) \<noteq> SLOT_DRAINING"
    "producer_ok (S\<lparr>run_ring := slot_put w (write_payload now ev (slot_of S w)) (run_ring S)\<rparr>) (Wrote ev w)"
    using P D(1) by (simp_all add: producer_ok_def slot_at_put write_payload_def ev_body_def)
qed (use others_apart [OF ok at] in auto)

lemma ready_step_ok:
  assumes ok: "run_ok S" and at: "at_pc S i (Wrote ev w)"
  shows "run_ok (goto i (Readied ev w) (S\<lparr>run_ring := slot_set_state w SLOT_READY (run_ring S)\<rparr>))"
  unfolding slot_set_state_def
proof (rule run_ok_put [OF ok at_pc_length [OF at]])
  note D = window_okD [OF run_okD(1) [OF ok]] and P = run_okD(4) [OF ok at]
  show "ev_state (slot_of S w) = SLOT_EMPTY \<or> ev_state (slot_of S w) = SLOT_WRITING" using P by (simp add: producer_ok_def)
  have "w < head_r S + cap_of S" if w: "w = head_w S"
  proof (rule ccontr)
    assume "\<not> w < head_r S + cap_of S"
    then have "w = head_r S + cap_of S" using w D(4) by simp
    then have "slot_of S w = slot_of S (head_r S)" "head_r S < head_w S" using w D(1) by (auto intro: slot_at_mod)
    then show False using D(7) [of "head_r S"] P by (auto simp: producer_ok_def split: if_splits)
  qed
  then show "producer_ok (S\<lparr>run_ring := slot_put w ((slot_of S w)\<lparr>ev_state := SLOT_READY\<rparr>) (run_ring S)\<rparr>) (Readied ev w)"
    using P D(1) by (auto simp: producer_ok_def slot_at_put)
qed (use others_apart [OF ok at] in auto)

lemma advance_step_ok:
  assumes ok: "run_ok S" and at: "at_pc S i (Readied ev w)" and w: "head_w S = w"
  shows "run_ok (goto i (Returned PG_REDIS_RING_OK ev)
      (S\<lparr>run_ring := (run_ring S)\<lparr>ring_write_head := w + 1\<rparr>, run_log := run_log S @ [ev_body ev]\<rparr>))" (is "run_ok (goto i ?p ?S)")
proof -
  note D = window_okD [OF run_okD(1) [OF ok]]
  have r: "ev_state (slot_of S w) = SLOT_READY" "ev_body (slot_of S w) = ev_body ev" "w < head_r S + cap_of S"
    using run_okD(4) [OF ok at] w by (simp_all add: producer_ok_def)
  have "window_ok ?S"
  proof (rule window_okI)
    fix pos
    assume "head_r ?S \<le> pos" "pos < head_w ?S"
    then have pos: "head_r S \<le> pos" "pos < w \<or> pos = w" by auto
    then show "ev_state (slot_of ?S pos) = (if pos < head_r ?S + draining ?S then SLOT_DRAINING else SLOT_READY)"
      "ev_body (slot_of ?S pos) = run_log ?S ! pos"
      using D(3,6) D(7,8) [of pos] r w by (auto simp: nth_append)
  qed (use D r w in auto)
  moreover have "producer_ok ?S q" if "q \<in> set (run_pcs S)" for q
    using run_okD(2) [OF ok that] w by (cases q) (auto simp: producer_ok_def)
  moreover have "apart ?S" using run_okD(3) [OF ok] by (simp add: apart_def)
  ultimately have "run_ok ?S" by (simp add: run_ok_def)
  then show ?thesis by (rule run_ok_goto) (simp_all add: producer_ok_def)
qed

lemma ring_step_ok: "ring_step S S' \<Longrightarrow> run_ok S \<Longrightarrow> run_ok S'"
proof (induction rule: ring_step.induct)
  case (read_write_head S i ev)
  then show ?case by (intro run_ok_goto) (simp_all add: producer_ok_def)
next
  case (room S i ev w)
  then show ?case using run_okD(4) [OF room(3) room(1)] by (intro run_ok_goto) (simp_all add: producer_ok_def)
next
  case (advance S i ev w)
  from advance_step_ok [OF advance(3,1,2)] show ?case .
next
  case (collect mx S evs base R)
  from collect_step_ok(1) [OF collect(2,1)] show ?case .
next
  case (release S base n R a)
  from release_batch_step_ok(1) [OF release(3,1,2)] show ?case .
qed (auto intro!: run_ok_goto reserve_step_ok copy_step_ok ready_step_ok abort_step_ok(1)
    reclaim_step_ok drop_step_ok(1) simp: producer_ok_def)

lemma ring_step_capacity: "ring_step S S' \<Longrightarrow> run_ok S \<Longrightarrow> cap_of S' = cap_of S"
proof (induction rule: ring_step.induct)
  case (collect mx S evs base R)
  then show ?case using collect_step_ok(3) [OF collect(2,1)] by (simp add: drain_frame_def)
next
  case (release S base n R a)
  then show ?case using release_batch_step_ok(2) [OF release(3,1,2)] by (simp add: drain_frame_def)
next
  case (abort S base n)
  then show ?case using abort_step_ok(2) [OF abort(2,1)] by (simp add: drain_frame_def)
next
  case (drop_all S k R a)
  then show ?case using drop_step_ok(2) [OF drop_all(3,1,2)] by (simp add: drain_frame_def)
next
  case (reclaim S now timeout k R)
  then show ?case by (auto simp: pg_redis_dirty_ring_reclaim_stuck_def Let_def split: if_splits)
qed simp_all

lemma reachable_ok: "reachable n k S \<Longrightarrow> 0 < n \<Longrightarrow> int n < 2 ^ 31 \<Longrightarrow> run_ok S"
  by (induction rule: reachable.induct) (auto intro: run_ok_init ring_step_ok)

section \<open>A position that blocks the ring\<close>

text \<open>
  A producer reads the write head, sleeps, and reserves its slot after others have filled and drained it:
  the slot is then ready, ahead of the write head, and nobody will advance over it. The compare-and-swap
  of the write head fails silently.
\<close>

definition blocked :: "nat \<Rightarrow> run \<Rightarrow> bool" where
  "blocked p S \<longleftrightarrow> head_w S \<le> p \<and> p < head_r S + cap_of S \<and> ev_state (slot_of S p) = SLOT_READY \<and>
     (\<forall>q \<in> set (run_pcs S). case q of Readied ev u \<Rightarrow> u \<noteq> p | _ \<Rightarrow> True)"

lemma blocked_goto:
  assumes "blocked p S" "\<And>ev u. q = Readied ev u \<Longrightarrow> u \<noteq> p"
  shows "blocked p (goto i q S)"
  using assms set_update_subset_insert [of "run_pcs S" i q] unfolding blocked_def
  by (auto split: pc.splits) blast+

lemma blocked_drain:
  assumes ok: "run_ok S" and b: "blocked p S" and fr: "drain_frame S S'"
  shows "blocked p S'"
proof -
  note D = window_okD [OF run_okD(1) [OF ok]]
  have "slot_of S' p = slot_of S p"
  proof -
    have "q mod cap_of S \<noteq> p mod cap_of S" if "head_r S \<le> q" "q < head_w S" for q
      using window_neq [of "head_r S" q "cap_of S" p] that b by (auto simp: blocked_def)
    then show ?thesis using fr by (simp add: drain_frame_def)
  qed
  then show ?thesis using b fr by (auto simp: blocked_def drain_frame_def)
qed

lemma blocked_put:
  assumes ok: "run_ok S" and b: "blocked p S" and u: "ev_state (slot_of S u) \<noteq> SLOT_READY"
  shows "blocked p (S\<lparr>run_ring := slot_put u s (run_ring S)\<rparr>)"
proof -
  have "u mod cap_of S \<noteq> p mod cap_of S" using b u slot_at_mod [of u "run_ring S" p] by (auto simp: blocked_def)
  then show ?thesis using b window_okD(1) [OF run_okD(1) [OF ok]] by (simp add: blocked_def slot_at_put)
qed

lemma blocked_step: "ring_step S S' \<Longrightarrow> run_ok S \<Longrightarrow> blocked p S \<Longrightarrow> blocked p S'"
proof (induction rule: ring_step.induct)
  case (reserve S i ev w)
  then show ?case unfolding slot_set_state_def by (intro blocked_goto blocked_put) auto
next
  case (copy S i ev w now)
  then have "ev_state (slot_of S w) = SLOT_WRITING" using run_okD(4) [OF copy(2,1)] by (simp add: producer_ok_def)
  then show ?case using copy by (intro blocked_goto blocked_put) auto
next
  case (ready S i ev w)
  then have "w \<noteq> p" by (auto simp: blocked_def)
  then show ?case using ready unfolding slot_set_state_def by (intro blocked_goto blocked_put) auto
next
  case (advance S i ev w)
  then have "w \<noteq> p" using at_pc_in [OF advance(1)] by (auto simp: blocked_def split: pc.splits)
  then have "blocked p (S\<lparr>run_ring := (run_ring S)\<lparr>ring_write_head := w + 1\<rparr>, run_log := run_log S @ [ev_body ev]\<rparr>)"
    using advance by (simp add: blocked_def)
  then show ?case by (rule blocked_goto) simp
next
  case (collect mx S evs base R)
  from blocked_drain [OF collect(2,3) collect_step_ok(3) [OF collect(2,1)]] show ?case .
next
  case (release S base n R a)
  from blocked_drain [OF release(3,4) release_batch_step_ok(2) [OF release(3,1,2)]] show ?case .
next
  case (abort S base n)
  from blocked_drain [OF abort(2,3) abort_step_ok(2) [OF abort(2,1)]] show ?case .
next
  case (reclaim S now timeout k R)
  show ?case
  proof (cases "R = run_ring S")
    case False
    then have "ev_state (slot_of S (head_w S)) = SLOT_WRITING"
      "R = slot_put (head_w S) ((slot_of S (head_w S))\<lparr>ev_state := SLOT_EMPTY\<rparr>) (run_ring S)"
      using reclaim(2) by (auto simp: pg_redis_dirty_ring_reclaim_stuck_def Let_def slot_set_state_def split: if_splits)
    then show ?thesis using blocked_put [OF reclaim(3,4)] by simp
  qed (use reclaim in simp)
next
  case (drop_all S k R a)
  from blocked_drain [OF drop_all(3,4) drop_step_ok(2) [OF drop_all(3,1,2)]] show ?case .
qed (auto intro!: blocked_goto)

lemma blocked_forever: "ring_step\<^sup>*\<^sup>* S S' \<Longrightarrow> run_ok S \<Longrightarrow> blocked p S \<Longrightarrow> run_ok S' \<and> blocked p S'"
  by (induction rule: rtranclp_induct) (auto intro: ring_step_ok blocked_step)

text \<open>The run in which the second of two producers overtakes the first.\<close>

definition stale_start :: "nat \<Rightarrow> PgRedisDirtyEvent \<Rightarrow> PgRedisDirtyEvent \<Rightarrow> run" where
  "stale_start n e0 e1 = (run_init n 2)\<lparr>run_pcs := [SawRoom e0 0, SawRoom e1 0]\<rparr>"

lemma room_0: "0 < n \<Longrightarrow> u64_sub 0 0 < int n"
  by (simp add: u64_sub_def)

lemma stale_start_reachable:
  assumes n: "0 < n"
  shows "reachable n 2 (stale_start n e0 e1)"
proof -
  let ?r = "reachable n 2" and ?I = "\<lambda>ps. (run_init n 2)\<lparr>run_pcs := ps\<rparr>"
  have cap: "cap_of (?I ps) = n" "head_w (?I ps) = 0" "head_r (?I ps) = 0" for ps
    by (simp_all add: run_init_def pg_redis_dirty_ring_shmem_init_def ring_capacity_def)
  have "run_init n 2 = ?I [Idle, Idle]" by (simp add: run_init_def numeral_2_eq_2)
  then have "?r (?I [Idle, Idle])" using reachable.start [of n 2] by simp
  then have "?r (goto 0 (Called e0) (?I [Idle, Idle]))" by (rule reachable.step) (rule ring_step.call, simp add: at_pc_def)
  then have "?r (?I [Called e0, Idle])" by (simp add: goto_def)
  then have "?r (goto 0 (SawW e0 0) (?I [Called e0, Idle]))"
    by (rule reachable.step) (use ring_step.read_write_head [of "?I [Called e0, Idle]" 0 e0] cap in \<open>simp add: at_pc_def\<close>)
  then have "?r (?I [SawW e0 0, Idle])" by (simp add: goto_def)
  then have "?r (goto 0 (SawRoom e0 0) (?I [SawW e0 0, Idle]))"
    by (rule reachable.step) (rule ring_step.room, use room_0 [OF n] cap in \<open>simp_all add: at_pc_def\<close>)
  then have "?r (?I [SawRoom e0 0, Idle])" by (simp add: goto_def)
  then have "?r (goto 1 (Called e1) (?I [SawRoom e0 0, Idle]))" by (rule reachable.step) (rule ring_step.call, simp add: at_pc_def)
  then have "?r (?I [SawRoom e0 0, Called e1])" by (simp add: goto_def)
  then have "?r (goto 1 (SawW e1 0) (?I [SawRoom e0 0, Called e1]))"
    by (rule reachable.step) (use ring_step.read_write_head [of "?I [SawRoom e0 0, Called e1]" 1 e1] cap in \<open>simp add: at_pc_def\<close>)
  then have "?r (?I [SawRoom e0 0, SawW e1 0])" by (simp add: goto_def)
  then have "?r (goto 1 (SawRoom e1 0) (?I [SawRoom e0 0, SawW e1 0]))"
    by (rule reachable.step) (rule ring_step.room, use room_0 [OF n] cap in \<open>simp_all add: at_pc_def\<close>)
  then show ?thesis by (simp add: goto_def stale_start_def)
qed

text \<open>A producer that has room and finds an empty slot publishes it, up to the write head.\<close>

lemma fill_slot:
  assumes r: "reachable n k S" and i: "i < length (run_pcs S)" "run_pcs S ! i = SawRoom ev w"
    and e: "ev_state (slot_of S w) = SLOT_EMPTY" and cap: "0 < cap_of S"
  obtains S' where "reachable n k S'" "run_pcs S' = (run_pcs S)[i := Readied ev w]" "head_w S' = head_w S" "head_r S' = head_r S"
    "cap_of S' = cap_of S" "run_log S' = run_log S" "run_batch S' = run_batch S" "ev_state (slot_of S' w) = SLOT_READY"
proof -
  define S1 where "S1 = goto i (Reserved ev w) (S\<lparr>run_ring := slot_set_state w SLOT_WRITING (run_ring S)\<rparr>)"
  define S2 where "S2 = goto i (Wrote ev w) (S1\<lparr>run_ring := slot_put w (write_payload 0 ev (slot_of S1 w)) (run_ring S1)\<rparr>)"
  define S3 where "S3 = goto i (Readied ev w) (S2\<lparr>run_ring := slot_set_state w SLOT_READY (run_ring S2)\<rparr>)"
  have r1: "reachable n k S1"
    unfolding S1_def using i e by (intro reachable.step [OF r] ring_step.reserve) (simp_all add: at_pc_def)
  have at1: "at_pc S1 i (Reserved ev w)" using i by (simp add: at_pc_def S1_def)
  have r2: "reachable n k S2" unfolding S2_def by (rule reachable.step [OF r1]) (rule ring_step.copy [OF at1])
  have s1: "ev_state (slot_of S1 w) = SLOT_WRITING" "cap_of S1 = cap_of S" using cap by (simp_all add: S1_def slot_at_set_state)
  have s2: "ev_state (slot_of S2 w) = SLOT_WRITING" "cap_of S2 = cap_of S"
    using cap s1 by (simp_all add: S2_def slot_at_put write_payload_def)
  have at2: "at_pc S2 i (Wrote ev w)" using i by (simp add: at_pc_def S2_def S1_def)
  have r3: "reachable n k S3" unfolding S3_def by (rule reachable.step [OF r2]) (rule ring_step.ready [OF at2 s2(1)])
  show thesis
    by (rule that [OF r3]) (use cap s2 in \<open>simp_all add: S3_def S2_def S1_def slot_at_set_state\<close>)
qed

lemma stale_reaches_blocked:
  assumes n: "0 < n" "int n < 2 ^ 31"
  shows "\<exists>S. reachable n 2 S \<and> run_log S = [ev_body e1] \<and> blocked n S \<and>
    run_pcs S = [Returned PG_REDIS_RING_OK e0, Returned PG_REDIS_RING_OK e1] \<and> head_r S = 1 \<and> head_w S = 1"
proof -
  let ?S = "stale_start n e0 e1"
  have init: "cap_of ?S = n" "head_w ?S = 0" "head_r ?S = 0" "run_log ?S = []" "run_batch ?S = None"
    "run_pcs ?S = [SawRoom e0 0, SawRoom e1 0]" "ev_state (slot_of ?S 0) = SLOT_EMPTY"
    using n by (simp_all add: stale_start_def run_init_def pg_redis_dirty_ring_shmem_init_def ring_capacity_def slot_at_def blank_slot_def)
  obtain A where A: "reachable n 2 A" "run_pcs A = [SawRoom e0 0, Readied e1 0]" "head_w A = 0" "head_r A = 0" "cap_of A = n"
    "run_log A = []" "run_batch A = None" "ev_state (slot_of A 0) = SLOT_READY"
    using fill_slot [OF stale_start_reachable [OF n(1), of e0 e1], of 1 e1 0] init n(1) by auto
  define B where "B = goto 1 (Returned PG_REDIS_RING_OK e1)
      (A\<lparr>run_ring := (run_ring A)\<lparr>ring_write_head := 0 + 1\<rparr>, run_log := run_log A @ [ev_body e1]\<rparr>)"
  have rB: "reachable n 2 B" unfolding B_def
    using A by (intro reachable.step [OF A(1)] ring_step.advance) (simp_all add: at_pc_def)
  have B: "run_pcs B = [SawRoom e0 0, Returned PG_REDIS_RING_OK e1]" "head_w B = 1" "head_r B = 0" "cap_of B = n" "run_log B = [ev_body e1]"
    "run_batch B = None" "ev_state (slot_of B 0) = SLOT_READY" using A by (simp_all add: B_def)
  have okB: "run_ok B" by (rule reachable_ok [OF rB n])
  obtain evs base R where c: "pg_redis_dirty_ring_collect 1 (run_ring B) = (evs, base, R)" by (metis prod_cases3)
  define C where "C = B\<lparr>run_ring := R, run_batch := (if evs = [] then run_batch B else Some (base, length evs))\<rparr>"
  have rC: "reachable n 2 C" unfolding C_def by (rule reachable.step [OF rB]) (rule ring_step.collect [OF c])
  have fC: "drain_frame B C" unfolding C_def by (rule collect_step_ok(3) [OF okB c])
  have "map ev_body evs = [ev_body e1]" using collect_step_ok(2) [OF okB c B(6)] B by simp
  then have le: "length evs = 1" by (metis length_map length_Cons list.size(3) One_nat_def)
  have bC: "run_batch C = Some (0, 1)"
    using le window_okD(5) [OF run_okD(1) [OF reachable_ok [OF rC n]], of base "length evs"] c B(3)
    by (auto simp: C_def pg_redis_dirty_ring_collect_def split: prod.splits if_splits)
  obtain R2 a2 where rl: "pg_redis_dirty_ring_release_batch 0 1 (run_ring C, run_area C) = (R2, a2)" by force
  define E where "E = C\<lparr>run_ring := R2, run_area := a2, run_batch := None\<rparr>"
  have okC: "run_ok C" by (rule reachable_ok [OF rC n])
  have rE: "reachable n 2 E" unfolding E_def by (rule reachable.step [OF rC]) (rule ring_step.release [OF bC rl])
  have fE: "drain_frame C E" unfolding E_def by (rule release_batch_step_ok(2) [OF okC bC rl])
  have E: "run_pcs E = [SawRoom e0 0, Returned PG_REDIS_RING_OK e1]" "head_w E = 1" "cap_of E = n" "run_log E = [ev_body e1]" "run_batch E = None"
    using fC fE B by (simp_all add: drain_frame_def) (simp_all add: E_def C_def B)
  have ne: "ring_slots (run_ring C) \<noteq> []" using window_okD(1) [OF run_okD(1) [OF okC]] by (auto simp: ring_capacity_def)
  have hE: "head_r E = 1" "ev_state (slot_of E 0) = SLOT_EMPTY"
    using rl ne window_okD(1) [OF run_okD(1) [OF okC]]
    by (auto simp: E_def pg_redis_dirty_ring_release_batch_def slot_release_def slot_at_put split: prod.splits)
  obtain F where F: "reachable n 2 F" "run_pcs F = [Readied e0 0, Returned PG_REDIS_RING_OK e1]" "head_w F = 1" "head_r F = 1" "cap_of F = n"
    "run_log F = [ev_body e1]" "ev_state (slot_of F 0) = SLOT_READY"
    using fill_slot [OF rE, of 0 e0 0] E hE n(1) by auto
  define G where "G = goto 0 (Returned PG_REDIS_RING_OK e0) F"
  have "reachable n 2 G" unfolding G_def
    by (rule reachable.step [OF F(1)], rule ring_step.advance_stale [of F 0 e0 0]) (use F in \<open>simp_all add: at_pc_def\<close>)
  moreover have "slot_of G n = slot_of G 0" using F by (intro slot_at_mod) (simp add: G_def)
  ultimately show ?thesis using F n(1) by (intro exI [of _ G]) (auto simp: G_def blocked_def)
qed

section \<open>Properties\<close>



text \<open>
  C36: The reservation is not safe against a stale write head. In a ring of any capacity, one producer can
  read the write head, another publish and be drained, and the first then reserve, fill and publish the
  freed slot: its publish answers \<open>PG_REDIS_RING_OK\<close>, its event is not in the log, and from then on no
  sequence of steps, drains and reclamation included, ever accepts more events than the ring has slots.
\<close>

theorem ring_can_stall:
  assumes "0 < n" "int n < 2 ^ 31"
  shows "\<exists>S. reachable n 2 S \<and> run_pcs S = [Returned PG_REDIS_RING_OK e0, Returned PG_REDIS_RING_OK e1] \<and>
    run_log S = [ev_body e1] \<and> (\<forall>S'. ring_step\<^sup>*\<^sup>* S S' \<longrightarrow> length (run_log S') \<le> n)"
proof -
  obtain S where S: "reachable n 2 S" "run_log S = [ev_body e1]" "blocked n S"
    "run_pcs S = [Returned PG_REDIS_RING_OK e0, Returned PG_REDIS_RING_OK e1]"
    using stale_reaches_blocked [OF assms, of e1 e0] by blast
  have "length (run_log S') \<le> n" if "ring_step\<^sup>*\<^sup>* S S'" for S'
    using blocked_forever [OF that reachable_ok [OF S(1) assms] S(3)] window_okD(6) [OF run_okD(1), of S']
    by (simp add: blocked_def)
  then show ?thesis using S by blast
qed

theorem ring_can_stall_witness:
  "\<exists>S. reachable 1024 2 S \<and> run_log S = [ev_body blank_slot] \<and> (\<forall>S'. ring_step\<^sup>*\<^sup>* S S' \<longrightarrow> length (run_log S') \<le> 1024)"
  using ring_can_stall [of 1024 blank_slot blank_slot] by auto

end
