(* ===== verification/Ownership.thy ===== *)
theory Ownership
  imports Dsa
begin

text \<open>
  Objects that live in the shared segment. The locale \<open>owner\<close> says what a structure of chunks promises
  to those around it: it is well formed and means the same wherever its own chunks are the same, and its
  chunks are in use. From this a family of such objects, the values of a keyspace for instance, keeps its
  invariant when one member changes inside its frame, which is shown here once for all kinds of objects.
\<close>

locale owner =
  fixes ok :: "dsa_area \<Rightarrow> 'x \<Rightarrow> bool"
    and own :: "dsa_area \<Rightarrow> 'x \<Rightarrow> dsa_pointer set"
    and view :: "dsa_area \<Rightarrow> 'x \<Rightarrow> 'v"
  assumes ok_local: "ok a x \<Longrightarrow> (\<And>q. q \<in> own a x \<Longrightarrow> hash_find b q = hash_find a q) \<Longrightarrow> ok b x"
    and own_local: "ok a x \<Longrightarrow> (\<And>q. q \<in> own a x \<Longrightarrow> hash_find b q = hash_find a q) \<Longrightarrow> own b x = own a x"
    and view_local: "ok a x \<Longrightarrow> (\<And>q. q \<in> own a x \<Longrightarrow> hash_find b q = hash_find a q) \<Longrightarrow> view b x = view a x"
    and own_used: "ok a x \<Longrightarrow> q \<in> own a x \<Longrightarrow> hash_find a q \<noteq> None"
begin

text \<open>An object outside the frame of a change is untouched by it.\<close>

lemma kept:
  assumes "ok a x" "dsa_frame a F b G" "own a x \<inter> F = {}"
  shows "ok b x" "own b x = own a x" "view b x = view a x" "own a x \<inter> G = {}"
proof -
  have s: "hash_find b q = hash_find a q \<and> q \<notin> G" if q: "q \<in> own a x" for q
  proof -
    have "q \<notin> F" using assms(3) q by blast
    moreover obtain c where "hash_find a q = Some c" using own_used [OF assms(1) q] by blast
    ultimately show ?thesis using dsa_frame_others [OF assms(2)] by simp
  qed
  then have "\<And>q. q \<in> own a x \<Longrightarrow> hash_find b q = hash_find a q" by blast
  from ok_local [OF assms(1) this] own_local [OF assms(1) this] view_local [OF assms(1) this]
  show "ok b x" "own b x = own a x" "view b x = view a x" by blast+
  show "own a x \<inter> G = {}" using s by blast
qed

definition owno :: "dsa_area \<Rightarrow> 'x option \<Rightarrow> dsa_pointer set" where
  "owno a m = (case m of None \<Rightarrow> {} | Some x \<Rightarrow> own a x)"

text \<open>A family of objects, each with chunks of its own.\<close>

definition family :: "dsa_area \<Rightarrow> ('k \<Rightarrow> 'x option) \<Rightarrow> bool" where
  "family a m \<longleftrightarrow>
     (\<forall>k x. m k = Some x \<longrightarrow> ok a x) \<and>
     (\<forall>k k' x x'. k \<noteq> k' \<longrightarrow> m k = Some x \<longrightarrow> m k' = Some x' \<longrightarrow> own a x \<inter> own a x' = {})"

definition whole :: "dsa_area \<Rightarrow> ('k \<Rightarrow> 'x option) \<Rightarrow> dsa_pointer set" where
  "whole a m = (\<Union>k. owno a (m k))"

lemma owno_simps [simp]: "owno a None = {}" "owno a (Some x) = own a x"
  by (simp_all add: owno_def)

lemma familyD:
  assumes "family a m"
  shows "m k = Some x \<Longrightarrow> ok a x"
    and "k \<noteq> k' \<Longrightarrow> m k = Some x \<Longrightarrow> own a x \<inter> owno a (m k') = {}"
proof -
  show "m k = Some x \<Longrightarrow> ok a x" using assms unfolding family_def by blast
  show "own a x \<inter> owno a (m k') = {}" if "k \<noteq> k'" "m k = Some x"
  proof (cases "m k'")
    case (Some x')
    have "own a x \<inter> own a x' = {}" using assms that Some unfolding family_def by blast
    then show ?thesis by (simp add: Some)
  qed simp
qed

lemma family_empty [simp]: "family a (\<lambda>k. None)" "whole a (\<lambda>k. None) = {}"
  by (simp_all add: family_def whole_def)

text \<open>One member changes within its frame, or appears, or goes; the others are as before.\<close>

lemma family_update:
  fixes m :: "'k \<Rightarrow> 'x option"
  assumes fam: "family a m" and fr: "dsa_frame a (owno a (m k)) b (owno b x)" and ok: "\<And>y. x = Some y \<Longrightarrow> ok b y"
  shows "family b (m(k := x))"
    and "\<And>k' y. k' \<noteq> k \<Longrightarrow> m k' = Some y \<Longrightarrow> view b y = view a y \<and> own b y = own a y"
    and "dsa_frame a (whole a m) b (whole b (m(k := x)))"
proof -
  have o: "ok b y" "own b y = own a y" "view b y = view a y" "own a y \<inter> owno b x = {}"
    if "k' \<noteq> k" "m k' = Some y" for k' y
  proof -
    have "own a y \<inter> owno a (m k) = {}" by (rule familyD(2) [OF fam that])
    from kept [OF familyD(1) [OF fam that(2)] fr this]
    show "ok b y" "own b y = own a y" "view b y = view a y" "own a y \<inter> owno b x = {}" .
  qed
  show "view b y = view a y \<and> own b y = own a y" if "k' \<noteq> k" "m k' = Some y" for k' y using o [OF that] by blast
  have old: "own b y \<inter> own b y' = {}" if "k1 \<noteq> k2" "k1 \<noteq> k" "k2 \<noteq> k" "m k1 = Some y" "m k2 = Some y'" for k1 k2 y y'
    using familyD(2) [OF fam that(1,4)] that(5) o(2) [OF that(2,4)] o(2) [OF that(3,5)] by simp
  have new: "own b y \<inter> own b z = {}" if "k1 \<noteq> k" "m k1 = Some y" "x = Some z" for k1 y z
    using o(2,4) [OF that(1,2)] that(3) by simp
  show "family b (m(k := x))"
    unfolding family_def
  proof (intro conjI allI impI)
    fix k1 y assume "(m(k := x)) k1 = Some y"
    then show "ok b y" using ok o(1) by (cases "k1 = k") auto
  next
    fix k1 k2 y y' assume a: "k1 \<noteq> k2" "(m(k := x)) k1 = Some y" "(m(k := x)) k2 = Some y'"
    show "own b y \<inter> own b y' = {}"
    proof (cases "k1 = k")
      case True
      then show ?thesis using a new [of k2 y' y] by auto
    next
      case n1: False
      show ?thesis
      proof (cases "k2 = k")
        case True
        then show ?thesis using a n1 new [of k1 y y'] by auto
      next
        case False
        then show ?thesis using a n1 old [of k1 k2 y y'] by auto
      qed
    qed
  qed
  have same: "owno b ((m(k := x)) k') = owno a (m k')" if "k' \<noteq> k" for k'
    using that o(2) [OF that] by (cases "m k'") simp_all
  have split: "(\<Union>k'. f k') = f k \<union> (\<Union>k' \<in> - {k}. f k')" for f :: "'k \<Rightarrow> dsa_pointer set" by blast
  have w: "whole a m = owno a (m k) \<union> (\<Union>k' \<in> - {k}. owno a (m k'))"
    "whole b (m(k := x)) = owno b x \<union> (\<Union>k' \<in> - {k}. owno a (m k'))"
    unfolding whole_def split [of "\<lambda>k'. owno a (m k')"] split [of "\<lambda>k'. owno b ((m(k := x)) k')"] using same by simp_all
  have rest: "q \<notin> owno a (m k)" "q \<notin> owno b x" if k: "k' \<noteq> k" and q: "q \<in> owno a (m k')" for k' q
  proof -
    obtain y where y: "m k' = Some y" "q \<in> own a y" using q by (cases "m k'") auto
    show "q \<notin> owno a (m k)" using familyD(2) [OF fam k y(1)] y(2) by blast
    show "q \<notin> owno b x" using o(4) [OF k y(1)] y(2) by blast
  qed
  show "dsa_frame a (whole a m) b (whole b (m(k := x)))"
    unfolding w dsa_frame_def using dsa_frameD [OF fr] by auto
qed

text \<open>A change elsewhere leaves the whole family alone.\<close>

lemma family_kept:
  assumes "family a m" "dsa_frame a F b G" "whole a m \<inter> F = {}"
  shows "family b m" "whole b m = whole a m" "whole a m \<inter> G = {}" "\<And>k x. m k = Some x \<Longrightarrow> view b x = view a x"
proof -
  have o: "ok b x" "own b x = own a x" "view b x = view a x" "own a x \<inter> G = {}" if "m k = Some x" for k x
  proof -
    have "own a x \<subseteq> whole a m" unfolding whole_def using that by (metis UNIV_I UN_upper owno_simps(2))
    then have "own a x \<inter> F = {}" using assms(3) by blast
    from kept [OF familyD(1) [OF assms(1) that] assms(2) this]
    show "ok b x" "own b x = own a x" "view b x = view a x" "own a x \<inter> G = {}" .
  qed
  have e: "owno b (m k) = owno a (m k)" "owno a (m k) \<inter> G = {}" for k using o [of k] by (cases "m k"; simp)+
  show "view b x = view a x" if "m k = Some x" for k x using o(3) [OF that] .
  show "whole b m = whole a m" "whole a m \<inter> G = {}" unfolding whole_def using e by auto
  show "family b m"
    unfolding family_def
  proof (intro conjI allI impI)
    show "ok b x" if "m k = Some x" for k x using o(1) [OF that] .
    show "own b x \<inter> own b x' = {}" if "k \<noteq> k'" "m k = Some x" "m k' = Some x'" for k k' x x'
      using familyD(2) [OF assms(1) that(1,2)] that(3) o(2) [OF that(2)] o(2) [OF that(3)] by simp
  qed
qed

end

end
