(* ===== verification/Probing.thy ===== *)
theory Probing
  imports Main
begin

text \<open>
  Linear probing with tombstones, without memory: the abstract slots of a table, the probe loop, and
  the invariant that keeps every stored key on the probe path from its home slot. The shared hash
  table of \<open>src/shared_hash.c\<close> refines this.
\<close>

section \<open>Slots\<close>

datatype ('k, 'v) slot = SEmpty | STomb | SOcc 'k 'v

fun slot_entries :: "('k, 'v) slot list \<Rightarrow> ('k \<times> 'v) list" where
  "slot_entries [] = []"
| "slot_entries (SOcc k v # ss) = (k, v) # slot_entries ss"
| "slot_entries (s # ss) = slot_entries ss"

definition slot_map :: "('k, 'v) slot list \<Rightarrow> 'k \<Rightarrow> 'v option" where
  "slot_map ss = map_of (slot_entries ss)"

fun is_occ :: "('k, 'v) slot \<Rightarrow> bool" where
  "is_occ (SOcc k v) = True"
| "is_occ _ = False"

fun holds :: "'k \<Rightarrow> ('k, 'v) slot \<Rightarrow> bool" where
  "holds f (SOcc k v) = (k = f)"
| "holds f _ = False"

definition n_occ :: "('k, 'v) slot list \<Rightarrow> nat" where
  "n_occ ss = length (filter is_occ ss)"

definition n_tomb :: "('k, 'v) slot list \<Rightarrow> nat" where
  "n_tomb ss = length (filter (\<lambda>s. s = STomb) ss)"

lemma is_occ_iff: "is_occ s \<longleftrightarrow> (\<exists>k v. s = SOcc k v)"
  by (cases s) auto

lemma holds_iff: "holds f s \<longleftrightarrow> (\<exists>v. s = SOcc f v)"
  by (cases s) auto

lemma set_slot_entries: "(k, v) \<in> set (slot_entries ss) \<longleftrightarrow> SOcc k v \<in> set ss"
  by (induction ss rule: slot_entries.induct) auto

lemma length_filter_update:
  "i < length xs \<Longrightarrow> length (filter P (xs[i := x])) + of_bool (P (xs ! i)) = length (filter P xs) + of_bool (P x)"
proof (induction xs arbitrary: i)
  case (Cons y ys)
  then show ?case by (cases i) (auto simp: of_bool_def dest: Cons.IH split: if_splits)
qed simp

lemma n_occ_update:
  "i < length ss \<Longrightarrow> n_occ (ss[i := s]) + of_bool (is_occ (ss ! i)) = n_occ ss + of_bool (is_occ s)"
  unfolding n_occ_def by (rule length_filter_update)

lemma n_tomb_update:
  "i < length ss \<Longrightarrow> n_tomb (ss[i := s]) + of_bool (ss ! i = STomb) = n_tomb ss + of_bool (s = STomb)"
  unfolding n_tomb_def by (rule length_filter_update)

lemma slots_length: "length ss = n_occ ss + n_tomb ss + length (filter (\<lambda>s. s = SEmpty) ss)"
  unfolding n_occ_def n_tomb_def by (induction ss rule: slot_entries.induct) auto

lemma empty_slot_exists:
  assumes "n_occ ss + n_tomb ss < length ss"
  shows "\<exists>i < length ss. ss ! i = SEmpty"
proof -
  have "filter (\<lambda>s. s = SEmpty) ss \<noteq> []" using slots_length [of ss] assms by auto
  then show ?thesis by (auto simp: filter_empty_conv in_set_conv_nth)
qed

section \<open>The invariant\<close>

definition unique_keys :: "('k, 'v) slot list \<Rightarrow> bool" where
  "unique_keys ss \<longleftrightarrow>
     (\<forall>i j k v w. i < length ss \<longrightarrow> j < length ss \<longrightarrow> ss ! i = SOcc k v \<longrightarrow> ss ! j = SOcc k w \<longrightarrow> i = j)"

text \<open>Position \<open>i\<close> is reached from the home slot \<open>s\<close> without passing an empty slot.\<close>

definition reaches :: "('k, 'v) slot list \<Rightarrow> nat \<Rightarrow> nat \<Rightarrow> bool" where
  "reaches ss s i \<longleftrightarrow>
     (\<exists>d < length ss. i = (s + d) mod length ss \<and> (\<forall>j < d. ss ! ((s + j) mod length ss) \<noteq> SEmpty))"

definition probing_ok :: "('k \<Rightarrow> nat) \<Rightarrow> ('k, 'v) slot list \<Rightarrow> bool" where
  "probing_ok h ss \<longleftrightarrow> unique_keys ss \<and>
     (\<forall>i k v. i < length ss \<longrightarrow> ss ! i = SOcc k v \<longrightarrow> reaches ss (h k) i)"

lemma unique_keysD:
  "unique_keys ss \<Longrightarrow> i < length ss \<Longrightarrow> j < length ss \<Longrightarrow> ss ! i = SOcc k v \<Longrightarrow> ss ! j = SOcc k w \<Longrightarrow> i = j"
  unfolding unique_keys_def by blast

lemma slot_map_Some_iff:
  assumes "unique_keys ss"
  shows "slot_map ss k = Some v \<longleftrightarrow> (\<exists>i < length ss. ss ! i = SOcc k v)"
proof
  assume "slot_map ss k = Some v"
  then have "SOcc k v \<in> set ss"
    using map_of_SomeD set_slot_entries unfolding slot_map_def by fastforce
  then show "\<exists>i < length ss. ss ! i = SOcc k v" by (auto simp: in_set_conv_nth)
next
  assume "\<exists>i < length ss. ss ! i = SOcc k v"
  then obtain i where i: "i < length ss" "ss ! i = SOcc k v" by blast
  then have "(k, v) \<in> set (slot_entries ss)" unfolding set_slot_entries by (metis nth_mem)
  then obtain w where w: "slot_map ss k = Some w"
    unfolding slot_map_def by (meson weak_map_of_SomeI)
  then have "SOcc k w \<in> set ss"
    using map_of_SomeD set_slot_entries unfolding slot_map_def by fastforce
  then obtain j where "j < length ss" "ss ! j = SOcc k w" by (auto simp: in_set_conv_nth)
  then show "slot_map ss k = Some v" using unique_keysD [OF assms i(1) _ i(2)] i(2) w by fastforce
qed

lemma slot_map_None_iff:
  assumes "unique_keys ss"
  shows "slot_map ss k = None \<longleftrightarrow> (\<forall>i < length ss. \<not> holds k (ss ! i))"
  using slot_map_Some_iff [OF assms, of k] by (auto simp: holds_iff) (meson not_Some_eq)

section \<open>Updates of one slot\<close>

lemma reaches_update:
  assumes "reaches ss s i" "x \<noteq> SEmpty"
  shows "reaches (ss[n := x]) s i"
proof -
  obtain d where d: "d < length ss" "i = (s + d) mod length ss"
    and ne: "\<forall>j < d. ss ! ((s + j) mod length ss) \<noteq> SEmpty"
    using assms(1) by (auto simp: reaches_def)
  have "\<forall>j < d. (ss[n := x]) ! ((s + j) mod length ss) \<noteq> SEmpty"
    using ne assms(2) d(1)
    by (metis gr_zeroI le_less_trans length_list_update mod_less_divisor nth_list_update_eq nth_list_update_neq
        not_less_zero zero_le)
  then show ?thesis using d by (auto simp: reaches_def)
qed

lemma unique_insert:
  assumes "unique_keys ss" "i < length ss" "\<And>j. j < length ss \<Longrightarrow> j \<noteq> i \<Longrightarrow> \<not> holds k (ss ! j)"
  shows "unique_keys (ss[i := SOcc k v])"
  unfolding unique_keys_def
proof (intro allI impI)
  fix a b k' v' w'
  assume ab: "a < length (ss[i := SOcc k v])" "b < length (ss[i := SOcc k v])"
    "(ss[i := SOcc k v]) ! a = SOcc k' v'" "(ss[i := SOcc k v]) ! b = SOcc k' w'"
  show "a = b"
  proof (cases "a = i \<or> b = i")
    case True
    then show ?thesis using ab assms(2,3) by (auto simp: nth_list_update holds_iff split: if_splits)
  next
    case False
    then show ?thesis using ab unique_keysD [OF assms(1)] by (simp add: nth_list_update)
  qed
qed

lemma probing_insert:
  assumes ok: "probing_ok h ss" and i: "i < length ss" "reaches ss (h k) i"
    and un: "\<And>j. j < length ss \<Longrightarrow> j \<noteq> i \<Longrightarrow> \<not> holds k (ss ! j)"
  shows "probing_ok h (ss[i := SOcc k v])"
  unfolding probing_ok_def
proof (intro conjI allI impI)
  show "unique_keys (ss[i := SOcc k v])"
    using unique_insert [OF _ i(1) un] ok by (simp add: probing_ok_def)
  fix j k' v'
  assume "j < length (ss[i := SOcc k v])" "(ss[i := SOcc k v]) ! j = SOcc k' v'"
  then have "reaches ss (h k') j"
    using ok i by (auto simp: probing_ok_def nth_list_update split: if_splits)
  then show "reaches (ss[i := SOcc k v]) (h k') j" by (rule reaches_update) simp
qed

lemma probing_delete:
  assumes ok: "probing_ok h ss" and i: "i < length ss"
  shows "probing_ok h (ss[i := STomb])"
  unfolding probing_ok_def
proof (intro conjI allI impI)
  show "unique_keys (ss[i := STomb])"
    using ok i unfolding probing_ok_def unique_keys_def
    by (auto simp: nth_list_update split: if_splits)
  fix j k v
  assume "j < length (ss[i := STomb])" "(ss[i := STomb]) ! j = SOcc k v"
  then have "reaches ss (h k) j"
    using ok i by (auto simp: probing_ok_def nth_list_update split: if_splits)
  then show "reaches (ss[i := STomb]) (h k) j" by (rule reaches_update) simp
qed

lemma slot_map_insert:
  assumes un: "unique_keys ss" and i: "i < length ss" and ni: "is_occ (ss ! i) \<Longrightarrow> holds k (ss ! i)"
    and other: "\<And>j. j < length ss \<Longrightarrow> j \<noteq> i \<Longrightarrow> \<not> holds k (ss ! j)"
  shows "slot_map (ss[i := SOcc k v]) = (slot_map ss)(k \<mapsto> v)"
proof
  fix f
  have un': "unique_keys (ss[i := SOcc k v])" using unique_insert [OF un i other] .
  have "slot_map (ss[i := SOcc k v]) f = Some w \<longleftrightarrow> ((slot_map ss)(k \<mapsto> v)) f = Some w" for w
  proof (cases "f = k")
    case True
    then show ?thesis
      using slot_map_Some_iff [OF un', of k w] i other
      by (auto simp: nth_list_update holds_iff split: if_splits)
  next
    case False
    have "ss ! i \<noteq> SOcc f w" using ni False by auto
    then show ?thesis
      using False i slot_map_Some_iff [OF un', of f w] slot_map_Some_iff [OF un, of f w]
      by (auto simp: nth_list_update split: if_splits)
  qed
  then show "slot_map (ss[i := SOcc k v]) f = ((slot_map ss)(k \<mapsto> v)) f"
    by (metis not_Some_eq)
qed

lemma slot_map_delete:
  assumes ok: "probing_ok h ss" and i: "i < length ss" "ss ! i = SOcc k v"
  shows "slot_map (ss[i := STomb]) = (slot_map ss)(k := None)"
proof
  fix f
  have un: "unique_keys ss" using ok by (simp add: probing_ok_def)
  have un': "unique_keys (ss[i := STomb])" using probing_delete [OF ok i(1)] by (simp add: probing_ok_def)
  have "slot_map (ss[i := STomb]) f = Some w \<longleftrightarrow> ((slot_map ss)(k := None)) f = Some w" for w
  proof (cases "f = k")
    case True
    then show ?thesis
      using slot_map_Some_iff [OF un', of k w] i(1) unique_keysD [OF un i(1) _ i(2)]
      by (auto simp: nth_list_update split: if_splits)
  next
    case False
    then have "(\<exists>j < length ss. (ss[i := STomb]) ! j = SOcc f w) \<longleftrightarrow> (\<exists>j < length ss. ss ! j = SOcc f w)"
      using i by (metis nth_list_update_eq nth_list_update_neq slot.distinct(5) slot.inject)
    then show ?thesis
      using False slot_map_Some_iff [OF un', of f w] slot_map_Some_iff [OF un, of f w] by simp
  qed
  then show "slot_map (ss[i := STomb]) f = ((slot_map ss)(k := None)) f"
    by (metis not_Some_eq)
qed

section \<open>The probe loop\<close>

fun probe :: "('k, 'v) slot list \<Rightarrow> 'k \<Rightarrow> nat \<Rightarrow> nat option \<Rightarrow> nat \<Rightarrow> (bool \<times> nat) option" where
  "probe ss f idx first_tomb 0 = map_option (Pair False) first_tomb"
| "probe ss f idx first_tomb (Suc n) =
     (case ss ! idx of
        SEmpty \<Rightarrow> Some (False, case first_tomb of Some t \<Rightarrow> t | None \<Rightarrow> idx)
      | STomb \<Rightarrow> probe ss f (Suc idx mod length ss) (case first_tomb of Some t \<Rightarrow> Some t | None \<Rightarrow> Some idx) n
      | SOcc k v \<Rightarrow>
          if k = f then Some (True, idx) else probe ss f (Suc idx mod length ss) first_tomb n)"

text \<open>What the loop may answer for the probe path \<open>at 0, at 1, \<dots>\<close> of \<open>f\<close>.\<close>

definition probe_answer :: "('k, 'v) slot list \<Rightarrow> 'k \<Rightarrow> nat \<Rightarrow> bool \<times> nat \<Rightarrow> bool" where
  "probe_answer ss f s r \<longleftrightarrow>
     (case r of
        (True, i) \<Rightarrow> i < length ss \<and> holds f (ss ! i)
      | (False, i) \<Rightarrow> i < length ss \<and> \<not> is_occ (ss ! i) \<and> reaches ss s i \<and>
          (\<exists>e. ss ! ((s + e) mod length ss) = SEmpty \<and> (\<forall>j < e. \<not> holds f (ss ! ((s + j) mod length ss)))))"

lemma probe_steps:
  assumes m: "0 < length ss" and e: "e < length ss" "ss ! ((s + e) mod length ss) = SEmpty"
    and "idx = (s + j) mod length ss" "j + n = length ss" "j \<le> e"
    and "\<forall>i < j. ss ! ((s + i) mod length ss) \<noteq> SEmpty \<and> \<not> holds f (ss ! ((s + i) mod length ss))"
    and "case ft of None \<Rightarrow> True | Some t \<Rightarrow> \<exists>d < j. t = (s + d) mod length ss \<and> ss ! t = STomb"
  shows "\<exists>r. probe ss f idx ft n = Some r \<and> probe_answer ss f s r"
  using assms(4-)
proof (induction n arbitrary: idx j ft)
  case 0
  then show ?case using e by simp
next
  case (Suc n)
  note at = Suc.prems(1)
  show ?case
  proof (cases "ss ! idx")
    case SEmpty
    have "reaches ss s (case ft of Some t \<Rightarrow> t | None \<Rightarrow> idx) \<and> \<not> is_occ (ss ! (case ft of Some t \<Rightarrow> t | None \<Rightarrow> idx)) \<and>
        (case ft of Some t \<Rightarrow> t | None \<Rightarrow> idx) < length ss"
    proof (cases ft)
      case None
      have "reaches ss s idx" unfolding reaches_def
        by (rule exI [of _ j]) (use Suc.prems in simp)
      then show ?thesis using None SEmpty m at by simp
    next
      case (Some t)
      then obtain d where d: "d < j" "t = (s + d) mod length ss" "ss ! t = STomb" using Suc.prems(5) by auto
      then have "reaches ss s t" unfolding reaches_def
        by (intro exI [of _ d]) (use Suc.prems in auto)
      then show ?thesis using Some d m by simp
    qed
    moreover have "\<exists>e. ss ! ((s + e) mod length ss) = SEmpty \<and> (\<forall>j < e. \<not> holds f (ss ! ((s + j) mod length ss)))"
      by (rule exI [of _ j]) (use SEmpty at Suc.prems(4) in auto)
    ultimately show ?thesis using SEmpty by (simp add: probe_answer_def)
  next
    case STomb
    let ?ft = "case ft of Some t \<Rightarrow> Some t | None \<Rightarrow> Some idx"
    have "\<exists>r. probe ss f (Suc idx mod length ss) ?ft n = Some r \<and> probe_answer ss f s r"
    proof (rule Suc.IH [where j = "Suc j"])
      show "Suc j \<le> e" using Suc.prems(3) e(2) STomb at by (metis Suc_leI le_neq_implies_less slot.distinct(1))
      show "\<forall>i < Suc j. ss ! ((s + i) mod length ss) \<noteq> SEmpty \<and> \<not> holds f (ss ! ((s + i) mod length ss))"
        using Suc.prems(4) STomb at by (auto simp: less_Suc_eq)
      show "case ?ft of None \<Rightarrow> True | Some t \<Rightarrow> \<exists>d < Suc j. t = (s + d) mod length ss \<and> ss ! t = STomb"
        using Suc.prems(5) STomb at by (auto split: option.splits intro: less_SucI)
    qed (use Suc.prems(1,2) in \<open>simp_all add: mod_Suc_eq\<close>)
    then show ?thesis using STomb by simp
  next
    case (SOcc k v)
    show ?thesis
    proof (cases "k = f")
      case True
      then show ?thesis using SOcc m at by (simp add: probe_answer_def)
    next
      case False
      have "\<exists>r. probe ss f (Suc idx mod length ss) ft n = Some r \<and> probe_answer ss f s r"
      proof (rule Suc.IH [where j = "Suc j"])
        show "Suc j \<le> e" using Suc.prems(3) e(2) SOcc at by (metis Suc_leI le_neq_implies_less slot.distinct(3))
        show "\<forall>i < Suc j. ss ! ((s + i) mod length ss) \<noteq> SEmpty \<and> \<not> holds f (ss ! ((s + i) mod length ss))"
          using Suc.prems(4) SOcc at False by (auto simp: less_Suc_eq)
        show "case ft of None \<Rightarrow> True | Some t \<Rightarrow> \<exists>d < Suc j. t = (s + d) mod length ss \<and> ss ! t = STomb"
          using Suc.prems(5) by (auto split: option.splits intro: less_SucI)
      qed (use Suc.prems(1,2) in \<open>simp_all add: mod_Suc_eq\<close>)
      then show ?thesis using SOcc False by simp
    qed
  qed
qed

lemma step_to:
  assumes "i < (m :: nat)"
  shows "\<exists>d < m. (s + d) mod m = i"
proof (rule exI [of _ "(i + (m - s mod m)) mod m"], intro conjI)
  have "s mod m < m" using assms by simp
  then have "s mod m + (i + (m - s mod m)) = i + m" by simp
  then have "(s + (i + (m - s mod m))) mod m = i mod m"
    using mod_add_left_eq [of s m "i + (m - s mod m)"] by simp
  then show "(s + (i + (m - s mod m)) mod m) mod m = i" using assms by (simp add: mod_add_right_eq)
qed (use assms in simp)

text \<open>With an empty slot left the loop always answers, and its answer decides membership.\<close>

theorem probe_correct:
  assumes ok: "probing_ok h ss" and room: "n_occ ss + n_tomb ss < length ss" and home: "h f < length ss"
  obtains i where "probe ss f (h f) None (length ss) = Some (True, i)" "i < length ss" "holds f (ss ! i)"
  | i where "probe ss f (h f) None (length ss) = Some (False, i)" "i < length ss" "\<not> is_occ (ss ! i)"
      "reaches ss (h f) i" "\<And>j. j < length ss \<Longrightarrow> \<not> holds f (ss ! j)"
proof -
  obtain e0 where e0: "e0 < length ss" "ss ! e0 = SEmpty" using empty_slot_exists [OF room] by blast
  obtain e where e: "e < length ss" "(h f + e) mod length ss = e0" using step_to [OF e0(1)] by blast
  obtain found i where r: "probe ss f (h f) None (length ss) = Some (found, i)" "probe_answer ss f (h f) (found, i)"
    using probe_steps [where ss = ss and e = e and s = "h f" and j = 0 and ft = None and f = f and n = "length ss"]
      e e0 home by fastforce
  show thesis
  proof (cases found)
    case True
    then show ?thesis using r that(1) by (auto simp: probe_answer_def)
  next
    case False
    obtain e1 where e1: "ss ! ((h f + e1) mod length ss) = SEmpty"
      "\<forall>j < e1. \<not> holds f (ss ! ((h f + j) mod length ss))"
      using r(2) False by (auto simp: probe_answer_def)
    have "\<not> holds f (ss ! j)" if j: "j < length ss" for j
    proof
      assume hj: "holds f (ss ! j)"
      then obtain d where d: "j = (h f + d) mod length ss" "\<forall>i < d. ss ! ((h f + i) mod length ss) \<noteq> SEmpty"
        using ok j unfolding probing_ok_def reaches_def holds_iff by blast
      then have "d \<le> e1" using e1(1) by (meson not_le)
      moreover have "d \<noteq> e1" using e1(1) d(1) hj by auto
      ultimately show False using e1(2) d(1) hj by auto
    qed
    then show ?thesis using r False that(2) by (auto simp: probe_answer_def)
  qed
qed

end
