(* ===== verification/Shared_Hash.thy ===== *)
theory Shared_Hash
  imports Dsa Probing Hash_Value Utils
begin

unbundle bit_operations_syntax

text \<open>
  \<open>src/shared_hash.c\<close>: the hash table of one key in shared memory, with open addressing, linear
  probing and tombstones. PostgreSQL's \<open>hash_bytes\<close> is a parameter \<open>hb\<close> about which nothing is
  assumed. The operations work on the explicit segment of \<open>Dsa\<close>; they refine the slots of \<open>Probing\<close>
  and satisfy the field-map contract of \<open>Hash_Value\<close>.
\<close>

section \<open>Access to the table\<close>

type_synonym hash_fn = "bytes \<Rightarrow> 32 word"

definition PG_REDIS_SHARED_HASH_INIT_BUCKETS :: nat where
  "PG_REDIS_SHARED_HASH_INIT_BUCKETS = 16"

definition empty_bucket :: PgRedisSharedHashBucket where
  "empty_bucket =
     \<lparr>sb_state = PG_REDIS_SHB_EMPTY, sb_field_len = 0, sb_value_len = 0, sb_field_dsa = 0, sb_value_dsa = 0\<rparr>"

fun chunk_table :: "chunk option \<Rightarrow> PgRedisSharedHashTable" where
  "chunk_table (Some (HashTable t)) = t"
| "chunk_table _ = \<lparr>st_bucket_count = 0, st_occupied = 0, st_tombstones = 0, st_buckets = []\<rparr>"

definition table_at :: "dsa_area \<Rightarrow> dsa_pointer \<Rightarrow> PgRedisSharedHashTable" where
  "table_at a p = chunk_table (pg_redis_shared_addr p a)"

definition table_alloc_size :: "nat \<Rightarrow> nat" where
  "table_alloc_size bucket_count = 24 + bucket_count * 24"

definition bucket_index :: "hash_fn \<Rightarrow> nat \<Rightarrow> bytes \<Rightarrow> nat" where
  "bucket_index hb bucket_count field = unat (hb field AND of_nat (bucket_count - 1))"

definition bucket_matches :: "dsa_area \<Rightarrow> PgRedisSharedHashBucket \<Rightarrow> bytes \<Rightarrow> bool" where
  "bucket_matches a b field \<longleftrightarrow>
     sb_state b = PG_REDIS_SHB_OCCUPIED \<and> sb_field_len b = length field \<and>
     pg_redis_shared_addr (sb_field_dsa b) a \<noteq> None \<and> dsa_bytes a (sb_field_dsa b) (length field) = field"

text \<open>The bounded probe loop; the last argument counts the probes that are left.\<close>

fun find_bucket_loop ::
    "dsa_area \<Rightarrow> PgRedisSharedHashBucket list \<Rightarrow> nat \<Rightarrow> bytes \<Rightarrow> nat \<Rightarrow> nat option \<Rightarrow> nat \<Rightarrow> (bool \<times> nat) result" where
  "find_bucket_loop a buckets msk field idx first_tomb 0 =
     (case first_tomb of Some t \<Rightarrow> Inr (False, t) | None \<Rightarrow> Inl HashTableSaturated)"
| "find_bucket_loop a buckets msk field idx first_tomb (Suc probes) =
     (let b = buckets ! idx in
      if sb_state b = PG_REDIS_SHB_EMPTY
      then Inr (False, case first_tomb of Some t \<Rightarrow> t | None \<Rightarrow> idx)
      else if sb_state b = PG_REDIS_SHB_TOMBSTONE
      then find_bucket_loop a buckets msk field ((idx + 1) AND msk)
             (case first_tomb of Some t \<Rightarrow> Some t | None \<Rightarrow> Some idx) probes
      else if bucket_matches a b field then Inr (True, idx)
      else find_bucket_loop a buckets msk field ((idx + 1) AND msk) first_tomb probes)"

definition find_bucket ::
    "hash_fn \<Rightarrow> dsa_area \<Rightarrow> PgRedisSharedHashTable \<Rightarrow> bytes \<Rightarrow> (bool \<times> nat) result" where
  "find_bucket hb a t field =
     find_bucket_loop a (st_buckets t) (st_bucket_count t - 1) field
       (bucket_index hb (st_bucket_count t) field) None (st_bucket_count t)"

definition alloc_table :: "allocator \<Rightarrow> nat \<Rightarrow> dsa_area \<Rightarrow> dsa_pointer \<times> dsa_area" where
  "alloc_table al bucket_count a =
     (case pg_redis_shared_palloc al (table_alloc_size bucket_count) a of (p, a) \<Rightarrow>
        if p = 0 then (0, a)
        else (p, dsa_write p (HashTable
               \<lparr>st_bucket_count = bucket_count, st_occupied = 0, st_tombstones = 0,
                st_buckets = replicate bucket_count empty_bucket\<rparr>) a))"

fun free_buckets :: "PgRedisSharedHashBucket list \<Rightarrow> dsa_area \<Rightarrow> dsa_area" where
  "free_buckets [] a = a"
| "free_buckets (b # bs) a =
     free_buckets bs
       (if sb_state b = PG_REDIS_SHB_OCCUPIED
        then pg_redis_shared_pfree (sb_value_dsa b) (pg_redis_shared_pfree (sb_field_dsa b) a)
        else a)"

definition pg_redis_shared_hash_free :: "dsa_pointer \<Rightarrow> dsa_area \<Rightarrow> dsa_area" where
  "pg_redis_shared_hash_free p a =
     (if p = 0 then a else pg_redis_shared_pfree p (free_buckets (st_buckets (table_at a p)) a))"

section \<open>Rehashing\<close>

definition occupy ::
    "nat \<Rightarrow> dsa_pointer \<Rightarrow> nat \<Rightarrow> dsa_pointer \<Rightarrow> nat \<Rightarrow> PgRedisSharedHashTable \<Rightarrow> PgRedisSharedHashTable" where
  "occupy idx field_dsa field_len value_dsa value_len t =
     t\<lparr>st_tombstones :=
         (if sb_state (st_buckets t ! idx) = PG_REDIS_SHB_TOMBSTONE then st_tombstones t - 1 else st_tombstones t),
       st_buckets := (st_buckets t)[idx :=
         \<lparr>sb_state = PG_REDIS_SHB_OCCUPIED, sb_field_len = field_len, sb_value_len = value_len,
          sb_field_dsa = field_dsa, sb_value_dsa = value_dsa\<rparr>],
       st_occupied := st_occupied t + 1\<rparr>"

definition insert_owned ::
    "hash_fn \<Rightarrow> dsa_area \<Rightarrow> dsa_pointer \<Rightarrow> nat \<Rightarrow> dsa_pointer \<Rightarrow> nat \<Rightarrow> PgRedisSharedHashTable \<Rightarrow>
     (bool \<times> PgRedisSharedHashTable) result" where
  "insert_owned hb a field_dsa field_len value_dsa value_len t =
     (case find_bucket hb a t (dsa_bytes a field_dsa field_len) of
        Inl err \<Rightarrow> Inl err
      | Inr (was_found, idx) \<Rightarrow> Inr (\<not> was_found, occupy idx field_dsa field_len value_dsa value_len t))"

fun rehash_loop ::
    "hash_fn \<Rightarrow> dsa_area \<Rightarrow> PgRedisSharedHashBucket list \<Rightarrow> PgRedisSharedHashTable \<Rightarrow>
     unit result \<times> PgRedisSharedHashTable" where
  "rehash_loop hb a [] t = (Inr (), t)"
| "rehash_loop hb a (b # bs) t =
     (if sb_state b \<noteq> PG_REDIS_SHB_OCCUPIED then rehash_loop hb a bs t
      else case insert_owned hb a (sb_field_dsa b) (sb_field_len b) (sb_value_dsa b) (sb_value_len b) t of
             Inl err \<Rightarrow> (Inl err, t)
           | Inr (_, t') \<Rightarrow> rehash_loop hb a bs t')"

definition rehash_table ::
    "hash_fn \<Rightarrow> allocator \<Rightarrow> dsa_pointer \<Rightarrow> nat \<Rightarrow> dsa_area \<Rightarrow> dsa_pointer result \<times> dsa_area" where
  "rehash_table hb al old_dsa new_size a =
     (case alloc_table al new_size a of (new_dsa, a) \<Rightarrow>
        if new_dsa = 0 then (Inr 0, a)
        else case rehash_loop hb a (st_buckets (table_at a old_dsa)) (table_at a new_dsa) of
               (Inl err, t) \<Rightarrow> (Inl err, dsa_write new_dsa (HashTable t) a)
             | (Inr _, t) \<Rightarrow>
                 (Inr new_dsa, pg_redis_shared_pfree old_dsa (dsa_write new_dsa (HashTable t) a)))"

definition should_grow :: "int \<Rightarrow> int \<Rightarrow> nat \<Rightarrow> bool" where
  "should_grow occ tombstones sz \<longleftrightarrow> (occ + tombstones + 1) * 10 > int sz * 7"

definition should_shrink :: "int \<Rightarrow> nat \<Rightarrow> bool" where
  "should_shrink occ sz \<longleftrightarrow> sz > PG_REDIS_SHARED_HASH_INIT_BUCKETS \<and> occ * 8 < int sz * 1"

section \<open>Operations\<close>

text \<open>
  \<open>pg_redis_shared_hash_set\<close> in the order of the code: lazy allocation and growth, then the overwrite
  or the insertion. The table pointer of the caller is an in-out parameter, also when it raises.
\<close>

definition hash_set_prepare ::
    "hash_fn \<Rightarrow> allocator \<Rightarrow> dsa_pointer \<Rightarrow> dsa_area \<Rightarrow> unit result \<times> dsa_pointer \<times> dsa_area" where
  "hash_set_prepare hb al p a =
     (case (if p = 0 then alloc_table al PG_REDIS_SHARED_HASH_INIT_BUCKETS a else (p, a)) of (p, a) \<Rightarrow>
        if p = 0 then (Inl OutOfSharedMemory, 0, a)
        else
          let t = table_at a p in
          if should_grow (st_occupied t) (st_tombstones t) (st_bucket_count t)
          then case rehash_table hb al p (st_bucket_count t * 2) a of
                 (Inl err, a) \<Rightarrow> (Inl err, p, a)
               | (Inr new_dsa, a) \<Rightarrow>
                   if new_dsa = 0 then (Inl OutOfSharedMemory, p, a) else (Inr (), new_dsa, a)
          else (Inr (), p, a))"

definition hash_set_overwrite ::
    "allocator \<Rightarrow> dsa_pointer \<Rightarrow> nat \<Rightarrow> bytes \<Rightarrow> dsa_area \<Rightarrow> bool result \<times> dsa_pointer \<times> dsa_area" where
  "hash_set_overwrite al p idx value a =
     (case alloc_value al value a of (new_value_p, a) \<Rightarrow>
        if value \<noteq> [] \<and> new_value_p = 0 then (Inl OutOfSharedMemory, p, a)
        else
          let t = table_at a p; b = st_buckets t ! idx;
              a = pg_redis_shared_pfree (sb_value_dsa b) a;
              b = b\<lparr>sb_value_dsa := new_value_p, sb_value_len := to_uint16 (length value)\<rparr>
          in (Inr False, p, dsa_write p (HashTable (t\<lparr>st_buckets := (st_buckets t)[idx := b]\<rparr>)) a))"

definition hash_set_insert ::
    "allocator \<Rightarrow> dsa_pointer \<Rightarrow> nat \<Rightarrow> bytes \<Rightarrow> bytes \<Rightarrow> dsa_area \<Rightarrow> bool result \<times> dsa_pointer \<times> dsa_area" where
  "hash_set_insert al p idx field value a =
     (case pg_redis_shared_palloc al (length field) a of (field_p, a) \<Rightarrow>
        if field_p = 0 then (Inl OutOfSharedMemory, p, a)
        else case alloc_value al value (dsa_write field_p (Raw field) a) of (value_p, a) \<Rightarrow>
          if value \<noteq> [] \<and> value_p = 0 then (Inl OutOfSharedMemory, p, pg_redis_shared_pfree field_p a)
          else (Inr True, p, dsa_write p (HashTable
                 (occupy idx field_p (to_uint16 (length field)) value_p (to_uint16 (length value)) (table_at a p))) a))"

definition pg_redis_shared_hash_set ::
    "hash_fn \<Rightarrow> allocator \<Rightarrow> dsa_pointer \<Rightarrow> bytes \<Rightarrow> bytes \<Rightarrow> dsa_area \<Rightarrow> bool result \<times> dsa_pointer \<times> dsa_area" where
  "pg_redis_shared_hash_set hb al p field value a =
     (if int (length value) > UINT16_MAX then (Inl (HashValueTooLong (length value)), p, a)
      else case hash_set_prepare hb al p a of
             (Inl err, p, a) \<Rightarrow> (Inl err, p, a)
           | (Inr _, p, a) \<Rightarrow>
               (case find_bucket hb a (table_at a p) field of
                  Inl err \<Rightarrow> (Inl err, p, a)
                | Inr (True, idx) \<Rightarrow> hash_set_overwrite al p idx value a
                | Inr (False, idx) \<Rightarrow> hash_set_insert al p idx field value a))"

definition pg_redis_shared_hash_get ::
    "hash_fn \<Rightarrow> dsa_pointer \<Rightarrow> bytes \<Rightarrow> dsa_area \<Rightarrow> bytes option result" where
  "pg_redis_shared_hash_get hb p field a =
     (if p = 0 \<or> st_occupied (table_at a p) = 0 then Inr None
      else case find_bucket hb a (table_at a p) field of
             Inl err \<Rightarrow> Inl err
           | Inr (False, _) \<Rightarrow> Inr None
           | Inr (True, idx) \<Rightarrow>
               let b = st_buckets (table_at a p) ! idx
               in Inr (Some (dsa_bytes a (sb_value_dsa b) (sb_value_len b))))"

definition pg_redis_shared_hash_exists ::
    "hash_fn \<Rightarrow> dsa_pointer \<Rightarrow> bytes \<Rightarrow> dsa_area \<Rightarrow> bool result" where
  "pg_redis_shared_hash_exists hb p field a =
     (if p = 0 \<or> st_occupied (table_at a p) = 0 then Inr False
      else map_sum id fst (find_bucket hb a (table_at a p) field))"

definition tombstone :: "nat \<Rightarrow> PgRedisSharedHashTable \<Rightarrow> PgRedisSharedHashTable" where
  "tombstone idx t =
     t\<lparr>st_buckets := (st_buckets t)[idx :=
         \<lparr>sb_state = PG_REDIS_SHB_TOMBSTONE, sb_field_len = 0, sb_value_len = 0, sb_field_dsa = 0, sb_value_dsa = 0\<rparr>],
       st_occupied := st_occupied t - 1, st_tombstones := st_tombstones t + 1\<rparr>"

definition hash_shrink :: "hash_fn \<Rightarrow> allocator \<Rightarrow> dsa_pointer \<Rightarrow> dsa_area \<Rightarrow> bool result \<times> dsa_pointer \<times> dsa_area" where
  "hash_shrink hb al p a =
     (let t = table_at a p in
      if should_shrink (st_occupied t) (st_bucket_count t)
      then case rehash_table hb al p (st_bucket_count t div 2) a of
             (Inl err, a) \<Rightarrow> (Inl err, p, a)
           | (Inr new_dsa, a) \<Rightarrow> (Inr True, if new_dsa = 0 then p else new_dsa, a)
      else (Inr True, p, a))"

definition pg_redis_shared_hash_del ::
    "hash_fn \<Rightarrow> allocator \<Rightarrow> dsa_pointer \<Rightarrow> bytes \<Rightarrow> dsa_area \<Rightarrow> bool result \<times> dsa_pointer \<times> dsa_area" where
  "pg_redis_shared_hash_del hb al p field a =
     (if p = 0 \<or> st_occupied (table_at a p) = 0 then (Inr False, p, a)
      else case find_bucket hb a (table_at a p) field of
             Inl err \<Rightarrow> (Inl err, p, a)
           | Inr (False, _) \<Rightarrow> (Inr False, p, a)
           | Inr (True, idx) \<Rightarrow>
               let b = st_buckets (table_at a p) ! idx;
                   a = pg_redis_shared_pfree (sb_value_dsa b) (pg_redis_shared_pfree (sb_field_dsa b) a)
               in hash_shrink hb al p (dsa_write p (HashTable (tombstone idx (table_at a p))) a))"

definition pg_redis_shared_hash_count :: "dsa_pointer \<Rightarrow> dsa_area \<Rightarrow> int" where
  "pg_redis_shared_hash_count p a = (if p = 0 then 0 else st_occupied (table_at a p))"

fun materialize_loop :: "dsa_area \<Rightarrow> PgRedisSharedHashBucket list \<Rightarrow> PgRedisHash \<Rightarrow> PgRedisHash result" where
  "materialize_loop a [] h = Inr h"
| "materialize_loop a (b # bs) h =
     (if sb_state b \<noteq> PG_REDIS_SHB_OCCUPIED \<or> sb_field_len b > PG_REDIS_MAX_FIELD_SIZE \<or>
         pg_redis_shared_addr (sb_field_dsa b) a = None
      then materialize_loop a bs h
      else case pg_redis_hash_set h (dsa_bytes a (sb_field_dsa b) (sb_field_len b))
                  (dsa_bytes a (sb_value_dsa b) (sb_value_len b)) of
             Inl err \<Rightarrow> Inl err
           | Inr (_, h) \<Rightarrow> materialize_loop a bs h)"

definition pg_redis_shared_hash_materialize :: "dsa_pointer \<Rightarrow> dsa_area \<Rightarrow> PgRedisHash option result" where
  "pg_redis_shared_hash_materialize p a =
     (if p = 0 \<or> st_occupied (table_at a p) = 0 then Inr None
      else map_sum id Some (materialize_loop a (st_buckets (table_at a p)) pg_redis_hash_create))"

section \<open>What a table stands for\<close>

definition slot_of :: "dsa_area \<Rightarrow> PgRedisSharedHashBucket \<Rightarrow> (bytes, bytes) slot" where
  "slot_of a b =
     (case sb_state b of
        PG_REDIS_SHB_EMPTY \<Rightarrow> SEmpty
      | PG_REDIS_SHB_TOMBSTONE \<Rightarrow> STomb
      | PG_REDIS_SHB_OCCUPIED \<Rightarrow>
          SOcc (dsa_bytes a (sb_field_dsa b) (sb_field_len b)) (dsa_bytes a (sb_value_dsa b) (sb_value_len b)))"

definition slots :: "dsa_area \<Rightarrow> PgRedisSharedHashTable \<Rightarrow> (bytes, bytes) slot list" where
  "slots a t = map (slot_of a) (st_buckets t)"

definition shared_map :: "dsa_area \<Rightarrow> dsa_pointer \<Rightarrow> bytes \<Rightarrow> bytes option" where
  "shared_map a p = slot_map (slots a (table_at a p))"

definition bucket_ptrs :: "PgRedisSharedHashBucket \<Rightarrow> dsa_pointer set" where
  "bucket_ptrs b =
     (if sb_state b = PG_REDIS_SHB_OCCUPIED then {sb_field_dsa b} \<union> ({sb_value_dsa b} - {0}) else {})"

definition bucket_ok :: "dsa_area \<Rightarrow> PgRedisSharedHashBucket \<Rightarrow> bool" where
  "bucket_ok a b \<longleftrightarrow> sb_state b = PG_REDIS_SHB_OCCUPIED \<longrightarrow>
     sb_field_dsa b \<noteq> 0 \<and> sb_field_dsa b \<noteq> sb_value_dsa b \<and> sb_field_len b \<le> PG_REDIS_MAX_FIELD_SIZE \<and>
     (\<exists>f. hash_find a (sb_field_dsa b) = Some (Raw f) \<and> length f = sb_field_len b) \<and>
     (if sb_value_dsa b = 0 then sb_value_len b = 0
      else \<exists>v. hash_find a (sb_value_dsa b) = Some (Raw v) \<and> length v = sb_value_len b)"

definition buckets_apart :: "PgRedisSharedHashBucket list \<Rightarrow> bool" where
  "buckets_apart bs \<longleftrightarrow> (\<forall>b \<in> set bs. \<forall>c \<in> set bs. b \<noteq> c \<longrightarrow> bucket_ptrs b \<inter> bucket_ptrs c = {})"

definition table_ok :: "hash_fn \<Rightarrow> dsa_area \<Rightarrow> PgRedisSharedHashTable \<Rightarrow> bool" where
  "table_ok hb a t \<longleftrightarrow>
     (\<exists>n \<ge> 4. st_bucket_count t = 2 ^ n) \<and> length (st_buckets t) = st_bucket_count t \<and>
     (\<forall>b \<in> set (st_buckets t). bucket_ok a b) \<and> buckets_apart (st_buckets t) \<and>
     probing_ok (bucket_index hb (st_bucket_count t)) (slots a t) \<and>
     st_occupied t = int (n_occ (slots a t)) \<and> st_tombstones t = int (n_tomb (slots a t)) \<and>
     (n_occ (slots a t) + n_tomb (slots a t)) * 10 \<le> 7 * st_bucket_count t"

definition shared_hash_ok :: "hash_fn \<Rightarrow> dsa_area \<Rightarrow> dsa_pointer \<Rightarrow> bool" where
  "shared_hash_ok hb a p \<longleftrightarrow> p = 0 \<or> (\<exists>t. hash_find a p = Some (HashTable t) \<and> table_ok hb a t)"

definition owned :: "dsa_area \<Rightarrow> dsa_pointer \<Rightarrow> dsa_pointer set" where
  "owned a p = (if p = 0 then {} else insert p (\<Union> (bucket_ptrs ` set (st_buckets (table_at a p)))))"

section \<open>The probe loop of the code\<close>

lemma unat_and_le: "unat (x AND (y :: 'a :: len word)) \<le> unat y"
  by (metis word_and_le1 word_le_nat_alt)

lemma bucket_index_less:
  assumes "0 < bc"
  shows "bucket_index hb bc f < bc"
proof -
  have "unat (of_nat (bc - 1) :: 32 word) \<le> bc - 1" by (simp add: unat_of_nat)
  then show ?thesis
    using unat_and_le [of "hb f" "of_nat (bc - 1)"] assms unfolding bucket_index_def by linarith
qed

lemma and_pow2: "x AND (2 ^ n - 1) = x mod (2 ^ n :: nat)"
  using take_bit_eq_mask [of n x] by (simp add: take_bit_eq_mod mask_eq_exp_minus_1)

lemma slot_of_cases:
  "slot_of a b = SEmpty \<longleftrightarrow> sb_state b = PG_REDIS_SHB_EMPTY"
  "slot_of a b = STomb \<longleftrightarrow> sb_state b = PG_REDIS_SHB_TOMBSTONE"
  "is_occ (slot_of a b) \<longleftrightarrow> sb_state b = PG_REDIS_SHB_OCCUPIED"
  by (cases "sb_state b"; simp add: slot_of_def)+

lemma bucket_matches_holds:
  assumes "bucket_ok a b"
  shows "bucket_matches a b f \<longleftrightarrow> holds f (slot_of a b)"
  using assms
  by (cases "sb_state b")
    (auto simp: bucket_matches_def slot_of_def bucket_ok_def dsa_bytes_def pg_redis_shared_addr_def)

definition probe_result :: "(bool \<times> nat) option \<Rightarrow> (bool \<times> nat) result" where
  "probe_result r = (case r of Some x \<Rightarrow> Inr x | None \<Rightarrow> Inl HashTableSaturated)"

lemma find_bucket_loop_probe:
  assumes "\<forall>b \<in> set bs. bucket_ok a b" "length bs = 2 ^ n" "idx < length bs"
  shows "find_bucket_loop a bs (length bs - 1) f idx ft k = probe_result (probe (map (slot_of a) bs) f idx ft k)"
  using assms(3)
proof (induction k arbitrary: idx ft)
  case 0
  then show ?case by (simp add: probe_result_def split: option.splits)
next
  case (Suc k)
  have b: "bucket_ok a (bs ! idx)" using Suc.prems assms(1) by simp
  have nxt: "(idx + 1) AND (length bs - 1) = Suc idx mod length bs" "Suc idx mod length bs < length bs"
    using assms(2) and_pow2 [of "Suc idx" n] by simp_all
  note IH = Suc.IH [OF nxt(2)]
  show ?case
  proof (cases "sb_state (bs ! idx)")
    case PG_REDIS_SHB_EMPTY
    then show ?thesis using Suc.prems by (simp add: slot_of_def probe_result_def)
  next
    case PG_REDIS_SHB_TOMBSTONE
    then show ?thesis using Suc.prems IH nxt by (simp add: slot_of_def)
  next
    case PG_REDIS_SHB_OCCUPIED
    then show ?thesis
      using Suc.prems IH nxt bucket_matches_holds [OF b, of f]
      by (auto simp: slot_of_def probe_result_def Let_def)
  qed
qed

definition home :: "hash_fn \<Rightarrow> PgRedisSharedHashTable \<Rightarrow> bytes \<Rightarrow> nat" where
  "home hb t = bucket_index hb (st_bucket_count t)"

text \<open>The probing part of the table invariant, without the load factor.\<close>

definition probed_ok :: "hash_fn \<Rightarrow> dsa_area \<Rightarrow> PgRedisSharedHashTable \<Rightarrow> bool" where
  "probed_ok hb a t \<longleftrightarrow>
     (\<exists>n \<ge> 4. st_bucket_count t = 2 ^ n) \<and> length (st_buckets t) = st_bucket_count t \<and>
     (\<forall>b \<in> set (st_buckets t). bucket_ok a b) \<and> probing_ok (home hb t) (slots a t)"

lemma length_slots [simp]: "length (slots a t) = length (st_buckets t)"
  by (simp add: slots_def)

lemma find_bucket_correct:
  assumes ok: "probed_ok hb a t" and room: "n_occ (slots a t) + n_tomb (slots a t) < st_bucket_count t"
  obtains i where "find_bucket hb a t f = Inr (True, i)" "i < length (st_buckets t)" "holds f (slots a t ! i)"
  | i where "find_bucket hb a t f = Inr (False, i)" "i < length (st_buckets t)" "\<not> is_occ (slots a t ! i)"
      "reaches (slots a t) (home hb t f) i" "\<And>j. j < length (st_buckets t) \<Longrightarrow> \<not> holds f (slots a t ! j)"
proof -
  obtain n where n: "st_bucket_count t = 2 ^ n" "length (st_buckets t) = st_bucket_count t"
    and bs: "\<forall>b \<in> set (st_buckets t). bucket_ok a b" and pr: "probing_ok (home hb t) (slots a t)"
    using ok by (auto simp: probed_ok_def)
  have home: "home hb t f < length (slots a t)"
    using n bucket_index_less [of "st_bucket_count t" hb f] by (simp add: home_def)
  have fb: "find_bucket hb a t f =
      probe_result (probe (slots a t) f (home hb t f) None (length (slots a t)))"
    using find_bucket_loop_probe [OF bs, of n] home n
    by (simp add: find_bucket_def slots_def home_def)
  have room': "n_occ (slots a t) + n_tomb (slots a t) < length (slots a t)" using room n by simp
  show thesis
    by (rule probe_correct [OF pr room' home])
      (use fb that in \<open>auto simp: probe_result_def\<close>)
qed

section \<open>Frames of buckets\<close>

lemma bucket_cong:
  assumes "\<And>q. q \<in> bucket_ptrs b \<Longrightarrow> hash_find a' q = hash_find a q"
  shows "bucket_ok a' b = bucket_ok a b" "slot_of a' b = slot_of a b"
proof -
  have f: "sb_state b = PG_REDIS_SHB_OCCUPIED \<Longrightarrow> hash_find a' (sb_field_dsa b) = hash_find a (sb_field_dsa b)"
    using assms by (simp add: bucket_ptrs_def)
  have v: "sb_state b = PG_REDIS_SHB_OCCUPIED \<Longrightarrow> sb_value_dsa b \<noteq> 0 \<Longrightarrow>
      hash_find a' (sb_value_dsa b) = hash_find a (sb_value_dsa b)"
    using assms by (simp add: bucket_ptrs_def)
  show "bucket_ok a' b = bucket_ok a b" using f v by (auto simp: bucket_ok_def)
  show "slot_of a' b = slot_of a b"
    using f v
    by (cases "sb_state b") (auto simp: slot_of_def dsa_bytes_def pg_redis_shared_addr_def)
qed

definition table_ptrs :: "PgRedisSharedHashTable \<Rightarrow> dsa_pointer set" where
  "table_ptrs t = \<Union> (bucket_ptrs ` set (st_buckets t))"

lemma table_cong:
  assumes "\<And>q. q \<in> table_ptrs t \<Longrightarrow> hash_find a' q = hash_find a q"
  shows "slots a' t = slots a t" "table_ok hb a' t = table_ok hb a t" "probed_ok hb a' t = probed_ok hb a t"
proof -
  have b: "bucket_ok a' b = bucket_ok a b" "slot_of a' b = slot_of a b" if "b \<in> set (st_buckets t)" for b
    using that assms by (intro bucket_cong; force simp: table_ptrs_def)+
  show s: "slots a' t = slots a t" using b by (simp add: slots_def)
  show "table_ok hb a' t = table_ok hb a t" using b by (simp add: table_ok_def s)
  show "probed_ok hb a' t = probed_ok hb a t" using b by (simp add: probed_ok_def s)
qed

text \<open>The chunks of a bucket hold raw bytes, so the table chunk is not among them.\<close>

lemma bucket_ptrs_Raw:
  assumes "bucket_ok a b" "q \<in> bucket_ptrs b"
  shows "q \<noteq> 0" "\<exists>bs. hash_find a q = Some (Raw bs)"
  using assms by (auto simp: bucket_ok_def bucket_ptrs_def split: if_splits)

lemma table_ptrs_Raw:
  assumes "table_ok hb a t" "q \<in> table_ptrs t"
  shows "q \<noteq> 0" "\<exists>bs. hash_find a q = Some (Raw bs)"
  using assms bucket_ptrs_Raw [of a _ q] by (auto simp: table_ok_def table_ptrs_def)

lemma table_ok_probed: "table_ok hb a t \<Longrightarrow> probed_ok hb a t"
  by (simp add: table_ok_def probed_ok_def home_def)

lemma table_ok_size: "table_ok hb a t \<Longrightarrow> 16 \<le> st_bucket_count t"
  using power_increasing [of 4 _ "2 :: nat"] by (fastforce simp: table_ok_def)

lemma table_ok_load: "table_ok hb a t \<Longrightarrow> (n_occ (slots a t) + n_tomb (slots a t)) * 10 \<le> 7 * st_bucket_count t"
  by (simp add: table_ok_def)

lemma room_arith: "n * 10 \<le> 7 * m \<Longrightarrow> 16 \<le> m \<Longrightarrow> n < (m :: nat)"
  by linarith

lemma table_ok_room: "table_ok hb a t \<Longrightarrow> n_occ (slots a t) + n_tomb (slots a t) < st_bucket_count t"
  by (metis (no_types, lifting) table_ok_load table_ok_size room_arith)

lemma probed_unique: "probed_ok hb a t \<Longrightarrow> unique_keys (slots a t)"
  by (simp add: probed_ok_def probing_ok_def)

section \<open>Writing one bucket\<close>

lemma occupy_slots:
  "slots a (occupy i fd fl vd vl t) = (slots a t)[i := slot_of a
     \<lparr>sb_state = PG_REDIS_SHB_OCCUPIED, sb_field_len = fl, sb_value_len = vl, sb_field_dsa = fd, sb_value_dsa = vd\<rparr>]"
  by (simp add: occupy_def slots_def map_update)

lemma occupy_size [simp]:
  "st_bucket_count (occupy i fd fl vd vl t) = st_bucket_count t"
  "length (st_buckets (occupy i fd fl vd vl t)) = length (st_buckets t)"
  by (simp_all add: occupy_def)

lemma occupy_ok:
  assumes ok: "probed_ok hb a t" and i: "i < length (st_buckets t)" "\<not> is_occ (slots a t ! i)"
    and nb: "nb = \<lparr>sb_state = PG_REDIS_SHB_OCCUPIED, sb_field_len = fl, sb_value_len = vl, sb_field_dsa = fd, sb_value_dsa = vd\<rparr>"
    and b: "bucket_ok a nb" "slot_of a nb = SOcc f v"
    and r: "reaches (slots a t) (home hb t f) i" and new: "\<And>j. j < length (st_buckets t) \<Longrightarrow> \<not> holds f (slots a t ! j)"
  shows "probed_ok hb a (occupy i fd fl vd vl t)"
    and "slots a (occupy i fd fl vd vl t) = (slots a t)[i := SOcc f v]"
    and "slot_map (slots a (occupy i fd fl vd vl t)) = (slot_map (slots a t))(f \<mapsto> v)"
    and "n_occ (slots a (occupy i fd fl vd vl t)) = n_occ (slots a t) + 1"
    and "n_tomb (slots a (occupy i fd fl vd vl t)) + of_bool (slots a t ! i = STomb) = n_tomb (slots a t)"
proof -
  let ?t = "occupy i fd fl vd vl t"
  show s: "slots a ?t = (slots a t)[i := SOcc f v]" using b(2) nb by (simp add: occupy_slots)
  have set: "set (st_buckets ?t) \<subseteq> insert nb (set (st_buckets t))"
    using set_update_subset_insert [of "st_buckets t" i nb] by (simp add: occupy_def nb)
  have "probing_ok (home hb t) ((slots a t)[i := SOcc f v])"
    using ok i r new by (intro probing_insert) (auto simp: probed_ok_def)
  moreover have "home hb ?t = home hb t" "st_bucket_count ?t = st_bucket_count t"
    "length (st_buckets ?t) = length (st_buckets t)"
    by (simp_all add: home_def occupy_def)
  ultimately show "probed_ok hb a ?t"
    using ok set b(1) by (auto simp: probed_ok_def s)
  show "slot_map (slots a ?t) = (slot_map (slots a t))(f \<mapsto> v)"
    unfolding s using probed_unique [OF ok] i new by (intro slot_map_insert) simp_all
  show "n_occ (slots a ?t) = n_occ (slots a t) + 1"
    using n_occ_update [of i "slots a t" "SOcc f v"] i by (simp add: s)
  show "n_tomb (slots a ?t) + of_bool (slots a t ! i = STomb) = n_tomb (slots a t)"
    using n_tomb_update [of i "slots a t" "SOcc f v"] i by (simp add: s)
qed

lemma occupy_counts:
  assumes "st_occupied t = int (n_occ (slots a t))" "st_tombstones t = int (n_tomb (slots a t))"
    and "i < length (st_buckets t)"
    and "n_occ (slots a (occupy i fd fl vd vl t)) = n_occ (slots a t) + 1"
    and "n_tomb (slots a (occupy i fd fl vd vl t)) + of_bool (slots a t ! i = STomb) = n_tomb (slots a t)"
  shows "st_occupied (occupy i fd fl vd vl t) = int (n_occ (slots a (occupy i fd fl vd vl t)))"
    and "st_tombstones (occupy i fd fl vd vl t) = int (n_tomb (slots a (occupy i fd fl vd vl t)))"
  using assms slot_of_cases(2) [of a "st_buckets t ! i"]
  by (auto simp: occupy_def slots_def split: if_splits)

section \<open>Rehashing keeps the fields\<close>

definition occupied_set :: "PgRedisSharedHashBucket list \<Rightarrow> PgRedisSharedHashBucket set" where
  "occupied_set bs = {b \<in> set bs. sb_state b = PG_REDIS_SHB_OCCUPIED}"

definition rehashing :: "hash_fn \<Rightarrow> dsa_area \<Rightarrow> PgRedisSharedHashTable \<Rightarrow> bool" where
  "rehashing hb a t \<longleftrightarrow> probed_ok hb a t \<and> n_tomb (slots a t) = 0 \<and> st_tombstones t = 0 \<and>
     st_occupied t = int (n_occ (slots a t))"

lemma occupied_set_occupy:
  assumes "i < length (st_buckets t)" "\<not> is_occ (slots a t ! i)"
    and "nb = \<lparr>sb_state = PG_REDIS_SHB_OCCUPIED, sb_field_len = fl, sb_value_len = vl, sb_field_dsa = fd, sb_value_dsa = vd\<rparr>"
  shows "occupied_set (st_buckets (occupy i fd fl vd vl t)) = insert nb (occupied_set (st_buckets t))"
proof -
  have ni: "sb_state (st_buckets t ! i) \<noteq> PG_REDIS_SHB_OCCUPIED"
    using assms(1,2) slot_of_cases(3) [of a "st_buckets t ! i"] by (simp add: slots_def)
  have "b \<in> occupied_set ((st_buckets t)[i := nb]) \<longleftrightarrow> b = nb \<or> b \<in> occupied_set (st_buckets t)" for b
  proof
    assume "b \<in> occupied_set ((st_buckets t)[i := nb])"
    then show "b = nb \<or> b \<in> occupied_set (st_buckets t)"
      using set_update_subset_insert [of "st_buckets t" i nb] by (auto simp: occupied_set_def)
  next
    assume b: "b = nb \<or> b \<in> occupied_set (st_buckets t)"
    show "b \<in> occupied_set ((st_buckets t)[i := nb])"
    proof (cases "b = nb")
      case True
      then show ?thesis using assms(1,3) by (simp add: occupied_set_def set_update_memI)
    next
      case False
      then obtain j where j: "j < length (st_buckets t)" "st_buckets t ! j = b" "sb_state b = PG_REDIS_SHB_OCCUPIED"
        using b by (auto simp: occupied_set_def in_set_conv_nth)
      then have "((st_buckets t)[i := nb]) ! j = b" using ni by (metis nth_list_update_neq)
      then show ?thesis using j by (auto simp: occupied_set_def in_set_conv_nth)
    qed
  qed
  then show ?thesis using assms(3) by (auto simp: occupy_def)
qed

lemma unique_Cons:
  assumes "unique_keys (s # ss)"
  shows "unique_keys ss" "s = SOcc k v \<Longrightarrow> j < length ss \<Longrightarrow> \<not> holds k (ss ! j)"
proof -
  show "unique_keys ss"
    unfolding unique_keys_def
  proof (intro allI impI)
    fix i j k v w
    assume "i < length ss" "j < length ss" "ss ! i = SOcc k v" "ss ! j = SOcc k w"
    then show "i = j" using unique_keysD [OF assms, of "Suc i" "Suc j" k v w] by simp
  qed
  show "\<not> holds k (ss ! j)" if "s = SOcc k v" "j < length ss"
    using unique_keysD [OF assms, of 0 "Suc j" k v] that by (auto simp: holds_iff)
qed

lemma rehash_loop_ok:
  assumes "\<forall>b \<in> set bs. bucket_ok a b" "unique_keys (map (slot_of a) bs)"
    and "\<And>f v j. SOcc f v \<in> slot_of a ` set bs \<Longrightarrow> j < length (st_buckets t) \<Longrightarrow> \<not> holds f (slots a t ! j)"
    and "rehashing hb a t" "n_occ (slots a t) + n_occ (map (slot_of a) bs) < st_bucket_count t"
  shows "\<exists>t'. rehash_loop hb a bs t = (Inr (), t') \<and> rehashing hb a t' \<and>
    st_bucket_count t' = st_bucket_count t \<and>
    n_occ (slots a t') = n_occ (slots a t) + n_occ (map (slot_of a) bs) \<and>
    occupied_set (st_buckets t') = occupied_set (st_buckets t) \<union> occupied_set bs"
  using assms
proof (induction bs arbitrary: t)
  case Nil
  then show ?case by (simp add: n_occ_def occupied_set_def)
next
  case (Cons b bs)
  note uq = unique_Cons [OF Cons.prems(2) [simplified]]
  show ?case
  proof (cases "sb_state b = PG_REDIS_SHB_OCCUPIED")
    case False
    then have n: "n_occ (map (slot_of a) (b # bs)) = n_occ (map (slot_of a) bs)"
      "occupied_set (b # bs) = occupied_set bs"
      using slot_of_cases(3) [of a b] by (auto simp: n_occ_def occupied_set_def)
    have "\<not> holds f (slots a t ! j)" if "SOcc f v \<in> slot_of a ` set bs" "j < length (st_buckets t)" for f v j
      using Cons.prems(3) [of f v j] that by simp
    from Cons.IH [OF _ uq(1) this Cons.prems(4)] show ?thesis
      using Cons.prems(1,5) False by (simp add: n del: list.map)
  next
    case True
    define f v where "f = dsa_bytes a (sb_field_dsa b) (sb_field_len b)"
      and "v = dsa_bytes a (sb_value_dsa b) (sb_value_len b)"
    have sb: "slot_of a b = SOcc f v" using True by (simp add: slot_of_def f_def v_def)
    have b_eq: "b = \<lparr>sb_state = PG_REDIS_SHB_OCCUPIED, sb_field_len = sb_field_len b, sb_value_len = sb_value_len b,
        sb_field_dsa = sb_field_dsa b, sb_value_dsa = sb_value_dsa b\<rparr>"
      using True by simp
    have re: "probed_ok hb a t" "n_tomb (slots a t) = 0" "st_tombstones t = 0" "st_occupied t = int (n_occ (slots a t))"
      using Cons.prems(4) by (auto simp: rehashing_def)
    have occ: "n_occ (map (slot_of a) (b # bs)) = Suc (n_occ (map (slot_of a) bs))"
      using sb by (simp add: n_occ_def)
    have absent: "\<not> holds f (slots a t ! j)" if "j < length (st_buckets t)" for j
      using Cons.prems(3) [of f v j] sb that by simp
    have room: "n_occ (slots a t) + n_tomb (slots a t) < st_bucket_count t" using Cons.prems(5) re(2) by simp
    obtain i where i: "find_bucket hb a t f = Inr (False, i)" "i < length (st_buckets t)" "\<not> is_occ (slots a t ! i)"
      "reaches (slots a t) (home hb t f) i"
      using absent by (auto intro: find_bucket_correct [OF re(1) room, of f])
    let ?t = "occupy i (sb_field_dsa b) (sb_field_len b) (sb_value_dsa b) (sb_value_len b) t"
    have bok: "bucket_ok a b" using Cons.prems(1) by simp
    note o = occupy_ok [OF re(1) i(2,3) b_eq bok sb i(4) absent, simplified]
    have tomb: "slots a t ! i \<noteq> STomb" using o(5) re(2) by (auto simp: of_bool_def split: if_splits)
    have "rehashing hb a ?t"
      using o(1,5) occupy_counts [of t a i] re i(2) o(4) tomb by (simp add: rehashing_def)
    moreover have "\<not> holds g (slots a ?t ! j)"
      if g: "SOcc g w \<in> slot_of a ` set bs" "j < length (st_buckets ?t)" for g w j
    proof (cases "j = i")
      case True
      obtain m where "m < length bs" "slot_of a (bs ! m) = SOcc g w" using g(1) by (auto simp: in_set_conv_nth)
      then have "f \<noteq> g" using uq(2) [OF sb, of m] by auto
      then show ?thesis using True i(2) by (simp add: o(2))
    next
      case False
      then show ?thesis using Cons.prems(3) [of g w j] g by (simp add: o(2))
    qed
    moreover have "n_occ (slots a ?t) + n_occ (map (slot_of a) bs) < st_bucket_count ?t"
      using Cons.prems(5) occ o(4) by simp
    ultimately obtain t' where "rehash_loop hb a bs ?t = (Inr (), t')" "rehashing hb a t'"
      "st_bucket_count t' = st_bucket_count t" "n_occ (slots a t') = n_occ (slots a ?t) + n_occ (map (slot_of a) bs)"
      "occupied_set (st_buckets t') = occupied_set (st_buckets ?t) \<union> occupied_set bs"
      using Cons.IH [of ?t] Cons.prems(1) uq(1) by auto
    moreover have "insert_owned hb a (sb_field_dsa b) (sb_field_len b) (sb_value_dsa b) (sb_value_len b) t = Inr (True, ?t)"
      using i(1) by (simp add: insert_owned_def flip: f_def)
    moreover have "occupied_set (st_buckets ?t) = insert b (occupied_set (st_buckets t))"
      using occupied_set_occupy [OF i(2,3) b_eq] .
    ultimately show ?thesis using True occ o(4) by (auto simp: occupied_set_def)
  qed
qed

lemma table_ptrs_occupied: "table_ptrs t = \<Union> (bucket_ptrs ` occupied_set (st_buckets t))"
  by (auto simp: table_ptrs_def occupied_set_def bucket_ptrs_def split: if_splits)

lemma slot_map_occupied:
  assumes "unique_keys (slots a t)" "unique_keys (slots a t')"
    and "occupied_set (st_buckets t) = occupied_set (st_buckets t')"
  shows "slot_map (slots a t) = slot_map (slots a t')"
proof
  fix f
  have occ: "(\<exists>i < length (slots a u). slots a u ! i = SOcc f v) \<longleftrightarrow>
      (\<exists>b \<in> occupied_set (st_buckets u). slot_of a b = SOcc f v)" for u v
    using slot_of_cases(3) [of a] unfolding occupied_set_def slots_def
    by (force simp: in_set_conv_nth)
  have "slot_map (slots a t) f = Some v \<longleftrightarrow> slot_map (slots a t') f = Some v" for v
    using slot_map_Some_iff [OF assms(1)] slot_map_Some_iff [OF assms(2)] occ assms(3) by metis
  then show "slot_map (slots a t) f = slot_map (slots a t') f" by (metis not_Some_eq)
qed

lemma buckets_apart_occupied: "buckets_apart bs \<longleftrightarrow>
    (\<forall>b \<in> occupied_set bs. \<forall>c \<in> occupied_set bs. b \<noteq> c \<longrightarrow> bucket_ptrs b \<inter> bucket_ptrs c = {})"
  unfolding buckets_apart_def occupied_set_def bucket_ptrs_def by auto

definition fresh_table :: "nat \<Rightarrow> PgRedisSharedHashTable" where
  "fresh_table bc = \<lparr>st_bucket_count = bc, st_occupied = 0, st_tombstones = 0, st_buckets = replicate bc empty_bucket\<rparr>"

lemma fresh_table_size [simp]: "st_bucket_count (fresh_table bc) = bc" "length (st_buckets (fresh_table bc)) = bc"
  by (simp_all add: fresh_table_def)

lemma slots_fresh: "slots a (fresh_table bc) = replicate bc SEmpty"
  by (simp add: slots_def fresh_table_def slot_of_def empty_bucket_def)

lemma fresh_table_ok:
  assumes "bc = 2 ^ n" "4 \<le> n"
  shows "table_ok hb a (fresh_table bc)" "rehashing hb a (fresh_table bc)"
    "n_occ (slots a (fresh_table bc)) = 0" "occupied_set (st_buckets (fresh_table bc)) = {}"
proof -
  have n: "n_occ (slots a (fresh_table bc)) = 0" "n_tomb (slots a (fresh_table bc)) = 0"
    by (simp_all add: slots_fresh n_occ_def n_tomb_def)
  have p: "probing_ok h (slots a (fresh_table bc))" for h
    by (auto simp: probing_ok_def unique_keys_def slots_fresh)
  have f: "st_bucket_count (fresh_table bc) = bc" "length (st_buckets (fresh_table bc)) = bc"
    "\<forall>b \<in> set (st_buckets (fresh_table bc)). bucket_ok a b" "buckets_apart (st_buckets (fresh_table bc))"
    "st_occupied (fresh_table bc) = 0" "st_tombstones (fresh_table bc) = 0"
    by (auto simp: fresh_table_def bucket_ok_def empty_bucket_def buckets_apart_def bucket_ptrs_def)
  show "occupied_set (st_buckets (fresh_table bc)) = {}"
    by (auto simp: fresh_table_def occupied_set_def empty_bucket_def)
  show "table_ok hb a (fresh_table bc)" using assms n p f by (auto simp: table_ok_def)
  show "rehashing hb a (fresh_table bc)" using assms n p f by (auto simp: rehashing_def probed_ok_def)
  show "n_occ (slots a (fresh_table bc)) = 0" by (rule n)
qed

lemma alloc_table_cases:
  assumes "dsa_alloc_ok al" "alloc_table al bc a = (p, a')"
  obtains "p = 0" "a' = a"
  | "p \<noteq> 0" "hash_find a p = None" "\<And>q. hash_find a' q = (if q = p then Some (HashTable (fresh_table bc)) else hash_find a q)"
proof -
  obtain p0 a0 where pa: "pg_redis_shared_palloc al (table_alloc_size bc) a = (p0, a0)" by force
  show thesis
    by (rule palloc_cases [OF assms(1) pa])
      (use assms(2) pa that in \<open>auto simp: alloc_table_def fresh_table_def\<close>)
qed

lemma table_at_find: "hash_find a p = Some (HashTable t) \<Longrightarrow> p \<noteq> 0 \<Longrightarrow> table_at a p = t"
  by (simp add: table_at_def pg_redis_shared_addr_def)

text \<open>Moving the buckets to a fresh table: either nothing happens, or the new table stands for the same fields.\<close>

definition rehashed ::
    "hash_fn \<Rightarrow> dsa_area \<Rightarrow> dsa_pointer \<Rightarrow> PgRedisSharedHashTable \<Rightarrow> nat \<Rightarrow> dsa_area \<Rightarrow> dsa_pointer \<Rightarrow>
     PgRedisSharedHashTable \<Rightarrow> bool" where
  "rehashed hb a p t bc a' p' t' \<longleftrightarrow>
     p' \<noteq> 0 \<and> hash_find a' p' = Some (HashTable t') \<and> table_ok hb a' t' \<and> st_bucket_count t' = bc \<and>
     slot_map (slots a' t') = slot_map (slots a t) \<and>
     n_occ (slots a' t') = n_occ (slots a t) \<and> n_tomb (slots a' t') = 0 \<and>
     dsa_frame a (insert p (table_ptrs t)) a' (insert p' (table_ptrs t'))"

lemma rehash_table_ok:
  assumes al: "dsa_alloc_ok al" and t: "hash_find a p = Some (HashTable t)" "p \<noteq> 0" "table_ok hb a t"
    and bc: "bc = 2 ^ n" "4 \<le> n" "n_occ (slots a t) * 10 \<le> 7 * bc"
  obtains "rehash_table hb al p bc a = (Inr 0, a)"
  | p' t' a' where "rehash_table hb al p bc a = (Inr p', a')" "rehashed hb a p t bc a' p' t'"
proof -
  obtain p' a1 where at: "alloc_table al bc a = (p', a1)" by force
  show thesis
  proof (rule alloc_table_cases [OF al at])
    assume "p' = 0" "a1 = a"
    then show thesis using at that(1) by (simp add: rehash_table_def)
  next
    assume p': "p' \<noteq> 0" "hash_find a p' = None"
      and a1: "hash_find a1 q = (if q = p' then Some (HashTable (fresh_table bc)) else hash_find a q)" for q
    have old: "q \<noteq> p'" if "q \<in> table_ptrs t" for q
      using table_ptrs_Raw(2) [OF t(3) that] p'(2) by auto
    have ne: "p \<noteq> p'" using t(1) p'(2) by auto
    have c1: "slots a1 t = slots a t" "table_ok hb a1 t"
      using table_cong [of t a1 a] old a1 t(3) by simp_all
    have at1: "table_at a1 p = t" "table_at a1 p' = fresh_table bc"
      using t p'(1) a1 ne by (simp_all add: table_at_find)
    note fr = fresh_table_ok [OF bc(1,2)]
    have sz: "16 \<le> bc" using table_ok_size [OF fr(1)] by (simp add: fresh_table_def)
    obtain t' where rl: "rehash_loop hb a1 (st_buckets t) (fresh_table bc) = (Inr (), t')" "rehashing hb a1 t'"
      "st_bucket_count t' = bc" "n_occ (slots a1 t') = n_occ (slots a t)"
      "occupied_set (st_buckets t') = occupied_set (st_buckets t)"
    proof -
      have s1: "map (slot_of a1) (st_buckets t) = slots a t" using c1(1) by (simp only: slots_def)
      have "\<forall>b \<in> set (st_buckets t). bucket_ok a1 b" using c1(2) by (simp add: table_ok_def)
      moreover have "unique_keys (map (slot_of a1) (st_buckets t))"
        using probed_unique [OF table_ok_probed [OF c1(2)]] by (simp add: slots_def)
      moreover have "\<not> holds f (slots a1 (fresh_table bc) ! j)" if "j < length (st_buckets (fresh_table bc))" for f j
        using that by (simp add: slots_fresh)
      moreover have "n_occ (slots a1 (fresh_table bc)) + n_occ (map (slot_of a1) (st_buckets t)) < st_bucket_count (fresh_table bc)"
        using bc(3) sz fr(3) by (simp add: s1)
      ultimately show thesis
        using rehash_loop_ok [of "st_buckets t" a1 "fresh_table bc" hb] fr(2-4) that by (auto simp: s1)
    qed
    have ptrs: "table_ptrs t' = table_ptrs t" using rl(5) by (simp add: table_ptrs_occupied)
    define a2 where "a2 = pg_redis_shared_pfree p (dsa_write p' (HashTable t') a1)"
    have a2: "hash_find a2 q = (if q = p then None else if q = p' then Some (HashTable t') else hash_find a q)" for q
      using t(2) a1 ne by (simp add: a2_def)
    have pr: "q \<noteq> p" if "q \<in> table_ptrs t" for q using table_ptrs_Raw(2) [OF t(3) that] t(1) by auto
    have c2: "slots a2 t' = slots a1 t'" "probed_ok hb a2 t' = probed_ok hb a1 t'"
      using table_cong [of t' a2 a1] ptrs old pr a1 a2 by simp_all
    have "buckets_apart (st_buckets t')"
      using t(3) rl(5) by (simp add: buckets_apart_occupied table_ok_def)
    then have ok: "table_ok hb a2 t'"
      using rl c2 bc by (auto simp: rehashing_def probed_ok_def table_ok_def home_def)
    have "unique_keys (slots a1 t')" "unique_keys (slots a1 t)"
      using rl(2) probed_unique table_ok_probed [OF c1(2)] by (auto simp: rehashing_def)
    from slot_map_occupied [OF this rl(5)] have "slot_map (slots a2 t') = slot_map (slots a t)"
      using c1 c2 by simp
    moreover have "dsa_frame a (insert p (table_ptrs t)) a2 (insert p' (table_ptrs t'))"
      using a2 ptrs p'(2) by (auto simp: dsa_frame_def)
    moreover have "n_tomb (slots a2 t') = 0" "hash_find a2 p' = Some (HashTable t')"
      using rl(2) c2 a2 ne by (simp_all add: rehashing_def)
    ultimately have "rehashed hb a p t bc a2 p' t'"
      using ok rl(3,4) p'(1) c2 by (simp add: rehashed_def)
    moreover have "rehash_table hb al p bc a = (Inr p', a2)"
      using at p'(1) at1 rl(1) by (simp add: rehash_table_def a2_def)
    ultimately show thesis using that(2) by blast
  qed
qed

section \<open>One bucket changes, the others stay\<close>

lemma apart_index:
  assumes "table_ok hb a t" "i < length (st_buckets t)" "j < length (st_buckets t)" "i \<noteq> j"
  shows "bucket_ptrs (st_buckets t ! i) \<inter> bucket_ptrs (st_buckets t ! j) = {}"
proof (cases "st_buckets t ! i = st_buckets t ! j")
  case True
  have "slots a t ! i = slots a t ! j" using True assms(2,3) by (simp add: slots_def)
  moreover have "unique_keys (slots a t)" using probed_unique [OF table_ok_probed [OF assms(1)]] .
  ultimately have "\<not> is_occ (slots a t ! i)"
    using unique_keysD [of "slots a t" i j] assms(2-4) by (auto simp: is_occ_iff)
  then show ?thesis using assms(2) slot_of_cases(3) [of a "st_buckets t ! i"] by (simp add: slots_def bucket_ptrs_def)
next
  case False
  then show ?thesis using assms by (simp add: table_ok_def buckets_apart_def)
qed

definition others_ptrs :: "PgRedisSharedHashBucket list \<Rightarrow> nat \<Rightarrow> dsa_pointer set" where
  "others_ptrs bs i = \<Union> {bucket_ptrs (bs ! j) | j. j < length bs \<and> j \<noteq> i}"

lemma others_ptrsI: "j < length bs \<Longrightarrow> j \<noteq> i \<Longrightarrow> q \<in> bucket_ptrs (bs ! j) \<Longrightarrow> q \<in> others_ptrs bs i"
  by (auto simp: others_ptrs_def)

lemma ptrs_update:
  assumes "i < length bs"
  shows "\<Union> (bucket_ptrs ` set (bs[i := nb])) = bucket_ptrs nb \<union> others_ptrs bs i"
proof -
  have "set (bs[i := nb]) = insert nb {bs ! j | j. j < length bs \<and> j \<noteq> i}"
  proof (intro set_eqI iffI)
    fix x assume "x \<in> set (bs[i := nb])"
    then obtain j where "j < length bs" "(bs[i := nb]) ! j = x" by (auto simp: in_set_conv_nth)
    then show "x \<in> insert nb {bs ! j | j. j < length bs \<and> j \<noteq> i}" using assms by (cases "j = i") auto
  next
    fix x assume "x \<in> insert nb {bs ! j | j. j < length bs \<and> j \<noteq> i}"
    then show "x \<in> set (bs[i := nb])"
      using assms set_update_memI [OF assms, of nb] by (fastforce simp: in_set_conv_nth)
  qed
  then show ?thesis by (auto simp: others_ptrs_def)
qed

lemma ptrs_split:
  assumes "i < length bs"
  shows "\<Union> (bucket_ptrs ` set bs) = bucket_ptrs (bs ! i) \<union> others_ptrs bs i"
  using ptrs_update [OF assms, of "bs ! i"] by simp

lemma apart_others:
  assumes "table_ok hb a t" "i < length (st_buckets t)"
  shows "bucket_ptrs (st_buckets t ! i) \<inter> others_ptrs (st_buckets t) i = {}"
  using apart_index [OF assms] by (fastforce simp: others_ptrs_def)

lemma update_bucket:
  assumes ok: "table_ok hb a t" and i: "i < length (st_buckets t)"
    and agree: "\<And>q. q \<in> others_ptrs (st_buckets t) i \<Longrightarrow> hash_find a' q = hash_find a q"
    and nb: "bucket_ok a' nb" "bucket_ptrs nb \<inter> others_ptrs (st_buckets t) i = {}"
  shows "map (slot_of a') ((st_buckets t)[i := nb]) = (slots a t)[i := slot_of a' nb]"
    and "\<forall>b \<in> set ((st_buckets t)[i := nb]). bucket_ok a' b"
    and "buckets_apart ((st_buckets t)[i := nb])"
proof -
  let ?bs = "st_buckets t"
  have other: "bucket_ok a' (?bs ! j)" "slot_of a' (?bs ! j) = slot_of a (?bs ! j)" if "j < length ?bs" "j \<noteq> i" for j
    using bucket_cong [of "?bs ! j" a' a] agree others_ptrsI [OF that] ok that by (auto simp: table_ok_def)
  show "map (slot_of a') (?bs[i := nb]) = (slots a t)[i := slot_of a' nb]"
  proof (rule nth_equalityI)
    fix j assume j: "j < length (map (slot_of a') (?bs[i := nb]))"
    then show "map (slot_of a') (?bs[i := nb]) ! j = (slots a t)[i := slot_of a' nb] ! j"
      using other by (cases "j = i") (simp_all add: slots_def)
  qed simp
  have mem: "x = nb \<or> (\<exists>j < length ?bs. j \<noteq> i \<and> x = ?bs ! j)" if "x \<in> set (?bs[i := nb])" for x
    using that i by (auto simp: in_set_conv_nth nth_list_update split: if_splits)
  show "\<forall>b \<in> set (?bs[i := nb]). bucket_ok a' b" using mem other nb(1) by blast
  show "buckets_apart (?bs[i := nb])"
    unfolding buckets_apart_def
  proof (intro ballI impI)
    fix b c assume bc: "b \<in> set (?bs[i := nb])" "c \<in> set (?bs[i := nb])" "b \<noteq> c"
    have in_others: "bucket_ptrs x \<subseteq> others_ptrs ?bs i" if "x \<in> set (?bs[i := nb])" "x \<noteq> nb" for x
      using mem [OF that(1)] that(2) others_ptrsI [of _ ?bs i] by blast
    show "bucket_ptrs b \<inter> bucket_ptrs c = {}"
    proof (cases "b = nb \<or> c = nb")
      case True
      then show ?thesis using nb(2) in_others bc by blast
    next
      case False
      then obtain j k where "j < length ?bs" "b = ?bs ! j" "k < length ?bs" "c = ?bs ! k"
        using mem [OF bc(1)] mem [OF bc(2)] by blast
      then show ?thesis using apart_index [OF ok, of j k] bc(3) by blast
    qed
  qed
qed

section \<open>Setting a field\<close>

lemma owned_table: "hash_find a p = Some (HashTable t) \<Longrightarrow> p \<noteq> 0 \<Longrightarrow> owned a p = insert p (table_ptrs t)"
  by (simp add: owned_def table_at_find table_ptrs_def)

lemma owned_0 [simp]: "owned a 0 = {}"
  by (simp add: owned_def)

lemma shared_map_table: "hash_find a p = Some (HashTable t) \<Longrightarrow> p \<noteq> 0 \<Longrightarrow> shared_map a p = slot_map (slots a t)"
  by (simp add: shared_map_def table_at_find)

lemma shared_map_0 [simp]: "shared_map a 0 = Map.empty"
  by (simp add: shared_map_def table_at_def pg_redis_shared_addr_def slots_def slot_map_def)

lemma shared_hash_ok_table: "hash_find a p = Some (HashTable t) \<Longrightarrow> table_ok hb a t \<Longrightarrow> shared_hash_ok hb a p"
  by (simp add: shared_hash_ok_def)

lemma slot_map_fresh: "slot_map (slots a (fresh_table bc)) = Map.empty"
proof -
  have "slot_entries (replicate n (SEmpty :: (bytes, bytes) slot)) = []" for n by (induction n) simp_all
  then show ?thesis by (simp add: slots_fresh slot_map_def)
qed

lemma table_ptrs_fresh: "table_ptrs (fresh_table bc) = {}"
  by (simp add: table_ptrs_occupied fresh_table_ok(4) fresh_table_def occupied_set_def empty_bucket_def)

text \<open>Before the write the table has room for one more field, whatever happened before.\<close>

definition has_spare :: "dsa_area \<Rightarrow> PgRedisSharedHashTable \<Rightarrow> bool" where
  "has_spare a t \<longleftrightarrow> (n_occ (slots a t) + n_tomb (slots a t) + 1) * 10 \<le> 7 * st_bucket_count t"

lemma grow_arith: "(\<not> int bc * 7 < (int x + int y + 1) * 10) \<longleftrightarrow> (x + y + 1) * 10 \<le> 7 * bc"
  by presburger

lemma should_grow_spare:
  assumes "table_ok hb a t"
  shows "\<not> should_grow (st_occupied t) (st_tombstones t) (st_bucket_count t) \<longleftrightarrow> has_spare a t"
proof -
  have "st_occupied t = int (n_occ (slots a t))" "st_tombstones t = int (n_tomb (slots a t))"
    using assms by (simp_all add: table_ok_def)
  then show ?thesis by (simp only: should_grow_def has_spare_def grow_arith)
qed

lemma prepare_table:
  assumes al: "dsa_alloc_ok al" and t: "hash_find a p = Some (HashTable t)" "p \<noteq> 0" "table_ok hb a t"
  obtains "hash_set_prepare hb al p a = (Inl OutOfSharedMemory, p, a)"
  | p' a' t' where "hash_set_prepare hb al p a = (Inr (), p', a')" "p' \<noteq> 0"
      "hash_find a' p' = Some (HashTable t')" "table_ok hb a' t'" "has_spare a' t'"
      "slot_map (slots a' t') = slot_map (slots a t)"
      "dsa_frame a (insert p (table_ptrs t)) a' (insert p' (table_ptrs t'))"
proof (cases "should_grow (st_occupied t) (st_tombstones t) (st_bucket_count t)")
  case False
  then show thesis
    using t should_grow_spare [OF t(3)]
    by (intro that(2) [of p a t]) (simp_all add: hash_set_prepare_def table_at_find)
next
  case True
  obtain n where n: "st_bucket_count t = 2 ^ n" "4 \<le> n" using t(3) by (auto simp: table_ok_def)
  have load: "n_occ (slots a t) * 10 \<le> 7 * st_bucket_count t" using table_ok_load [OF t(3)] by simp
  have bc: "st_bucket_count t * 2 = 2 ^ Suc n" "4 \<le> Suc n" "n_occ (slots a t) * 10 \<le> 7 * (st_bucket_count t * 2)"
    using n load by simp_all
  show thesis
  proof (rule rehash_table_ok [OF al t bc])
    assume "rehash_table hb al p (st_bucket_count t * 2) a = (Inr 0, a)"
    then show thesis using True t that(1) by (simp add: hash_set_prepare_def table_at_find)
  next
    fix p' t' a'
    assume r: "rehash_table hb al p (st_bucket_count t * 2) a = (Inr p', a')"
      "rehashed hb a p t (st_bucket_count t * 2) a' p' t'"
    have "has_spare a' t'"
      using r(2) load table_ok_size [OF t(3)] by (simp add: rehashed_def has_spare_def)
    then show thesis
      using True t r that(2) [of p' a' t'] by (simp add: hash_set_prepare_def table_at_find rehashed_def)
  qed
qed

lemma prepare_ok:
  assumes al: "dsa_alloc_ok al" and ok: "shared_hash_ok hb a p"
  obtains "hash_set_prepare hb al p a = (Inl OutOfSharedMemory, p, a)"
  | p' a' t' where "hash_set_prepare hb al p a = (Inr (), p', a')" "p' \<noteq> 0"
      "hash_find a' p' = Some (HashTable t')" "table_ok hb a' t'" "has_spare a' t'"
      "slot_map (slots a' t') = shared_map a p" "dsa_frame a (owned a p) a' (insert p' (table_ptrs t'))"
proof (cases "p = 0")
  case False
  then obtain t where t: "hash_find a p = Some (HashTable t)" "table_ok hb a t"
    using ok by (auto simp: shared_hash_ok_def)
  show thesis
    by (rule prepare_table [OF al t(1) False t(2)])
      (use that in \<open>simp_all add: owned_table [OF t(1) False] shared_map_table [OF t(1) False]\<close>)
next
  case True
  obtain p1 a1 where at: "alloc_table al PG_REDIS_SHARED_HASH_INIT_BUCKETS a = (p1, a1)" by force
  show thesis
  proof (rule alloc_table_cases [OF al at])
    assume "p1 = 0" "a1 = a"
    then show thesis using True at that(1) by (simp add: hash_set_prepare_def)
  next
    assume p1: "p1 \<noteq> 0" "hash_find a p1 = None"
      and a1: "hash_find a1 q = (if q = p1 then Some (HashTable (fresh_table PG_REDIS_SHARED_HASH_INIT_BUCKETS))
        else hash_find a q)" for q
    let ?t = "fresh_table PG_REDIS_SHARED_HASH_INIT_BUCKETS"
    have bc: "PG_REDIS_SHARED_HASH_INIT_BUCKETS = 2 ^ 4" "4 \<le> (4 :: nat)"
      by (simp_all add: PG_REDIS_SHARED_HASH_INIT_BUCKETS_def)
    have tok: "hash_find a1 p1 = Some (HashTable ?t)" "table_ok hb a1 ?t"
      using a1 fresh_table_ok(1) [OF bc] by simp_all
    have "n_tomb (slots a1 ?t) = 0" using fresh_table_ok(2) [OF bc] by (simp add: rehashing_def)
    then have sp: "has_spare a1 ?t"
      using fresh_table_ok(3) [OF bc] by (simp add: has_spare_def PG_REDIS_SHARED_HASH_INIT_BUCKETS_def)
    have "hash_set_prepare hb al p a = (Inr (), p1, a1)"
      using True at p1(1) tok sp should_grow_spare [OF tok(2)] by (simp add: hash_set_prepare_def table_at_find)
    moreover have "dsa_frame a (owned a p) a1 (insert p1 (table_ptrs ?t))"
      using True a1 p1(2) by (auto simp: dsa_frame_def table_ptrs_fresh)
    ultimately show thesis
      using that(2) [of p1 a1 ?t] True p1(1) tok sp slot_map_fresh by simp
  qed
qed

text \<open>A write through the table pointer changes no chunk of a bucket.\<close>

lemma write_table:
  assumes t: "hash_find a p = Some c" "\<And>bs. c \<noteq> Raw bs"
    and tab: "\<forall>b \<in> set (st_buckets t'). bucket_ok a b"
  shows "slots (dsa_write p c' a) t' = slots a t'" "table_ok hb (dsa_write p c' a) t' = table_ok hb a t'"
proof -
  have "hash_find (dsa_write p c' a) q = hash_find a q" if "q \<in> table_ptrs t'" for q
    using that tab bucket_ptrs_Raw(2) [of a _ q] t by (fastforce simp: table_ptrs_def)
  from table_cong [OF this] show "slots (dsa_write p c' a) t' = slots a t'"
    "table_ok hb (dsa_write p c' a) t' = table_ok hb a t'" by simp_all
qed

lemma holds_bucket:
  assumes "table_ok hb a t" "i < length (st_buckets t)" "holds f (slots a t ! i)"
  shows "sb_state (st_buckets t ! i) = PG_REDIS_SHB_OCCUPIED" "bucket_ok a (st_buckets t ! i)"
    "dsa_bytes a (sb_field_dsa (st_buckets t ! i)) (sb_field_len (st_buckets t ! i)) = f"
    "bucket_ptrs (st_buckets t ! i) = {sb_field_dsa (st_buckets t ! i)} \<union> ({sb_value_dsa (st_buckets t ! i)} - {0})"
    "\<exists>w. slots a t ! i = SOcc f w"
proof -
  show "\<exists>w. slots a t ! i = SOcc f w" using assms(3) by (simp add: holds_iff)
  then have sb: "\<exists>w. slot_of a (st_buckets t ! i) = SOcc f w" using assms(2) by (simp add: slots_def)
  then show occ: "sb_state (st_buckets t ! i) = PG_REDIS_SHB_OCCUPIED"
    using slot_of_cases(3) [of a "st_buckets t ! i"] by auto
  show "bucket_ok a (st_buckets t ! i)" using assms(1,2) by (simp add: table_ok_def)
  show "dsa_bytes a (sb_field_dsa (st_buckets t ! i)) (sb_field_len (st_buckets t ! i)) = f"
    using sb occ by (simp add: slot_of_def)
  show "bucket_ptrs (st_buckets t ! i) = {sb_field_dsa (st_buckets t ! i)} \<union> ({sb_value_dsa (st_buckets t ! i)} - {0})"
    using occ by (simp add: bucket_ptrs_def)
qed

lemma others_Raw:
  assumes "table_ok hb a t" "i < length (st_buckets t)" "q \<in> others_ptrs (st_buckets t) i"
  shows "q \<notin> bucket_ptrs (st_buckets t ! i)" "\<exists>bs. hash_find a q = Some (Raw bs)"
proof -
  show "q \<notin> bucket_ptrs (st_buckets t ! i)" using apart_others [OF assms(1,2)] assms(3) by auto
  have "q \<in> table_ptrs t" using assms(3) ptrs_split [OF assms(2)] by (auto simp: table_ptrs_def)
  from table_ptrs_Raw(2) [OF assms(1) this] show "\<exists>bs. hash_find a q = Some (Raw bs)" .
qed

text \<open>The bucket after an overwrite, and the segment in which the old value is freed.\<close>

lemma overwrite_bucket:
  assumes ok: "table_ok hb a t" and i: "i < length (st_buckets t)" "holds f (slots a t ! i)"
    and va: "value_area a v vp a1" and b: "b = st_buckets t ! i"
    and nb: "nb = b\<lparr>sb_value_dsa := vp, sb_value_len := length v\<rparr>"
    and a2: "a2 = pg_redis_shared_pfree (sb_value_dsa b) a1"
  shows "bucket_ok a2 nb" "slot_of a2 nb = SOcc f v" "bucket_ptrs nb = {sb_field_dsa b} \<union> ({vp} - {0})"
    "bucket_ptrs nb \<inter> others_ptrs (st_buckets t) i = {}"
    "\<And>q. q \<in> others_ptrs (st_buckets t) i \<Longrightarrow> hash_find a2 q = hash_find a q"
proof -
  note B = holds_bucket [OF ok i, folded b]
  note va = value_areaD [OF va]
  have find: "hash_find a2 q = (if sb_value_dsa b \<noteq> 0 \<and> q = sb_value_dsa b then None
      else if vp \<noteq> 0 \<and> q = vp then Some (Raw v) else hash_find a q)" for q
    by (simp add: a2 va(3))
  obtain fb where fb: "hash_find a (sb_field_dsa b) = Some (Raw fb)" "length fb = sb_field_len b"
    using B(1,2) by (auto simp: bucket_ok_def)
  have fd: "sb_field_dsa b \<noteq> 0" "sb_field_dsa b \<noteq> sb_value_dsa b" "sb_field_len b \<le> PG_REDIS_MAX_FIELD_SIZE"
    "sb_value_dsa b = 0 \<or> (\<exists>bs. hash_find a (sb_value_dsa b) = Some (Raw bs))"
    using B(1,2) by (auto simp: bucket_ok_def split: if_splits)
  have ne: "sb_field_dsa b \<noteq> vp \<or> vp = 0" "sb_value_dsa b \<noteq> vp \<or> vp = 0"
    using fb fd va(2) by auto
  have ff: "hash_find a2 (sb_field_dsa b) = Some (Raw fb)" using fb fd ne by (auto simp: find)
  have vf: "hash_find a2 vp = Some (Raw v)" if "vp \<noteq> 0" using ne(2) that by (auto simp: find)
  show "bucket_ok a2 nb"
    using B(1) fd(1,3) ne(1) ff fb(2) va(1) vf by (cases "vp = 0") (simp_all add: bucket_ok_def nb)
  have "dsa_bytes a2 (sb_field_dsa b) (sb_field_len b) = f"
    using B(3) ff fb fd(1) by (simp add: dsa_bytes_def pg_redis_shared_addr_def)
  then show "slot_of a2 nb = SOcc f v"
    using B(1) va(1) vf by (cases "vp = 0") (simp_all add: slot_of_def nb dsa_bytes_def pg_redis_shared_addr_def)
  show ptrs: "bucket_ptrs nb = {sb_field_dsa b} \<union> ({vp} - {0})" using B(1) by (simp add: bucket_ptrs_def nb)
  show "bucket_ptrs nb \<inter> others_ptrs (st_buckets t) i = {}"
    using others_Raw [OF ok i(1), folded b] va(2) by (fastforce simp: ptrs B(4))
  show "hash_find a2 q = hash_find a q" if "q \<in> others_ptrs (st_buckets t) i" for q
    using others_Raw [OF ok i(1) that, folded b] va(2) by (auto simp: find B(4))
qed

lemma overwrite_table:
  assumes ok: "table_ok hb a t" and i: "i < length (st_buckets t)" "holds f (slots a t ! i)"
    and s': "slots a2 t' = (slots a t)[i := SOcc f v]" and t': "t' = t\<lparr>st_buckets := bs\<rparr>" "length bs = length (st_buckets t)"
    and bs: "\<forall>b \<in> set bs. bucket_ok a2 b" "buckets_apart bs"
  shows "table_ok hb a2 t'" "slot_map (slots a2 t') = (slot_map (slots a t))(f \<mapsto> v)"
proof -
  have un: "unique_keys (slots a t)" "probing_ok (home hb t) (slots a t)"
    using table_ok_probed [OF ok] probed_unique by (auto simp: probed_ok_def)
  have only: "\<not> holds f (slots a t ! j)" if "j < length (slots a t)" "j \<noteq> i" for j
    using unique_keysD [OF un(1), of i j f] that i by (auto simp: holds_iff)
  have "reaches (slots a t) (home hb t f) i" using un(2) i by (auto simp: probing_ok_def holds_iff)
  then have "probing_ok (home hb t) (slots a2 t')"
    using probing_insert [OF un(2), of i f v] i(1) only by (simp add: s')
  moreover have "n_occ (slots a2 t') = n_occ (slots a t)" "n_tomb (slots a2 t') = n_tomb (slots a t)"
    using n_occ_update [of i "slots a t" "SOcc f v"] n_tomb_update [of i "slots a t" "SOcc f v"] i
    by (auto simp: s' holds_iff)
  ultimately show "table_ok hb a2 t'" using ok bs t' by (simp add: table_ok_def home_def)
  show "slot_map (slots a2 t') = (slot_map (slots a t))(f \<mapsto> v)"
    unfolding s' using i only by (intro slot_map_insert [OF un(1)]) simp_all
qed

lemma overwrite_ok:
  assumes al: "dsa_alloc_ok al" and t: "hash_find a p = Some (HashTable t)" "p \<noteq> 0" "table_ok hb a t"
    and i: "i < length (st_buckets t)" "holds f (slots a t ! i)" and v: "int (length v) \<le> UINT16_MAX"
  obtains "hash_set_overwrite al p i v a = (Inl OutOfSharedMemory, p, a)"
  | a' t' where "hash_set_overwrite al p i v a = (Inr False, p, a')" "hash_find a' p = Some (HashTable t')"
      "table_ok hb a' t'" "slot_map (slots a' t') = (slot_map (slots a t))(f \<mapsto> v)"
      "dsa_frame a (insert p (table_ptrs t)) a' (insert p (table_ptrs t'))"
proof -
  obtain vp a1 where av: "alloc_value al v a = (vp, a1)" by force
  show thesis
  proof (rule alloc_value_cases [OF al av])
    assume "v \<noteq> []" "vp = 0" "a1 = a"
    then show thesis using av that(1) by (simp add: hash_set_overwrite_def)
  next
    assume va: "value_area a v vp a1"
    define b where "b = st_buckets t ! i"
    define nb where "nb = b\<lparr>sb_value_dsa := vp, sb_value_len := length v\<rparr>"
    define t' where "t' = t\<lparr>st_buckets := (st_buckets t)[i := nb]\<rparr>"
    define a2 where "a2 = pg_redis_shared_pfree (sb_value_dsa b) a1"
    define a3 where "a3 = dsa_write p (HashTable t') a2"
    note B = holds_bucket [OF t(3) i, folded b_def] and V = value_areaD [OF va]
    note ob = overwrite_bucket [OF t(3) i va b_def nb_def a2_def]
    note u = update_bucket [OF t(3) i(1) ob(5,1,4)]
    have s': "slots a2 t' = (slots a t)[i := SOcc f v]" using u(1) ob(2) by (simp add: slots_def t'_def)
    note ot = overwrite_table [OF t(3) i s' t'_def _ u(2,3)]
    have p_ne: "p \<noteq> sb_value_dsa b \<or> sb_value_dsa b = 0" "p \<noteq> vp \<or> vp = 0"
      using B(1,2) t(1) V(2) by (auto simp: bucket_ok_def split: if_splits)
    have at2: "hash_find a2 p = Some (HashTable t)" using t(1) p_ne by (auto simp: a2_def V(3))
    have "slots a3 t' = slots a2 t'" "table_ok hb a3 t'"
      using write_table [OF at2, of t'] ot(1) by (auto simp: a3_def table_ok_def)
    moreover have "hash_set_overwrite al p i v a = (Inr False, p, a3)"
      using av V(1,3) t(1,2) p_ne(2) v
      by (auto simp: hash_set_overwrite_def Let_def table_at_find a3_def a2_def t'_def nb_def b_def to_uint16_id)
    moreover have "dsa_frame a (insert p (table_ptrs t)) a3 (insert p (table_ptrs t'))"
    proof -
      have "table_ptrs t = bucket_ptrs b \<union> others_ptrs (st_buckets t) i"
        "table_ptrs t' = bucket_ptrs nb \<union> others_ptrs (st_buckets t) i"
        using ptrs_split [OF i(1)] ptrs_update [OF i(1)] by (simp_all add: table_ptrs_def t'_def b_def)
      moreover have "sb_field_dsa b \<noteq> sb_value_dsa b" using B(1,2) by (simp add: bucket_ok_def)
      ultimately show ?thesis
        using V(2) others_Raw(1) [OF t(3) i(1), folded b_def]
        by (auto simp: dsa_frame_def a3_def a2_def V(3) B(4) ob(3))
    qed
    moreover have "hash_find a3 p = Some (HashTable t')" by (simp add: a3_def)
    ultimately show thesis using that(2) ot(2) by simp
  qed
qed

text \<open>Two fresh chunks for a new field; the table and its chunks are as before.\<close>

lemma insert_area:
  assumes al: "dsa_alloc_ok al" and ok: "hash_find a p = Some (HashTable t)" "table_ok hb a t"
    and fp: "hash_find a fp = None" "fp \<noteq> 0" and f: "length f \<le> PG_REDIS_MAX_FIELD_SIZE"
    and a1: "\<And>q. hash_find a1 q = (if q = fp then Some (Raw f) else hash_find a q)"
    and va: "value_area a1 v vp a2"
    and nb: "nb = \<lparr>sb_state = PG_REDIS_SHB_OCCUPIED, sb_field_len = length f, sb_value_len = length v,
        sb_field_dsa = fp, sb_value_dsa = vp\<rparr>"
  shows "hash_find a2 p = Some (HashTable t)" "table_ok hb a2 t" "slots a2 t = slots a t"
    "bucket_ok a2 nb" "slot_of a2 nb = SOcc f v" "bucket_ptrs nb = {fp} \<union> ({vp} - {0})"
    "\<And>q. q \<in> table_ptrs t \<Longrightarrow> q \<noteq> fp \<and> (q \<noteq> vp \<or> vp = 0)" "p \<noteq> fp" "p \<noteq> vp \<or> vp = 0"
    "\<And>q. hash_find a2 q = (if vp \<noteq> 0 \<and> q = vp then Some (Raw v) else if q = fp then Some (Raw f) else hash_find a q)"
proof -
  note V = value_areaD [OF va]
  show find: "hash_find a2 q = (if vp \<noteq> 0 \<and> q = vp then Some (Raw v) else if q = fp then Some (Raw f) else hash_find a q)" for q
    using V(3) a1 by simp
  have vf: "vp = 0 \<or> hash_find a vp = None \<and> vp \<noteq> fp" using V(2) a1 [of vp] by (auto split: if_splits)
  show fresh: "q \<noteq> fp \<and> (q \<noteq> vp \<or> vp = 0)" if "q \<in> table_ptrs t" for q
    using table_ptrs_Raw(2) [OF ok(2) that] fp(1) vf by auto
  show p: "p \<noteq> fp" "p \<noteq> vp \<or> vp = 0" using ok(1) fp(1) vf by auto
  then show "hash_find a2 p = Some (HashTable t)" using ok(1) by (auto simp: find)
  have same: "hash_find a2 q = hash_find a q" if "q \<in> table_ptrs t" for q using fresh [OF that] by (auto simp: find)
  from table_cong [OF same] show "table_ok hb a2 t" "slots a2 t = slots a t" using ok(2) by simp_all
  show "bucket_ok a2 nb" using fp(2) vf f V(1) by (auto simp: bucket_ok_def nb find)
  show "slot_of a2 nb = SOcc f v"
    using fp(2) vf V(1) by (auto simp: slot_of_def nb dsa_bytes_def pg_redis_shared_addr_def find)
  show "bucket_ptrs nb = {fp} \<union> ({vp} - {0})" by (simp add: bucket_ptrs_def nb)
qed

lemma field_len_uint16: "n \<le> PG_REDIS_MAX_FIELD_SIZE \<Longrightarrow> to_uint16 n = n"
  by (rule to_uint16_id) (simp add: PG_REDIS_MAX_FIELD_SIZE_def UINT16_MAX_def)

lemma insert_ok:
  assumes al: "dsa_alloc_ok al" and t: "hash_find a p = Some (HashTable t)" "p \<noteq> 0" "table_ok hb a t" "has_spare a t"
    and i: "i < length (st_buckets t)" "\<not> is_occ (slots a t ! i)" "reaches (slots a t) (home hb t f) i"
    and new: "\<And>j. j < length (st_buckets t) \<Longrightarrow> \<not> holds f (slots a t ! j)"
    and v: "int (length v) \<le> UINT16_MAX" "length f \<le> PG_REDIS_MAX_FIELD_SIZE"
  obtains a' where "hash_set_insert al p i f v a = (Inl OutOfSharedMemory, p, a')" "\<And>q. hash_find a' q = hash_find a q"
  | a' t' where "hash_set_insert al p i f v a = (Inr True, p, a')" "hash_find a' p = Some (HashTable t')"
      "table_ok hb a' t'" "slot_map (slots a' t') = (slot_map (slots a t))(f \<mapsto> v)"
      "dsa_frame a (insert p (table_ptrs t)) a' (insert p (table_ptrs t'))"
proof -
  obtain fp a0 where pa: "pg_redis_shared_palloc al (length f) a = (fp, a0)" by force
  define a1 where "a1 = dsa_write fp (Raw f) a0"
  obtain vp a2 where av: "alloc_value al v a1 = (vp, a2)" by force
  show thesis
  proof (rule palloc_cases [OF al pa])
    assume "fp = 0" "a0 = a"
    then show thesis using pa that(1) [of a] by (simp add: hash_set_insert_def)
  next
    assume fp: "fp \<noteq> 0" "hash_find a fp = None" and a0: "a0 = hash_enter a fp (Raw (replicate (length f) 0))"
    have a1: "hash_find a1 q = (if q = fp then Some (Raw f) else hash_find a q)" for q by (simp add: a1_def a0)
    show thesis
    proof (rule alloc_value_cases [OF al av])
      assume "v \<noteq> []" "vp = 0" "a2 = a1"
      then have "hash_set_insert al p i f v a = (Inl OutOfSharedMemory, p, pg_redis_shared_pfree fp a1)"
        using pa av fp by (simp add: hash_set_insert_def flip: a1_def)
      moreover have "hash_find (pg_redis_shared_pfree fp a1) q = hash_find a q" for q using fp a1 by simp
      ultimately show thesis using that(1) by blast
    next
      assume va: "value_area a1 v vp a2"
      define nb where "nb = \<lparr>sb_state = PG_REDIS_SHB_OCCUPIED, sb_field_len = length f, sb_value_len = length v,
        sb_field_dsa = fp, sb_value_dsa = vp\<rparr>"
      define t' where "t' = occupy i fp (length f) vp (length v) t"
      define a3 where "a3 = dsa_write p (HashTable t') a2"
      note ia = insert_area [OF al t(1,3) fp(2,1) v(2) a1 va nb_def]
      have "\<not> is_occ (slots a2 t ! i)" "reaches (slots a2 t) (home hb t f) i"
        "\<And>j. j < length (st_buckets t) \<Longrightarrow> \<not> holds f (slots a2 t ! j)"
        using i new ia(3) by simp_all
      note o = occupy_ok [OF table_ok_probed [OF ia(2)] i(1) this(1) nb_def ia(4,5) this(2,3), folded t'_def]
      have ptrs: "table_ptrs t' = bucket_ptrs nb \<union> table_ptrs t"
        using occupied_set_occupy [OF i(1,2) nb_def] by (simp add: t'_def table_ptrs_occupied)
      have ap: "buckets_apart (st_buckets t')"
        using t(3) ia(6,7) occupied_set_occupy [OF i(1,2) nb_def]
        by (fastforce simp: t'_def table_ok_def buckets_apart_occupied table_ptrs_occupied)
      have cnt: "st_occupied t' = int (n_occ (slots a2 t'))" "st_tombstones t' = int (n_tomb (slots a2 t'))"
        using occupy_counts [of t a2 i fp "length f" vp "length v"] ia(2) i(1) o(4,5)
        by (simp_all add: table_ok_def t'_def)
      have load: "(n_occ (slots a2 t') + n_tomb (slots a2 t')) * 10 \<le> 7 * st_bucket_count t'"
        using t(4) o(4,5) ia(3) by (simp add: has_spare_def t'_def)
      have ok2: "table_ok hb a2 t'"
        using o(1) ap cnt load by (simp add: table_ok_def probed_ok_def home_def)
      have "slots a3 t' = slots a2 t'" "table_ok hb a3 t'"
        using write_table [OF ia(1), of t'] ok2 by (auto simp: a3_def table_ok_def)
      moreover have "hash_set_insert al p i f v a = (Inr True, p, a3)"
        using pa av fp(1) value_areaD(1) [OF va] ia(1) t(2) v
        by (auto simp: hash_set_insert_def table_at_find a3_def t'_def to_uint16_id field_len_uint16 simp flip: a1_def)
      moreover have "dsa_frame a (insert p (table_ptrs t)) a3 (insert p (table_ptrs t'))"
        using value_areaD(2) [OF va] a1 [of vp] fp(2)
        by (auto simp: dsa_frame_def a3_def ia(10) ptrs ia(6) split: if_splits)
      moreover have "hash_find a3 p = Some (HashTable t')" by (simp add: a3_def)
      ultimately show thesis using that(2) o(3) ia(3) by simp
    qed
  qed
qed

text \<open>A segment matters only through what its pointers hold.\<close>

lemma area_cong:
  assumes "\<And>q. hash_find a' q = hash_find a q"
  shows "table_at a' p = table_at a p" "shared_map a' p = shared_map a p" "owned a' p = owned a p"
    "shared_hash_ok hb a' p = shared_hash_ok hb a p" "dsa_frame a O1 a' O1"
proof -
  show at: "table_at a' p = table_at a p" using assms by (simp add: table_at_def pg_redis_shared_addr_def)
  show "shared_map a' p = shared_map a p" using table_cong(1) [of _ a' a] assms by (simp add: shared_map_def at)
  show "owned a' p = owned a p" by (simp add: owned_def at)
  show "shared_hash_ok hb a' p = shared_hash_ok hb a p"
    using table_cong(2) [of _ a' a hb] assms by (simp add: shared_hash_ok_def)
  show "dsa_frame a O1 a' O1" using assms by (simp add: dsa_frame_def)
qed

definition set_outcome :: "(bytes \<Rightarrow> bytes option) \<Rightarrow> bytes \<Rightarrow> bytes \<Rightarrow> bool result \<Rightarrow> (bytes \<Rightarrow> bytes option) \<Rightarrow> bool" where
  "set_outcome m f v r m' \<longleftrightarrow>
     (case r of
        Inr new \<Rightarrow> int (length v) \<le> UINT16_MAX \<and> (new \<longleftrightarrow> m f = None) \<and> m' = m(f \<mapsto> v)
      | Inl err \<Rightarrow> m' = m \<and> (err = OutOfSharedMemory \<or> err = HashValueTooLong (length v) \<and> int (length v) > UINT16_MAX))"

lemma set_in_table:
  assumes al: "dsa_alloc_ok al" and t: "hash_find a p = Some (HashTable t)" "p \<noteq> 0" "table_ok hb a t" "has_spare a t"
    and v: "int (length v) \<le> UINT16_MAX" "length f \<le> PG_REDIS_MAX_FIELD_SIZE"
    and r: "(case find_bucket hb a (table_at a p) f of
                  Inl err \<Rightarrow> (Inl err, p, a)
                | Inr (True, idx) \<Rightarrow> hash_set_overwrite al p idx v a
                | Inr (False, idx) \<Rightarrow> hash_set_insert al p idx f v a) = (r, p', a')"
  shows "shared_hash_ok hb a' p' \<and> dsa_frame a (insert p (table_ptrs t)) a' (owned a' p') \<and>
    set_outcome (slot_map (slots a t)) f v r (shared_map a' p')"
proof (rule find_bucket_correct [OF table_ok_probed [OF t(3)] table_ok_room [OF t(3)], of f])
  fix i assume i: "find_bucket hb a t f = Inr (True, i)" "i < length (st_buckets t)" "holds f (slots a t ! i)"
  have some: "slot_map (slots a t) f \<noteq> None"
    using slot_map_None_iff [OF probed_unique [OF table_ok_probed [OF t(3)]]] i by auto
  show ?thesis
    by (rule overwrite_ok [OF al t(1-3) i(2,3) v(1)])
      (use r i(1) t some v in \<open>auto simp: table_at_find set_outcome_def owned_table shared_map_table intro: shared_hash_ok_table\<close>)
next
  fix i assume i: "find_bucket hb a t f = Inr (False, i)" "i < length (st_buckets t)" "\<not> is_occ (slots a t ! i)"
    "reaches (slots a t) (home hb t f) i" and new: "\<And>j. j < length (st_buckets t) \<Longrightarrow> \<not> holds f (slots a t ! j)"
  have none: "slot_map (slots a t) f = None"
    using slot_map_None_iff [OF probed_unique [OF table_ok_probed [OF t(3)]]] new by auto
  show ?thesis
  proof (rule insert_ok [OF al t i(2-4) new v])
    fix a1 assume "hash_set_insert al p i f v a = (Inl OutOfSharedMemory, p, a1)" and same: "\<And>q. hash_find a1 q = hash_find a q"
    then have "r = Inl OutOfSharedMemory" "p' = p" "a' = a1" using r i(1) t by (auto simp: table_at_find)
    then show ?thesis
      using area_cong [OF same] t by (simp add: set_outcome_def owned_table shared_map_table shared_hash_ok_table)
  next
    fix a1 t1
    assume "hash_set_insert al p i f v a = (Inr True, p, a1)" "hash_find a1 p = Some (HashTable t1)" "table_ok hb a1 t1"
      "slot_map (slots a1 t1) = (slot_map (slots a t))(f \<mapsto> v)"
      "dsa_frame a (insert p (table_ptrs t)) a1 (insert p (table_ptrs t1))"
    then show ?thesis
      using r i(1) t none v
      by (auto simp: table_at_find set_outcome_def owned_table shared_map_table intro: shared_hash_ok_table)
  qed
qed

lemma shared_hash_set_ok:
  assumes al: "dsa_alloc_ok al" and ok: "shared_hash_ok hb a p" and f: "length f \<le> PG_REDIS_MAX_FIELD_SIZE"
    and r: "pg_redis_shared_hash_set hb al p f v a = (r, p', a')"
  shows "shared_hash_ok hb a' p'" "dsa_frame a (owned a p) a' (owned a' p')"
    "set_outcome (shared_map a p) f v r (shared_map a' p')"
proof -
  have "shared_hash_ok hb a' p' \<and> dsa_frame a (owned a p) a' (owned a' p') \<and>
      set_outcome (shared_map a p) f v r (shared_map a' p')"
  proof (cases "int (length v) \<le> UINT16_MAX")
    case False
    then show ?thesis using r ok by (auto simp: pg_redis_shared_hash_set_def set_outcome_def)
  next
    case True
    show ?thesis
    proof (rule prepare_ok [OF al ok])
      assume "hash_set_prepare hb al p a = (Inl OutOfSharedMemory, p, a)"
      then show ?thesis using r ok True by (auto simp: pg_redis_shared_hash_set_def set_outcome_def)
    next
      fix p1 a1 t1
      assume p: "hash_set_prepare hb al p a = (Inr (), p1, a1)" "p1 \<noteq> 0" "hash_find a1 p1 = Some (HashTable t1)"
        "table_ok hb a1 t1" "has_spare a1 t1" "slot_map (slots a1 t1) = shared_map a p"
        "dsa_frame a (owned a p) a1 (insert p1 (table_ptrs t1))"
      have "(case find_bucket hb a1 (table_at a1 p1) f of
                  Inl err \<Rightarrow> (Inl err, p1, a1)
                | Inr (True, idx) \<Rightarrow> hash_set_overwrite al p1 idx v a1
                | Inr (False, idx) \<Rightarrow> hash_set_insert al p1 idx f v a1) = (r, p', a')"
        using r p(1) True by (simp add: pg_redis_shared_hash_set_def)
      from set_in_table [OF al p(3,2,4,5) True f this] show ?thesis
        using dsa_frame_trans [OF p(7)] p(6) by auto
    qed
  qed
  then show "shared_hash_ok hb a' p'" "dsa_frame a (owned a p) a' (owned a' p')"
    "set_outcome (shared_map a p) f v r (shared_map a' p')" by blast+
qed

section \<open>Reading a field\<close>

lemma find_bucket_map:
  assumes "hash_find a p = Some (HashTable t)" "p \<noteq> 0" "table_ok hb a t"
  obtains i where "find_bucket hb a t f = Inr (True, i)" "i < length (st_buckets t)"
      "holds f (slots a t ! i)" "shared_map a p f = Some (dsa_bytes a (sb_value_dsa (st_buckets t ! i)) (sb_value_len (st_buckets t ! i)))"
  | i where "find_bucket hb a t f = Inr (False, i)" "shared_map a p f = None"
proof (rule find_bucket_correct [OF table_ok_probed [OF assms(3)] table_ok_room [OF assms(3)], of f])
  have un: "unique_keys (slots a t)" using probed_unique [OF table_ok_probed [OF assms(3)]] .
  fix i assume i: "find_bucket hb a t f = Inr (True, i)" "i < length (st_buckets t)" "holds f (slots a t ! i)"
  then have "slot_of a (st_buckets t ! i) =
      SOcc f (dsa_bytes a (sb_value_dsa (st_buckets t ! i)) (sb_value_len (st_buckets t ! i)))"
    using holds_bucket(1,3) [OF assms(3) i(2,3)] by (simp add: slot_of_def)
  then have "slot_map (slots a t) f = Some (dsa_bytes a (sb_value_dsa (st_buckets t ! i)) (sb_value_len (st_buckets t ! i)))"
    unfolding slot_map_Some_iff [OF un] using i(2) by (intro exI [of _ i]) (simp add: slots_def)
  then show thesis using i that(1) assms by (simp add: shared_map_table)
next
  fix i assume "find_bucket hb a t f = Inr (False, i)" "\<And>j. j < length (st_buckets t) \<Longrightarrow> \<not> holds f (slots a t ! j)"
  then show thesis
    using that(2) slot_map_None_iff [OF probed_unique [OF table_ok_probed [OF assms(3)]]] assms
    by (simp add: shared_map_table)
qed

lemma occupied_0:
  assumes "table_ok hb a t" "st_occupied t = 0"
  shows "slot_map (slots a t) = Map.empty"
proof -
  have "filter is_occ (slots a t) = []" using assms by (simp add: table_ok_def n_occ_def)
  then have "SOcc k v \<notin> set (slots a t)" for k v by (auto simp: filter_empty_conv)
  then have "slot_entries (slots a t) = []" using set_slot_entries [of _ _ "slots a t"] by (metis ex_in_conv prod.exhaust set_empty)
  then show ?thesis by (simp add: slot_map_def)
qed

lemma shared_hash_get_ok:
  assumes "shared_hash_ok hb a p"
  shows "pg_redis_shared_hash_get hb p f a = Inr (shared_map a p f)"
    "pg_redis_shared_hash_exists hb p f a = Inr (shared_map a p f \<noteq> None)"
proof -
  have "pg_redis_shared_hash_get hb p f a = Inr (shared_map a p f) \<and>
      pg_redis_shared_hash_exists hb p f a = Inr (shared_map a p f \<noteq> None)"
  proof (cases "p = 0")
    case True
    then show ?thesis by (simp add: pg_redis_shared_hash_get_def pg_redis_shared_hash_exists_def)
  next
    case False
    then obtain t where t: "hash_find a p = Some (HashTable t)" "table_ok hb a t"
      using assms by (auto simp: shared_hash_ok_def)
    show ?thesis
    proof (cases "st_occupied t = 0")
      case True
      then show ?thesis
        using occupied_0 [OF t(2)] t False
        by (simp add: pg_redis_shared_hash_get_def pg_redis_shared_hash_exists_def table_at_find shared_map_table)
    next
      case occ: False
      show ?thesis
        by (rule find_bucket_map [OF t(1) False t(2), of f])
          (use occ t False in \<open>simp_all add: pg_redis_shared_hash_get_def pg_redis_shared_hash_exists_def table_at_find Let_def\<close>)
    qed
  qed
  then show "pg_redis_shared_hash_get hb p f a = Inr (shared_map a p f)"
    "pg_redis_shared_hash_exists hb p f a = Inr (shared_map a p f \<noteq> None)" by auto
qed

section \<open>Deleting a field\<close>

lemma tombstone_table:
  assumes ok: "table_ok hb a t" and i: "i < length (st_buckets t)" "holds f (slots a t ! i)"
    and t': "t' = tombstone i t" and agree: "\<And>q. q \<in> others_ptrs (st_buckets t) i \<Longrightarrow> hash_find a' q = hash_find a q"
  shows "table_ok hb a' t'" "slot_map (slots a' t') = (slot_map (slots a t))(f := None)"
    "table_ptrs t' = others_ptrs (st_buckets t) i"
proof -
  define nb where "nb = \<lparr>sb_state = PG_REDIS_SHB_TOMBSTONE, sb_field_len = 0, sb_value_len = 0, sb_field_dsa = 0, sb_value_dsa = 0\<rparr>"
  have bs': "st_buckets t' = (st_buckets t)[i := nb]" by (simp add: t' tombstone_def nb_def)
  have nb: "bucket_ok a' nb" "bucket_ptrs nb \<inter> others_ptrs (st_buckets t) i = {}" "slot_of a' nb = STomb" "bucket_ptrs nb = {}"
    by (simp_all add: nb_def bucket_ok_def bucket_ptrs_def slot_of_def)
  note u = update_bucket [OF ok i(1) agree nb(1,2)]
  have s': "slots a' t' = (slots a t)[i := STomb]" using u(1) nb(3) by (simp add: slots_def bs')
  obtain w where w: "slots a t ! i = SOcc f w" using i(2) by (auto simp: holds_iff)
  have pr: "probing_ok (home hb t) (slots a t)" using table_ok_probed [OF ok] by (simp add: probed_ok_def)
  from probing_delete [OF this, of i] have "probing_ok (home hb t) (slots a' t')" using i(1) by (simp add: s')
  moreover have "n_occ (slots a' t') + 1 = n_occ (slots a t)" "n_tomb (slots a' t') = n_tomb (slots a t) + 1"
    using n_occ_update [of i "slots a t" STomb] n_tomb_update [of i "slots a t" STomb] i(1) w by (simp_all add: s')
  ultimately show "table_ok hb a' t'"
    using ok u(2,3) by (auto simp: table_ok_def home_def bs' t' tombstone_def nb_def)
  show "slot_map (slots a' t') = (slot_map (slots a t))(f := None)"
    unfolding s' using slot_map_delete [OF pr _ w] i(1) by simp
  show "table_ptrs t' = others_ptrs (st_buckets t) i"
    using ptrs_update [OF i(1), of nb] nb(4) by (simp add: table_ptrs_def bs')
qed

lemma shrink_ok:
  assumes al: "dsa_alloc_ok al" and t: "hash_find a p = Some (HashTable t)" "p \<noteq> 0" "table_ok hb a t"
    and r: "hash_shrink hb al p a = (r, p', a')"
  shows "r = Inr True" "shared_hash_ok hb a' p'" "shared_map a' p' = slot_map (slots a t)"
    "dsa_frame a (insert p (table_ptrs t)) a' (owned a' p')"
proof -
  have "r = Inr True \<and> shared_hash_ok hb a' p' \<and> shared_map a' p' = slot_map (slots a t) \<and>
      dsa_frame a (insert p (table_ptrs t)) a' (owned a' p')"
  proof (cases "should_shrink (st_occupied t) (st_bucket_count t)")
    case False
    then show ?thesis
      using r t by (auto simp: hash_shrink_def Let_def table_at_find owned_table shared_map_table intro: shared_hash_ok_table)
  next
    case True
    obtain n where n: "st_bucket_count t = 2 ^ n" "4 \<le> n" using t(3) by (auto simp: table_ok_def)
    have sz: "16 < st_bucket_count t" "n_occ (slots a t) * 8 < st_bucket_count t"
      using True t(3) by (auto simp: should_shrink_def PG_REDIS_SHARED_HASH_INIT_BUCKETS_def table_ok_def)
    have "n \<noteq> 4" using sz(1) n(1) by auto
    then obtain k where k: "n = Suc k" "4 \<le> k" using n(2) by (cases n) auto
    then have half: "st_bucket_count t div 2 = 2 ^ k" using n(1) by simp
    have load: "n_occ (slots a t) * 10 \<le> 7 * (st_bucket_count t div 2)" using sz n(1) k by simp
    show ?thesis
    proof (rule rehash_table_ok [OF al t half k(2) load])
      assume "rehash_table hb al p (st_bucket_count t div 2) a = (Inr 0, a)"
      then show ?thesis
        using r t True
        by (auto simp: hash_shrink_def Let_def table_at_find owned_table shared_map_table intro: shared_hash_ok_table)
    next
      fix p1 t1 a1
      assume "rehash_table hb al p (st_bucket_count t div 2) a = (Inr p1, a1)"
        and R: "rehashed hb a p t (st_bucket_count t div 2) a1 p1 t1"
      then have "r = Inr True" "p' = p1" "a' = a1"
        using r t True by (auto simp: hash_shrink_def Let_def table_at_find rehashed_def)
      then show ?thesis
        using R by (auto simp: rehashed_def owned_table shared_map_table intro: shared_hash_ok_table)
    qed
  qed
  then show "r = Inr True" "shared_hash_ok hb a' p'" "shared_map a' p' = slot_map (slots a t)"
    "dsa_frame a (insert p (table_ptrs t)) a' (owned a' p')" by blast+
qed

lemma delete_in_table:
  assumes al: "dsa_alloc_ok al" and t: "hash_find a p = Some (HashTable t)" "p \<noteq> 0" "table_ok hb a t"
    and i: "i < length (st_buckets t)" "holds f (slots a t ! i)"
    and a1: "a1 = pg_redis_shared_pfree (sb_value_dsa (st_buckets t ! i)) (pg_redis_shared_pfree (sb_field_dsa (st_buckets t ! i)) a)"
    and r: "hash_shrink hb al p (dsa_write p (HashTable (tombstone i (table_at a1 p))) a1) = (r, p', a')"
  shows "r = Inr True" "shared_hash_ok hb a' p'" "shared_map a' p' = (slot_map (slots a t))(f := None)"
    "dsa_frame a (insert p (table_ptrs t)) a' (owned a' p')"
proof -
  let ?b = "st_buckets t ! i"
  note B = holds_bucket [OF t(3) i]
  define t1 where "t1 = tombstone i t"
  have fd: "sb_field_dsa ?b \<noteq> 0" using B(1,2) by (simp add: bucket_ok_def)
  have find: "hash_find a1 q = (if q \<in> bucket_ptrs ?b then None else hash_find a q)" for q
    using fd by (auto simp: a1 B(4))
  have p_ne: "p \<notin> bucket_ptrs ?b" using bucket_ptrs_Raw(2) [OF B(2), of p] t(1) by auto
  have at1: "hash_find a1 p = Some (HashTable t)" "table_at a1 p = t"
    using t p_ne find by (simp_all add: table_at_find)
  have agree: "hash_find a1 q = hash_find a q" if "q \<in> others_ptrs (st_buckets t) i" for q
    using others_Raw(1) [OF t(3) i(1) that] find by simp
  note tt = tombstone_table [OF t(3) i t1_def agree]
  define a2 where "a2 = dsa_write p (HashTable t1) a1"
  have w: "slots a2 t1 = slots a1 t1" "table_ok hb a2 t1"
    using write_table [OF at1(1), of t1] tt(1) by (auto simp: a2_def table_ok_def)
  have at2: "hash_find a2 p = Some (HashTable t1)" by (simp add: a2_def)
  have "hash_shrink hb al p a2 = (r, p', a')" using r at1(2) by (simp add: a2_def t1_def)
  note sh = shrink_ok [OF al at2 t(2) w(2) this]
  have "table_ptrs t = bucket_ptrs ?b \<union> others_ptrs (st_buckets t) i"
    using ptrs_split [OF i(1)] by (simp add: table_ptrs_def)
  then have fr: "dsa_frame a (insert p (table_ptrs t)) a2 (insert p (table_ptrs t1))"
    using others_Raw(1) [OF t(3) i(1)] by (auto simp: dsa_frame_def a2_def find tt(3))
  show "r = Inr True" "shared_hash_ok hb a' p'" by (fact sh)+
  show "shared_map a' p' = (slot_map (slots a t))(f := None)" using sh(3) w(1) tt(2) by simp
  show "dsa_frame a (insert p (table_ptrs t)) a' (owned a' p')" by (rule dsa_frame_trans [OF fr sh(4)])
qed

lemma shared_hash_del_ok:
  assumes al: "dsa_alloc_ok al" and ok: "shared_hash_ok hb a p"
    and r: "pg_redis_shared_hash_del hb al p f a = (r, p', a')"
  shows "r = Inr (shared_map a p f \<noteq> None)" "shared_hash_ok hb a' p'"
    "shared_map a' p' = (shared_map a p)(f := None)" "dsa_frame a (owned a p) a' (owned a' p')"
proof -
  have "r = Inr (shared_map a p f \<noteq> None) \<and> shared_hash_ok hb a' p' \<and>
      shared_map a' p' = (shared_map a p)(f := None) \<and> dsa_frame a (owned a p) a' (owned a' p')"
  proof (cases "p = 0 \<or> shared_map a p = Map.empty \<and> st_occupied (table_at a p) = 0")
    case True
    then show ?thesis using r ok by (auto simp: pg_redis_shared_hash_del_def)
  next
    case False
    then obtain t where t: "hash_find a p = Some (HashTable t)" "p \<noteq> 0" "table_ok hb a t"
      using ok by (auto simp: shared_hash_ok_def)
    then have occ: "st_occupied (table_at a p) \<noteq> 0"
      using False occupied_0 [OF t(3)] by (auto simp: table_at_find shared_map_table)
    show ?thesis
    proof (rule find_bucket_map [OF t, of f])
      fix i assume i: "find_bucket hb a t f = Inr (True, i)" "i < length (st_buckets t)" "holds f (slots a t ! i)"
        "shared_map a p f = Some (dsa_bytes a (sb_value_dsa (st_buckets t ! i)) (sb_value_len (st_buckets t ! i)))"
      define a1 where "a1 = pg_redis_shared_pfree (sb_value_dsa (st_buckets t ! i))
          (pg_redis_shared_pfree (sb_field_dsa (st_buckets t ! i)) a)"
      have "hash_shrink hb al p (dsa_write p (HashTable (tombstone i (table_at a1 p))) a1) = (r, p', a')"
        using r occ i(1) t by (simp add: pg_redis_shared_hash_del_def table_at_find Let_def a1_def)
      from delete_in_table [OF al t i(2,3) a1_def this] show ?thesis
        using i(4) t by (simp add: owned_table shared_map_table)
    next
      fix i assume "find_bucket hb a t f = Inr (False, i)" "shared_map a p f = None"
      then show ?thesis using r occ t ok by (auto simp: pg_redis_shared_hash_del_def table_at_find)
    qed
  qed
  then show "r = Inr (shared_map a p f \<noteq> None)" "shared_hash_ok hb a' p'"
    "shared_map a' p' = (shared_map a p)(f := None)" "dsa_frame a (owned a p) a' (owned a' p')" by blast+
qed

section \<open>Freeing and copying a table\<close>

lemma free_buckets_find:
  assumes "\<forall>b \<in> set bs. sb_state b = PG_REDIS_SHB_OCCUPIED \<longrightarrow> sb_field_dsa b \<noteq> 0"
  shows "hash_find (free_buckets bs a) q = (if q \<in> \<Union> (bucket_ptrs ` set bs) then None else hash_find a q)"
  using assms
proof (induction bs arbitrary: a)
  case (Cons b bs)
  have "hash_find (if sb_state b = PG_REDIS_SHB_OCCUPIED
        then pg_redis_shared_pfree (sb_value_dsa b) (pg_redis_shared_pfree (sb_field_dsa b) a) else a) q =
      (if q \<in> bucket_ptrs b then None else hash_find a q)"
    using Cons.prems by (simp add: bucket_ptrs_def)
  then show ?case using Cons by simp
qed simp

lemma shared_hash_free_ok:
  assumes "shared_hash_ok hb a p"
  shows "hash_find (pg_redis_shared_hash_free p a) q = (if q \<in> owned a p then None else hash_find a q)"
proof (cases "p = 0")
  case False
  then obtain t where t: "hash_find a p = Some (HashTable t)" "table_ok hb a t"
    using assms by (auto simp: shared_hash_ok_def)
  then have "\<forall>b \<in> set (st_buckets t). sb_state b = PG_REDIS_SHB_OCCUPIED \<longrightarrow> sb_field_dsa b \<noteq> 0"
    by (auto simp: table_ok_def bucket_ok_def)
  from free_buckets_find [OF this, of a] show ?thesis
    using False t by (simp add: pg_redis_shared_hash_free_def table_at_find owned_def)
qed (simp add: pg_redis_shared_hash_free_def)

lemma materialize_loop_ok:
  assumes "\<forall>b \<in> set bs. bucket_ok a b" "hash_ok h"
  shows "\<exists>h'. materialize_loop a bs h = Inr h' \<and> hash_ok h' \<and> h_tombstones h' = h_tombstones h \<and>
    hash_map h' = hash_map h ++ map_of (rev (slot_entries (map (slot_of a) bs)))"
  using assms
proof (induction bs arbitrary: h)
  case Nil
  then show ?case by simp
next
  case (Cons b bs)
  show ?case
  proof (cases "sb_state b = PG_REDIS_SHB_OCCUPIED")
    case False
    then have "slot_entries (map (slot_of a) (b # bs)) = slot_entries (map (slot_of a) bs)"
      by (cases "sb_state b") (simp_all add: slot_of_def)
    then show ?thesis using Cons False by auto
  next
    case True
    let ?f = "dsa_bytes a (sb_field_dsa b) (sb_field_len b)" and ?v = "dsa_bytes a (sb_value_dsa b) (sb_value_len b)"
    have b: "sb_field_len b \<le> PG_REDIS_MAX_FIELD_SIZE" "pg_redis_shared_addr (sb_field_dsa b) a \<noteq> None"
      using Cons.prems(1) True by (auto simp: bucket_ok_def pg_redis_shared_addr_def)
    then have "length ?f \<le> PG_REDIS_MAX_FIELD_SIZE" by (simp add: dsa_bytes_def)
    then obtain new h1 where s: "pg_redis_hash_set h ?f ?v = Inr (new, h1)"
      using session_hash.set_total [OF Cons.prems(2)] by blast
    have h1: "hash_ok h1" "hash_map h1 = (hash_map h)(?f \<mapsto> ?v)" "h_tombstones h1 = h_tombstones h"
      using session_hash.set_ok [OF Cons.prems(2) s] session_hash.set_map [OF Cons.prems(2) s] hash_set_cases [OF s]
      by (auto split: option.splits)
    obtain h' where "materialize_loop a bs h1 = Inr h'" "hash_ok h'" "h_tombstones h' = h_tombstones h1"
      "hash_map h' = hash_map h1 ++ map_of (rev (slot_entries (map (slot_of a) bs)))"
      using Cons.IH [OF _ h1(1)] Cons.prems(1) by auto
    moreover have "slot_of a b = SOcc ?f ?v" using True by (simp add: slot_of_def)
    ultimately show ?thesis using True b s h1 by auto
  qed
qed

lemma slot_map_rev:
  assumes "unique_keys ss"
  shows "map_of (rev (slot_entries ss)) = slot_map ss"
proof
  fix k
  have "map_of (rev (slot_entries ss)) k = Some v \<longleftrightarrow> slot_map ss k = Some v" for v
  proof
    assume "map_of (rev (slot_entries ss)) k = Some v"
    then have "SOcc k v \<in> set ss" using map_of_SomeD set_slot_entries by fastforce
    then show "slot_map ss k = Some v" by (auto simp: slot_map_Some_iff [OF assms] in_set_conv_nth)
  next
    assume v: "slot_map ss k = Some v"
    then have "(k, v) \<in> set (rev (slot_entries ss))" by (simp add: slot_map_def map_of_SomeD)
    then obtain w where w: "map_of (rev (slot_entries ss)) k = Some w" by (meson weak_map_of_SomeI)
    then have "SOcc k w \<in> set ss" using map_of_SomeD set_slot_entries by fastforce
    then have "slot_map ss k = Some w" by (auto simp: slot_map_Some_iff [OF assms] in_set_conv_nth)
    then show "map_of (rev (slot_entries ss)) k = Some v" using v w by simp
  qed
  then show "map_of (rev (slot_entries ss)) k = slot_map ss k" by (metis not_Some_eq)
qed

lemma create_tombstones: "h_tombstones pg_redis_hash_create = []"
  by (simp add: pg_redis_hash_create_def)

lemma shared_hash_materialize_ok:
  assumes "shared_hash_ok hb a p"
  shows "\<exists>r. pg_redis_shared_hash_materialize p a = Inr r \<and>
    (case r of None \<Rightarrow> shared_map a p = Map.empty
     | Some h \<Rightarrow> hash_ok h \<and> hash_map h = shared_map a p \<and> h_tombstones h = [])"
proof (cases "p = 0 \<or> st_occupied (table_at a p) = 0")
  case True
  have "shared_map a p = Map.empty"
  proof (cases "p = 0")
    case False
    then obtain t where "hash_find a p = Some (HashTable t)" "table_ok hb a t" "st_occupied t = 0"
      using assms True by (auto simp: shared_hash_ok_def table_at_find)
    then show ?thesis using False occupied_0 by (simp add: shared_map_table)
  qed simp
  then show ?thesis using True by (auto simp: pg_redis_shared_hash_materialize_def)
next
  case False
  then obtain t where t: "hash_find a p = Some (HashTable t)" "p \<noteq> 0" "table_ok hb a t"
    using assms by (auto simp: shared_hash_ok_def)
  obtain h where h: "materialize_loop a (st_buckets t) pg_redis_hash_create = Inr h" "hash_ok h" "h_tombstones h = []"
    "hash_map h = hash_map pg_redis_hash_create ++ map_of (rev (slot_entries (slots a t)))"
    using materialize_loop_ok [OF _ hash_ok_create, of "st_buckets t" a] t(3)
    by (auto simp: table_ok_def slots_def create_tombstones)
  have "hash_map pg_redis_hash_create = Map.empty"
    by (simp add: fun_eq_iff hash_map_def pg_redis_hash_create_def)
  then have "hash_map h = shared_map a p"
    using h(4) slot_map_rev [OF probed_unique [OF table_ok_probed [OF t(3)]]] t by (simp add: shared_map_table)
  then show ?thesis using h False t by (simp add: pg_redis_shared_hash_materialize_def table_at_find)
qed

section \<open>The shared table implements the field-map contract\<close>

text \<open>
  The clients check the field length before they call (\<open>pg_redis_check_field_len\<close>); behind that check
  the table is a field map over the pair of table pointer and segment.
\<close>

definition checked_set ::
    "hash_fn \<Rightarrow> allocator \<Rightarrow> dsa_pointer \<times> dsa_area \<Rightarrow> bytes \<Rightarrow> bytes \<Rightarrow> (bool \<times> (dsa_pointer \<times> dsa_area)) result" where
  "checked_set hb al h f v =
     (case pg_redis_check_field_len (length f) of
        Inl err \<Rightarrow> Inl err
      | Inr _ \<Rightarrow>
          (case pg_redis_shared_hash_set hb al (fst h) f v (snd h) of
             (Inl err, _) \<Rightarrow> Inl err
           | (Inr new, h') \<Rightarrow> Inr (new, h')))"

definition read_field :: "hash_fn \<Rightarrow> dsa_pointer \<times> dsa_area \<Rightarrow> bytes \<Rightarrow> bytes option" where
  "read_field hb h f = (case pg_redis_shared_hash_get hb (fst h) f (snd h) of Inl _ \<Rightarrow> None | Inr r \<Rightarrow> r)"

definition drop_field :: "hash_fn \<Rightarrow> allocator \<Rightarrow> dsa_pointer \<times> dsa_area \<Rightarrow> bytes \<Rightarrow> bool \<times> (dsa_pointer \<times> dsa_area)" where
  "drop_field hb al h f =
     (case pg_redis_shared_hash_del hb al (fst h) f (snd h) of
        (Inl _, h') \<Rightarrow> (False, h')
      | (Inr b, h') \<Rightarrow> (b, h'))"

lemma checked_set_Inr:
  assumes "dsa_alloc_ok al" "shared_hash_ok hb (snd h) (fst h)" "checked_set hb al h f v = Inr (new, h')"
  shows "shared_hash_ok hb (snd h') (fst h')" "shared_map (snd h') (fst h') = (shared_map (snd h) (fst h))(f \<mapsto> v)"
    "new \<longleftrightarrow> shared_map (snd h) (fst h) f = None"
proof -
  have f: "length f \<le> PG_REDIS_MAX_FIELD_SIZE"
    and s: "pg_redis_shared_hash_set hb al (fst h) f v (snd h) = (Inr new, fst h', snd h')"
    using assms(3)
    by (auto simp: checked_set_def pg_redis_check_field_len_def split: if_splits sum.splits prod.splits)
  from shared_hash_set_ok [OF assms(1,2) f s] show "shared_hash_ok hb (snd h') (fst h')"
    "shared_map (snd h') (fst h') = (shared_map (snd h) (fst h))(f \<mapsto> v)" "new \<longleftrightarrow> shared_map (snd h) (fst h) f = None"
    by (simp_all add: set_outcome_def)
qed

interpretation shared_hash: field_map "checked_set hb al" "read_field hb" "drop_field hb al"
    "\<lambda>h. shared_map (snd h) (fst h)" "\<lambda>h. dsa_alloc_ok al \<and> shared_hash_ok hb (snd h) (fst h)" for hb al
proof unfold_locales
  fix h f v new h'
  assume ok: "dsa_alloc_ok al \<and> shared_hash_ok hb (snd h) (fst h)" and s: "checked_set hb al h f v = Inr (new, h')"
  from checked_set_Inr [OF _ _ s] ok show "dsa_alloc_ok al \<and> shared_hash_ok hb (snd h') (fst h')"
    "shared_map (snd h') (fst h') = (shared_map (snd h) (fst h))(f \<mapsto> v)" "new \<longleftrightarrow> shared_map (snd h) (fst h) f = None"
    by auto
next
  fix h f
  assume ok: "dsa_alloc_ok al \<and> shared_hash_ok hb (snd h) (fst h)"
  then show "read_field hb h f = shared_map (snd h) (fst h) f"
    using shared_hash_get_ok(1) [of hb "snd h" "fst h" f] by (simp add: read_field_def)
  obtain r p' a' where d: "pg_redis_shared_hash_del hb al (fst h) f (snd h) = (r, p', a')" by (metis prod_cases3)
  note D = shared_hash_del_ok [OF conjunct1 [OF ok] conjunct2 [OF ok] d]
  have df: "drop_field hb al h f = (shared_map (snd h) (fst h) f \<noteq> None, p', a')"
    using d D(1) by (simp add: drop_field_def)
  show "dsa_alloc_ok al \<and> shared_hash_ok hb (snd (snd (drop_field hb al h f))) (fst (snd (drop_field hb al h f)))"
    "shared_map (snd (snd (drop_field hb al h f))) (fst (snd (drop_field hb al h f))) = (shared_map (snd h) (fst h))(f := None)"
    "fst (drop_field hb al h f) \<longleftrightarrow> shared_map (snd h) (fst h) f \<noteq> None"
    using ok D df by simp_all
qed

section \<open>Properties\<close>

text \<open>
  C14: \<open>HSET\<close> on the shared table, growth and rehashing included: on success the table has the field
  with its value and every other field as before, and the answer tells whether the field is new; when
  it raises (out of shared memory, value too long) the fields are as before. In both cases the table
  invariant holds and no chunk leaks, dangles or is taken from another owner.
\<close>

theorem shared_hash_set_refines:
  assumes "dsa_alloc_ok al" "shared_hash_ok hb a p" "length f \<le> PG_REDIS_MAX_FIELD_SIZE"
    and "pg_redis_shared_hash_set hb al p f v a = (r, p', a')"
  shows "shared_hash_ok hb a' p' \<and> dsa_frame a (owned a p) a' (owned a' p') \<and>
    (case r of
       Inr new \<Rightarrow> (new \<longleftrightarrow> shared_map a p f = None) \<and> shared_map a' p' = (shared_map a p)(f \<mapsto> v)
     | Inl err \<Rightarrow> shared_map a' p' = shared_map a p \<and> (err = OutOfSharedMemory \<or> err = HashValueTooLong (length v)))"
  using shared_hash_set_ok [OF assms] by (auto simp: set_outcome_def split: sum.splits)

theorem shared_hash_set_refines_witness:
  "\<exists>p a. pg_redis_shared_hash_set (\<lambda>_. 5) (bump_alloc 10) 0 [1] [7] [] = (Inr True, p, a) \<and>
     shared_hash_ok (\<lambda>_. 5) a p \<and> shared_map a p = [[1] \<mapsto> [7]]"
proof -
  obtain r p a where s: "pg_redis_shared_hash_set (\<lambda>_. 5) (bump_alloc 10) 0 [1] [7] [] = (r, p, a)"
    by (metis prod_cases3)
  moreover have "fst (pg_redis_shared_hash_set (\<lambda>_. 5) (bump_alloc 10) 0 [1] [7] []) = Inr True" by code_simp
  moreover have "shared_hash_ok (\<lambda>_. 5) [] 0" "length [1 :: byte] \<le> PG_REDIS_MAX_FIELD_SIZE"
    by (simp_all add: shared_hash_ok_def PG_REDIS_MAX_FIELD_SIZE_def)
  from shared_hash_set_refines [OF bump_alloc_ok this s] calculation show ?thesis by auto
qed

text \<open>
  C15: \<open>HDEL\<close> on the shared table, shrinking included, removes exactly the field, tells whether it was
  there, never raises, keeps the table invariant and frees exactly the chunks it gives up.
\<close>

theorem shared_hash_del_refines:
  assumes "dsa_alloc_ok al" "shared_hash_ok hb a p" "pg_redis_shared_hash_del hb al p f a = (r, p', a')"
  shows "r = Inr (shared_map a p f \<noteq> None) \<and> shared_map a' p' = (shared_map a p)(f := None) \<and>
    shared_hash_ok hb a' p' \<and> dsa_frame a (owned a p) a' (owned a' p')"
  using shared_hash_del_ok [OF assms] by blast

theorem shared_hash_del_refines_witness:
  "\<exists>p a. pg_redis_shared_hash_del (\<lambda>_. 5) (bump_alloc 10) 0 [1] [] = (Inr False, p, a) \<and> shared_map a p = Map.empty"
proof -
  have ok: "shared_hash_ok (\<lambda>_. 5) [] 0" by (simp add: shared_hash_ok_def)
  have d: "pg_redis_shared_hash_del (\<lambda>_. 5) (bump_alloc 10) 0 [1] [] = (Inr False, 0, [])"
    by (simp add: pg_redis_shared_hash_del_def)
  from shared_hash_del_refines [OF bump_alloc_ok ok d] d show ?thesis by simp
qed

text \<open>
  The bounded probe of the shared table never ends in the saturation error: \<open>HGET\<close> and \<open>HEXISTS\<close>
  always answer, and their answer is the value of the field in the table, or that there is none.
\<close>

lemma shared_hash_probe_answers:
  assumes "shared_hash_ok hb a p"
  shows "pg_redis_shared_hash_get hb p f a = Inr (shared_map a p f) \<and>
    pg_redis_shared_hash_exists hb p f a = Inr (shared_map a p f \<noteq> None)"
  using shared_hash_get_ok [OF assms] by blast

text \<open>
  C17: The shared table and the session hash are the same map to a client: after equal contents, a
  successful set and a delete leave equal contents, and the copy that a backend materialises from the
  table has exactly its fields.
\<close>

theorem shared_hash_equals_session_hash:
  assumes "dsa_alloc_ok al" "shared_hash_ok hb a p" "hash_ok h" "shared_map a p = hash_map h"
    and "checked_set hb al (p, a) f v = Inr (new, p', a')" "pg_redis_hash_set h f v = Inr (new', h')"
    and "drop_field hb al (p', a') g = (hit, p2, a2)" "pg_redis_hash_del h' g = (hit', h2)"
  shows "new = new' \<and> hit = hit' \<and> shared_map a2 p2 = hash_map h2 \<and>
    (\<exists>c. pg_redis_shared_hash_materialize p2 a2 = Inr c \<and>
       (case c of None \<Rightarrow> hash_map h2 = Map.empty | Some h3 \<Rightarrow> hash_map h3 = hash_map h2))"
proof -
  have ok: "dsa_alloc_ok al \<and> shared_hash_ok hb (snd (p, a)) (fst (p, a))" using assms(1,2) by simp
  note s = shared_hash.set_ok [OF ok assms(5)] shared_hash.set_map [OF ok assms(5)] shared_hash.set_new [OF ok assms(5)]
  note t = session_hash.set_ok [OF assms(3,6)] session_hash.set_map [OF assms(3,6)] session_hash.set_new [OF assms(3,6)]
  note d = shared_hash.del_ok [OF s(1), of g] shared_hash.del_map [OF s(1), of g] shared_hash.del_hit [OF s(1), of g]
  note e = session_hash.del_map [OF t(1), of g] session_hash.del_hit [OF t(1), of g]
  have m: "shared_map a2 p2 = hash_map h2" "new = new'" "hit = hit'"
    using s(2,3) t(2,3) d(2,3) e assms(4,7,8) by simp_all
  have "shared_hash_ok hb a2 p2" using d(1) assms(7) by simp
  from shared_hash_materialize_ok [OF this] m show ?thesis by (fastforce split: option.splits)
qed

theorem shared_hash_equals_session_hash_witness:
  "\<exists>p' a' p2 a2. checked_set (\<lambda>_. 5) (bump_alloc 10) (0, []) [1] [7] = Inr (True, p', a') \<and>
     drop_field (\<lambda>_. 5) (bump_alloc 10) (p', a') [1] = (True, p2, a2) \<and> shared_map a2 p2 = Map.empty"
proof -
  have c: "case checked_set (\<lambda>_. 5) (bump_alloc 10) (0, []) [1] [7] of Inr (new, _) \<Rightarrow> True | Inl _ \<Rightarrow> False" by code_simp
  then obtain new p' a' where s: "checked_set (\<lambda>_. 5) (bump_alloc 10) (0, []) [1] [7] = Inr (new, p', a')"
    by (auto split: sum.splits)
  obtain new' h' where t: "pg_redis_hash_set pg_redis_hash_create [1] [7] = Inr (new', h')"
    using hash_set_Inr [of "[1]" pg_redis_hash_create "[7]"] by (auto simp: PG_REDIS_MAX_FIELD_SIZE_def)
  obtain hit p2 a2 where d: "drop_field (\<lambda>_. 5) (bump_alloc 10) (p', a') [1] = (hit, p2, a2)" by (metis prod_cases3)
  obtain hit' h2 where e: "pg_redis_hash_del h' [1] = (hit', h2)" by force
  have z: "shared_hash_ok (\<lambda>_. 5) [] 0" "shared_map [] 0 = hash_map pg_redis_hash_create"
    by (simp_all add: shared_hash_ok_def fun_eq_iff hash_map_def pg_redis_hash_create_def)
  have m: "hash_map h' = [[1] \<mapsto> [7]]" "new'" "hash_ok h'"
    using session_hash.set_map [OF hash_ok_create t] session_hash.set_new [OF hash_ok_create t]
      session_hash.set_ok [OF hash_ok_create t] z(2) by simp_all
  then have "hash_map h2 = Map.empty" "hit'"
    using session_hash.del_map [OF m(3), of "[1]"] session_hash.del_hit [OF m(3), of "[1]"] e by simp_all
  then show ?thesis
    using shared_hash_equals_session_hash [OF bump_alloc_ok z(1) hash_ok_create z(2) s t d e] s d m(2) by auto
qed

end
