(* ===== verification/Shared_List.thy ===== *)
theory Shared_List
  imports Dsa List_Value
begin

text \<open>
  \<open>src/shared_list.c\<close>: the list of one key in shared memory, a doubly linked chain of nodes in the
  segment of \<open>Dsa\<close> with its ends and ordinals in \<open>PgRedisSharedListMeta\<close>. The two loops that follow
  the chain may run forever on a cyclic chain, so they are partial functions; the invariant makes them
  return. The operations satisfy the contract \<open>partial_deque\<close>.
\<close>

section \<open>Nodes\<close>

record PgRedisSharedListMeta =
  sm_head :: dsa_pointer
  sm_tail :: dsa_pointer
  sm_length :: int
  sm_min_ord :: int
  sm_max_ord :: int
  sm_ord_initialized :: bool

definition meta_empty :: PgRedisSharedListMeta where
  "meta_empty =
     \<lparr>sm_head = 0, sm_tail = 0, sm_length = 0, sm_min_ord = 0, sm_max_ord = -1, sm_ord_initialized = False\<rparr>"

definition sizeof_PgRedisSharedListNode :: nat where
  "sizeof_PgRedisSharedListNode = 40"

fun chunk_node :: "chunk option \<Rightarrow> PgRedisSharedListNode option" where
  "chunk_node (Some (ListNode n)) = Some n"
| "chunk_node _ = None"

definition node_at :: "dsa_area \<Rightarrow> dsa_pointer \<Rightarrow> PgRedisSharedListNode option" where
  "node_at a p = chunk_node (pg_redis_shared_addr p a)"

text \<open>A field write through a node pointer.\<close>

definition node_write ::
    "dsa_pointer \<Rightarrow> (PgRedisSharedListNode \<Rightarrow> PgRedisSharedListNode) \<Rightarrow> dsa_area \<Rightarrow> dsa_area" where
  "node_write p f a = (case node_at a p of None \<Rightarrow> a | Some n \<Rightarrow> dsa_write p (ListNode (f n)) a)"

definition shared_new_node :: "allocator \<Rightarrow> bytes \<Rightarrow> int \<Rightarrow> dsa_area \<Rightarrow> dsa_pointer \<times> dsa_area" where
  "shared_new_node al value ord a =
     (case pg_redis_shared_palloc al sizeof_PgRedisSharedListNode a of (node_p, a) \<Rightarrow>
        if node_p = 0 then (0, a)
        else case alloc_value al value a of (value_p, a) \<Rightarrow>
          if value \<noteq> [] \<and> value_p = 0 then (0, pg_redis_shared_pfree node_p a)
          else (node_p, dsa_write node_p (ListNode
                 \<lparr>sn_prev = 0, sn_next = 0, sn_ord = ord, sn_value_len = to_uint16 (length value),
                  sn_value_dsa = value_p\<rparr>) a))"

definition free_node :: "dsa_pointer \<Rightarrow> dsa_area \<Rightarrow> dsa_area" where
  "free_node p a =
     (case node_at a p of
        None \<Rightarrow> a
      | Some n \<Rightarrow> pg_redis_shared_pfree p (pg_redis_shared_pfree (sn_value_dsa n) a))"

section \<open>Operations\<close>

partial_function (option) list_free_loop :: "dsa_pointer \<Rightarrow> dsa_area \<Rightarrow> dsa_area option" where
  "list_free_loop cur a =
     (if cur = 0 then Some a
      else list_free_loop (case node_at a cur of None \<Rightarrow> 0 | Some n \<Rightarrow> sn_next n) (free_node cur a))"

definition pg_redis_shared_list_free ::
    "PgRedisSharedListMeta \<Rightarrow> dsa_area \<Rightarrow> (PgRedisSharedListMeta \<times> dsa_area) option" where
  "pg_redis_shared_list_free m a = map_option (Pair meta_empty) (list_free_loop (sm_head m) a)"

definition pg_redis_shared_list_lpush ::
    "allocator \<Rightarrow> bytes \<Rightarrow> PgRedisSharedListMeta \<Rightarrow> dsa_area \<Rightarrow> int result \<times> PgRedisSharedListMeta \<times> dsa_area" where
  "pg_redis_shared_list_lpush al value m a =
     (let ord = (if \<not> sm_ord_initialized m then 0 else sm_min_ord m - 1)
      in case shared_new_node al value ord a of (node_p, a) \<Rightarrow>
           if node_p = 0 then (Inl OutOfSharedMemory, m, a)
           else
             let a = node_write node_p (\<lambda>n. n\<lparr>sn_next := sm_head m\<rparr>) a;
                 a = (if sm_head m \<noteq> 0 then node_write (sm_head m) (\<lambda>n. n\<lparr>sn_prev := node_p\<rparr>) a else a);
                 m = (if sm_head m \<noteq> 0 then m else m\<lparr>sm_tail := node_p\<rparr>);
                 m = m\<lparr>sm_head := node_p, sm_length := sm_length m + 1\<rparr>;
                 m = (if \<not> sm_ord_initialized m
                      then m\<lparr>sm_min_ord := ord, sm_max_ord := ord, sm_ord_initialized := True\<rparr>
                      else m\<lparr>sm_min_ord := ord\<rparr>)
             in (Inr (sm_length m), m, a))"

definition pg_redis_shared_list_rpush ::
    "allocator \<Rightarrow> bytes \<Rightarrow> PgRedisSharedListMeta \<Rightarrow> dsa_area \<Rightarrow> int result \<times> PgRedisSharedListMeta \<times> dsa_area" where
  "pg_redis_shared_list_rpush al value m a =
     (let ord = (if \<not> sm_ord_initialized m then 0 else sm_max_ord m + 1)
      in case shared_new_node al value ord a of (node_p, a) \<Rightarrow>
           if node_p = 0 then (Inl OutOfSharedMemory, m, a)
           else
             let a = node_write node_p (\<lambda>n. n\<lparr>sn_prev := sm_tail m\<rparr>) a;
                 a = (if sm_tail m \<noteq> 0 then node_write (sm_tail m) (\<lambda>n. n\<lparr>sn_next := node_p\<rparr>) a else a);
                 m = (if sm_tail m \<noteq> 0 then m else m\<lparr>sm_head := node_p\<rparr>);
                 m = m\<lparr>sm_tail := node_p, sm_length := sm_length m + 1\<rparr>;
                 m = (if \<not> sm_ord_initialized m
                      then m\<lparr>sm_min_ord := ord, sm_max_ord := ord, sm_ord_initialized := True\<rparr>
                      else m\<lparr>sm_max_ord := ord\<rparr>)
             in (Inr (sm_length m), m, a))"

definition copy_value_out :: "dsa_area \<Rightarrow> PgRedisSharedListNode \<Rightarrow> bytes" where
  "copy_value_out a n = dsa_bytes a (sn_value_dsa n) (sn_value_len n)"

definition pg_redis_shared_list_lpop ::
    "PgRedisSharedListMeta \<Rightarrow> dsa_area \<Rightarrow> (bytes \<times> int) option \<times> PgRedisSharedListMeta \<times> dsa_area" where
  "pg_redis_shared_list_lpop m a =
     (if sm_head m = 0 then (None, m, a)
      else case node_at a (sm_head m) of
             None \<Rightarrow> (None, m, a)
           | Some h \<Rightarrow>
               let out = (copy_value_out a h, sn_ord h); head_p = sm_head m; next_p = sn_next h;
                   m = m\<lparr>sm_head := next_p\<rparr>;
                   (m, a) =
                     (if next_p \<noteq> 0
                      then (m\<lparr>sm_min_ord := (case node_at a next_p of Some n \<Rightarrow> sn_ord n | None \<Rightarrow> 0)\<rparr>,
                            node_write next_p (\<lambda>n. n\<lparr>sn_prev := 0\<rparr>) a)
                      else (m\<lparr>sm_tail := 0, sm_min_ord := 0, sm_max_ord := -1, sm_ord_initialized := False\<rparr>, a));
                   m = m\<lparr>sm_length := sm_length m - 1\<rparr>
               in (Some out, m, free_node head_p a))"

definition pg_redis_shared_list_rpop ::
    "PgRedisSharedListMeta \<Rightarrow> dsa_area \<Rightarrow> (bytes \<times> int) option \<times> PgRedisSharedListMeta \<times> dsa_area" where
  "pg_redis_shared_list_rpop m a =
     (if sm_tail m = 0 then (None, m, a)
      else case node_at a (sm_tail m) of
             None \<Rightarrow> (None, m, a)
           | Some h \<Rightarrow>
               let out = (copy_value_out a h, sn_ord h); tail_p = sm_tail m; prev_p = sn_prev h;
                   m = m\<lparr>sm_tail := prev_p\<rparr>;
                   (m, a) =
                     (if prev_p \<noteq> 0
                      then (m\<lparr>sm_max_ord := (case node_at a prev_p of Some n \<Rightarrow> sn_ord n | None \<Rightarrow> 0)\<rparr>,
                            node_write prev_p (\<lambda>n. n\<lparr>sn_next := 0\<rparr>) a)
                      else (m\<lparr>sm_head := 0, sm_min_ord := 0, sm_max_ord := -1, sm_ord_initialized := False\<rparr>, a));
                   m = m\<lparr>sm_length := sm_length m - 1\<rparr>
               in (Some out, m, free_node tail_p a))"

text \<open>The tail that \<open>rpush\<close> appended to the copy gets the ordinal of the shared node.\<close>

definition copy_tail_ord :: "int \<Rightarrow> PgRedisList \<Rightarrow> PgRedisList" where
  "copy_tail_ord ord l =
     l\<lparr>l_nodes := butlast (l_nodes l) @ [(last (l_nodes l))\<lparr>ln_ord := ord, ln_pending_insert := False\<rparr>]\<rparr>"

partial_function (option) list_copy_loop :: "dsa_area \<Rightarrow> dsa_pointer \<Rightarrow> PgRedisList \<Rightarrow> PgRedisList option" where
  "list_copy_loop a cur l =
     (if cur = 0 then Some l
      else case node_at a cur of
             None \<Rightarrow> Some l
           | Some n \<Rightarrow>
               list_copy_loop a (sn_next n)
                 (copy_tail_ord (sn_ord n) (snd (pg_redis_list_rpush (copy_value_out a n) l))))"

definition pg_redis_shared_list_materialize ::
    "PgRedisSharedListMeta \<Rightarrow> dsa_area \<Rightarrow> PgRedisList option option" where
  "pg_redis_shared_list_materialize m a =
     (if sm_head m = 0 then Some None
      else map_option (\<lambda>l. Some (l\<lparr>l_min_ord := sm_min_ord m, l_max_ord := sm_max_ord m,
                                   l_ord_initialized := sm_ord_initialized m\<rparr>))
             (list_copy_loop a (sm_head m) pg_redis_list_create))"

section \<open>What a chain stands for\<close>

text \<open>
  \<open>chain a pr cs nx\<close>: the cells \<open>cs\<close>, pointers with their nodes, are linked in both directions in the
  segment, between a node before (\<open>pr\<close>) and a node after (\<open>nx\<close>).
\<close>

type_synonym cell = "dsa_pointer \<times> PgRedisSharedListNode"

definition first_of :: "cell list \<Rightarrow> dsa_pointer \<Rightarrow> dsa_pointer" where
  "first_of cs nx = (case cs of [] \<Rightarrow> nx | (p, n) # _ \<Rightarrow> p)"

definition last_of :: "dsa_pointer \<Rightarrow> cell list \<Rightarrow> dsa_pointer" where
  "last_of pr cs = (if cs = [] then pr else fst (last cs))"

definition node_ok :: "dsa_area \<Rightarrow> PgRedisSharedListNode \<Rightarrow> bool" where
  "node_ok a n \<longleftrightarrow> int (sn_value_len n) \<le> UINT16_MAX \<and>
     (if sn_value_dsa n = 0 then sn_value_len n = 0
      else case hash_find a (sn_value_dsa n) of Some (Raw v) \<Rightarrow> sn_value_len n \<le> length v | _ \<Rightarrow> False)"

fun chain :: "dsa_area \<Rightarrow> dsa_pointer \<Rightarrow> cell list \<Rightarrow> dsa_pointer \<Rightarrow> bool" where
  "chain a pr [] nx = True"
| "chain a pr ((p, n) # cs) nx \<longleftrightarrow>
     p \<noteq> 0 \<and> hash_find a p = Some (ListNode n) \<and> sn_prev n = pr \<and> sn_next n = first_of cs nx \<and> node_ok a n \<and>
     chain a p cs nx"

definition value_ptrs :: "cell list \<Rightarrow> dsa_pointer list" where
  "value_ptrs cs = filter (\<lambda>p. p \<noteq> 0) (map (\<lambda>(p, n). sn_value_dsa n) cs)"

definition cell_ptrs :: "cell list \<Rightarrow> dsa_pointer set" where
  "cell_ptrs cs = set (map fst cs) \<union> set (value_ptrs cs)"

definition cell_ords :: "cell list \<Rightarrow> int list" where
  "cell_ords cs = map (\<lambda>(p, n). sn_ord n) cs"

definition cell_vals :: "dsa_area \<Rightarrow> cell list \<Rightarrow> bytes list" where
  "cell_vals a cs = map (\<lambda>(p, n). copy_value_out a n) cs"

definition list_is :: "dsa_area \<Rightarrow> PgRedisSharedListMeta \<Rightarrow> cell list \<Rightarrow> bool" where
  "list_is a m cs \<longleftrightarrow>
     chain a 0 cs 0 \<and> distinct (map fst cs) \<and> distinct (value_ptrs cs) \<and>
     sm_head m = first_of cs 0 \<and> sm_tail m = last_of 0 cs \<and> sm_length m = int (length cs) \<and>
     sm_ord_initialized m = (cs \<noteq> []) \<and> sorted_wrt (<) (cell_ords cs) \<and>
     (cs \<noteq> [] \<longrightarrow> sm_min_ord m = hd (cell_ords cs) \<and> sm_max_ord m = last (cell_ords cs))"

text \<open>The cells of a list, read off the segment.\<close>

fun walk :: "dsa_area \<Rightarrow> dsa_pointer \<Rightarrow> nat \<Rightarrow> cell list" where
  "walk a p 0 = []"
| "walk a p (Suc k) = (case node_at a p of None \<Rightarrow> [] | Some n \<Rightarrow> (p, n) # walk a (sn_next n) k)"

definition cells :: "dsa_area \<Rightarrow> PgRedisSharedListMeta \<Rightarrow> cell list" where
  "cells a m = walk a (sm_head m) (nat (sm_length m))"

definition shared_list_ok :: "dsa_area \<Rightarrow> PgRedisSharedListMeta \<Rightarrow> bool" where
  "shared_list_ok a m \<longleftrightarrow> list_is a m (cells a m)"

definition shared_vals :: "dsa_area \<Rightarrow> PgRedisSharedListMeta \<Rightarrow> bytes list" where
  "shared_vals a m = cell_vals a (cells a m)"

definition list_owned :: "dsa_area \<Rightarrow> PgRedisSharedListMeta \<Rightarrow> dsa_pointer set" where
  "list_owned a m = cell_ptrs (cells a m)"

section \<open>Chains\<close>

lemma node_ok_iff:
  "node_ok a n \<longleftrightarrow> int (sn_value_len n) \<le> UINT16_MAX \<and>
     (if sn_value_dsa n = 0 then sn_value_len n = 0
      else \<exists>v. hash_find a (sn_value_dsa n) = Some (Raw v) \<and> sn_value_len n \<le> length v)"
  by (auto simp: node_ok_def split: option.splits chunk.splits)

lemma first_of_simps [simp]: "first_of [] nx = nx" "first_of (c # cs) nx = fst c"
  by (simp_all add: first_of_def split: prod.splits)

lemma first_of_append: "first_of (xs @ ys) nx = first_of xs (first_of ys nx)"
  by (cases xs) simp_all

lemma last_of_simps [simp]: "last_of pr [] = pr" "last_of pr (xs @ [c]) = fst c" "last_of pr (c # cs) = last_of (fst c) cs"
  by (auto simp: last_of_def)

lemma first_of_any: "cs \<noteq> [] \<Longrightarrow> first_of cs x = first_of cs y"
  by (cases cs) simp_all

lemma last_of_any: "cs \<noteq> [] \<Longrightarrow> last_of x cs = last_of y cs"
  by (simp add: last_of_def)

lemma chain_append: "chain a pr (xs @ ys) nx \<longleftrightarrow> chain a pr xs (first_of ys nx) \<and> chain a (last_of pr xs) ys nx"
proof (induction xs arbitrary: pr)
  case (Cons c xs)
  show ?case by (cases c) (simp add: first_of_append Cons.IH)
qed simp

lemma chain_cells:
  assumes "chain a pr cs nx" "(p, n) \<in> set cs"
  shows "p \<noteq> 0" "hash_find a p = Some (ListNode n)" "node_ok a n"
  using assms by (induction cs arbitrary: pr) auto

lemma node_at_find: "hash_find a p = Some (ListNode n) \<Longrightarrow> p \<noteq> 0 \<Longrightarrow> node_at a p = Some n"
  by (simp add: node_at_def pg_redis_shared_addr_def)

lemma node_at_0 [simp]: "node_at a 0 = None"
  by (simp add: node_at_def pg_redis_shared_addr_def)

lemma set_value_ptrs: "q \<in> set (value_ptrs cs) \<longleftrightarrow> q \<noteq> 0 \<and> (\<exists>p n. (p, n) \<in> set cs \<and> sn_value_dsa n = q)"
  by (auto simp: value_ptrs_def)

lemma chain_value_Raw:
  assumes "chain a pr cs nx" "q \<in> set (value_ptrs cs)"
  shows "\<exists>v. hash_find a q = Some (Raw v)"
  using assms chain_cells(3) [OF assms(1)] by (fastforce simp: set_value_ptrs node_ok_iff)

lemma chain_ptr_Node:
  assumes "chain a pr cs nx" "q \<in> set (map fst cs)"
  shows "\<exists>n. hash_find a q = Some (ListNode n)"
  using assms chain_cells(2) [OF assms(1)] by fastforce

lemma chain_ptrs_used:
  assumes "chain a pr cs nx" "q \<in> cell_ptrs cs"
  shows "hash_find a q \<noteq> None" "q \<noteq> 0"
  using assms chain_value_Raw [OF assms(1), of q] chain_ptr_Node [OF assms(1), of q] chain_cells(1) [OF assms(1)]
  by (auto simp: cell_ptrs_def set_value_ptrs)

lemma chain_cong:
  assumes "\<And>q. q \<in> cell_ptrs cs \<Longrightarrow> hash_find a' q = hash_find a q"
  shows "chain a' pr cs nx = chain a pr cs nx" "cell_vals a' cs = cell_vals a cs"
proof -
  have n: "hash_find a' p = hash_find a p" "node_ok a' n = node_ok a n" "copy_value_out a' n = copy_value_out a n"
    if "(p, n) \<in> set cs" for p n
  proof -
    show "hash_find a' p = hash_find a p" using assms that by (force simp: cell_ptrs_def)
    have "hash_find a' (sn_value_dsa n) = hash_find a (sn_value_dsa n)" if "sn_value_dsa n \<noteq> 0"
      using assms [of "sn_value_dsa n"] that \<open>(p, n) \<in> set cs\<close> by (auto simp: cell_ptrs_def set_value_ptrs)
    then show "node_ok a' n = node_ok a n" "copy_value_out a' n = copy_value_out a n"
      by (auto simp: node_ok_iff copy_value_out_def dsa_bytes_def pg_redis_shared_addr_def)
  qed
  from n(1,2) show "chain a' pr cs nx = chain a pr cs nx"
  proof (induction cs arbitrary: pr)
    case (Cons c cs)
    obtain p m where c: "c = (p, m)" by force
    have "hash_find a' p = hash_find a p" "node_ok a' m = node_ok a m"
      using Cons.prems [of p m] c by simp_all
    moreover have "chain a' p cs nx = chain a p cs nx"
      by (rule Cons.IH) (use Cons.prems in \<open>metis list.set_intros(2)\<close>)+
    ultimately show ?case by (simp add: c)
  qed simp
  show "cell_vals a' cs = cell_vals a cs"
    using n by (auto simp: cell_vals_def)
qed

lemma walk_chain: "chain a pr cs 0 \<Longrightarrow> walk a (first_of cs 0) (length cs) = cs"
  by (induction cs arbitrary: pr) (auto simp: node_at_find)

lemma cells_list_is: "list_is a m cs \<Longrightarrow> cells a m = cs"
  by (auto simp: list_is_def cells_def walk_chain)

lemma list_is_views:
  assumes "list_is a m cs"
  shows "shared_list_ok a m" "shared_vals a m = cell_vals a cs" "list_owned a m = cell_ptrs cs"
  using assms cells_list_is [OF assms] by (simp_all add: shared_list_ok_def shared_vals_def list_owned_def)

lemma shared_list_okE:
  assumes "shared_list_ok a m"
  obtains cs where "list_is a m cs" "shared_vals a m = cell_vals a cs" "list_owned a m = cell_ptrs cs"
  using assms by (simp add: shared_list_ok_def shared_vals_def list_owned_def)

section \<open>Relinking the ends\<close>

definition set_prev :: "dsa_pointer \<Rightarrow> cell list \<Rightarrow> cell list" where
  "set_prev p cs = (case cs of [] \<Rightarrow> [] | (q, n) # r \<Rightarrow> (q, n\<lparr>sn_prev := p\<rparr>) # r)"

definition set_next :: "dsa_pointer \<Rightarrow> cell list \<Rightarrow> cell list" where
  "set_next p cs = (if cs = [] then [] else butlast cs @ [(fst (last cs), (snd (last cs))\<lparr>sn_next := p\<rparr>)])"

lemma set_prev_same [simp]:
  "map fst (set_prev p cs) = map fst cs" "value_ptrs (set_prev p cs) = value_ptrs cs" "cell_ptrs (set_prev p cs) = cell_ptrs cs"
  "cell_ords (set_prev p cs) = cell_ords cs" "length (set_prev p cs) = length cs"
  "first_of (set_prev p cs) nx = first_of cs nx" "set_prev p cs = [] \<longleftrightarrow> cs = []"
proof -
  show "map fst (set_prev p cs) = map fst cs" and v: "value_ptrs (set_prev p cs) = value_ptrs cs"
    and "cell_ords (set_prev p cs) = cell_ords cs" "length (set_prev p cs) = length cs"
      "first_of (set_prev p cs) nx = first_of cs nx" "set_prev p cs = [] \<longleftrightarrow> cs = []"
    by (cases cs; simp add: set_prev_def value_ptrs_def cell_ords_def split_beta)+
  then show "cell_ptrs (set_prev p cs) = cell_ptrs cs" by (simp add: cell_ptrs_def flip: set_map)
qed

lemma set_next_snoc [simp]: "set_next p (xs @ [(q, n)]) = xs @ [(q, n\<lparr>sn_next := p\<rparr>)]"
  by (simp add: set_next_def)

lemma set_next_same [simp]:
  "map fst (set_next p cs) = map fst cs" "value_ptrs (set_next p cs) = value_ptrs cs" "cell_ptrs (set_next p cs) = cell_ptrs cs"
  "cell_ords (set_next p cs) = cell_ords cs" "length (set_next p cs) = length cs"
  "last_of pr (set_next p cs) = last_of pr cs" "first_of (set_next p cs) nx = first_of cs nx" "set_next p cs = [] \<longleftrightarrow> cs = []"
proof -
  show "map fst (set_next p cs) = map fst cs" "value_ptrs (set_next p cs) = value_ptrs cs" "cell_ptrs (set_next p cs) = cell_ptrs cs"
    "cell_ords (set_next p cs) = cell_ords cs" "length (set_next p cs) = length cs" "last_of pr (set_next p cs) = last_of pr cs"
    "first_of (set_next p cs) nx = first_of cs nx" "set_next p cs = [] \<longleftrightarrow> cs = []"
    by (cases cs rule: rev_cases; auto simp: set_next_def value_ptrs_def cell_ptrs_def cell_ords_def first_of_append split: prod.splits)+
qed

lemma last_of_set_prev [simp]: "last_of pr (set_prev p cs) = last_of pr cs"
  by (auto simp: set_prev_def last_of_def split: list.splits)

lemma relink_prev:
  assumes ch: "chain a pr cs nx" and d: "distinct (map fst cs)" and ne: "cs \<noteq> []"
    and a': "a' = node_write (first_of cs 0) (\<lambda>n. n\<lparr>sn_prev := p\<rparr>) a"
  shows "chain a' p (set_prev p cs) nx" "cell_vals a' (set_prev p cs) = cell_vals a cs"
    "\<And>q. q \<noteq> first_of cs 0 \<Longrightarrow> hash_find a' q = hash_find a q" "hash_find a' (first_of cs 0) \<noteq> None"
proof -
  obtain h n r where cs: "cs = (h, n) # r" using ne by (cases cs) auto
  have h: "h \<noteq> 0" "hash_find a h = Some (ListNode n)" "node_ok a n" "chain a h r nx" using ch cs by auto
  have f: "hash_find a' q = (if q = h then Some (ListNode (n\<lparr>sn_prev := p\<rparr>)) else hash_find a q)" for q
    using h by (simp add: a' cs node_write_def node_at_find)
  then show "hash_find a' q = hash_find a q" if "q \<noteq> first_of cs 0" for q using that cs by simp
  show "hash_find a' (first_of cs 0) \<noteq> None" using f cs by simp
  have same: "hash_find a' q = hash_find a q" if "q \<in> cell_ptrs r" for q
    using that d cs chain_value_Raw [OF h(4), of q] h(2) by (auto simp: f cell_ptrs_def)
  have v: "hash_find a' (sn_value_dsa n) = hash_find a (sn_value_dsa n)" if "sn_value_dsa n \<noteq> 0"
    using h that by (auto simp: f node_ok_iff)
  show "chain a' p (set_prev p cs) nx"
    using ch chain_cong(1) [OF same] h v by (auto simp: cs set_prev_def f node_ok_iff)
  show "cell_vals a' (set_prev p cs) = cell_vals a cs"
    using chain_cong(2) [OF same] v
    by (auto simp: cs set_prev_def cell_vals_def copy_value_out_def dsa_bytes_def pg_redis_shared_addr_def)
qed

lemma relink_next:
  assumes ch: "chain a pr cs nx" and d: "distinct (map fst cs)" and ne: "cs \<noteq> []"
    and a': "a' = node_write (last_of 0 cs) (\<lambda>n. n\<lparr>sn_next := p\<rparr>) a"
  shows "chain a' pr (set_next p cs) p" "cell_vals a' (set_next p cs) = cell_vals a cs"
    "\<And>q. q \<noteq> last_of 0 cs \<Longrightarrow> hash_find a' q = hash_find a q" "hash_find a' (last_of 0 cs) \<noteq> None"
proof -
  obtain h n r where cs: "cs = r @ [(h, n)]" using ne by (cases cs rule: rev_cases) auto
  have h: "h \<noteq> 0" "hash_find a h = Some (ListNode n)" "node_ok a n" "chain a pr r h" "sn_prev n = last_of pr r"
    using ch by (auto simp: cs chain_append)
  have f: "hash_find a' q = (if q = h then Some (ListNode (n\<lparr>sn_next := p\<rparr>)) else hash_find a q)" for q
    using h by (simp add: a' cs node_write_def node_at_find)
  then show "hash_find a' q = hash_find a q" if "q \<noteq> last_of 0 cs" for q using that cs by simp
  show "hash_find a' (last_of 0 cs) \<noteq> None" using f cs by simp
  have same: "hash_find a' q = hash_find a q" if "q \<in> cell_ptrs r" for q
    using that d cs chain_value_Raw [OF h(4), of q] h(2) by (auto simp: f cell_ptrs_def)
  have v: "hash_find a' (sn_value_dsa n) = hash_find a (sn_value_dsa n)" if "sn_value_dsa n \<noteq> 0"
    using h that by (auto simp: f node_ok_iff)
  show "chain a' pr (set_next p cs) p"
    using h chain_cong(1) [OF same] v by (auto simp: cs chain_append f node_ok_iff)
  show "cell_vals a' (set_next p cs) = cell_vals a cs"
    using chain_cong(2) [OF same] v
    by (auto simp: cs cell_vals_def copy_value_out_def dsa_bytes_def pg_redis_shared_addr_def)
qed

section \<open>Pushing\<close>

text \<open>What a node keeps of a pushed value: its length goes through the 16-bit field.\<close>

definition stored_value :: "bytes \<Rightarrow> bytes" where
  "stored_value v = take (to_uint16 (length v)) v"

lemma stored_value_id: "int (length v) \<le> UINT16_MAX \<Longrightarrow> stored_value v = v"
  by (simp add: stored_value_def to_uint16_id)

lemma to_uint16_le: "to_uint16 n \<le> n"
  by (simp add: to_uint16_def unat_of_nat take_bit_nat_less_eq_self)

lemma to_uint16_max: "int (to_uint16 n) \<le> UINT16_MAX"
  using unsigned_less [of "of_nat n :: 16 word", where 'a = int] by (simp add: to_uint16_def UINT16_MAX_def)

lemma to_uint16_0 [simp]: "to_uint16 0 = 0"
  by (simp add: to_uint16_def)

text \<open>\<open>node_area a v n p a'\<close>: a segment with a new node \<open>n\<close> at \<open>p\<close> for the value \<open>v\<close>.\<close>

definition node_area :: "dsa_area \<Rightarrow> bytes \<Rightarrow> PgRedisSharedListNode \<Rightarrow> dsa_pointer \<Rightarrow> dsa_area \<Rightarrow> bool" where
  "node_area a v n p a' \<longleftrightarrow>
     p \<noteq> 0 \<and> hash_find a p = None \<and> sn_value_dsa n \<noteq> p \<and> sn_value_len n = to_uint16 (length v) \<and>
     (sn_value_dsa n = 0 \<longleftrightarrow> v = []) \<and> (sn_value_dsa n = 0 \<or> hash_find a (sn_value_dsa n) = None) \<and>
     (\<forall>q. hash_find a' q =
        (if q = p then Some (ListNode n)
         else if sn_value_dsa n \<noteq> 0 \<and> q = sn_value_dsa n then Some (Raw v) else hash_find a q))"

lemma node_areaD:
  assumes "node_area a v n p a'"
  shows "p \<noteq> 0" "hash_find a p = None" "sn_value_dsa n = 0 \<or> hash_find a (sn_value_dsa n) = None"
    "hash_find a' p = Some (ListNode n)" "node_ok a' n" "copy_value_out a' n = stored_value v"
    "\<And>q. hash_find a q \<noteq> None \<Longrightarrow> hash_find a' q = hash_find a q"
    "\<And>q. q \<noteq> p \<Longrightarrow> q \<noteq> sn_value_dsa n \<Longrightarrow> hash_find a' q = hash_find a q"
  using assms by (auto simp: node_area_def node_ok_iff copy_value_out_def dsa_bytes_def pg_redis_shared_addr_def
      stored_value_def to_uint16_le to_uint16_max)

lemma new_node_cases:
  assumes al: "dsa_alloc_ok al" and nn: "shared_new_node al v ord a = (p, a')"
  obtains "p = 0" "\<And>q. hash_find a' q = hash_find a q"
  | n where "node_area a v n p a'" "sn_prev n = 0" "sn_next n = 0" "sn_ord n = ord"
proof -
  obtain p1 a1 where pa: "pg_redis_shared_palloc al sizeof_PgRedisSharedListNode a = (p1, a1)" by force
  show thesis
  proof (rule palloc_cases [OF al pa])
    assume "p1 = 0" "a1 = a"
    then show thesis using nn pa that(1) by (simp add: shared_new_node_def)
  next
    assume p1: "p1 \<noteq> 0" "hash_find a p1 = None" and a1: "a1 = hash_enter a p1 (Raw (replicate sizeof_PgRedisSharedListNode 0))"
    obtain vp a2 where va: "alloc_value al v a1 = (vp, a2)" by force
    show thesis
    proof (rule alloc_value_cases [OF al va])
      assume "v \<noteq> []" "vp = 0" "a2 = a1"
      then have "p = 0" "a' = pg_redis_shared_pfree p1 a1" using nn pa va p1 by (simp_all add: shared_new_node_def)
      then show thesis using p1 a1 by (intro that(1)) simp_all
    next
      assume "value_area a1 v vp a2"
      note vd = value_areaD [OF this]
      have fresh: "vp = 0 \<or> hash_find a vp = None \<and> vp \<noteq> p1" using vd(2) a1 by (auto split: if_splits)
      define n where "n = \<lparr>sn_prev = 0, sn_next = 0, sn_ord = ord, sn_value_len = to_uint16 (length v), sn_value_dsa = vp\<rparr>"
      have "p = p1" "a' = dsa_write p1 (ListNode n) a2"
        using nn pa va p1 vd(1) by (auto simp: shared_new_node_def n_def split: if_splits)
      then have "node_area a v n p a'"
        using p1 vd(1,3) fresh a1 by (auto simp: node_area_def n_def)
      then show thesis by (rule that(2)) (simp_all add: n_def)
    qed
  qed
qed

lemma node_area_update:
  assumes "node_area a v n p a'" "sn_value_dsa n' = sn_value_dsa n" "sn_value_len n' = sn_value_len n"
    and "\<And>q. hash_find b q = (if q = p then Some (ListNode n') else hash_find a' q)"
  shows "node_area a v n' p b"
  using assms by (auto simp: node_area_def)

text \<open>A new node in front of a chain, and one behind it.\<close>

lemma chain_new_front:
  assumes na: "node_area a v n p a1" and n: "sn_prev n = 0" "sn_next n = first_of cs 0"
    and ch: "chain a 0 cs 0" and d: "distinct (map fst cs)"
    and b: "b = (if first_of cs 0 \<noteq> 0 then node_write (first_of cs 0) (\<lambda>n. n\<lparr>sn_prev := p\<rparr>) a1 else a1)"
  shows "chain b 0 ((p, n) # set_prev p cs) 0"
    "cell_vals b ((p, n) # set_prev p cs) = stored_value v # cell_vals a cs"
    "\<And>q. q \<notin> cell_ptrs cs \<Longrightarrow> hash_find b q = hash_find a1 q"
proof -
  note D = node_areaD [OF na]
  have used: "hash_find a q \<noteq> None" "q \<noteq> 0" if "q \<in> cell_ptrs cs" for q
    using chain_ptrs_used [OF ch that] by simp_all
  have ch1: "chain a1 0 cs 0" "cell_vals a1 cs = cell_vals a cs"
    using chain_cong [of cs a1 a] ch used D(7) by simp_all
  have head: "first_of cs 0 \<in> cell_ptrs cs" if "cs \<noteq> []" using that by (cases cs) (simp_all add: cell_ptrs_def)
  have b': "if cs = [] then b = a1 else b = node_write (first_of cs 0) (\<lambda>n. n\<lparr>sn_prev := p\<rparr>) a1"
    using b head used(2) by auto
  show keep: "hash_find b q = hash_find a1 q" if "q \<notin> cell_ptrs cs" for q
  proof (cases "cs = []")
    case False
    then show ?thesis using relink_prev(3) [OF ch1(1) d False, of b p q] b' that head by auto
  qed (use b' in simp)
  have out: "p \<notin> cell_ptrs cs" "sn_value_dsa n \<notin> cell_ptrs cs" 
    using used(1) [of p] used [of "sn_value_dsa n"] D(2,3) by auto
  then have "hash_find b p = Some (ListNode n)" "hash_find b (sn_value_dsa n) = hash_find a1 (sn_value_dsa n)"
    using keep D(4) by auto
  moreover from this have "node_ok b n" "copy_value_out b n = stored_value v"
    using D(5,6) by (auto simp: node_ok_iff copy_value_out_def dsa_bytes_def pg_redis_shared_addr_def)
  moreover have "chain b p (set_prev p cs) 0 \<and> cell_vals b (set_prev p cs) = cell_vals a cs"
  proof (cases "cs = []")
    case False
    then show ?thesis using relink_prev(1,2) [OF ch1(1) d False, of b p] b' ch1(2) by simp
  qed (simp add: set_prev_def cell_vals_def)
  ultimately show "chain b 0 ((p, n) # set_prev p cs) 0"
    "cell_vals b ((p, n) # set_prev p cs) = stored_value v # cell_vals a cs"
    using n D(1) by (simp_all add: cell_vals_def)
qed

lemma chain_new_back:
  assumes na: "node_area a v n p a1" and n: "sn_next n = 0" "sn_prev n = last_of 0 cs"
    and ch: "chain a 0 cs 0" and d: "distinct (map fst cs)"
    and b: "b = (if last_of 0 cs \<noteq> 0 then node_write (last_of 0 cs) (\<lambda>n. n\<lparr>sn_next := p\<rparr>) a1 else a1)"
  shows "chain b 0 (set_next p cs @ [(p, n)]) 0"
    "cell_vals b (set_next p cs @ [(p, n)]) = cell_vals a cs @ [stored_value v]"
    "\<And>q. q \<notin> cell_ptrs cs \<Longrightarrow> hash_find b q = hash_find a1 q"
proof -
  note D = node_areaD [OF na]
  have used: "hash_find a q \<noteq> None" "q \<noteq> 0" if "q \<in> cell_ptrs cs" for q
    using chain_ptrs_used [OF ch that] by simp_all
  have ch1: "chain a1 0 cs 0" "cell_vals a1 cs = cell_vals a cs"
    using chain_cong [of cs a1 a] ch used D(7) by simp_all
  have tail: "last_of 0 cs \<in> cell_ptrs cs" if "cs \<noteq> []"
    using that by (cases cs rule: rev_cases) (simp_all add: cell_ptrs_def)
  have b': "if cs = [] then b = a1 else b = node_write (last_of 0 cs) (\<lambda>n. n\<lparr>sn_next := p\<rparr>) a1"
    using b tail used(2) by auto
  show keep: "hash_find b q = hash_find a1 q" if "q \<notin> cell_ptrs cs" for q
  proof (cases "cs = []")
    case False
    then show ?thesis using relink_next(3) [OF ch1(1) d False, of b p q] b' that tail by auto
  qed (use b' in simp)
  have out: "p \<notin> cell_ptrs cs" "sn_value_dsa n \<notin> cell_ptrs cs" 
    using used(1) [of p] used [of "sn_value_dsa n"] D(2,3) by auto
  then have "hash_find b p = Some (ListNode n)" "hash_find b (sn_value_dsa n) = hash_find a1 (sn_value_dsa n)"
    using keep D(4) by auto
  moreover from this have "node_ok b n" "copy_value_out b n = stored_value v"
    using D(5,6) by (auto simp: node_ok_iff copy_value_out_def dsa_bytes_def pg_redis_shared_addr_def)
  moreover have "chain b 0 (set_next p cs) p \<and> cell_vals b (set_next p cs) = cell_vals a cs"
  proof (cases "cs = []")
    case False
    then show ?thesis using relink_next(1,2) [OF ch1(1) d False, of b p] b' ch1(2) by simp
  qed (simp add: set_next_def cell_vals_def)
  ultimately show "chain b 0 (set_next p cs @ [(p, n)]) 0"
    "cell_vals b (set_next p cs @ [(p, n)]) = cell_vals a cs @ [stored_value v]"
    using n D(1) by (simp_all add: cell_vals_def chain_append)
qed

lemma value_ptrs_simps [simp]:
  "value_ptrs ((p, n) # cs) = (if sn_value_dsa n = 0 then value_ptrs cs else sn_value_dsa n # value_ptrs cs)"
  "value_ptrs (cs @ [(p, n)]) = value_ptrs cs @ (if sn_value_dsa n = 0 then [] else [sn_value_dsa n])"
  "value_ptrs [] = []"
  by (simp_all add: value_ptrs_def)

lemma cell_ords_simps [simp]:
  "cell_ords ((p, n) # cs) = sn_ord n # cell_ords cs" "cell_ords (cs @ [(p, n)]) = cell_ords cs @ [sn_ord n]"
  "cell_ords [] = []"
  by (simp_all add: cell_ords_def)

lemma cell_ords_Nil [simp]: "cell_ords cs = [] \<longleftrightarrow> cs = []"
  by (simp add: cell_ords_def)

lemma list_isD:
  assumes "list_is a m cs"
  shows "chain a 0 cs 0" "distinct (map fst cs)" "distinct (value_ptrs cs)" "sm_head m = first_of cs 0"
    "sm_tail m = last_of 0 cs" "sm_length m = int (length cs)" "sm_ord_initialized m = (cs \<noteq> [])"
    "sorted_wrt (<) (cell_ords cs)" "cs \<noteq> [] \<Longrightarrow> sm_min_ord m = hd (cell_ords cs)" "cs \<noteq> [] \<Longrightarrow> sm_max_ord m = last (cell_ords cs)"
  using assms by (simp_all add: list_is_def)

lemma shared_vals_short:
  assumes "shared_list_ok a m" "v \<in> set (shared_vals a m)"
  shows "int (length v) \<le> UINT16_MAX"
proof -
  obtain cs where cs: "list_is a m cs" "shared_vals a m = cell_vals a cs" by (rule shared_list_okE [OF assms(1)])
  then obtain p n where n: "(p, n) \<in> set cs" "v = copy_value_out a n" using assms(2) by (auto simp: cell_vals_def)
  have "int (sn_value_len n) \<le> UINT16_MAX" using chain_cells(3) [OF list_isD(1) [OF cs(1)] n(1)] by (simp add: node_ok_iff)
  then show ?thesis by (auto simp: n(2) copy_value_out_def dsa_bytes_def split: option.splits chunk.splits)
qed

text \<open>The ownership of a list that gained a node.\<close>

lemma push_frame:
  assumes na: "node_area a v n p a1" and ch: "chain a 0 cs 0"
    and keep: "\<And>q. q \<notin> cell_ptrs cs \<Longrightarrow> hash_find b q = hash_find a1 q"
  shows "dsa_frame a (cell_ptrs cs) b (insert p ((if sn_value_dsa n = 0 then {} else {sn_value_dsa n}) \<union> cell_ptrs cs))"
    "p \<notin> cell_ptrs cs" "sn_value_dsa n \<notin> set (value_ptrs cs)"
proof -
  note D = node_areaD [OF na]
  have used: "hash_find a q \<noteq> None" "q \<noteq> 0" if "q \<in> cell_ptrs cs" for q
    using chain_ptrs_used [OF ch that] by simp_all
  show "p \<notin> cell_ptrs cs" using used(1) [of p] D(2) by auto
  show "sn_value_dsa n \<notin> set (value_ptrs cs)" using used [of "sn_value_dsa n"] D(3) by (auto simp: cell_ptrs_def)
  have other: "hash_find b q = hash_find a q" if "q \<notin> cell_ptrs cs" "q \<noteq> p" "sn_value_dsa n = 0 \<or> q \<noteq> sn_value_dsa n" for q
    using keep [OF that(1)] na that(2,3) by (auto simp: node_area_def)
  show "dsa_frame a (cell_ptrs cs) b (insert p ((if sn_value_dsa n = 0 then {} else {sn_value_dsa n}) \<union> cell_ptrs cs))"
    unfolding dsa_frame_def using other D(2,3) by (auto split: if_splits)
qed

lemma shared_lpush_ok:
  assumes al: "dsa_alloc_ok al" and li: "list_is a m cs" and op: "pg_redis_shared_list_lpush al v m a = (r, m', a')"
  shows "(r = Inl OutOfSharedMemory \<and> m' = m \<and> (\<forall>q. hash_find a' q = hash_find a q)) \<or>
    (\<exists>cs'. r = Inr (int (length cs')) \<and> list_is a' m' cs' \<and> cell_vals a' cs' = stored_value v # cell_vals a cs \<and>
       dsa_frame a (cell_ptrs cs) a' (cell_ptrs cs'))"
proof -
  note L = list_isD [OF li]
  define ord where "ord = (if \<not> sm_ord_initialized m then 0 else sm_min_ord m - 1)"
  obtain p a1 where nn: "shared_new_node al v ord a = (p, a1)" by force
  show ?thesis
  proof (rule new_node_cases [OF al nn])
    assume "p = 0" "\<And>q. hash_find a1 q = hash_find a q"
    then show ?thesis using op nn by (simp add: pg_redis_shared_list_lpush_def ord_def)
  next
    fix n0
    assume na: "node_area a v n0 p a1" and n0: "sn_prev n0 = 0" "sn_next n0 = 0" "sn_ord n0 = ord"
    define n where "n = n0\<lparr>sn_next := sm_head m\<rparr>"
    define a2 where "a2 = node_write p (\<lambda>n. n\<lparr>sn_next := sm_head m\<rparr>) a1"
    note D = node_areaD [OF na]
    have "hash_find a2 q = (if q = p then Some (ListNode n) else hash_find a1 q)" for q
      using D(1,4) by (simp add: a2_def node_write_def node_at_find n_def)
    from node_area_update [OF na _ _ this] have na2: "node_area a v n p a2" by (simp add: n_def)
    have a': "a' = (if first_of cs 0 \<noteq> 0 then node_write (first_of cs 0) (\<lambda>n. n\<lparr>sn_prev := p\<rparr>) a2 else a2)"
      and m': "sm_head m' = p" "sm_length m' = sm_length m + 1" "sm_ord_initialized m'" "sm_min_ord m' = ord"
        "sm_tail m' = (if first_of cs 0 = 0 then p else sm_tail m)" "sm_max_ord m' = (if sm_ord_initialized m then sm_max_ord m else ord)"
      and r: "r = Inr (sm_length m')"
      using op nn D(1) L(4) by (auto simp: pg_redis_shared_list_lpush_def ord_def a2_def Let_def)
    have "sn_prev n = 0" "sn_next n = first_of cs 0" "sn_ord n = ord" using n0 L(4) by (simp_all add: n_def)
    note C = chain_new_front [OF na2 this(1,2) L(1,2) a']
    note F = push_frame [OF na2 L(1) C(3)]
    have ne: "first_of cs 0 = 0 \<longleftrightarrow> cs = []" using L(1) by (cases cs) auto
    have "ord < x" if "x \<in> set (cell_ords cs)" for x
      using sorted_hd_least [OF L(8) that] L(7,9) that by (force simp: ord_def)
    then have "list_is a' m' ((p, n) # set_prev p cs)"
      using C(1) L F(2,3) m' ne \<open>sn_ord n = ord\<close> last_of_any [of cs p 0] unfolding list_is_def
      by (cases "cs = []") (auto simp: ord_def cell_ptrs_def simp flip: set_map)
    moreover have "cell_ptrs ((p, n) # set_prev p cs) = insert p ((if sn_value_dsa n = 0 then {} else {sn_value_dsa n}) \<union> cell_ptrs cs)"
      by (auto simp: cell_ptrs_def simp flip: set_map)
    ultimately show ?thesis using C(2) F(1) r m'(2) L(6) by (intro disjI2 exI [of _ "(p, n) # set_prev p cs"]) simp
  qed
qed

lemma shared_rpush_ok:
  assumes al: "dsa_alloc_ok al" and li: "list_is a m cs" and op: "pg_redis_shared_list_rpush al v m a = (r, m', a')"
  shows "(r = Inl OutOfSharedMemory \<and> m' = m \<and> (\<forall>q. hash_find a' q = hash_find a q)) \<or>
    (\<exists>cs'. r = Inr (int (length cs')) \<and> list_is a' m' cs' \<and> cell_vals a' cs' = cell_vals a cs @ [stored_value v] \<and>
       dsa_frame a (cell_ptrs cs) a' (cell_ptrs cs'))"
proof -
  note L = list_isD [OF li]
  define ord where "ord = (if \<not> sm_ord_initialized m then 0 else sm_max_ord m + 1)"
  obtain p a1 where nn: "shared_new_node al v ord a = (p, a1)" by force
  show ?thesis
  proof (rule new_node_cases [OF al nn])
    assume "p = 0" "\<And>q. hash_find a1 q = hash_find a q"
    then show ?thesis using op nn by (simp add: pg_redis_shared_list_rpush_def ord_def)
  next
    fix n0
    assume na: "node_area a v n0 p a1" and n0: "sn_prev n0 = 0" "sn_next n0 = 0" "sn_ord n0 = ord"
    define n where "n = n0\<lparr>sn_prev := sm_tail m\<rparr>"
    define a2 where "a2 = node_write p (\<lambda>n. n\<lparr>sn_prev := sm_tail m\<rparr>) a1"
    note D = node_areaD [OF na]
    have "hash_find a2 q = (if q = p then Some (ListNode n) else hash_find a1 q)" for q
      using D(1,4) by (simp add: a2_def node_write_def node_at_find n_def)
    from node_area_update [OF na _ _ this] have na2: "node_area a v n p a2" by (simp add: n_def)
    have a': "a' = (if last_of 0 cs \<noteq> 0 then node_write (last_of 0 cs) (\<lambda>n. n\<lparr>sn_next := p\<rparr>) a2 else a2)"
      and m': "sm_tail m' = p" "sm_length m' = sm_length m + 1" "sm_ord_initialized m'" "sm_max_ord m' = ord"
        "sm_head m' = (if last_of 0 cs = 0 then p else sm_head m)" "sm_min_ord m' = (if sm_ord_initialized m then sm_min_ord m else ord)"
      and r: "r = Inr (sm_length m')"
      using op nn D(1) L(5) by (auto simp: pg_redis_shared_list_rpush_def ord_def a2_def Let_def)
    have "sn_next n = 0" "sn_prev n = last_of 0 cs" "sn_ord n = ord" using n0 L(5) by (simp_all add: n_def)
    note C = chain_new_back [OF na2 this(1,2) L(1,2) a']
    note F = push_frame [OF na2 L(1) C(3)]
    have ne: "last_of 0 cs = 0 \<longleftrightarrow> cs = []" using L(1) by (cases cs rule: rev_cases) (auto simp: chain_append)
    have "x < ord" if "x \<in> set (cell_ords cs)" for x
      using sorted_last_greatest [OF L(8) that] L(7,10) that by (force simp: ord_def)
    then have "list_is a' m' (set_next p cs @ [(p, n)])"
      using C(1) L F(2,3) m' ne \<open>sn_ord n = ord\<close> first_of_any [of cs p 0] unfolding list_is_def
      by (cases "cs = []") (auto simp: ord_def cell_ptrs_def first_of_append sorted_wrt_append simp flip: set_map)
    moreover have "cell_ptrs (set_next p cs @ [(p, n)]) = insert p ((if sn_value_dsa n = 0 then {} else {sn_value_dsa n}) \<union> cell_ptrs cs)"
      by (auto simp: cell_ptrs_def simp flip: set_map)
    ultimately show ?thesis using C(2) F(1) r m'(2) L(6) by (intro disjI2 exI [of _ "set_next p cs @ [(p, n)]"]) simp
  qed
qed

section \<open>Popping and freeing\<close>

lemma drop_cell:
  assumes h: "hash_find b h = Some (ListNode n)" "h \<noteq> 0" "node_ok b n" and ch: "chain b pr r nx"
    and out: "h \<notin> set (map fst r)" "sn_value_dsa n \<notin> set (value_ptrs r)"
  shows "chain (free_node h b) pr r nx" "cell_vals (free_node h b) r = cell_vals b r"
    "\<And>q. hash_find (free_node h b) q = (if q = h \<or> sn_value_dsa n \<noteq> 0 \<and> q = sn_value_dsa n then None else hash_find b q)"
proof -
  show f: "hash_find (free_node h b) q = (if q = h \<or> sn_value_dsa n \<noteq> 0 \<and> q = sn_value_dsa n then None else hash_find b q)" for q
    using h by (simp add: free_node_def node_at_find)
  have "h \<notin> set (value_ptrs r)" using chain_value_Raw [OF ch, of h] h(1) by auto
  moreover have "sn_value_dsa n \<notin> set (map fst r)" if "sn_value_dsa n \<noteq> 0"
  proof
    assume "sn_value_dsa n \<in> set (map fst r)"
    from chain_ptr_Node [OF ch this] show False using h(3) that by (auto simp: node_ok_iff)
  qed
  ultimately have same: "hash_find (free_node h b) q = hash_find b q" if "q \<in> cell_ptrs r" for q
    using that out unfolding f cell_ptrs_def by (metis Un_iff)
  show "chain (free_node h b) pr r nx" "cell_vals (free_node h b) r = cell_vals b r"
    using chain_cong [OF same] ch by simp_all
qed

text \<open>The ownership of a list that lost the node \<open>(h, n)\<close>.\<close>

lemma pop_frame:
  assumes "\<And>q. hash_find b q = (if q = h \<or> sn_value_dsa n \<noteq> 0 \<and> q = sn_value_dsa n then None else hash_find b1 q)"
    and "\<And>q. q \<notin> cell_ptrs r \<Longrightarrow> hash_find b1 q = hash_find a q"
    and "O1 = insert h ((if sn_value_dsa n = 0 then {} else {sn_value_dsa n}) \<union> cell_ptrs r)"
  shows "dsa_frame a O1 b (cell_ptrs r)"
  unfolding dsa_frame_def assms(3) using assms(1,2) by auto

lemma node_ok_relink:
  assumes "node_ok a n" "\<And>q. q \<noteq> f \<Longrightarrow> hash_find b q = hash_find a q" "\<exists>m. hash_find a f = Some (ListNode m)"
  shows "node_ok b n" "copy_value_out b n = copy_value_out a n"
proof -
  have "hash_find b (sn_value_dsa n) = hash_find a (sn_value_dsa n)" if "sn_value_dsa n \<noteq> 0"
    using assms(1,3) that by (intro assms(2)) (auto simp: node_ok_iff)
  then show "node_ok b n" "copy_value_out b n = copy_value_out a n"
    using assms(1) by (auto simp: node_ok_iff copy_value_out_def dsa_bytes_def pg_redis_shared_addr_def)
qed

lemma shared_lpop_Nil: "list_is a m [] \<Longrightarrow> pg_redis_shared_list_lpop m a = (None, m, a)"
  by (simp add: list_is_def pg_redis_shared_list_lpop_def)

lemma shared_rpop_Nil: "list_is a m [] \<Longrightarrow> pg_redis_shared_list_rpop m a = (None, m, a)"
  by (simp add: list_is_def pg_redis_shared_list_rpop_def)

lemma shared_lpop_Cons:
  assumes li: "list_is a m ((h, n) # r)" and op: "pg_redis_shared_list_lpop m a = (out, m', a')"
  shows "out = Some (copy_value_out a n, sn_ord n)" "list_is a' m' (set_prev 0 r)"
    "cell_vals a' (set_prev 0 r) = cell_vals a r" "dsa_frame a (cell_ptrs ((h, n) # r)) a' (cell_ptrs r)"
proof -
  note L = list_isD [OF li]
  have h: "h \<noteq> 0" "hash_find a h = Some (ListNode n)" "sn_next n = first_of r 0" "node_ok a n" "chain a h r 0"
    using L(1) by auto
  define a1 where "a1 = (if r = [] then a else node_write (first_of r 0) (\<lambda>n. n\<lparr>sn_prev := 0\<rparr>) a)"
  have ne: "first_of r 0 = 0 \<longleftrightarrow> r = []" using h(5) by (cases r) auto
  have hd: "hd (cell_ords r) = (case node_at a (first_of r 0) of Some n \<Rightarrow> sn_ord n | None \<Rightarrow> 0)" if "r \<noteq> []"
    using that h(5) by (cases r) (auto simp: node_at_find)
  have op': "out = Some (copy_value_out a n, sn_ord n)" "a' = free_node h a1"
    and m': "sm_head m' = first_of r 0" "sm_length m' = sm_length m - 1" "sm_tail m' = (if r = [] then 0 else sm_tail m)"
      "sm_ord_initialized m' = (r \<noteq> [])" "r \<noteq> [] \<Longrightarrow> sm_min_ord m' = hd (cell_ords r)" "r \<noteq> [] \<Longrightarrow> sm_max_ord m' = sm_max_ord m"
    using op h L(4,7) hd ne by (auto simp: pg_redis_shared_list_lpop_def node_at_find Let_def a1_def split: if_splits)
  show "out = Some (copy_value_out a n, sn_ord n)" by (rule op')
  have d: "distinct (map fst r)" using L(2) by simp
  have c1: "chain a1 0 (set_prev 0 r) 0 \<and> cell_vals a1 (set_prev 0 r) = cell_vals a r \<and> (\<forall>q. q \<noteq> first_of r 0 \<longrightarrow> hash_find a1 q = hash_find a q)"
  proof (cases "r = []")
    case False
    then show ?thesis using relink_prev [OF h(5) d False, of a1 0] by (simp add: a1_def)
  qed (simp add: a1_def set_prev_def)
  have fr: "first_of r 0 \<in> cell_ptrs r" if "r \<noteq> []" using that by (cases r) (simp_all add: cell_ptrs_def)
  have hr: "h \<noteq> first_of r 0" using L(2) h(1) by (cases r) auto
  have "node_ok a1 n"
  proof (cases "r = []")
    case False
    then show ?thesis using node_ok_relink(1) [OF h(4), of "first_of r 0" a1] c1 chain_ptr_Node [OF h(5), of "first_of r 0"]
      by (cases r) auto
  qed (simp add: a1_def h(4))
  note dc = drop_cell [of a1 h n 0 "set_prev 0 r" 0, folded op'(2)]
  have vo: "sn_value_dsa n \<notin> set (value_ptrs r)" using L(3) by (auto simp: set_value_ptrs split: if_splits)
  have dc': "chain a' 0 (set_prev 0 r) 0" "cell_vals a' (set_prev 0 r) = cell_vals a1 (set_prev 0 r)"
    "\<And>q. hash_find a' q = (if q = h \<or> sn_value_dsa n \<noteq> 0 \<and> q = sn_value_dsa n then None else hash_find a1 q)"
    using dc c1 h(1,2) hr \<open>node_ok a1 n\<close> L(2) vo by (simp_all flip: set_map)
  then show "cell_vals a' (set_prev 0 r) = cell_vals a r" using c1 by simp
  show "dsa_frame a (cell_ptrs ((h, n) # r)) a' (cell_ptrs r)"
  proof (rule pop_frame [OF dc'(3)])
    show "hash_find a1 q = hash_find a q" if "q \<notin> cell_ptrs r" for q
    proof (cases "r = []")
      case False
      then have "q \<noteq> first_of r 0" using that fr by metis
      then show ?thesis using c1 by blast
    qed (simp add: a1_def)
  qed (auto simp: cell_ptrs_def)
  show "list_is a' m' (set_prev 0 r)"
    using dc'(1) L m' last_of_any [of r h 0] unfolding list_is_def
    by (cases "r = []") (auto split: if_splits simp flip: set_map)
qed

lemma shared_rpop_snoc:
  assumes li: "list_is a m (r @ [(h, n)])" and op: "pg_redis_shared_list_rpop m a = (out, m', a')"
  shows "out = Some (copy_value_out a n, sn_ord n)" "list_is a' m' (set_next 0 r)"
    "cell_vals a' (set_next 0 r) = cell_vals a r" "dsa_frame a (cell_ptrs (r @ [(h, n)])) a' (cell_ptrs r)"
proof -
  note L = list_isD [OF li]
  have h: "h \<noteq> 0" "hash_find a h = Some (ListNode n)" "sn_prev n = last_of 0 r" "node_ok a n" "chain a 0 r h"
    using L(1) by (auto simp: chain_append)
  define a1 where "a1 = (if r = [] then a else node_write (last_of 0 r) (\<lambda>n. n\<lparr>sn_next := 0\<rparr>) a)"
  have ne: "last_of 0 r = 0 \<longleftrightarrow> r = []" using h(5) by (cases r rule: rev_cases) (auto simp: chain_append)
  have lst: "last (cell_ords r) = (case node_at a (last_of 0 r) of Some n \<Rightarrow> sn_ord n | None \<Rightarrow> 0)" if "r \<noteq> []"
    using that h(5) by (cases r rule: rev_cases) (auto simp: node_at_find chain_append)
  have op': "out = Some (copy_value_out a n, sn_ord n)" "a' = free_node h a1"
    and m': "sm_tail m' = last_of 0 r" "sm_length m' = sm_length m - 1" "sm_head m' = (if r = [] then 0 else sm_head m)"
      "sm_ord_initialized m' = (r \<noteq> [])" "r \<noteq> [] \<Longrightarrow> sm_max_ord m' = last (cell_ords r)" "r \<noteq> [] \<Longrightarrow> sm_min_ord m' = sm_min_ord m"
    using op h L(5,7) lst ne by (auto simp: pg_redis_shared_list_rpop_def node_at_find Let_def a1_def split: if_splits)
  show "out = Some (copy_value_out a n, sn_ord n)" by (rule op')
  have d: "distinct (map fst r)" using L(2) by simp
  have c1: "chain a1 0 (set_next 0 r) 0 \<and> cell_vals a1 (set_next 0 r) = cell_vals a r \<and> (\<forall>q. q \<noteq> last_of 0 r \<longrightarrow> hash_find a1 q = hash_find a q)"
  proof (cases "r = []")
    case False
    then show ?thesis using relink_next [OF h(5) d False, of a1 0] by (simp add: a1_def)
  qed (simp add: a1_def set_next_def)
  have lr: "last_of 0 r \<in> set (map fst r)" if "r \<noteq> []" using that by (cases r rule: rev_cases) simp_all
  have hr: "h \<noteq> last_of 0 r" using L(2) h(1) lr by (cases "r = []") auto
  have "node_ok a1 n"
  proof (cases "r = []")
    case False
    then show ?thesis
      using node_ok_relink(1) [OF h(4), of "last_of 0 r" a1] c1 chain_ptr_Node [OF h(5) lr] by simp
  qed (simp add: a1_def h(4))
  note dc = drop_cell [of a1 h n 0 "set_next 0 r" 0, folded op'(2)]
  have vo: "sn_value_dsa n \<notin> set (value_ptrs r)" using L(3) by (auto simp: set_value_ptrs split: if_splits)
  have dc': "chain a' 0 (set_next 0 r) 0" "cell_vals a' (set_next 0 r) = cell_vals a1 (set_next 0 r)"
    "\<And>q. hash_find a' q = (if q = h \<or> sn_value_dsa n \<noteq> 0 \<and> q = sn_value_dsa n then None else hash_find a1 q)"
    using dc c1 h(1,2) hr \<open>node_ok a1 n\<close> L(2) vo by (simp_all flip: set_map)
  then show "cell_vals a' (set_next 0 r) = cell_vals a r" using c1 by simp
  show "dsa_frame a (cell_ptrs (r @ [(h, n)])) a' (cell_ptrs r)"
  proof (rule pop_frame [OF dc'(3)])
    show "hash_find a1 q = hash_find a q" if "q \<notin> cell_ptrs r" for q
    proof (cases "r = []")
      case False
      then have "q \<noteq> last_of 0 r" using that lr unfolding cell_ptrs_def by (metis UnI1)
      then show ?thesis using c1 by blast
    qed (simp add: a1_def)
  qed (auto simp: cell_ptrs_def)
  show "list_is a' m' (set_next 0 r)"
    using dc'(1) L m' first_of_any [of r h 0] unfolding list_is_def
    by (cases "r = []") (auto split: if_splits simp: first_of_append sorted_wrt_append simp flip: set_map)
qed

text \<open>The loop that frees the chain returns, with exactly the chunks of the chain gone.\<close>

lemma free_loop_ok:
  assumes "chain a pr cs 0" "distinct (map fst cs)" "distinct (value_ptrs cs)"
  shows "\<exists>b. list_free_loop (first_of cs 0) a = Some b \<and>
    (\<forall>q. hash_find b q = (if q \<in> cell_ptrs cs then None else hash_find a q))"
  using assms
proof (induction cs arbitrary: a pr)
  case Nil
  then show ?case by (simp add: list_free_loop.simps cell_ptrs_def)
next
  case (Cons c cs)
  obtain h n where c: "c = (h, n)" by force
  have h: "hash_find a h = Some (ListNode n)" "h \<noteq> 0" "node_ok a n" "chain a h cs 0" "sn_next n = first_of cs 0"
    using Cons.prems(1) c by auto
  have "h \<notin> set (map fst cs)" "sn_value_dsa n \<notin> set (value_ptrs cs)"
    using Cons.prems(2,3) c by (auto simp: set_value_ptrs split: if_splits)
  note D = drop_cell [OF h(1,2,3,4) this]
  have "distinct (map fst cs)" "distinct (value_ptrs cs)" using Cons.prems(2,3) c by (auto split: if_splits)
  from Cons.IH [OF D(1) this] obtain b where
    b: "list_free_loop (first_of cs 0) (free_node h a) = Some b"
      "hash_find b q = (if q \<in> cell_ptrs cs then None else hash_find (free_node h a) q)" for q by blast
  have "list_free_loop (first_of (c # cs) 0) a = Some b"
    using b(1) h by (subst list_free_loop.simps) (simp add: c node_at_find)
  moreover have "hash_find b q = (if q \<in> cell_ptrs (c # cs) then None else hash_find a q)" for q
    by (simp add: b(2) D(3) c cell_ptrs_def)
  ultimately show ?case by blast
qed

lemma shared_list_free_ok:
  assumes "list_is a m cs"
  shows "\<exists>b. pg_redis_shared_list_free m a = Some (meta_empty, b) \<and>
    (\<forall>q. hash_find b q = (if q \<in> cell_ptrs cs then None else hash_find a q))"
  using free_loop_ok [OF list_isD(1,2,3) [OF assms]] list_isD(4) [OF assms]
  by (auto simp: pg_redis_shared_list_free_def)

section \<open>The copy for a session\<close>

definition copied_node :: "dsa_area \<Rightarrow> cell \<Rightarrow> PgRedisListNode" where
  "copied_node a c = list_new_node (copy_value_out a (snd c)) (sn_ord (snd c)) False"

lemma copy_step:
  "l_nodes (copy_tail_ord ord (snd (pg_redis_list_rpush v l))) = l_nodes l @ [list_new_node v ord False]"
  "l_length (copy_tail_ord ord (snd (pg_redis_list_rpush v l))) = l_length l + 1"
  "l_memory_usage (copy_tail_ord ord (snd (pg_redis_list_rpush v l))) = l_memory_usage l + (sizeof_PgRedisListNode + length v)"
  "l_pending_delete_ords (copy_tail_ord ord (snd (pg_redis_list_rpush v l))) = l_pending_delete_ords l"
  by (auto simp: copy_tail_ord_def list_op_defs)

lemma copy_loop_ok:
  assumes "chain a pr cs 0"
  shows "\<exists>l'. list_copy_loop a (first_of cs 0) l = Some l' \<and> l_nodes l' = l_nodes l @ map (copied_node a) cs \<and>
    l_length l' = l_length l + int (length cs) \<and>
    l_memory_usage l' = l_memory_usage l + node_bytes_sum (map (copied_node a) cs) \<and>
    l_pending_delete_ords l' = l_pending_delete_ords l"
  using assms
proof (induction cs arbitrary: pr l)
  case Nil
  then show ?case by (simp add: list_copy_loop.simps node_bytes_sum_def)
next
  case (Cons c cs)
  obtain h n where c: "c = (h, n)" by force
  have h: "h \<noteq> 0" "node_at a h = Some n" "sn_next n = first_of cs 0" "chain a h cs 0"
    using Cons.prems by (auto simp: c node_at_find)
  define l1 where "l1 = copy_tail_ord (sn_ord n) (snd (pg_redis_list_rpush (copy_value_out a n) l))"
  have "list_copy_loop a (first_of (c # cs) 0) l = list_copy_loop a (first_of cs 0) l1"
    using h by (subst list_copy_loop.simps) (simp add: c l1_def)
  then show ?case
    using Cons.IH [OF h(4), of l1]
    by (auto simp: l1_def copy_step c copied_node_def node_bytes_sum_def list_new_node_def)
qed

lemma shared_list_materialize_ok:
  assumes "list_is a m cs"
  shows "cs = [] \<Longrightarrow> pg_redis_shared_list_materialize m a = Some None"
    and "cs \<noteq> [] \<Longrightarrow> \<exists>l. pg_redis_shared_list_materialize m a = Some (Some l) \<and> list_ok l \<and>
      list_vals l = cell_vals a cs \<and> list_ords l = cell_ords cs \<and>
      list_pending_items l = [] \<and> l_pending_delete_ords l = []"
proof -
  note L = list_isD [OF assms]
  show "pg_redis_shared_list_materialize m a = Some None" if "cs = []"
    using L(4) that by (simp add: pg_redis_shared_list_materialize_def)
  assume ne: "cs \<noteq> []"
  then have hd: "sm_head m \<noteq> 0" using L(1,4) by (cases cs) auto
  from copy_loop_ok [OF L(1), of pg_redis_list_create] obtain l where
    l: "list_copy_loop a (sm_head m) pg_redis_list_create = Some l" "l_nodes l = map (copied_node a) cs"
      "l_length l = int (length cs)" "l_memory_usage l = node_bytes_sum (map (copied_node a) cs)" "l_pending_delete_ords l = []"
    by (auto simp: L(4) pg_redis_list_create_def)
  define l' where "l' = l\<lparr>l_min_ord := sm_min_ord m, l_max_ord := sm_max_ord m, l_ord_initialized := sm_ord_initialized m\<rparr>"
  have "pg_redis_shared_list_materialize m a = Some (Some l')"
    using hd l(1) by (simp add: pg_redis_shared_list_materialize_def l'_def)
  moreover have o: "list_ords l' = cell_ords cs"
    by (auto simp: list_ords_def l'_def l cell_ords_def copied_node_def list_new_node_def)
  moreover have "list_vals l' = cell_vals a cs"
    by (auto simp: list_vals_def l'_def l cell_vals_def copied_node_def list_new_node_def)
  moreover have "list_ok l'" using L(7-10) ne o by (simp add: list_ok_def l'_def l)
  moreover have "list_pending_items l' = [] \<and> l_pending_delete_ords l' = []"
    by (auto simp: list_pending_items_def l'_def l copied_node_def list_new_node_def filter_empty_conv)
  ultimately show "\<exists>l. pg_redis_shared_list_materialize m a = Some (Some l) \<and> list_ok l \<and>
      list_vals l = cell_vals a cs \<and> list_ords l = cell_ords cs \<and>
      list_pending_items l = [] \<and> l_pending_delete_ords l = []" by blast
qed

section \<open>The shared list implements the contract\<close>

definition pushed :: "int result \<times> 'm \<times> 'a \<Rightarrow> (int \<times> 'm \<times> 'a) result" where
  "pushed r = (case r of (Inl e, _) \<Rightarrow> Inl e | (Inr n, d) \<Rightarrow> Inr (n, d))"

definition popped :: "(bytes \<times> int) option \<times> 'd \<Rightarrow> bytes option \<times> 'd" where
  "popped r = map_prod (map_option fst) id r"

lemma list_is_same:
  assumes "list_is a m cs" "\<And>q. hash_find a' q = hash_find a q"
  shows "list_is a' m cs" "cell_vals a' cs = cell_vals a cs"
  using assms chain_cong [of cs a' a] by (simp_all add: list_is_def)

lemma pushed_left:
  assumes "dsa_alloc_ok al" "shared_list_ok a m" "pushed (pg_redis_shared_list_lpush al v m a) = Inr (n, m', a')"
  shows "shared_list_ok a' m'" "shared_vals a' m' = stored_value v # shared_vals a m" "n = int (length (shared_vals a' m'))"
    "dsa_frame a (list_owned a m) a' (list_owned a' m')"
proof -
  from assms(2) obtain cs where li: "list_is a m cs" and V: "shared_vals a m = cell_vals a cs" "list_owned a m = cell_ptrs cs"
    by (rule shared_list_okE)
  have op: "pg_redis_shared_list_lpush al v m a = (Inr n, m', a')"
    using assms(3) by (auto simp: pushed_def split: prod.splits sum.splits)
  from shared_lpush_ok [OF assms(1) li op] obtain cs' where cs':
    "n = int (length cs')" "list_is a' m' cs'" "cell_vals a' cs' = stored_value v # cell_vals a cs"
    "dsa_frame a (cell_ptrs cs) a' (cell_ptrs cs')" by auto
  note V' = list_is_views [OF cs'(2)]
  show "shared_list_ok a' m'" "shared_vals a' m' = stored_value v # shared_vals a m"
    "dsa_frame a (list_owned a m) a' (list_owned a' m')" using V' V cs' by simp_all
  show "n = int (length (shared_vals a' m'))" using V' cs'(1) by (simp add: cell_vals_def)
qed

lemma pushed_right:
  assumes "dsa_alloc_ok al" "shared_list_ok a m" "pushed (pg_redis_shared_list_rpush al v m a) = Inr (n, m', a')"
  shows "shared_list_ok a' m'" "shared_vals a' m' = shared_vals a m @ [stored_value v]" "n = int (length (shared_vals a' m'))"
    "dsa_frame a (list_owned a m) a' (list_owned a' m')"
proof -
  from assms(2) obtain cs where li: "list_is a m cs" and V: "shared_vals a m = cell_vals a cs" "list_owned a m = cell_ptrs cs"
    by (rule shared_list_okE)
  have op: "pg_redis_shared_list_rpush al v m a = (Inr n, m', a')"
    using assms(3) by (auto simp: pushed_def split: prod.splits sum.splits)
  from shared_rpush_ok [OF assms(1) li op] obtain cs' where cs':
    "n = int (length cs')" "list_is a' m' cs'" "cell_vals a' cs' = cell_vals a cs @ [stored_value v]"
    "dsa_frame a (cell_ptrs cs) a' (cell_ptrs cs')" by auto
  note V' = list_is_views [OF cs'(2)]
  show "shared_list_ok a' m'" "shared_vals a' m' = shared_vals a m @ [stored_value v]"
    "dsa_frame a (list_owned a m) a' (list_owned a' m')" using V' V cs' by simp_all
  show "n = int (length (shared_vals a' m'))" using V' cs'(1) by (simp add: cell_vals_def)
qed

lemma popped_left:
  assumes "shared_list_ok a m" "pg_redis_shared_list_lpop m a = (out, m', a')"
  shows "shared_list_ok a' m'" "shared_vals a' m' = tl (shared_vals a m)"
    "map_option fst out = (if shared_vals a m = [] then None else Some (hd (shared_vals a m)))"
    "dsa_frame a (list_owned a m) a' (list_owned a' m')"
proof -
  from assms(1) obtain cs where li: "list_is a m cs" and V: "shared_vals a m = cell_vals a cs" "list_owned a m = cell_ptrs cs"
    by (rule shared_list_okE)
  have "shared_list_ok a' m' \<and> shared_vals a' m' = tl (shared_vals a m) \<and>
    map_option fst out = (if shared_vals a m = [] then None else Some (hd (shared_vals a m))) \<and>
    dsa_frame a (list_owned a m) a' (list_owned a' m')"
  proof (cases cs)
    case Nil
    then show ?thesis using shared_lpop_Nil li assms V by (simp add: cell_vals_def)
  next
    case (Cons c r)
    obtain h n where c: "c = (h, n)" by force
    note P = shared_lpop_Cons [OF li [unfolded Cons c] assms(2)]
    show ?thesis using P V list_is_views [OF P(2)] by (simp add: Cons c cell_vals_def)
  qed
  then show "shared_list_ok a' m'" "shared_vals a' m' = tl (shared_vals a m)"
    "map_option fst out = (if shared_vals a m = [] then None else Some (hd (shared_vals a m)))"
    "dsa_frame a (list_owned a m) a' (list_owned a' m')" by simp_all
qed

lemma popped_right:
  assumes "shared_list_ok a m" "pg_redis_shared_list_rpop m a = (out, m', a')"
  shows "shared_list_ok a' m'" "shared_vals a' m' = butlast (shared_vals a m)"
    "map_option fst out = (if shared_vals a m = [] then None else Some (last (shared_vals a m)))"
    "dsa_frame a (list_owned a m) a' (list_owned a' m')"
proof -
  from assms(1) obtain cs where li: "list_is a m cs" and V: "shared_vals a m = cell_vals a cs" "list_owned a m = cell_ptrs cs"
    by (rule shared_list_okE)
  have "shared_list_ok a' m' \<and> shared_vals a' m' = butlast (shared_vals a m) \<and>
    map_option fst out = (if shared_vals a m = [] then None else Some (last (shared_vals a m))) \<and>
    dsa_frame a (list_owned a m) a' (list_owned a' m')"
  proof (cases cs rule: rev_cases)
    case Nil
    then show ?thesis using shared_rpop_Nil li assms V by (simp add: cell_vals_def)
  next
    case (snoc r c)
    obtain h n where c: "c = (h, n)" by force
    note P = shared_rpop_snoc [OF li [unfolded snoc c] assms(2)]
    show ?thesis using P V list_is_views [OF P(2)] by (simp add: snoc c cell_vals_def)
  qed
  then show "shared_list_ok a' m'" "shared_vals a' m' = butlast (shared_vals a m)"
    "map_option fst out = (if shared_vals a m = [] then None else Some (last (shared_vals a m)))"
    "dsa_frame a (list_owned a m) a' (list_owned a' m')" by simp_all
qed

definition push_left :: "allocator \<Rightarrow> bytes \<Rightarrow> PgRedisSharedListMeta \<times> dsa_area \<Rightarrow> (int \<times> PgRedisSharedListMeta \<times> dsa_area) result" where
  "push_left al v d = pushed (pg_redis_shared_list_lpush al v (fst d) (snd d))"

definition push_right :: "allocator \<Rightarrow> bytes \<Rightarrow> PgRedisSharedListMeta \<times> dsa_area \<Rightarrow> (int \<times> PgRedisSharedListMeta \<times> dsa_area) result" where
  "push_right al v d = pushed (pg_redis_shared_list_rpush al v (fst d) (snd d))"

definition pop_left :: "PgRedisSharedListMeta \<times> dsa_area \<Rightarrow> bytes option \<times> PgRedisSharedListMeta \<times> dsa_area" where
  "pop_left d = popped (pg_redis_shared_list_lpop (fst d) (snd d))"

definition pop_right :: "PgRedisSharedListMeta \<times> dsa_area \<Rightarrow> bytes option \<times> PgRedisSharedListMeta \<times> dsa_area" where
  "pop_right d = popped (pg_redis_shared_list_rpop (fst d) (snd d))"

interpretation shared_list: partial_deque "push_left al" "push_right al" pop_left pop_right
    "\<lambda>d. shared_vals (snd d) (fst d)" "\<lambda>d. dsa_alloc_ok al \<and> shared_list_ok (snd d) (fst d)"
    "\<lambda>v. int (length v) \<le> UINT16_MAX" for al
proof unfold_locales
  fix d n d' and v :: bytes
  assume ok: "dsa_alloc_ok al \<and> shared_list_ok (snd d) (fst d)" and v: "int (length v) \<le> UINT16_MAX"
  show "dsa_alloc_ok al \<and> shared_list_ok (snd d') (fst d')" "shared_vals (snd d') (fst d') = v # shared_vals (snd d) (fst d)"
    "n = int (length (shared_vals (snd d') (fst d')))" if "push_left al v d = Inr (n, d')"
    using pushed_left [of al "snd d" "fst d" v n "fst d'" "snd d'"] ok v that by (simp_all add: push_left_def stored_value_id)
  show "dsa_alloc_ok al \<and> shared_list_ok (snd d') (fst d')" "shared_vals (snd d') (fst d') = shared_vals (snd d) (fst d) @ [v]"
    "n = int (length (shared_vals (snd d') (fst d')))" if "push_right al v d = Inr (n, d')"
    using pushed_right [of al "snd d" "fst d" v n "fst d'" "snd d'"] ok v that by (simp_all add: push_right_def stored_value_id)
next
  fix d
  assume ok: "dsa_alloc_ok al \<and> shared_list_ok (snd d) (fst d)"
  obtain o1 m1 a1 where l: "pg_redis_shared_list_lpop (fst d) (snd d) = (o1, m1, a1)" by (metis prod_cases3)
  obtain o2 m2 a2 where r: "pg_redis_shared_list_rpop (fst d) (snd d) = (o2, m2, a2)" by (metis prod_cases3)
  note L = popped_left [OF conjunct2 [OF ok] l] and R = popped_right [OF conjunct2 [OF ok] r]
  show "dsa_alloc_ok al \<and> shared_list_ok (snd (snd (pop_left d))) (fst (snd (pop_left d)))"
    "dsa_alloc_ok al \<and> shared_list_ok (snd (snd (pop_right d))) (fst (snd (pop_right d)))"
    using ok L(1) R(1) by (simp_all add: pop_left_def pop_right_def popped_def l r)
  show "shared_vals (snd (snd (pop_left d))) (fst (snd (pop_left d))) = tl (shared_vals (snd d) (fst d))"
    "shared_vals (snd (snd (pop_right d))) (fst (snd (pop_right d))) = butlast (shared_vals (snd d) (fst d))"
    using L(2) R(2) by (simp_all add: pop_left_def pop_right_def popped_def l r)
  show "fst (pop_left d) = (if shared_vals (snd d) (fst d) = [] then None else Some (hd (shared_vals (snd d) (fst d))))"
    "fst (pop_right d) = (if shared_vals (snd d) (fst d) = [] then None else Some (last (shared_vals (snd d) (fst d))))"
    using L(3) R(3) by (simp_all add: pop_left_def pop_right_def popped_def l r)
qed

section \<open>Properties\<close>

text \<open>
  C16: \<open>LPUSH\<close> and \<open>RPUSH\<close> on a shared list: either the segment is out of memory and the list and every
  chunk are as before, or the value, cut to the length its 16-bit field holds, is the new first (last)
  element and the answer is the new length. The list stays well formed, ordinals included, and no
  chunk of another owner is touched.
\<close>

theorem shared_list_push_refines:
  assumes "dsa_alloc_ok al" "shared_list_ok a m"
    and "pg_redis_shared_list_lpush al v m a = (r1, m1, a1)" "pg_redis_shared_list_rpush al v m a = (r2, m2, a2)"
  shows "(if r1 = Inl OutOfSharedMemory then m1 = m \<and> (\<forall>q. hash_find a1 q = hash_find a q)
      else r1 = Inr (int (length (shared_vals a m)) + 1) \<and> shared_list_ok a1 m1 \<and>
        shared_vals a1 m1 = stored_value v # shared_vals a m \<and> dsa_frame a (list_owned a m) a1 (list_owned a1 m1)) \<and>
    (if r2 = Inl OutOfSharedMemory then m2 = m \<and> (\<forall>q. hash_find a2 q = hash_find a q)
      else r2 = Inr (int (length (shared_vals a m)) + 1) \<and> shared_list_ok a2 m2 \<and>
        shared_vals a2 m2 = shared_vals a m @ [stored_value v] \<and> dsa_frame a (list_owned a m) a2 (list_owned a2 m2))"
proof -
  from assms(2) obtain cs where li: "list_is a m cs" by (rule shared_list_okE)
  have "r1 = Inl OutOfSharedMemory \<or> (\<exists>n. r1 = Inr n)" "r2 = Inl OutOfSharedMemory \<or> (\<exists>n. r2 = Inr n)"
    "r1 = Inl OutOfSharedMemory \<longrightarrow> m1 = m \<and> (\<forall>q. hash_find a1 q = hash_find a q)"
    "r2 = Inl OutOfSharedMemory \<longrightarrow> m2 = m \<and> (\<forall>q. hash_find a2 q = hash_find a q)"
    using shared_lpush_ok [OF assms(1) li assms(3)] shared_rpush_ok [OF assms(1) li assms(4)] by auto
  moreover note pushed_left [OF assms(1,2), of v _ m1 a1] pushed_right [OF assms(1,2), of v _ m2 a2]
  ultimately show ?thesis using assms(3,4) by (auto simp: pushed_def)
qed

theorem shared_list_push_refines_witness:
  "\<exists>m1 a1. pg_redis_shared_list_lpush (bump_alloc 10) [7] meta_empty [] = (Inr 1, m1, a1) \<and> shared_vals a1 m1 = [[7]]"
proof -
  have ok: "shared_list_ok [] meta_empty" by code_simp
  have e: "shared_vals [] meta_empty = []" "stored_value [7] = [7]" by code_simp+
  obtain r1 m1 a1 where l: "pg_redis_shared_list_lpush (bump_alloc 10) [7] meta_empty [] = (r1, m1, a1)" by (metis prod_cases3)
  obtain r2 m2 a2 where r: "pg_redis_shared_list_rpush (bump_alloc 10) [7] meta_empty [] = (r2, m2, a2)" by (metis prod_cases3)
  have "fst (pg_redis_shared_list_lpush (bump_alloc 10) [7] meta_empty []) = Inr 1" by code_simp
  then show ?thesis using shared_list_push_refines [OF bump_alloc_ok ok l r] e l by simp
qed

text \<open>
  The loops over a shared list return: freeing a well-formed list ends, with exactly its chunks
  released and an empty list left, and materialising it ends in a session list with the same values
  and the same ordinals that has nothing pending for the flush.
\<close>

lemma shared_list_loops_return:
  assumes "shared_list_ok a m"
  shows "(\<exists>b. pg_redis_shared_list_free m a = Some (meta_empty, b) \<and>
      (\<forall>q. hash_find b q = (if q \<in> list_owned a m then None else hash_find a q))) \<and>
    (\<exists>c. pg_redis_shared_list_materialize m a = Some c \<and>
      (case c of None \<Rightarrow> shared_vals a m = []
       | Some l \<Rightarrow> list_ok l \<and> list_vals l = shared_vals a m \<and> list_ords l = cell_ords (cells a m) \<and>
           list_pending_items l = [] \<and> l_pending_delete_ords l = []))"
proof -
  have li: "list_is a m (cells a m)" using assms by (simp add: shared_list_ok_def)
  show ?thesis
    using shared_list_free_ok [OF li] shared_list_materialize_ok [OF li]
    by (cases "cells a m = []") (auto simp: list_owned_def shared_vals_def cell_vals_def)
qed

end
