(* ===== verification/Shared_Store.thy ===== *)
theory Shared_Store
  imports Ownership Shared_Hash Shared_List Keyspace
begin

text \<open>
  \<open>src/shared_store.c\<close>: the keyspace in shared memory, a hash table of entries whose values are chunks of
  the segment. A command copies an entry into a scratch \<open>PgRedisEntry\<close> (materialise), works on the copy
  and writes it back. Every operation here runs under the lock of the key's partition, so it is one step;
  the keyspace is initialised, since shared storage is not selected otherwise. Operations that walk a list
  may not return on a cyclic chain, hence the outer option; the invariant excludes it.
\<close>

section \<open>Entries\<close>

text \<open>
  The value union with its tag. Every member is zero after a release, whatever the type was, so changing
  the tag of a released entry gives the empty value of the new type. The unused ordinals of an empty list
  are those of \<open>meta_empty\<close>.
\<close>

datatype shared_value =
    SharedString dsa_pointer nat
  | SharedInt int
  | SharedHash dsa_pointer int
  | SharedList PgRedisSharedListMeta

record PgRedisSharedEntry =
  se_value :: shared_value
  se_expire_at :: int
  se_has_expire :: bool
  se_version :: nat

fun shared_type :: "shared_value \<Rightarrow> PgRedisValueType" where
  "shared_type (SharedString _ _) = PG_REDIS_TYPE_STRING"
| "shared_type (SharedInt _) = PG_REDIS_TYPE_INT"
| "shared_type (SharedHash _ _) = PG_REDIS_TYPE_HASH"
| "shared_type (SharedList _) = PG_REDIS_TYPE_LIST"

definition se_type :: "PgRedisSharedEntry \<Rightarrow> PgRedisValueType" where
  "se_type se = shared_type (se_value se)"

definition se_expired :: "int \<Rightarrow> PgRedisSharedEntry \<Rightarrow> bool" where
  "se_expired now se \<longleftrightarrow> se_has_expire se \<and> now \<ge> se_expire_at se"

fun empty_value :: "PgRedisValueType \<Rightarrow> shared_value" where
  "empty_value PG_REDIS_TYPE_STRING = SharedString 0 0"
| "empty_value PG_REDIS_TYPE_INT = SharedInt 0"
| "empty_value PG_REDIS_TYPE_HASH = SharedHash 0 0"
| "empty_value PG_REDIS_TYPE_LIST = SharedList meta_empty"

record shared_store =
  ss_keys :: "(bytes, PgRedisSharedEntry) htab"
  ss_area :: dsa_area

section \<open>Between shared entries and scratch copies\<close>

fun materialize_value :: "dsa_area \<Rightarrow> shared_value \<Rightarrow> PgRedisValue result option" where
  "materialize_value a (SharedString p n) =
     Some (Inr (StringValue (if pg_redis_shared_addr p a \<noteq> None \<and> n > 0 then Some (dsa_bytes a p n) else None)))"
| "materialize_value a (SharedInt i) = Some (Inr (IntValue i))"
| "materialize_value a (SharedHash p c) = Some (map_sum id HashValue (pg_redis_shared_hash_materialize p a))"
| "materialize_value a (SharedList m) = map_option (\<lambda>l. Inr (ListValue l)) (pg_redis_shared_list_materialize m a)"

definition materialize_scratch :: "dsa_area \<Rightarrow> PgRedisSharedEntry \<Rightarrow> PgRedisEntry result option" where
  "materialize_scratch a se =
     map_option (map_sum id (\<lambda>v.
       \<lparr>e_value = v, e_expire_at = se_expire_at se, e_has_expire = se_has_expire se, e_dirty = False,
        e_deleted = False, e_in_dirty_set = False, e_version = se_version se, e_memory_usage = 0\<rparr>))
       (materialize_value a (se_value se))"

fun release_value :: "shared_value \<Rightarrow> dsa_area \<Rightarrow> (shared_value \<times> dsa_area) option" where
  "release_value (SharedString p n) a = Some (SharedString 0 0, pg_redis_shared_pfree p a)"
| "release_value (SharedInt i) a = Some (SharedInt 0, a)"
| "release_value (SharedHash p c) a = Some (SharedHash 0 0, pg_redis_shared_hash_free p a)"
| "release_value (SharedList m) a = map_option (\<lambda>(m, a). (SharedList m, a)) (pg_redis_shared_list_free m a)"

definition pg_redis_shared_entry_release_payloads ::
    "PgRedisSharedEntry \<Rightarrow> dsa_area \<Rightarrow> (PgRedisSharedEntry \<times> dsa_area) option" where
  "pg_redis_shared_entry_release_payloads se a =
     map_option (\<lambda>(v, a). (se\<lparr>se_value := v\<rparr>, a)) (release_value (se_value se) a)"

text \<open>The two loops over the fields of a hash; \<open>count\<close> is the field count kept beside the table pointer.\<close>

fun set_fields ::
    "hash_fn \<Rightarrow> allocator \<Rightarrow> (bytes \<times> bytes) list \<Rightarrow> dsa_pointer \<Rightarrow> int \<Rightarrow> dsa_area \<Rightarrow>
     unit result \<times> dsa_pointer \<times> int \<times> dsa_area" where
  "set_fields hb al [] p count a = (Inr (), p, count, a)"
| "set_fields hb al ((f, v) # fs) p count a =
     (case pg_redis_shared_hash_set hb al p f v a of
        (Inl err, p, a) \<Rightarrow> (Inl err, p, count, a)
      | (Inr was_new, p, a) \<Rightarrow> set_fields hb al fs p (if was_new then count + 1 else count) a)"

fun del_fields ::
    "hash_fn \<Rightarrow> allocator \<Rightarrow> bytes list \<Rightarrow> dsa_pointer \<Rightarrow> int \<Rightarrow> dsa_area \<Rightarrow>
     unit result \<times> dsa_pointer \<times> int \<times> dsa_area" where
  "del_fields hb al [] p count a = (Inr (), p, count, a)"
| "del_fields hb al (f # fs) p count a =
     (case pg_redis_shared_hash_del hb al p f a of
        (Inl err, p, a) \<Rightarrow> (Inl err, p, count, a)
      | (Inr hit, p, a) \<Rightarrow> del_fields hb al fs p (if hit then count - 1 else count) a)"

fun push_nodes :: "allocator \<Rightarrow> bytes list \<Rightarrow> PgRedisSharedListMeta \<Rightarrow> dsa_area \<Rightarrow>
     unit result \<times> PgRedisSharedListMeta \<times> dsa_area" where
  "push_nodes al [] m a = (Inr (), m, a)"
| "push_nodes al (v # vs) m a =
     (case pg_redis_shared_list_rpush al v m a of
        (Inl err, m, a) \<Rightarrow> (Inl err, m, a)
      | (Inr _, m, a) \<Rightarrow> push_nodes al vs m a)"

text \<open>A value built in the segment; what was built of it is freed when memory runs out.\<close>

fun populate_value :: "hash_fn \<Rightarrow> allocator \<Rightarrow> PgRedisValue \<Rightarrow> dsa_area \<Rightarrow> (shared_value result \<times> dsa_area) option" where
  "populate_value hb al (StringValue s) a =
     (let bs = (case s of None \<Rightarrow> [] | Some b \<Rightarrow> b)
      in case alloc_value al bs a of (p, a) \<Rightarrow>
           if bs \<noteq> [] \<and> p = 0 then Some (Inl OutOfSharedMemory, a) else Some (Inr (SharedString p (length bs)), a))"
| "populate_value hb al (IntValue i) a = Some (Inr (SharedInt i), a)"
| "populate_value hb al (HashValue None) a = Some (Inr (SharedHash 0 0), a)"
| "populate_value hb al (HashValue (Some h)) a =
     (case set_fields hb al (map (\<lambda>(f, x). (f, hf_value x)) (hash_seq (h_fields h))) 0 0 a of
        (Inl err, p, count, a) \<Rightarrow> Some (Inl err, pg_redis_shared_hash_free p a)
      | (Inr _, p, count, a) \<Rightarrow> Some (Inr (SharedHash p count), a))"
| "populate_value hb al (ListValue None) a = Some (Inr (SharedList meta_empty), a)"
| "populate_value hb al (ListValue (Some l)) a =
     (case push_nodes al (map ln_value (l_nodes l)) meta_empty a of
        (Inl err, m, a) \<Rightarrow> map_option (\<lambda>(m, a). (Inl err, a)) (pg_redis_shared_list_free m a)
      | (Inr _, m, a) \<Rightarrow> Some (Inr (SharedList m), a))"

definition populate_shared_from_scratch ::
    "hash_fn \<Rightarrow> allocator \<Rightarrow> PgRedisEntry \<Rightarrow> dsa_area \<Rightarrow> (unit result \<times> PgRedisSharedEntry \<times> dsa_area) option" where
  "populate_shared_from_scratch hb al e a =
     (let se = \<lparr>se_value = empty_value (e_type e), se_expire_at = e_expire_at e, se_has_expire = e_has_expire e,
                se_version = e_version e\<rparr>
      in map_option (\<lambda>(r, a). case r of
             Inl err \<Rightarrow> (Inl err, se, a)
           | Inr v \<Rightarrow> (Inr (), se\<lparr>se_value := v\<rparr>, a))
         (populate_value hb al (e_value e) a))"

text \<open>
  Only the dirty fields and the tombstones of a scratch hash, in place. The table pointer is a local
  variable that reaches the entry at the end, so not when a set raises.
\<close>

definition surgical_apply_hash ::
    "hash_fn \<Rightarrow> allocator \<Rightarrow> PgRedisHash option \<Rightarrow> dsa_pointer \<Rightarrow> int \<Rightarrow> dsa_area \<Rightarrow> unit result \<times> shared_value \<times> dsa_area" where
  "surgical_apply_hash hb al h table field_count a =
     (case set_fields hb al (case h of None \<Rightarrow> [] | Some h \<Rightarrow> hash_dirty_items h) table field_count a of
        (Inl err, _, _, a) \<Rightarrow> (Inl err, SharedHash table field_count, a)
      | (Inr _, p, count, a) \<Rightarrow>
          (case del_fields hb al (case h of None \<Rightarrow> [] | Some h \<Rightarrow> h_tombstones h) p count a of
             (Inl err, _, _, a) \<Rightarrow> (Inl err, SharedHash table field_count, a)
           | (Inr _, p, count, a) \<Rightarrow> (Inr (), SharedHash p count, a)))"

section \<open>Operations\<close>

definition pg_redis_shared_store_lookup_raw :: "bytes \<Rightarrow> shared_store \<Rightarrow> PgRedisEntry option result option" where
  "pg_redis_shared_store_lookup_raw key S =
     (case hash_find (ss_keys S) key of
        None \<Rightarrow> Some (Inr None)
      | Some se \<Rightarrow> map_option (map_sum id Some) (materialize_scratch (ss_area S) se))"

definition pg_redis_shared_store_remove :: "bytes \<Rightarrow> shared_store \<Rightarrow> (bool \<times> shared_store) option" where
  "pg_redis_shared_store_remove key S =
     (case hash_find (ss_keys S) key of
        None \<Rightarrow> Some (False, S)
      | Some se \<Rightarrow>
          map_option (\<lambda>(se, a). (True, \<lparr>ss_keys = hash_remove (ss_keys S) key, ss_area = a\<rparr>))
            (pg_redis_shared_entry_release_payloads se (ss_area S)))"

definition pg_redis_shared_store_lookup ::
    "int \<Rightarrow> bytes \<Rightarrow> shared_store \<Rightarrow> (PgRedisEntry option result \<times> shared_store) option" where
  "pg_redis_shared_store_lookup now key S =
     (case pg_redis_shared_store_lookup_raw key S of
        None \<Rightarrow> None
      | Some (Inl err) \<Rightarrow> Some (Inl err, S)
      | Some (Inr None) \<Rightarrow> Some (Inr None, S)
      | Some (Inr (Some e)) \<Rightarrow>
          if e_has_expire e \<and> now \<ge> e_expire_at e
          then map_option (\<lambda>(_, S). (Inr None, S)) (pg_redis_shared_store_remove key S)
          else Some (Inr (Some e), S))"

definition fresh_shared_entry :: PgRedisSharedEntry where
  "fresh_shared_entry =
     \<lparr>se_value = SharedString 0 0, se_expire_at = 0, se_has_expire = False, se_version = 1\<rparr>"

text \<open>The entry that a command starts from: the one there, a new one, or an expired one emptied.\<close>

definition upsert_entry :: "int \<Rightarrow> bytes \<Rightarrow> shared_store \<Rightarrow> (bool \<times> PgRedisSharedEntry \<times> dsa_area) option" where
  "upsert_entry now key S =
     (case hash_find (ss_keys S) key of
        None \<Rightarrow> Some (True, fresh_shared_entry, ss_area S)
      | Some se \<Rightarrow>
          if se_expired now se
          then map_option (\<lambda>(se, a). (True, se\<lparr>se_value := SharedString 0 0, se_expire_at := 0, se_has_expire := False,
                                               se_version := 1\<rparr>, a))
                 (pg_redis_shared_entry_release_payloads se (ss_area S))
          else Some (False, se, ss_area S))"

definition pg_redis_shared_store_upsert ::
    "int \<Rightarrow> bytes \<Rightarrow> shared_store \<Rightarrow> ((bool \<times> PgRedisEntry) result \<times> shared_store) option" where
  "pg_redis_shared_store_upsert now key S =
     (case upsert_entry now key S of
        None \<Rightarrow> None
      | Some (is_new, se, a) \<Rightarrow>
          map_option (\<lambda>r. (map_sum id (Pair is_new) r, \<lparr>ss_keys = hash_enter (ss_keys S) key se, ss_area = a\<rparr>))
            (materialize_scratch a se))"

fun release_all :: "(bytes \<times> PgRedisSharedEntry) list \<Rightarrow> dsa_area \<Rightarrow> dsa_area option" where
  "release_all [] a = Some a"
| "release_all ((k, se) # es) a =
     (case pg_redis_shared_entry_release_payloads se a of None \<Rightarrow> None | Some (_, a) \<Rightarrow> release_all es a)"

definition pg_redis_shared_store_reset_all :: "shared_store \<Rightarrow> (nat \<times> shared_store) option" where
  "pg_redis_shared_store_reset_all S =
     map_option (\<lambda>a.
         case foldl (\<lambda>(removed, ks) k. (if hash_find ks k \<noteq> None then removed + 1 else removed, hash_remove ks k))
                (0, ss_keys S) (map fst (hash_seq (ss_keys S))) of
           (removed, ks) \<Rightarrow> (removed, \<lparr>ss_keys = ks, ss_area = a\<rparr>))
       (release_all (hash_seq (ss_keys S)) (ss_area S))"

text \<open>Rebuild of an entry: its old chunks go before the new ones are allocated.\<close>

definition rebuild_entry ::
    "hash_fn \<Rightarrow> allocator \<Rightarrow> PgRedisSharedEntry option \<Rightarrow> PgRedisEntry \<Rightarrow> dsa_area \<Rightarrow>
     (unit result \<times> PgRedisSharedEntry \<times> dsa_area) option" where
  "rebuild_entry hb al old scratch a =
     (case old of
        None \<Rightarrow> populate_shared_from_scratch hb al scratch a
      | Some se \<Rightarrow>
          (case pg_redis_shared_entry_release_payloads se a of
             None \<Rightarrow> None
           | Some (_, a) \<Rightarrow> populate_shared_from_scratch hb al scratch a))"

text \<open>A hash that stays a hash is updated in place; everything else is rebuilt.\<close>

definition writeback_entry ::
    "hash_fn \<Rightarrow> allocator \<Rightarrow> PgRedisSharedEntry option \<Rightarrow> PgRedisEntry \<Rightarrow> dsa_area \<Rightarrow>
     (unit result \<times> PgRedisSharedEntry \<times> dsa_area) option" where
  "writeback_entry hb al old scratch a =
     (case (map_option se_value old, e_value scratch) of
        (Some (SharedHash table count), HashValue h) \<Rightarrow>
          (case surgical_apply_hash hb al h table count a of (r, v, a) \<Rightarrow>
             Some (r, \<lparr>se_value = v, se_expire_at = e_expire_at scratch, se_has_expire = e_has_expire scratch,
                       se_version = e_version scratch\<rparr>, a))
      | _ \<Rightarrow> rebuild_entry hb al old scratch a)"

definition pg_redis_shared_store_writeback ::
    "hash_fn \<Rightarrow> allocator \<Rightarrow> bytes \<Rightarrow> PgRedisEntry \<Rightarrow> shared_store \<Rightarrow> (unit result \<times> shared_store) option" where
  "pg_redis_shared_store_writeback hb al key scratch S =
     map_option (\<lambda>(r, se, a). (r, \<lparr>ss_keys = hash_enter (ss_keys S) key se, ss_area = a\<rparr>))
       (writeback_entry hb al (hash_find (ss_keys S) key) scratch (ss_area S))"

datatype PgRedisFastHashOutcome =
    PG_REDIS_FAST_HASH_HIT
  | PG_REDIS_FAST_HASH_FIELD_MISS
  | PG_REDIS_FAST_HASH_KEY_MISS
  | PG_REDIS_FAST_HASH_KEY_EXPIRED
  | PG_REDIS_FAST_HASH_WRONGTYPE

text \<open>The read of one field without a scratch copy: the outcome, the value and the actual type.\<close>

definition pg_redis_shared_hash_lookup_field ::
    "hash_fn \<Rightarrow> int \<Rightarrow> bytes \<Rightarrow> bytes \<Rightarrow> bool \<Rightarrow> shared_store \<Rightarrow>
     (PgRedisFastHashOutcome \<times> bytes option \<times> PgRedisValueType option) result" where
  "pg_redis_shared_hash_lookup_field hb now key field want_value S =
     (case hash_find (ss_keys S) key of
        None \<Rightarrow> Inr (PG_REDIS_FAST_HASH_KEY_MISS, None, None)
      | Some se \<Rightarrow>
          if se_expired now se then Inr (PG_REDIS_FAST_HASH_KEY_EXPIRED, None, None)
          else case se_value se of
            SharedHash table_dsa _ \<Rightarrow>
              if want_value
              then map_sum id (\<lambda>v. (if v \<noteq> None then PG_REDIS_FAST_HASH_HIT else PG_REDIS_FAST_HASH_FIELD_MISS, v, None))
                     (pg_redis_shared_hash_get hb table_dsa field (ss_area S))
              else map_sum id (\<lambda>hit. (if hit then PG_REDIS_FAST_HASH_HIT else PG_REDIS_FAST_HASH_FIELD_MISS, None, None))
                     (pg_redis_shared_hash_exists hb table_dsa field (ss_area S))
          | _ \<Rightarrow> Inr (PG_REDIS_FAST_HASH_WRONGTYPE, None, Some (se_type se)))"

section \<open>What a shared keyspace stands for\<close>

fun value_abs :: "dsa_area \<Rightarrow> shared_value \<Rightarrow> rvalue" where
  "value_abs a (SharedString p n) = RString (dsa_bytes a p n)"
| "value_abs a (SharedInt i) = RInt i"
| "value_abs a (SharedHash p c) = RHash (shared_map a p)"
| "value_abs a (SharedList m) = RList (shared_vals a m)"

fun value_owned :: "dsa_area \<Rightarrow> shared_value \<Rightarrow> dsa_pointer set" where
  "value_owned a (SharedString p n) = {p} - {0}"
| "value_owned a (SharedInt i) = {}"
| "value_owned a (SharedHash p c) = owned a p"
| "value_owned a (SharedList m) = list_owned a m"

fun shared_value_ok :: "hash_fn \<Rightarrow> dsa_area \<Rightarrow> shared_value \<Rightarrow> bool" where
  "shared_value_ok hb a (SharedString p n) \<longleftrightarrow> (if p = 0 then n = 0 else \<exists>bs. hash_find a p = Some (Raw bs) \<and> n = length bs \<and> bs \<noteq> [])"
| "shared_value_ok hb a (SharedInt i) \<longleftrightarrow> True"
| "shared_value_ok hb a (SharedHash p c) \<longleftrightarrow> shared_hash_ok hb a p \<and> c = int (card (dom (shared_map a p)))"
| "shared_value_ok hb a (SharedList m) \<longleftrightarrow> shared_list_ok a m"

definition se_abs :: "dsa_area \<Rightarrow> PgRedisSharedEntry \<Rightarrow> rvalue \<times> int option" where
  "se_abs a se = (value_abs a (se_value se), if se_has_expire se then Some (se_expire_at se) else None)"

definition shared_view :: "shared_store \<Rightarrow> keyspace" where
  "shared_view S k = map_option (se_abs (ss_area S)) (hash_find (ss_keys S) k)"

definition shared_live :: "int \<Rightarrow> shared_store \<Rightarrow> keyspace" where
  "shared_live now S = drop_expired now (shared_view S)"

section \<open>Values own their chunks\<close>

lemma owned_Some:
  assumes "shared_hash_ok hb a p" "q \<in> owned a p"
  shows "hash_find a q \<noteq> None"
proof -
  have p: "p \<noteq> 0" using assms(2) by (cases "p = 0") simp_all
  then obtain t where t: "hash_find a p = Some (HashTable t)" "table_ok hb a t" using assms(1) by (auto simp: shared_hash_ok_def)
  then show ?thesis using assms(2) table_ptrs_Raw(2) [OF t(2), of q] by (auto simp: owned_table [OF t(1) p])
qed

interpretation table_owner: owner "shared_hash_ok hb" owned shared_map for hb
proof unfold_locales
  fix a b p assume ok: "shared_hash_ok hb a p" and same: "\<And>q. q \<in> owned a p \<Longrightarrow> hash_find b q = hash_find a q"
  have "shared_hash_ok hb b p \<and> owned b p = owned a p \<and> shared_map b p = shared_map a p"
  proof (cases "p = 0")
    case False
    then obtain t where t: "hash_find a p = Some (HashTable t)" "table_ok hb a t" using ok by (auto simp: shared_hash_ok_def)
    have o: "owned a p = insert p (table_ptrs t)" by (rule owned_table [OF t(1) False])
    then have b: "hash_find b p = Some (HashTable t)" using same t(1) by simp
    have "\<And>q. q \<in> table_ptrs t \<Longrightarrow> hash_find b q = hash_find a q" using same o by simp
    from table_cong [OF this] show ?thesis
      using t b o False by (simp add: shared_hash_ok_def owned_table shared_map_table)
  qed (simp add: shared_hash_ok_def)
  then show "shared_hash_ok hb b p" "owned b p = owned a p" "shared_map b p = shared_map a p" by simp_all
qed (rule owned_Some)

lemma list_is_cong:
  assumes "list_is a m cs" "\<And>q. q \<in> cell_ptrs cs \<Longrightarrow> hash_find b q = hash_find a q"
  shows "list_is b m cs" "cell_vals b cs = cell_vals a cs"
  using chain_cong [OF assms(2)] assms(1) by (simp_all add: list_is_def)

interpretation list_owner: owner shared_list_ok list_owned shared_vals
proof unfold_locales
  fix a b m assume ok: "shared_list_ok a m" and same: "\<And>q. q \<in> list_owned a m \<Longrightarrow> hash_find b q = hash_find a q"
  from ok obtain cs where cs: "list_is a m cs" "shared_vals a m = cell_vals a cs" "list_owned a m = cell_ptrs cs" by (rule shared_list_okE)
  have "\<And>q. q \<in> cell_ptrs cs \<Longrightarrow> hash_find b q = hash_find a q" using same cs(3) by simp
  note c = list_is_cong [OF cs(1) this]
  from list_is_views [OF c(1)] c(2) cs show "shared_list_ok b m" "list_owned b m = list_owned a m" "shared_vals b m = shared_vals a m" by simp_all
next
  fix a m q assume ok: "shared_list_ok a m" and q: "q \<in> list_owned a m"
  from ok obtain cs where "list_is a m cs" "list_owned a m = cell_ptrs cs" by (rule shared_list_okE)
  then show "hash_find a q \<noteq> None" using chain_ptrs_used(1) [OF list_isD(1)] q by simp
qed

interpretation value_owner: owner "shared_value_ok hb" value_owned value_abs for hb
proof unfold_locales
  fix a b v assume ok: "shared_value_ok hb a v" and same: "\<And>q. q \<in> value_owned a v \<Longrightarrow> hash_find b q = hash_find a q"
  have "shared_value_ok hb b v \<and> value_owned b v = value_owned a v \<and> value_abs b v = value_abs a v"
  proof (cases v)
    case (SharedString p n)
    then have "p = 0 \<or> hash_find b p = hash_find a p" using same by (cases "p = 0") auto
    then show ?thesis using ok SharedString by (auto simp: dsa_bytes_def pg_redis_shared_addr_def)
  next
    case (SharedHash p c)
    then have o: "shared_hash_ok hb a p" and s: "\<And>q. q \<in> owned a p \<Longrightarrow> hash_find b q = hash_find a q" using ok same by simp_all
    from table_owner.ok_local [OF o s] table_owner.own_local [OF o s] table_owner.view_local [OF o s]
    show ?thesis using ok SharedHash by simp
  next
    case (SharedList m)
    then have o: "shared_list_ok a m" and s: "\<And>q. q \<in> list_owned a m \<Longrightarrow> hash_find b q = hash_find a q" using ok same by simp_all
    from list_owner.ok_local [OF o s] list_owner.own_local [OF o s] list_owner.view_local [OF o s]
    show ?thesis using SharedList by simp
  qed simp
  then show "shared_value_ok hb b v" "value_owned b v = value_owned a v" "value_abs b v = value_abs a v" by simp_all
next
  fix a v q assume "shared_value_ok hb a v" "q \<in> value_owned a v"
  then show "hash_find a q \<noteq> None"
    using owned_Some list_owner.own_used by (cases v) (auto split: if_splits)
qed

definition se_ok :: "hash_fn \<Rightarrow> dsa_area \<Rightarrow> PgRedisSharedEntry \<Rightarrow> bool" where
  "se_ok hb a se \<longleftrightarrow> shared_value_ok hb a (se_value se)"

definition se_owned :: "dsa_area \<Rightarrow> PgRedisSharedEntry \<Rightarrow> dsa_pointer set" where
  "se_owned a se = value_owned a (se_value se)"

lemmas se_defs = se_ok_def se_owned_def se_abs_def

interpretation entry: owner "se_ok hb" se_owned se_abs for hb
proof unfold_locales
  fix a b se assume ok: "se_ok hb a se" and same: "\<And>q. q \<in> se_owned a se \<Longrightarrow> hash_find b q = hash_find a q"
  have o: "shared_value_ok hb a (se_value se)" and s: "\<And>q. q \<in> value_owned a (se_value se) \<Longrightarrow> hash_find b q = hash_find a q"
    using ok same by (simp_all add: se_defs)
  from value_owner.ok_local [OF o s] value_owner.own_local [OF o s] value_owner.view_local [OF o s]
  show "se_ok hb b se" "se_owned b se = se_owned a se" "se_abs b se = se_abs a se" by (simp_all add: se_defs)
next
  fix a se q assume "se_ok hb a se" "q \<in> se_owned a se"
  then show "hash_find a q \<noteq> None" using value_owner.own_used by (simp add: se_defs)
qed

text \<open>
  The invariant of the shared keyspace: every entry is well formed in the segment, and no chunk belongs
  to two of them.
\<close>

definition shared_ok :: "hash_fn \<Rightarrow> shared_store \<Rightarrow> bool" where
  "shared_ok hb S \<longleftrightarrow> htab_ok (ss_keys S) \<and> entry.family hb (ss_area S) (hash_find (ss_keys S))"

text \<open>The chunks of the whole keyspace.\<close>

definition store_owned :: "shared_store \<Rightarrow> dsa_pointer set" where
  "store_owned S = entry.whole (ss_area S) (hash_find (ss_keys S))"

lemma shared_ok_entry: "shared_ok hb S \<Longrightarrow> hash_find (ss_keys S) k = Some se \<Longrightarrow> se_ok hb (ss_area S) se"
  using entry.familyD(1) by (auto simp: shared_ok_def)

text \<open>All operations change one key within the frame of its entry.\<close>

lemma shared_put:
  assumes ok: "shared_ok hb S" and se: "se_ok hb a se"
    and fr: "dsa_frame (ss_area S) (entry.owno (ss_area S) (hash_find (ss_keys S) key)) a (se_owned a se)"
  shows "shared_ok hb \<lparr>ss_keys = hash_enter (ss_keys S) key se, ss_area = a\<rparr>"
    and "shared_view \<lparr>ss_keys = hash_enter (ss_keys S) key se, ss_area = a\<rparr> = (shared_view S)(key \<mapsto> se_abs a se)"
    and "dsa_frame (ss_area S) (store_owned S) a (store_owned \<lparr>ss_keys = hash_enter (ss_keys S) key se, ss_area = a\<rparr>)"
proof -
  let ?m = "hash_find (ss_keys S)"
  have fam: "entry.family hb (ss_area S) ?m" using ok by (simp add: shared_ok_def)
  have m: "hash_find (hash_enter (ss_keys S) key se) = ?m(key \<mapsto> se)" by (rule ext) simp
  have fr': "dsa_frame (ss_area S) (entry.owno (ss_area S) (?m key)) a (entry.owno a (Some se))" using fr by simp
  have "\<And>y. Some se = Some y \<Longrightarrow> se_ok hb a y" using se by simp
  note U = entry.family_update [OF fam fr' this]
  show "shared_ok hb \<lparr>ss_keys = hash_enter (ss_keys S) key se, ss_area = a\<rparr>"
    using U(1) se ok htab.ok_enter by (simp add: shared_ok_def m)
  show "shared_view \<lparr>ss_keys = hash_enter (ss_keys S) key se, ss_area = a\<rparr> = (shared_view S)(key \<mapsto> se_abs a se)"
  proof
    fix k
    show "shared_view \<lparr>ss_keys = hash_enter (ss_keys S) key se, ss_area = a\<rparr> k = ((shared_view S)(key \<mapsto> se_abs a se)) k"
    proof (cases "k = key")
      case False
      then show ?thesis using U(2) [of k] se by (cases "?m k") (simp_all add: shared_view_def)
    qed (simp add: shared_view_def)
  qed
  show "dsa_frame (ss_area S) (store_owned S) a (store_owned \<lparr>ss_keys = hash_enter (ss_keys S) key se, ss_area = a\<rparr>)"
    using U(3) se by (simp add: store_owned_def m)
qed

lemma shared_drop:
  assumes ok: "shared_ok hb S"
    and fr: "dsa_frame (ss_area S) (entry.owno (ss_area S) (hash_find (ss_keys S) key)) a {}"
  shows "shared_ok hb \<lparr>ss_keys = hash_remove (ss_keys S) key, ss_area = a\<rparr>"
    and "shared_view \<lparr>ss_keys = hash_remove (ss_keys S) key, ss_area = a\<rparr> = (shared_view S)(key := None)"
    and "dsa_frame (ss_area S) (store_owned S) a (store_owned \<lparr>ss_keys = hash_remove (ss_keys S) key, ss_area = a\<rparr>)"
proof -
  let ?m = "hash_find (ss_keys S)"
  have fam: "entry.family hb (ss_area S) ?m" using ok by (simp add: shared_ok_def)
  have m: "hash_find (hash_remove (ss_keys S) key) = ?m(key := None)" by (rule ext) simp
  have fr': "dsa_frame (ss_area S) (entry.owno (ss_area S) (?m key)) a (entry.owno a None)" using fr by simp
  have "\<And>y. None = Some y \<Longrightarrow> se_ok hb a y" by simp
  note U = entry.family_update [OF fam fr' this]
  show "shared_ok hb \<lparr>ss_keys = hash_remove (ss_keys S) key, ss_area = a\<rparr>"
    using U(1) ok htab.ok_remove by (simp add: shared_ok_def m)
  show "shared_view \<lparr>ss_keys = hash_remove (ss_keys S) key, ss_area = a\<rparr> = (shared_view S)(key := None)"
  proof
    fix k
    show "shared_view \<lparr>ss_keys = hash_remove (ss_keys S) key, ss_area = a\<rparr> k = ((shared_view S)(key := None)) k"
    proof (cases "k = key")
      case False
      then show ?thesis using U(2) [of k] by (cases "?m k") (simp_all add: shared_view_def)
    qed (simp add: shared_view_def)
  qed
  show "dsa_frame (ss_area S) (store_owned S) a (store_owned \<lparr>ss_keys = hash_remove (ss_keys S) key, ss_area = a\<rparr>)"
    using U(3) by (simp add: store_owned_def m)
qed

section \<open>Materialise and release\<close>

text \<open>A scratch value as a command may leave it.\<close>

fun scratch_ok :: "PgRedisValue \<Rightarrow> bool" where
  "scratch_ok (HashValue (Some h)) \<longleftrightarrow> hash_ok h \<and> (\<forall>f \<in> set (h_tombstones h). hash_map h f = None)"
| "scratch_ok (ListValue (Some l)) \<longleftrightarrow> list_ok l"
| "scratch_ok _ \<longleftrightarrow> True"

text \<open>What a write back needs of it: nothing, except of a hash.\<close>

fun storable :: "PgRedisValue \<Rightarrow> bool" where
  "storable (HashValue (Some h)) \<longleftrightarrow> hash_ok h \<and> (\<forall>f \<in> set (h_tombstones h). hash_map h f = None)"
| "storable _ \<longleftrightarrow> True"

lemma scratch_storable: "scratch_ok v \<Longrightarrow> storable v"
  by (cases v rule: scratch_ok.cases) simp_all

lemma materialize_value_ok:
  assumes "shared_value_ok hb a v"
  shows "\<exists>w. materialize_value a v = Some (Inr w) \<and> abs_value w = value_abs a v \<and> value_type w = shared_type v \<and> scratch_ok w"
proof (cases v)
  case (SharedString p n)
  then show ?thesis using assms by (auto simp: pg_redis_shared_addr_def dsa_bytes_def split: if_splits)
next
  case (SharedHash p c)
  then have "shared_hash_ok hb a p" using assms by simp
  from shared_hash_materialize_ok [OF this] show ?thesis using SharedHash by (auto split: option.splits)
next
  case (SharedList m)
  then have "shared_list_ok a m" using assms by simp
  then obtain cs where cs: "list_is a m cs" "shared_vals a m = cell_vals a cs" by (rule shared_list_okE)
  from shared_list_materialize_ok [OF cs(1)] show ?thesis
    using SharedList cs(2) by (cases "cs = []") (auto simp: cell_vals_def)
qed auto

lemma materialize_ok:
  assumes "se_ok hb a se"
  shows "\<exists>e. materialize_scratch a se = Some (Inr e) \<and> abs_entry e = se_abs a se \<and> e_type e = se_type se \<and>
    e_version e = se_version se \<and> scratch_ok (e_value e) \<and> (\<forall>now. pg_redis_entry_is_expired now e = se_expired now se)"
proof -
  obtain w where w: "materialize_value a (se_value se) = Some (Inr w)" "abs_value w = value_abs a (se_value se)"
      "value_type w = shared_type (se_value se)" "scratch_ok w"
    using materialize_value_ok [of hb a "se_value se"] assms by (auto simp: se_ok_def)
  let ?e = "\<lparr>e_value = w, e_expire_at = se_expire_at se, e_has_expire = se_has_expire se, e_dirty = False,
      e_deleted = False, e_in_dirty_set = False, e_version = se_version se, e_memory_usage = 0\<rparr>"
  have "materialize_scratch a se = Some (Inr ?e)" by (simp add: materialize_scratch_def w(1))
  moreover have "abs_entry ?e = se_abs a se" by (simp add: abs_entry_def e_expiry_def se_abs_def w(2))
  moreover have "\<forall>now. pg_redis_entry_is_expired now ?e = se_expired now se"
    by (simp add: pg_redis_entry_is_expired_def se_expired_def)
  ultimately show ?thesis using w by (intro exI [of _ ?e]) (simp add: e_type_def se_type_def)
qed

lemma release_value_ok:
  assumes "shared_value_ok hb a v"
  shows "\<exists>b. release_value v a = Some (empty_value (shared_type v), b) \<and>
    (\<forall>q. hash_find b q = (if q \<in> value_owned a v then None else hash_find a q))"
proof (cases v)
  case (SharedHash p c)
  then show ?thesis using assms shared_hash_free_ok [of hb a p] by simp
next
  case (SharedList m)
  then have "shared_list_ok a m" using assms by simp
  then obtain cs where cs: "list_is a m cs" "list_owned a m = cell_ptrs cs" by (rule shared_list_okE)
  from shared_list_free_ok [OF cs(1)] show ?thesis using SharedList cs(2) by auto
qed auto

lemma release_ok:
  assumes "se_ok hb a se"
  shows "\<exists>b. pg_redis_shared_entry_release_payloads se a = Some (se\<lparr>se_value := empty_value (se_type se)\<rparr>, b) \<and>
    dsa_frame a (se_owned a se) b {} \<and> (\<forall>q. hash_find b q = (if q \<in> se_owned a se then None else hash_find a q))"
  using release_value_ok [of hb a "se_value se"] assms
  by (auto simp: se_defs pg_redis_shared_entry_release_payloads_def se_type_def dsa_frame_def)

lemma shared_list_empty [simp]: "shared_list_ok a meta_empty" "shared_vals a meta_empty = []" "list_owned a meta_empty = {}"
proof -
  have "list_is a meta_empty []" by (simp add: list_is_def meta_empty_def)
  from list_is_views [OF this] show "shared_list_ok a meta_empty" "shared_vals a meta_empty = []" "list_owned a meta_empty = {}"
    by (simp_all add: cell_vals_def cell_ptrs_def value_ptrs_def)
qed

lemma shared_hash_ok_0 [simp]: "shared_hash_ok hb a 0"
  by (simp add: shared_hash_ok_def)

lemma empty_value_ok [simp]:
  "shared_value_ok hb a (empty_value ty)" "value_owned a (empty_value ty) = {}" "shared_type (empty_value ty) = ty"
  by (cases ty; simp)+

section \<open>The loops of the rebuild\<close>

lemma finite_shared_map: "finite (dom (shared_map a p))"
  by (simp add: shared_map_def slot_map_def finite_dom_map_of)

lemma card_dom_upd: "finite (dom m) \<Longrightarrow> card (dom (m(f \<mapsto> v))) = (if m f = None then card (dom m) + 1 else card (dom m))"
  by (auto simp: card_insert_if)

lemma set_fields_ok:
  assumes "dsa_alloc_ok al" "shared_hash_ok hb a p" "\<And>f v. (f, v) \<in> set fs \<Longrightarrow> length f \<le> PG_REDIS_MAX_FIELD_SIZE"
    and "set_fields hb al fs p c a = (r, p', c', a')" "c = int (card (dom (shared_map a p)))"
  shows "shared_hash_ok hb a' p' \<and> dsa_frame a (owned a p) a' (owned a' p') \<and> c' = int (card (dom (shared_map a' p'))) \<and>
    (r = Inr () \<longrightarrow> shared_map a' p' = shared_map a p ++ map_of (rev fs))"
  using assms(2-5)
proof (induction fs arbitrary: p c a)
  case (Cons fv fs)
  obtain f v where fv: "fv = (f, v)" by force
  obtain r1 p1 a1 where s: "pg_redis_shared_hash_set hb al p f v a = (r1, p1, a1)" by (metis prod_cases3)
  have "length f \<le> PG_REDIS_MAX_FIELD_SIZE" by (rule Cons.prems(2) [of f v]) (simp add: fv)
  note S = shared_hash_set_ok [OF assms(1) Cons.prems(1) this s]
  show ?case
  proof (cases r1)
    case (Inl err)
    then show ?thesis using Cons.prems(3,4) s fv S by (auto simp: set_outcome_def)
  next
    case (Inr new)
    then have m: "shared_map a1 p1 = (shared_map a p)(f \<mapsto> v)" "new \<longleftrightarrow> shared_map a p f = None"
      using S(3) by (simp_all add: set_outcome_def)
    let ?c = "if new then c + 1 else c"
    have c: "?c = int (card (dom (shared_map a1 p1)))"
      using Cons.prems(4) m card_dom_upd [OF finite_shared_map, of a p f v] by simp
    have "set_fields hb al fs p1 ?c a1 = (r, p', c', a')" using Cons.prems(3) s Inr fv by simp
    moreover have "\<And>f v. (f, v) \<in> set fs \<Longrightarrow> length f \<le> PG_REDIS_MAX_FIELD_SIZE" using Cons.prems(2) by fastforce
    ultimately have IH: "shared_hash_ok hb a' p' \<and> dsa_frame a1 (owned a1 p1) a' (owned a' p') \<and>
        c' = int (card (dom (shared_map a' p'))) \<and> (r = Inr () \<longrightarrow> shared_map a' p' = shared_map a1 p1 ++ map_of (rev fs))"
      using Cons.IH [OF S(1) _ _ c] by blast
    have "shared_map a p ++ map_of (rev (fv # fs)) = shared_map a1 p1 ++ map_of (rev fs)"
      by (rule ext) (simp add: fv m(1) map_add_def split: option.split)
    then show ?thesis using IH dsa_frame_trans [OF S(2)] by metis
  qed
qed simp

lemma del_fields_ok:
  assumes "dsa_alloc_ok al" "shared_hash_ok hb a p"
    and "del_fields hb al fs p c a = (r, p', c', a')" "c = int (card (dom (shared_map a p)))"
  shows "r = Inr () \<and> shared_hash_ok hb a' p' \<and> dsa_frame a (owned a p) a' (owned a' p') \<and>
    c' = int (card (dom (shared_map a' p'))) \<and> shared_map a' p' = shared_map a p |` (- set fs)"
  using assms(2-4)
proof (induction fs arbitrary: p c a)
  case (Cons f fs)
  obtain r1 p1 a1 where s: "pg_redis_shared_hash_del hb al p f a = (r1, p1, a1)" by (metis prod_cases3)
  note D = shared_hash_del_ok [OF assms(1) Cons.prems(1) s]
  let ?c = "if shared_map a p f \<noteq> None then c - 1 else c"
  have "card (dom (shared_map a p)) \<noteq> 0" if "shared_map a p f \<noteq> None"
    using that finite_shared_map [of a p] by (metis card_gt_0_iff domI empty_iff neq0_conv not_None_eq domIff)
  then have c: "?c = int (card (dom (shared_map a1 p1)))"
    using Cons.prems(3) by (auto simp: D(3) card_Diff_singleton domIff)
  have "del_fields hb al fs p1 ?c a1 = (r, p', c', a')" using Cons.prems(2) s D(1) by simp
  from Cons.IH [OF D(2) this c] have IH: "r = Inr () \<and> shared_hash_ok hb a' p' \<and> dsa_frame a1 (owned a1 p1) a' (owned a' p') \<and>
      c' = int (card (dom (shared_map a' p'))) \<and> shared_map a' p' = shared_map a1 p1 |` (- set fs)" .
  have "shared_map a p |` (- set (f # fs)) = shared_map a1 p1 |` (- set fs)" by (rule ext) (simp add: D(3) restrict_map_def)
  then show ?case using IH dsa_frame_trans [OF D(4)] by metis
qed (simp add: restrict_map_def)

lemma push_nodes_ok:
  assumes "dsa_alloc_ok al" "shared_list_ok a m" "push_nodes al vs m a = (r, m', a')"
  shows "shared_list_ok a' m' \<and> dsa_frame a (list_owned a m) a' (list_owned a' m') \<and>
    (r = Inr () \<and> shared_vals a' m' = shared_vals a m @ map stored_value vs \<or> r = Inl OutOfSharedMemory)"
  using assms(2,3)
proof (induction vs arbitrary: m a)
  case (Cons v vs)
  obtain r1 m1 a1 where s: "pg_redis_shared_list_rpush al v m a = (r1, m1, a1)" by (metis prod_cases3)
  show ?case
  proof (cases r1)
    case (Inl err)
    from Cons.prems(1) obtain cs where cs: "list_is a m cs" "list_owned a m = cell_ptrs cs" by (rule shared_list_okE)
    from shared_rpush_ok [OF assms(1) cs(1) s] Inl have e: "err = OutOfSharedMemory" "m1 = m" "\<And>q. hash_find a1 q = hash_find a q" by auto
    have "shared_list_ok a1 m" "list_owned a1 m = list_owned a m"
      using list_owner.ok_local [OF Cons.prems(1), of a1] list_owner.own_local [OF Cons.prems(1), of a1] e(3) by auto
    moreover have "dsa_frame a (list_owned a m) a1 (list_owned a m)" using e(3) by (simp add: dsa_frame_def)
    ultimately show ?thesis using Cons.prems(2) s Inl e by simp
  next
    case (Inr n)
    then have "pushed (pg_redis_shared_list_rpush al v m a) = Inr (n, m1, a1)" using s by (simp add: pushed_def)
    note P = pushed_right [OF assms(1) Cons.prems(1) this]
    have "push_nodes al vs m1 a1 = (r, m', a')" using Cons.prems(2) s Inr by simp
    from Cons.IH [OF P(1) this] show ?thesis using dsa_frame_trans [OF P(4)] P(2) by auto
  qed
qed simp

section \<open>Write back\<close>

text \<open>What a rebuild keeps of a scratch value: the length of a list element is stored in 16 bits.\<close>

fun stored_abs :: "PgRedisValue \<Rightarrow> rvalue" where
  "stored_abs (ListValue (Some l)) = RList (map stored_value (list_vals l))"
| "stored_abs v = abs_value v"

lemma stored_abs_same:
  assumes "\<And>l x. v = ListValue (Some l) \<Longrightarrow> x \<in> set (list_vals l) \<Longrightarrow> int (length x) \<le> UINT16_MAX"
  shows "stored_abs v = abs_value v"
  using assms stored_value_id by (cases v rule: stored_abs.cases) (auto simp: map_idI)

lemma hash_items_map:
  assumes "hash_ok h"
  shows "map_of (rev (map (\<lambda>(f, x). (f, hf_value x)) (hash_seq (h_fields h)))) = hash_map h"
proof -
  let ?fs = "map (\<lambda>(f, x). (f, hf_value x)) (hash_seq (h_fields h))"
  have "distinct (map fst ?fs)" using assms by (auto simp: hash_ok_def htab_ok_def hash_seq_def comp_def case_prod_beta)
  then have "map_of (rev ?fs) = map_of ?fs" by (subst map_of_inject_set) (simp_all flip: rev_map)
  also have "\<dots> = hash_map h" by (auto simp: fun_eq_iff hash_map_def hash_seq_def hash_find_def map_of_map_snd)
  finally show ?thesis .
qed

lemma hash_items_len:
  assumes "hash_ok h" "(f, v) \<in> set (map (\<lambda>(f, x). (f, hf_value x)) (hash_seq (h_fields h)))"
  shows "length f \<le> PG_REDIS_MAX_FIELD_SIZE"
  using assms by (auto simp: hash_ok_def list_all_iff hash_seq_def)

text \<open>The result of building a value: a well-formed value with chunks of its own, or nothing left behind.\<close>

definition populated :: "hash_fn \<Rightarrow> PgRedisValue \<Rightarrow> dsa_area \<Rightarrow> (shared_value result \<times> dsa_area) option \<Rightarrow> bool" where
  "populated hb w a res \<longleftrightarrow>
     (\<exists>r b. res = Some (r, b) \<and>
       (case r of
          Inr v \<Rightarrow> shared_value_ok hb b v \<and> value_abs b v = stored_abs w \<and> shared_type v = value_type w \<and>
            dsa_frame a {} b (value_owned b v)
        | Inl err \<Rightarrow> dsa_frame a {} b {}))"

lemma populate_string_ok:
  assumes al: "dsa_alloc_ok al"
  shows "populated hb (StringValue s) a (populate_value hb al (StringValue s) a)"
proof -
  obtain p b where av: "alloc_value al (case s of None \<Rightarrow> [] | Some x \<Rightarrow> x) a = (p, b)" by force
  show ?thesis
    by (rule alloc_value_cases [OF al av])
      (use av in \<open>auto simp: populated_def value_area_def dsa_frame_def dsa_bytes_def pg_redis_shared_addr_def split: option.splits\<close>)
qed

lemma populate_hash_ok:
  assumes al: "dsa_alloc_ok al" and h: "hash_ok h"
  shows "populated hb (HashValue (Some h)) a (populate_value hb al (HashValue (Some h)) a)"
proof -
  let ?fs = "map (\<lambda>(f, x). (f, hf_value x)) (hash_seq (h_fields h))"
  obtain r p c b where s: "set_fields hb al ?fs 0 0 a = (r, p, c, b)" by (metis prod_cases4)
  have F: "shared_hash_ok hb b p \<and> dsa_frame a (owned a 0) b (owned b p) \<and> c = int (card (dom (shared_map b p))) \<and>
      (r = Inr () \<longrightarrow> shared_map b p = shared_map a 0 ++ map_of (rev ?fs))"
    by (rule set_fields_ok [OF al shared_hash_ok_0 hash_items_len [OF h] s]) simp_all
  show ?thesis
  proof (cases r)
    case (Inl err)
    have "dsa_frame b (owned b p) (pg_redis_shared_hash_free p b) {}"
      using F shared_hash_free_ok [of hb b p] by (simp add: dsa_frame_def)
    then have "dsa_frame a {} (pg_redis_shared_hash_free p b) {}" using F dsa_frame_trans by fastforce
    then show ?thesis using s Inl by (simp add: populated_def)
  next
    case (Inr u)
    then have "shared_map b p = hash_map h" using F hash_items_map [OF h] by simp
    then show ?thesis using s Inr F by (simp add: populated_def)
  qed
qed

lemma populate_list_ok:
  assumes al: "dsa_alloc_ok al"
  shows "populated hb (ListValue (Some l)) a (populate_value hb al (ListValue (Some l)) a)"
proof -
  obtain r m b where s: "push_nodes al (map ln_value (l_nodes l)) meta_empty a = (r, m, b)" by (metis prod_cases3)
  have P: "shared_list_ok b m" "dsa_frame a {} b (list_owned b m)"
      "r = Inr () \<and> shared_vals b m = map stored_value (list_vals l) \<or> r = Inl OutOfSharedMemory"
    using push_nodes_ok [OF al shared_list_empty(1) s] by (simp_all add: list_vals_def)
  show ?thesis
  proof (cases r)
    case (Inl err)
    from P(1) obtain cs where cs: "list_is b m cs" "list_owned b m = cell_ptrs cs" by (rule shared_list_okE)
    from shared_list_free_ok [OF cs(1)] obtain d where d: "pg_redis_shared_list_free m b = Some (meta_empty, d)"
      "\<And>q. hash_find d q = (if q \<in> list_owned b m then None else hash_find b q)" using cs(2) by auto
    have "dsa_frame b (list_owned b m) d {}" using d(2) by (simp add: dsa_frame_def)
    then have "dsa_frame a {} d {}" using P(2) dsa_frame_trans by blast
    then show ?thesis using s Inl d(1) by (simp add: populated_def)
  next
    case (Inr u)
    then show ?thesis using s P by (simp add: populated_def)
  qed
qed

lemma populate_value_ok: "dsa_alloc_ok al \<Longrightarrow> storable w \<Longrightarrow> populated hb w a (populate_value hb al w a)"
  by (cases w rule: scratch_ok.cases)
    (simp_all add: populate_hash_ok populate_list_ok populate_string_ok del: populate_value.simps, simp_all add: populated_def)

text \<open>The entry after a rebuild, as far as it got.\<close>

lemma rebuild_ok:
  assumes al: "dsa_alloc_ok al" and e: "storable (e_value e)" and old: "\<And>se. old = Some se \<Longrightarrow> se_ok hb a se"
  shows "\<exists>r se b. rebuild_entry hb al old e a = Some (r, se, b) \<and> se_ok hb b se \<and> dsa_frame a (entry.owno a old) b (se_owned b se) \<and>
    se_abs b se = (case r of Inr _ \<Rightarrow> stored_abs (e_value e) | Inl _ \<Rightarrow> value_abs b (empty_value (e_type e)), e_expiry e)"
proof -
  have pop: "\<exists>r se b. populate_shared_from_scratch hb al e a0 = Some (r, se, b) \<and> se_ok hb b se \<and> dsa_frame a0 {} b (se_owned b se) \<and>
      se_abs b se = (case r of Inr _ \<Rightarrow> stored_abs (e_value e) | Inl _ \<Rightarrow> value_abs b (empty_value (e_type e)), e_expiry e)" for a0
  proof -
    from populate_value_ok [OF al e, of hb a0] obtain r b where p: "populate_value hb al (e_value e) a0 = Some (r, b)"
      "case r of Inr v \<Rightarrow> shared_value_ok hb b v \<and> value_abs b v = stored_abs (e_value e) \<and> shared_type v = value_type (e_value e) \<and>
         dsa_frame a0 {} b (value_owned b v) | Inl err \<Rightarrow> dsa_frame a0 {} b {}" by (auto simp: populated_def)
    then show ?thesis
      by (cases r) (simp_all add: populate_shared_from_scratch_def se_defs e_expiry_def)
  qed
  show ?thesis
  proof (cases old)
    case None
    then show ?thesis using pop [of a] by (simp add: rebuild_entry_def)
  next
    case (Some se)
    obtain b where b: "pg_redis_shared_entry_release_payloads se a = Some (se\<lparr>se_value := empty_value (se_type se)\<rparr>, b)"
      "dsa_frame a (se_owned a se) b {}" using release_ok [OF old [OF Some]] by blast
    from pop [of b] show ?thesis using Some b dsa_frame_trans [OF b(2)] by (auto simp: rebuild_entry_def)
  qed
qed

text \<open>The surgical update, when it does not raise.\<close>

definition surgical_ready :: "dsa_area \<Rightarrow> dsa_pointer \<Rightarrow> PgRedisHash option \<Rightarrow> bool" where
  "surgical_ready a p h \<longleftrightarrow>
     (case h of None \<Rightarrow> shared_map a p = Map.empty | Some h \<Rightarrow> hash_delta_ok (shared_map a p) h)"

lemma dirty_items_len:
  assumes "hash_ok h" "(f, v) \<in> set (hash_dirty_items h)"
  shows "length f \<le> PG_REDIS_MAX_FIELD_SIZE"
  using assms by (auto simp: hash_ok_def list_all_iff hash_dirty_items_def hash_seq_def)

lemma delta_applied:
  assumes "hash_ok h" "hash_delta_ok D h" "\<forall>f \<in> set (h_tombstones h). hash_map h f = None"
  shows "(D ++ map_of (rev (hash_dirty_items h))) |` (- set (h_tombstones h)) = hash_map h"
proof
  fix f
  have r: "map_of (rev (hash_dirty_items h)) = map_of (hash_dirty_items h)"
    using distinct_dirty_items [OF assms(1)] by (subst map_of_inject_set) (simp_all flip: rev_map)
  show "((D ++ map_of (rev (hash_dirty_items h))) |` (- set (h_tombstones h))) f = hash_map h f"
    using hash_delta_apply [OF assms(1,2), of f] assms(3)
    by (auto simp: restrict_map_def map_add_def r split: option.splits)
qed

lemma surgical_ok:
  assumes al: "dsa_alloc_ok al" and ok: "shared_value_ok hb a (SharedHash p c)" and h: "storable (HashValue h)" "surgical_ready a p h"
    and s: "surgical_apply_hash hb al h p c a = (r, v, b)"
  shows "r = Inr () \<Longrightarrow> shared_value_ok hb b v \<and> value_abs b v = abs_value (HashValue h) \<and> dsa_frame a (owned a p) b (value_owned b v)"
    and "\<And>err. r = Inl err \<Longrightarrow> v = SharedHash p c"
proof -
  let ?dirty = "case h of None \<Rightarrow> [] | Some h \<Rightarrow> hash_dirty_items h" and ?tombs = "case h of None \<Rightarrow> [] | Some h \<Rightarrow> h_tombstones h"
  obtain r1 p1 c1 a1 where f: "set_fields hb al ?dirty p c a = (r1, p1, c1, a1)" by (metis prod_cases4)
  obtain r2 p2 c2 a2 where d: "del_fields hb al ?tombs p1 c1 a1 = (r2, p2, c2, a2)" by (metis prod_cases4)
  have len: "\<And>f v. (f, v) \<in> set ?dirty \<Longrightarrow> length f \<le> PG_REDIS_MAX_FIELD_SIZE"
    using h(1) dirty_items_len by (cases h) auto
  have t: "shared_hash_ok hb a p" "c = int (card (dom (shared_map a p)))" using ok by simp_all
  have F: "shared_hash_ok hb a1 p1 \<and> dsa_frame a (owned a p) a1 (owned a1 p1) \<and> c1 = int (card (dom (shared_map a1 p1))) \<and>
      (r1 = Inr () \<longrightarrow> shared_map a1 p1 = shared_map a p ++ map_of (rev ?dirty))"
    by (rule set_fields_ok [OF al t(1) _ f t(2)]) (erule len)
  have F1: "shared_hash_ok hb a1 p1" "c1 = int (card (dom (shared_map a1 p1)))" "dsa_frame a (owned a p) a1 (owned a1 p1)" using F by blast+
  note D = del_fields_ok [OF al F1(1) d F1(2)]
  show "v = SharedHash p c" if "r = Inl err" for err
    using s f d that D by (auto simp: surgical_apply_hash_def split: sum.splits)
  assume "r = Inr ()"
  then have r: "r1 = Inr ()" "v = SharedHash p2 c2" "b = a2"
    using s f d D by (auto simp: surgical_apply_hash_def split: sum.splits)
  have "shared_map a2 p2 = (shared_map a p ++ map_of (rev ?dirty)) |` (- set ?tombs)" using D F r(1) by simp
  moreover have "RHash ((shared_map a p ++ map_of (rev ?dirty)) |` (- set ?tombs)) = abs_value (HashValue h)"
  proof (cases h)
    case (Some h')
    then have "hash_ok h'" "hash_delta_ok (shared_map a p) h'" "\<forall>f \<in> set (h_tombstones h'). hash_map h' f = None"
      using h by (simp_all add: surgical_ready_def)
    from delta_applied [OF this] show ?thesis using Some by simp
  qed (use h(2) in \<open>simp add: surgical_ready_def fun_eq_iff\<close>)
  ultimately show "shared_value_ok hb b v \<and> value_abs b v = abs_value (HashValue h) \<and> dsa_frame a (owned a p) b (value_owned b v)"
    using D r dsa_frame_trans [OF F1(3)] by simp
qed

text \<open>
  A hash written over a hash must carry exact deltas; a scratch copy just materialised does, since all
  its fields are dirty. Anything else may be written over anything.
\<close>

definition writable :: "dsa_area \<Rightarrow> PgRedisSharedEntry option \<Rightarrow> PgRedisEntry \<Rightarrow> bool" where
  "writable a old e \<longleftrightarrow> storable (e_value e) \<and>
     (case (map_option se_value old, e_value e) of (Some (SharedHash p _), HashValue h) \<Rightarrow> surgical_ready a p h | _ \<Rightarrow> True)"

definition in_place :: "PgRedisSharedEntry option \<Rightarrow> PgRedisEntry \<Rightarrow> bool" where
  "in_place old e \<longleftrightarrow> e_type e = PG_REDIS_TYPE_HASH \<and> (\<exists>se. old = Some se \<and> se_type se = PG_REDIS_TYPE_HASH)"

lemma writeback_rebuild: "\<not> in_place old e \<Longrightarrow> writeback_entry hb al old e a = rebuild_entry hb al old e a"
  by (auto simp: writeback_entry_def in_place_def e_type_def se_type_def split: option.splits shared_value.splits PgRedisValue.splits)

lemma in_placeE:
  assumes "in_place old e"
  obtains se p c h where "old = Some se" "se_value se = SharedHash p c" "e_value e = HashValue h"
proof -
  obtain se where se: "old = Some se" "se_type se = PG_REDIS_TYPE_HASH" "e_type e = PG_REDIS_TYPE_HASH"
    using assms by (auto simp: in_place_def)
  then obtain h where "e_value e = HashValue h" by (auto simp: e_type_def value_type_cases)
  moreover obtain p c where "se_value se = SharedHash p c" using se(2) by (cases "se_value se") (simp_all add: se_type_def)
  ultimately show thesis using that se(1) by blast
qed

lemma writeback_entry_ok:
  assumes al: "dsa_alloc_ok al" and w: "writable a old e" and old: "\<And>se. old = Some se \<Longrightarrow> se_ok hb a se"
  shows "\<exists>r se b. writeback_entry hb al old e a = Some (r, se, b) \<and>
    (r = Inr () \<longrightarrow> se_ok hb b se \<and> dsa_frame a (entry.owno a old) b (se_owned b se) \<and> se_abs b se = (stored_abs (e_value e), e_expiry e)) \<and>
    (\<not> in_place old e \<longrightarrow> r \<noteq> Inr () \<longrightarrow>
       se_ok hb b se \<and> dsa_frame a (entry.owno a old) b (se_owned b se) \<and> se_abs b se = (value_abs b (empty_value (e_type e)), e_expiry e))"
proof (cases "in_place old e")
  case True
  then obtain se p c h where h: "old = Some se" "se_value se = SharedHash p c" "e_value e = HashValue h" by (rule in_placeE)
  obtain r v b where s: "surgical_apply_hash hb al h p c a = (r, v, b)" by (metis prod_cases3)
  have ok: "shared_value_ok hb a (SharedHash p c)" using old [OF h(1)] h(2) by (simp add: se_ok_def)
  have sc: "storable (HashValue h)" "surgical_ready a p h" using w h by (simp_all add: writable_def)
  note S = surgical_ok(1) [OF al ok sc s]
  have "writeback_entry hb al old e a = Some (r, \<lparr>se_value = v, se_expire_at = e_expire_at e, se_has_expire = e_has_expire e,
      se_version = e_version e\<rparr>, b)" using s h by (simp add: writeback_entry_def)
  then show ?thesis using S True h by (auto simp: se_defs e_expiry_def)
next
  case False
  have "storable (e_value e)" using w by (simp add: writable_def)
  from rebuild_ok [OF al this old] obtain r se b where R: "rebuild_entry hb al old e a = Some (r, se, b)" "se_ok hb b se"
    "dsa_frame a (entry.owno a old) b (se_owned b se)"
    "se_abs b se = (case r of Inr _ \<Rightarrow> stored_abs (e_value e) | Inl _ \<Rightarrow> value_abs b (empty_value (e_type e)), e_expiry e)" by blast
  then show ?thesis by (cases r) (auto simp: writeback_rebuild [OF False])
qed

section \<open>The operations on the keyspace\<close>

lemma shared_view_find: "shared_view S k = None \<longleftrightarrow> hash_find (ss_keys S) k = None"
  by (simp add: shared_view_def)

lemma expired_se_abs [simp]: "expired_at now (se_abs a se) = se_expired now se"
  by (simp add: expired_at_def se_abs_def se_expired_def)

lemma shared_live_find:
  "shared_live now S k = (case hash_find (ss_keys S) k of
     None \<Rightarrow> None | Some se \<Rightarrow> if se_expired now se then None else Some (se_abs (ss_area S) se))"
  by (simp add: shared_live_def drop_expired_def shared_view_def split: option.splits)

lemma remove_ok:
  assumes ok: "shared_ok hb S"
  shows "\<exists>S'. pg_redis_shared_store_remove key S = Some (shared_view S key \<noteq> None, S') \<and> shared_ok hb S' \<and>
    shared_view S' = (shared_view S)(key := None) \<and> dsa_frame (ss_area S) (store_owned S) (ss_area S') (store_owned S')"
proof (cases "hash_find (ss_keys S) key")
  case None
  then show ?thesis using ok by (auto simp: pg_redis_shared_store_remove_def shared_view_def fun_upd_idem)
next
  case (Some se)
  obtain b where b: "pg_redis_shared_entry_release_payloads se (ss_area S) = Some (se\<lparr>se_value := empty_value (se_type se)\<rparr>, b)"
    "dsa_frame (ss_area S) (se_owned (ss_area S) se) b {}" using release_ok [OF shared_ok_entry [OF ok Some]] by blast
  have "dsa_frame (ss_area S) (entry.owno (ss_area S) (hash_find (ss_keys S) key)) b {}" using b(2) Some by simp
  from shared_drop [OF ok this] show ?thesis
    using Some b(1) by (simp add: pg_redis_shared_store_remove_def shared_view_def)
qed

lemma lookup_raw_ok:
  assumes "shared_ok hb S"
  shows "\<exists>r. pg_redis_shared_store_lookup_raw key S = Some (Inr r) \<and> map_option abs_entry r = shared_view S key \<and>
    (\<forall>e. r = Some e \<longrightarrow> scratch_ok (e_value e))"
proof (cases "hash_find (ss_keys S) key")
  case None
  then show ?thesis by (simp add: pg_redis_shared_store_lookup_raw_def shared_view_def)
next
  case (Some se)
  from materialize_ok [OF shared_ok_entry [OF assms Some]] show ?thesis
    using Some by (auto simp: pg_redis_shared_store_lookup_raw_def shared_view_def)
qed

lemma lookup_ok:
  assumes ok: "shared_ok hb S"
  shows "\<exists>r S'. pg_redis_shared_store_lookup now key S = Some (Inr r, S') \<and> shared_ok hb S' \<and>
    shared_live now S' = shared_live now S \<and> shared_live now S key = map_option abs_entry r \<and>
    (\<forall>e. r = Some e \<longrightarrow> S' = S \<and> scratch_ok (e_value e))"
proof -
  obtain r where r: "pg_redis_shared_store_lookup_raw key S = Some (Inr r)" "map_option abs_entry r = shared_view S key"
    "\<And>e. r = Some e \<Longrightarrow> scratch_ok (e_value e)" using lookup_raw_ok [OF ok, of key] by blast
  show ?thesis
  proof (cases r)
    case None
    then show ?thesis using r ok by (simp add: pg_redis_shared_store_lookup_def shared_live_def drop_expired_def)
  next
    case (Some e)
    have k: "shared_view S key = Some (abs_entry e)" using r(2) Some by simp
    show ?thesis
    proof (cases "pg_redis_entry_is_expired now e")
      case True
      obtain S' where S': "pg_redis_shared_store_remove key S = Some (shared_view S key \<noteq> None, S')" "shared_ok hb S'"
        "shared_view S' = (shared_view S)(key := None)" using remove_ok [OF ok, of key] by blast
      have "shared_live now S key = None" using k True by (simp add: shared_live_def drop_expired_def)
      then have "shared_live now S' = shared_live now S" by (simp add: shared_live_def S'(3) fun_upd_idem)
      then show ?thesis
        using r(1) Some True S' \<open>shared_live now S key = None\<close>
        by (simp add: pg_redis_shared_store_lookup_def pg_redis_entry_is_expired_def split: if_splits)
    next
      case False
      then have "shared_live now S key = Some (abs_entry e)" using k by (simp add: shared_live_def drop_expired_def)
      then show ?thesis
        using r(1,3) Some False ok by (auto simp: pg_redis_shared_store_lookup_def pg_redis_entry_is_expired_def)
    qed
  qed
qed

text \<open>An upsert shows a new key at once, as an empty string.\<close>

lemma upsert_entry_ok:
  assumes ok: "shared_ok hb S"
  shows "\<exists>n se a. upsert_entry now key S = Some (n, se, a) \<and> se_ok hb a se \<and>
    dsa_frame (ss_area S) (entry.owno (ss_area S) (hash_find (ss_keys S) key)) a (se_owned a se) \<and>
    (n \<longleftrightarrow> shared_live now S key = None) \<and> \<not> se_expired now se \<and>
    se_abs a se = (if n then (RString [], None) else the (shared_view S key))"
proof (cases "hash_find (ss_keys S) key")
  case None
  then show ?thesis
    by (auto simp: upsert_entry_def fresh_shared_entry_def se_defs se_expired_def shared_live_find dsa_bytes_def pg_redis_shared_addr_def)
next
  case (Some se)
  note E = shared_ok_entry [OF ok Some]
  show ?thesis
  proof (cases "se_expired now se")
    case True
    obtain b where b: "pg_redis_shared_entry_release_payloads se (ss_area S) = Some (se\<lparr>se_value := empty_value (se_type se)\<rparr>, b)"
      "dsa_frame (ss_area S) (se_owned (ss_area S) se) b {}" using release_ok [OF E] by blast
    then show ?thesis using Some True
      by (auto simp: upsert_entry_def se_defs se_expired_def shared_live_find dsa_bytes_def pg_redis_shared_addr_def)
  next
    case False
    then show ?thesis using Some E by (auto simp: upsert_entry_def shared_live_find shared_view_def)
  qed
qed

lemma upsert_ok:
  assumes ok: "shared_ok hb S"
  shows "\<exists>n e S'. pg_redis_shared_store_upsert now key S = Some (Inr (n, e), S') \<and> shared_ok hb S' \<and> scratch_ok (e_value e) \<and>
    (n \<longleftrightarrow> shared_live now S key = None) \<and> abs_entry e = (if n then (RString [], None) else the (shared_live now S key)) \<and>
    shared_view S' = (shared_view S)(key \<mapsto> abs_entry e) \<and> dsa_frame (ss_area S) (store_owned S) (ss_area S') (store_owned S')"
proof -
  obtain n se a where u: "upsert_entry now key S = Some (n, se, a)" "se_ok hb a se"
    "dsa_frame (ss_area S) (entry.owno (ss_area S) (hash_find (ss_keys S) key)) a (se_owned a se)"
    "n \<longleftrightarrow> shared_live now S key = None" "se_abs a se = (if n then (RString [], None) else the (shared_view S key))"
    using upsert_entry_ok [OF ok, of now key] by blast
  obtain e where e: "materialize_scratch a se = Some (Inr e)" "abs_entry e = se_abs a se" "scratch_ok (e_value e)"
    using materialize_ok [OF u(2)] by blast
  have "the (shared_view S key) = the (shared_live now S key)" if "\<not> n"
    using that u(4) by (auto simp: shared_live_find shared_view_def split: option.splits if_splits)
  then show ?thesis using shared_put [OF ok u(2,3)] u e by (simp add: pg_redis_shared_store_upsert_def)
qed

lemma writeback_ok:
  assumes al: "dsa_alloc_ok al" and ok: "shared_ok hb S" and w: "writable (ss_area S) (hash_find (ss_keys S) key) e"
  shows "\<exists>r S'. pg_redis_shared_store_writeback hb al key e S = Some (r, S') \<and>
    (r = Inr () \<or> \<not> in_place (hash_find (ss_keys S) key) e \<longrightarrow>
       shared_ok hb S' \<and> dsa_frame (ss_area S) (store_owned S) (ss_area S') (store_owned S')) \<and>
    (r = Inr () \<longrightarrow> shared_view S' = (shared_view S)(key \<mapsto> (stored_abs (e_value e), e_expiry e))) \<and>
    (r \<noteq> Inr () \<and> \<not> in_place (hash_find (ss_keys S) key) e \<longrightarrow>
       shared_view S' = (shared_view S)(key \<mapsto> (value_abs (ss_area S') (empty_value (e_type e)), e_expiry e)))"
proof -
  let ?old = "hash_find (ss_keys S) key"
  have "\<And>se. ?old = Some se \<Longrightarrow> se_ok hb (ss_area S) se" by (rule shared_ok_entry [OF ok])
  from writeback_entry_ok [OF al w this] obtain r se b where W: "writeback_entry hb al ?old e (ss_area S) = Some (r, se, b)"
    "r = Inr () \<Longrightarrow> se_ok hb b se \<and> dsa_frame (ss_area S) (entry.owno (ss_area S) ?old) b (se_owned b se) \<and>
       se_abs b se = (stored_abs (e_value e), e_expiry e)"
    "\<not> in_place ?old e \<Longrightarrow> r \<noteq> Inr () \<Longrightarrow> se_ok hb b se \<and> dsa_frame (ss_area S) (entry.owno (ss_area S) ?old) b (se_owned b se) \<and>
       se_abs b se = (value_abs b (empty_value (e_type e)), e_expiry e)" by blast
  let ?S = "\<lparr>ss_keys = hash_enter (ss_keys S) key se, ss_area = b\<rparr>"
  have "pg_redis_shared_store_writeback hb al key e S = Some (r, ?S)" by (simp add: pg_redis_shared_store_writeback_def W(1))
  moreover have "r = Inr () \<or> \<not> in_place ?old e \<Longrightarrow> shared_ok hb ?S \<and> dsa_frame (ss_area S) (store_owned S) b (store_owned ?S) \<and>
      shared_view ?S = (shared_view S)(key \<mapsto> se_abs b se)"
    using shared_put [OF ok, of b se key] W(2,3) by blast
  ultimately show ?thesis using W(2,3) by (intro exI [of _ r] exI [of _ ?S]) auto
qed

lemma lookup_field_ok:
  assumes ok: "shared_ok hb S"
  shows "pg_redis_shared_hash_lookup_field hb now key field want S =
    (case shared_live now S key of
       None \<Rightarrow> Inr (if shared_view S key = None then PG_REDIS_FAST_HASH_KEY_MISS else PG_REDIS_FAST_HASH_KEY_EXPIRED, None, None)
     | Some (RHash m, _) \<Rightarrow>
         Inr (if m field \<noteq> None then PG_REDIS_FAST_HASH_HIT else PG_REDIS_FAST_HASH_FIELD_MISS, if want then m field else None, None)
     | Some _ \<Rightarrow> Inr (PG_REDIS_FAST_HASH_WRONGTYPE, None, map_option se_type (hash_find (ss_keys S) key)))"
proof (cases "hash_find (ss_keys S) key")
  case None
  then show ?thesis by (simp add: pg_redis_shared_hash_lookup_field_def shared_live_find shared_view_def)
next
  case (Some se)
  show ?thesis
  proof (cases "se_expired now se")
    case True
    then show ?thesis using Some by (simp add: pg_redis_shared_hash_lookup_field_def shared_live_find shared_view_def)
  next
    case False
    have "se_ok hb (ss_area S) se" by (rule shared_ok_entry [OF ok Some])
    then show ?thesis using Some False shared_hash_get_ok [of hb "ss_area S"]
      by (cases "se_value se")
        (simp_all add: pg_redis_shared_hash_lookup_field_def shared_live_find se_abs_def se_ok_def se_type_def)
  qed
qed

lemma release_all_ok:
  assumes "distinct (map fst es)" "entry.family hb a (map_of es)"
  shows "\<exists>b. release_all es a = Some b \<and> (\<forall>q. hash_find b q = (if q \<in> entry.whole a (map_of es) then None else hash_find a q))"
  using assms
proof (induction es arbitrary: a)
  case Nil
  then show ?case by (simp add: entry.whole_def)
next
  case (Cons x es)
  obtain k se where x: "x = (k, se)" by force
  let ?m = "map_of (x # es)"
  have k: "k \<notin> fst ` set es" "distinct (map fst es)" using Cons.prems(1) x by auto
  have mk: "?m k = Some se" "?m(k := None) = map_of es"
    using k(1) by (auto simp: x fun_eq_iff) (metis map_of_eq_None_iff)
  obtain b where b: "pg_redis_shared_entry_release_payloads se a = Some (se\<lparr>se_value := empty_value (se_type se)\<rparr>, b)"
    "dsa_frame a (se_owned a se) b {}" "\<And>q. hash_find b q = (if q \<in> se_owned a se then None else hash_find a q)"
    using release_ok [OF entry.familyD(1) [OF Cons.prems(2) mk(1)]] by blast
  have fr: "dsa_frame a (entry.owno a (?m k)) b (entry.owno b None)" using b(2) mk(1) by simp
  have "\<And>y. None = Some y \<Longrightarrow> se_ok hb b y" by simp
  note U = entry.family_update [OF Cons.prems(2) fr this]
  have fam: "entry.family hb b (map_of es)" using U(1) unfolding mk(2) .
  from Cons.IH [OF k(2) fam] obtain c where c: "release_all es b = Some c"
    "\<And>q. hash_find c q = (if q \<in> entry.whole b (map_of es) then None else hash_find b q)" by blast
  have same: "entry.owno b (map_of es k') = entry.owno a (map_of es k')" for k'
  proof (cases "map_of es k'")
    case (Some y)
    then have "k' \<noteq> k" using k(1) by (metis map_of_eq_None_iff option.distinct(1))
    then show ?thesis using U(2) [of k' y] Some x by simp
  qed simp
  have "entry.whole a ?m = se_owned a se \<union> entry.whole a (map_of es)"
  proof -
    have "(\<Union>k'. entry.owno a (?m k')) = entry.owno a (?m k) \<union> (\<Union>k'. entry.owno a ((?m(k := None)) k'))" by (auto split: if_splits)
    then show ?thesis unfolding entry.whole_def mk by simp
  qed
  moreover have "entry.whole b (map_of es) = entry.whole a (map_of es)" by (simp add: entry.whole_def same)
  ultimately have "hash_find c q = (if q \<in> entry.whole a ?m then None else hash_find a q)" for q using c(2) b(3) by auto
  moreover have "release_all (x # es) a = Some c" using b(1) c(1) x by simp
  ultimately show ?case by blast
qed

lemma find_removed: "hash_find (foldl hash_remove ks keys) k = (if k \<in> set keys then None else hash_find ks k)"
  by (induction keys arbitrary: ks) auto

lemma reset_loop:
  assumes "distinct keys" "\<And>k. k \<in> set keys \<Longrightarrow> hash_find ks k \<noteq> None"
  shows "foldl (\<lambda>(removed, ks) k. (if hash_find ks k \<noteq> None then removed + 1 else removed, hash_remove ks k)) (n, ks) keys =
    (n + length keys, foldl hash_remove ks keys)"
  using assms
proof (induction keys arbitrary: n ks)
  case (Cons x keys)
  have "distinct keys" "\<And>k. k \<in> set keys \<Longrightarrow> hash_find (hash_remove ks x) k \<noteq> None" "hash_find ks x \<noteq> None"
    using Cons.prems by auto
  then show ?case using Cons.IH [of "hash_remove ks x" "n + 1"] by simp
qed simp

lemma reset_all_ok:
  assumes ok: "shared_ok hb S"
  shows "\<exists>S'. pg_redis_shared_store_reset_all S = Some (hash_num_entries (ss_keys S), S') \<and> shared_ok hb S' \<and>
    shared_view S' = Map.empty \<and> (\<forall>q. hash_find (ss_area S') q = (if q \<in> store_owned S then None else hash_find (ss_area S) q))"
proof -
  let ?ks = "ss_keys S"
  have d: "distinct (map fst ?ks)" and m: "hash_find ?ks = map_of ?ks"
    using ok by (simp_all add: shared_ok_def htab_ok_def fun_eq_iff hash_find_def)
  have "entry.family hb (ss_area S) (map_of ?ks)" using ok m by (simp add: shared_ok_def)
  from release_all_ok [OF d this] obtain b where b: "release_all ?ks (ss_area S) = Some b"
    "\<And>q. hash_find b q = (if q \<in> store_owned S then None else hash_find (ss_area S) q)" by (auto simp: store_owned_def m)
  let ?ks' = "foldl hash_remove ?ks (map fst ?ks)" and ?S = "\<lparr>ss_keys = foldl hash_remove ?ks (map fst ?ks), ss_area = b\<rparr>"
  have f: "\<And>k. k \<in> set (map fst ?ks) \<Longrightarrow> hash_find ?ks k \<noteq> None" by (simp add: m map_of_eq_None_iff)
  have none: "hash_find ?ks' k = None" for k by (auto simp: find_removed m map_of_eq_None_iff)
  then have e: "?ks' = []" by (metis hash_find_def list.exhaust map_of_eq_None_iff map_of_Cons_code(2) not_Some_eq option.simps(3) prod.exhaust)
  have "pg_redis_shared_store_reset_all S = Some (hash_num_entries ?ks, ?S)"
    using reset_loop [OF d f, of 0] b(1) by (simp add: pg_redis_shared_store_reset_all_def hash_seq_def hash_num_entries_def)
  moreover have "hash_find ?ks' = (\<lambda>k. None)" using none by (simp add: fun_eq_iff)
  then have "shared_ok hb ?S" using e by (simp add: shared_ok_def htab_ok_def)
  moreover have "shared_view ?S = Map.empty" using none by (simp add: shared_view_def fun_eq_iff)
  ultimately show ?thesis using b(2) by auto
qed

section \<open>Properties\<close>

text \<open>
  Reading the shared keyspace is right. A lookup always returns and answers from the live view, an
  expired entry is evicted and nothing else changes; the fast read of one field gives the same answer
  without a copy, and tells a missing key, an expired key and a wrong type apart.
\<close>

lemma shared_reads_agree:
  assumes "shared_ok hb S"
  shows "(\<exists>r S'. pg_redis_shared_store_lookup now key S = Some (Inr r, S') \<and> shared_ok hb S' \<and>
      shared_live now S' = shared_live now S \<and> map_option abs_entry r = shared_live now S key) \<and>
    pg_redis_shared_hash_lookup_field hb now key field True S =
      (case shared_live now S key of
         None \<Rightarrow> Inr (if shared_view S key = None then PG_REDIS_FAST_HASH_KEY_MISS else PG_REDIS_FAST_HASH_KEY_EXPIRED, None, None)
       | Some (RHash m, _) \<Rightarrow> Inr (if m field \<noteq> None then PG_REDIS_FAST_HASH_HIT else PG_REDIS_FAST_HASH_FIELD_MISS, m field, None)
       | Some _ \<Rightarrow> Inr (PG_REDIS_FAST_HASH_WRONGTYPE, None, map_option se_type (hash_find (ss_keys S) key)))"
proof -
  obtain r S' where "pg_redis_shared_store_lookup now key S = Some (Inr r, S')" "shared_ok hb S'"
    "shared_live now S' = shared_live now S" "shared_live now S key = map_option abs_entry r" using lookup_ok [OF assms, of now key] by blast
  moreover note lookup_field_ok [OF assms, of now key field True]
  ultimately show ?thesis by (simp cong: option.case_cong prod.case_cong rvalue.case_cong)
qed

text \<open>A keyspace with one string, which expires at 100.\<close>

definition sample_store :: shared_store where
  "sample_store =
     \<lparr>ss_keys = [([1], \<lparr>se_value = SharedString 1 2, se_expire_at = 100, se_has_expire = True, se_version = 1\<rparr>)],
      ss_area = [(1, Raw [7, 8])]\<rparr>"

lemma sample_store_ok: "shared_ok hb sample_store"
  by (auto simp: shared_ok_def sample_store_def htab_ok_def entry.family_def hash_find_def se_defs split: if_splits)

lemma sample_view:
  "shared_view sample_store = [[1] \<mapsto> (RString [7, 8], Some 100)]"
  by (rule ext) (simp add: shared_view_def sample_store_def hash_find_def se_abs_def dsa_bytes_def pg_redis_shared_addr_def)

text \<open>
  Writing a scratch entry back returns, and when it succeeds exactly its key changes: the view has
  the value and the expiry of the scratch (list elements cut to the length their 16-bit field holds), the
  invariant is kept and no chunk of another owner is touched, whichever of the three paths was taken. When
  a rebuild runs out of memory the invariant is kept too, but the key is left with the empty value of its
  new type.
\<close>

lemma shared_writeback_refines:
  assumes "dsa_alloc_ok al" "shared_ok hb S" "writable (ss_area S) (hash_find (ss_keys S) key) e"
  shows "\<exists>r S'. pg_redis_shared_store_writeback hb al key e S = Some (r, S') \<and>
    (r = Inr () \<longrightarrow> shared_ok hb S' \<and> shared_view S' = (shared_view S)(key \<mapsto> (stored_abs (e_value e), e_expiry e)) \<and>
       dsa_frame (ss_area S) (store_owned S) (ss_area S') (store_owned S')) \<and>
    (r \<noteq> Inr () \<and> \<not> in_place (hash_find (ss_keys S) key) e \<longrightarrow>
       shared_ok hb S' \<and> shared_view S' = (shared_view S)(key \<mapsto> (value_abs (ss_area S') (empty_value (e_type e)), e_expiry e)))"
  using writeback_ok [OF assms] by metis

text \<open>
  C11: The shared keyspace gives back its memory. Removing a key frees exactly the chunks of its value,
  answers whether the key was there and leaves every other key alone; resetting the keyspace returns, counts
  its keys and frees exactly the chunks that any of them owned.
\<close>

theorem shared_remove_frees:
  assumes "shared_ok hb S"
  shows "(\<exists>S'. pg_redis_shared_store_remove key S = Some (shared_view S key \<noteq> None, S') \<and> shared_ok hb S' \<and>
      shared_view S' = (shared_view S)(key := None) \<and> dsa_frame (ss_area S) (store_owned S) (ss_area S') (store_owned S')) \<and>
    (\<exists>S'. pg_redis_shared_store_reset_all S = Some (hash_num_entries (ss_keys S), S') \<and> shared_ok hb S' \<and> shared_view S' = Map.empty \<and>
      (\<forall>q. hash_find (ss_area S') q = (if q \<in> store_owned S then None else hash_find (ss_area S) q)))"
  using remove_ok [OF assms] reset_all_ok [OF assms] by blast

theorem shared_remove_frees_witness:
  "\<exists>S'. pg_redis_shared_store_remove [1] sample_store = Some (True, S') \<and> shared_view S' = Map.empty"
proof -
  from shared_remove_frees [OF sample_store_ok, of "[1]"] obtain S' where
    "pg_redis_shared_store_remove [1] sample_store = Some (shared_view sample_store [1] \<noteq> None, S')"
    "shared_view S' = (shared_view sample_store)([1] := None)" by blast
  then show ?thesis by (auto simp: sample_view)
qed

end
