(* ===== verification/Async_Drain.thy ===== *)
theory Async_Drain
  imports Flush Dirty_Ring
begin

text \<open>
  The asynchronous drain of \<open>src/persistence.c\<close>: a batch of events is collected from the ring, sorted
  into the vectors of the six plans and written in the order of \<open>run_flush\<close>; then the batch is released,
  or given back when the write failed. \<open>spi_ok\<close> is whether SPI connects. An event has the effect of one
  plan on one row; the drain is compared with applying the events one after the other. Blocking
  publication with its two reactions to a full ring is here too, because one of them drains.
\<close>

section \<open>Dispatch\<close>

type_synonym drain_vecs = "flush_vecs \<times> bytes list"

definition mk_bytea :: "bytes \<Rightarrow> bytea" where
  "mk_bytea val = \<lparr>va_hdrsz = VARHDRSZ, va_data = val\<rparr>"

definition drain_row :: "dsa_area \<Rightarrow> PgRedisDirtyEvent \<Rightarrow> store_row" where
  "drain_row a ev =
     (let val = pg_redis_event_decode_value a ev
      in \<lparr>r_type = pg_redis_type_name (ev_value_type ev),
          r_value = (if val = [] \<or> (ev_value_type ev \<noteq> PG_REDIS_TYPE_STRING \<and> ev_value_type ev \<noteq> PG_REDIS_TYPE_INT)
                     then None else Some (mk_bytea val)),
          r_expire = (if ev_has_expire ev then Some (ev_expire_at ev) else None),
          r_version = ev_version ev\<rparr>)"

definition drain_event :: "dsa_area \<Rightarrow> drain_vecs \<Rightarrow> PgRedisDirtyEvent \<Rightarrow> drain_vecs" where
  "drain_event a vd ev =
     (case vd of (v, dels) \<Rightarrow>
        let key = pg_redis_event_decode_key a ev in
        case ev_type ev of
          PG_REDIS_EVENT_KEY_UPSERT \<Rightarrow> (v\<lparr>v_store := v_store v @ [(key, drain_row a ev)]\<rparr>, dels)
        | PG_REDIS_EVENT_KEY_DELETE \<Rightarrow> (v, dels @ [key])
        | PG_REDIS_EVENT_HASH_FIELD_UPSERT \<Rightarrow>
            (v\<lparr>v_hf_up := v_hf_up v @ [((key, pg_redis_event_decode_field a ev), Some (pg_redis_event_decode_value a ev))]\<rparr>, dels)
        | PG_REDIS_EVENT_HASH_FIELD_DELETE \<Rightarrow>
            (v\<lparr>v_hf_del := v_hf_del v @ [(key, pg_redis_event_decode_field a ev)]\<rparr>, dels)
        | PG_REDIS_EVENT_LIST_ITEM_INSERT \<Rightarrow>
            (v\<lparr>v_li_ins := v_li_ins v @ [((key, ev_ord ev), Some (pg_redis_event_decode_value a ev))]\<rparr>, dels)
        | PG_REDIS_EVENT_LIST_ITEM_DELETE \<Rightarrow> (v\<lparr>v_li_del := v_li_del v @ [(key, ev_ord ev)]\<rparr>, dels))"

definition drain_events :: "dsa_area \<Rightarrow> PgRedisDirtyEvent list \<Rightarrow> drain_vecs" where
  "drain_events a evs = foldl (drain_event a) (vecs_init, []) evs"

section \<open>The drain\<close>

text \<open>The plans run in the order of \<open>run_flush\<close>, each only when its vectors are not empty.\<close>

definition drain_plans :: "flush_vecs \<Rightarrow> bytes list \<Rightarrow> db \<Rightarrow> db result" where
  "drain_plans v store_delete_keys d =
     and_then (run_plan sql_store_upsert (v_store v) d) (\<lambda>d.
     and_then (run_plan sql_hash_field_delete (v_hf_del v) d) (\<lambda>d.
     and_then (run_plan sql_hash_field_upsert (v_hf_up v) d) (\<lambda>d.
     and_then (run_plan sql_list_item_delete (v_li_del v) d) (\<lambda>d.
     and_then (run_plan sql_list_item_insert (v_li_ins v) d) (\<lambda>d.
     run_plan sql_store_delete store_delete_keys d)))))"

record async_state =
  as_ring :: dirty_ring
  as_area :: dsa_area
  as_db :: db

definition ASYNC_DRAIN_BATCH_MAX :: nat where
  "ASYNC_DRAIN_BATCH_MAX = 1024"

definition drain_batch_max :: "int \<Rightarrow> nat" where
  "drain_batch_max max_events =
     (let batch_max = (if max_events > 0 then nat max_events else ASYNC_DRAIN_BATCH_MAX)
      in if batch_max > ASYNC_DRAIN_BATCH_MAX then ASYNC_DRAIN_BATCH_MAX else batch_max)"

text \<open>Phase 3: the batch goes back to the ring after an error and leaves it after the write.\<close>

definition drain_finish :: "nat \<Rightarrow> nat \<Rightarrow> dirty_ring \<Rightarrow> db result \<Rightarrow> async_state \<Rightarrow> nat result \<times> async_state" where
  "drain_finish base n R written S =
     (case written of
        Inl err \<Rightarrow> (Inl err, S\<lparr>as_ring := pg_redis_dirty_ring_abort_batch base n R\<rparr>)
      | Inr d \<Rightarrow>
          (case pg_redis_dirty_ring_release_batch base n (R, as_area S) of (R', a') \<Rightarrow>
             (Inr n, \<lparr>as_ring = R', as_area = a', as_db = d\<rparr>)))"

definition pg_redis_persistence_async_drain ::
    "guc \<Rightarrow> bool \<Rightarrow> int \<Rightarrow> async_state \<Rightarrow> nat result \<times> async_state" where
  "pg_redis_persistence_async_drain g spi_ok max_events S =
     (if \<not> persistence_writes_enabled g then (Inr 0, S)
      else case pg_redis_dirty_ring_collect (drain_batch_max max_events) (as_ring S) of (events, base, R) \<Rightarrow>
        if events = [] then (Inr 0, S\<lparr>as_ring := R\<rparr>)
        else
          let n = length events
          in if \<not> spi_ok then (Inl SpiConnectFailed, S\<lparr>as_ring := pg_redis_dirty_ring_abort_batch base n R\<rparr>)
             else case drain_events (as_area S) events of (v, dels) \<Rightarrow>
               drain_finish base n R (drain_plans v dels (as_db S)) S)"

text \<open>
  The drain by a producer: inside a subtransaction of the statement's transaction, or in a transaction of
  its own. Either way a failure undoes its writes and is raised again.
\<close>

definition pg_redis_persistence_sync_drain :: "guc \<Rightarrow> bool \<Rightarrow> async_state \<Rightarrow> nat result \<times> async_state" where
  "pg_redis_persistence_sync_drain g spi_ok S = pg_redis_persistence_async_drain g spi_ok 0 S"

datatype async_full_action = PG_REDIS_ASYNC_FULL_BLOCK | PG_REDIS_ASYNC_FULL_SYNC_FLUSH

text \<open>
  Blocking publication. \<open>others spin S\<close> is what the other processes, the woken worker among them, have
  made of the shared state during the sleep after that spin.
\<close>

partial_function (option) publish_blocking_loop ::
    "guc \<Rightarrow> bool \<Rightarrow> async_full_action \<Rightarrow> (nat \<Rightarrow> async_state \<Rightarrow> async_state) \<Rightarrow> int \<Rightarrow> PgRedisDirtyEvent \<Rightarrow> nat \<Rightarrow>
     async_state \<Rightarrow> (unit result \<times> async_state) option" where
  "publish_blocking_loop g spi_ok act others now ev spin S =
     (case pg_redis_dirty_ring_publish now ev (as_ring S) of
        None \<Rightarrow> None
      | Some (Inl err, R) \<Rightarrow> Some (Inl err, S\<lparr>as_ring := R\<rparr>)
      | Some (Inr PG_REDIS_RING_OK, R) \<Rightarrow> Some (Inr (), S\<lparr>as_ring := R\<rparr>)
      | Some (Inr PG_REDIS_RING_FULL, R) \<Rightarrow>
          let S = S\<lparr>as_ring := R\<rparr> in
          if act = PG_REDIS_ASYNC_FULL_SYNC_FLUSH
          then (case pg_redis_persistence_sync_drain g spi_ok S of
                  (Inl err, S) \<Rightarrow> Some (Inl err, S)
                | (Inr n, S) \<Rightarrow> publish_blocking_loop g spi_ok act others now ev 0 S)
          else if spin + 1 \<ge> 100 then Some (Inl RingFull, S\<lparr>as_area := snd (free_event_spill ev (as_area S))\<rparr>)
          else publish_blocking_loop g spi_ok act others now ev (spin + 1) (others spin S))"

definition pg_redis_dirty_ring_publish_blocking ::
    "guc \<Rightarrow> bool \<Rightarrow> async_full_action \<Rightarrow> (nat \<Rightarrow> async_state \<Rightarrow> async_state) \<Rightarrow> int \<Rightarrow> PgRedisDirtyEvent \<Rightarrow>
     async_state \<Rightarrow> (unit result \<times> async_state) option" where
  "pg_redis_dirty_ring_publish_blocking g spi_ok act others now ev S = publish_blocking_loop g spi_ok act others now ev 0 S"

section \<open>One event at a time\<close>

definition change_row :: "PgRedisEntry \<Rightarrow> bytes \<Rightarrow> store_row" where
  "change_row e tlv =
     \<lparr>r_type = pg_redis_type_name (e_type e),
      r_value = (if tlv = [] \<or> (e_type e \<noteq> PG_REDIS_TYPE_STRING \<and> e_type e \<noteq> PG_REDIS_TYPE_INT) then None else Some (mk_bytea tlv)),
      r_expire = (if e_has_expire e then Some (e_expire_at e) else None),
      r_version = e_version e\<rparr>"

text \<open>The reference: a change written by its own plan.\<close>

fun apply_change :: "change \<Rightarrow> db \<Rightarrow> db result" where
  "apply_change (KeyUpsert k e tlv) d = sql_store_upsert [(k, change_row e tlv)] d"
| "apply_change (KeyDelete k) d = sql_store_delete [k] d"
| "apply_change (HashFieldUpsert k f v) d = sql_hash_field_upsert [((k, f), Some v)] d"
| "apply_change (HashFieldDelete k f) d = sql_hash_field_delete [(k, f)] d"
| "apply_change (ListItemInsert k ord v) d = sql_list_item_insert [((k, ord), Some v)] d"
| "apply_change (ListItemDelete k ord) d = sql_list_item_delete [(k, ord)] d"

definition apply_changes :: "change list \<Rightarrow> db \<Rightarrow> db result" where
  "apply_changes cs d = foldl (\<lambda>r c. and_then r (apply_change c)) (Inr d) cs"

text \<open>The share of a change in each vector.\<close>

fun up_rows :: "change \<Rightarrow> (bytes \<times> store_row) list" where
  "up_rows (KeyUpsert k e tlv) = [(k, change_row e tlv)]"
| "up_rows _ = []"

fun hf_ups :: "change \<Rightarrow> ((bytes \<times> bytes) \<times> bytes option) list" where
  "hf_ups (HashFieldUpsert k f v) = [((k, f), Some v)]"
| "hf_ups _ = []"

fun hf_dels :: "change \<Rightarrow> (bytes \<times> bytes) list" where
  "hf_dels (HashFieldDelete k f) = [(k, f)]"
| "hf_dels _ = []"

fun li_inss :: "change \<Rightarrow> ((bytes \<times> int) \<times> bytes option) list" where
  "li_inss (ListItemInsert k ord v) = [((k, ord), Some v)]"
| "li_inss _ = []"

fun li_dels :: "change \<Rightarrow> (bytes \<times> int) list" where
  "li_dels (ListItemDelete k ord) = [(k, ord)]"
| "li_dels _ = []"

fun key_dels :: "change \<Rightarrow> bytes list" where
  "key_dels (KeyDelete k) = [k]"
| "key_dels _ = []"

definition every :: "(change \<Rightarrow> 'r list) \<Rightarrow> change list \<Rightarrow> 'r list" where
  "every f cs = concat (map f cs)"

definition change_vecs :: "change list \<Rightarrow> drain_vecs" where
  "change_vecs cs =
     (\<lparr>v_store = every up_rows cs, v_hf_up = every hf_ups cs, v_hf_del = every hf_dels cs,
       v_li_ins = every li_inss cs, v_li_del = every li_dels cs\<rparr>, every key_dels cs)"

text \<open>
  The order of the plans is the order of the events when no field is deleted after it was set, no item
  after it was inserted, and nothing happens to a key after its deletion.
\<close>

fun order_kept :: "change \<Rightarrow> change \<Rightarrow> bool" where
  "order_kept (HashFieldUpsert k f v) (HashFieldDelete k' f') \<longleftrightarrow> (k, f) \<noteq> (k', f')"
| "order_kept (ListItemInsert k n v) (ListItemDelete k' n') \<longleftrightarrow> (k, n) \<noteq> (k', n')"
| "order_kept (KeyDelete k) c \<longleftrightarrow> change_key c \<noteq> k"
| "order_kept _ _ \<longleftrightarrow> True"

definition batch_ordered :: "change list \<Rightarrow> bool" where
  "batch_ordered cs \<longleftrightarrow> sorted_wrt order_kept cs"

section \<open>The vectors of a batch\<close>

lemma every_simps [simp]: "every f [] = []" "every f (c # cs) = f c @ every f cs" "every f (cs @ cs') = every f cs @ every f cs'"
  by (simp_all add: every_def)

lemma drain_row_change: "decodes a ev (KeyUpsert k e tlv) \<Longrightarrow> drain_row a ev = change_row e tlv"
  by (simp add: drain_row_def change_row_def decodes_def)

lemma drain_event_change:
  assumes "decodes a ev c" "drain_events a evs = change_vecs cs"
  shows "drain_event a (drain_events a evs) ev = change_vecs (cs @ [c])"
  using assms drain_row_change [of a ev]
  by (cases c) (auto simp: drain_event_def change_vecs_def decodes_def)

lemma drain_events_changes: "list_all2 (decodes a) evs cs \<Longrightarrow> drain_events a evs = change_vecs cs"
proof (induction evs arbitrary: cs rule: rev_induct)
  case Nil
  then show ?case by (simp add: drain_events_def change_vecs_def vecs_init_def)
next
  case (snoc ev evs)
  then obtain cs0 c where cs: "cs = cs0 @ [c]" "list_all2 (decodes a) evs cs0" "decodes a ev c"
    by (auto simp: list_all2_append1 list_all2_Cons1)
  have "drain_events a (evs @ [ev]) = drain_event a (drain_events a evs) ev" by (simp add: drain_events_def)
  then show ?case using drain_event_change [OF cs(3) snoc.IH [OF cs(2)]] cs(1) by simp
qed

section \<open>What a batch does to the tables\<close>

definition batch_fits :: "change list \<Rightarrow> db \<Rightarrow> bool" where
  "batch_fits cs d \<longleftrightarrow>
     distinct (map fst (every li_inss cs)) \<and>
     (\<forall>ko \<in> fst ` set (every li_inss cs). ko \<in> set (every li_dels cs) \<or> hash_find (t_list d) ko = None) \<and>
     (\<forall>k \<in> fst ` fst ` set (every hf_ups cs). k \<in> fst ` set (every up_rows cs) \<or> hash_find (t_store d) k \<noteq> None) \<and>
     (\<forall>k \<in> fst ` fst ` set (every li_inss cs). k \<in> fst ` set (every up_rows cs) \<or> hash_find (t_store d) k \<noteq> None)"

definition store_after :: "change list \<Rightarrow> db \<Rightarrow> bytes \<Rightarrow> store_row option" where
  "store_after cs d k =
     (if k \<in> set (every key_dels cs) then None
      else case map_of (rev (every up_rows cs)) k of Some r \<Rightarrow> Some r | None \<Rightarrow> hash_find (t_store d) k)"

definition child_after ::
    "change list \<Rightarrow> ((bytes \<times> 'n) \<times> bytes option) list \<Rightarrow> (bytes \<times> 'n) list \<Rightarrow> (bytes \<times> 'n, bytes option) htab \<Rightarrow>
     bytes \<times> 'n \<Rightarrow> bytes option option" where
  "child_after cs ups dels t kn =
     (if fst kn \<in> set (every key_dels cs) then None
      else case map_of (rev ups) kn of Some v \<Rightarrow> Some v | None \<Rightarrow> if kn \<in> set dels then None else hash_find t kn)"

definition batch_after :: "change list \<Rightarrow> db \<Rightarrow> db \<Rightarrow> bool" where
  "batch_after cs d d' \<longleftrightarrow>
     (\<forall>k. hash_find (t_store d') k = store_after cs d k) \<and>
     (\<forall>kf. hash_find (t_hash d') kf = child_after cs (every hf_ups cs) (every hf_dels cs) (t_hash d) kf) \<and>
     (\<forall>ko. hash_find (t_list d') ko = child_after cs (every li_inss cs) (every li_dels cs) (t_list d) ko)"

lemma hash_find_filter_not_in:
  "hash_find (filter (\<lambda>(kn, v). kn \<notin> A) t) kn = (if kn \<in> A then None else hash_find t kn)"
  by simp

lemma hash_find_filter_key:
  "hash_find (filter (\<lambda>((k, n), v). k \<notin> A) t) kn = (if fst kn \<in> A then None else hash_find t kn)"
  by (cases kn) simp

lemma map_of_rev_distinct_on_last: "map_of (rev (distinct_on_last rows)) k = map_of (rev rows) k"
  by (simp add: map_of_rev_distinct [OF distinct_distinct_on_last] find_distinct_on_last)

lemma drain_plans_after:
  assumes "batch_fits cs d"
  shows "\<exists>d'. drain_plans (fst (change_vecs cs)) (snd (change_vecs cs)) d = Inr d' \<and> batch_after cs d d'"
proof -
  let ?st = "insert_on_conflict_update (distinct_on_last (every up_rows cs)) (t_store d)"
  have parent: "hash_find ?st k \<noteq> None" if "k \<in> fst ` set (every up_rows cs) \<or> hash_find (t_store d) k \<noteq> None" for k
    using that map_of_eq_None_iff [of "rev (every up_rows cs)" k] by (auto simp: find_upsert_rows split: option.splits)
  have fk: "fk_ok (d\<lparr>t_store := ?st, t_hash := h\<rparr>) (map (fst \<circ> fst) (every hf_ups cs))"
    "fk_ok (d\<lparr>t_store := ?st, t_hash := h, t_list := l\<rparr>) (map (fst \<circ> fst) (every li_inss cs))" for h l
    using assms parent by (auto simp: batch_fits_def fk_ok_def list_all_iff image_image)
  have fresh: "list_all (\<lambda>(ko, v). hash_find (filter (\<lambda>(ko, v). ko \<notin> set (every li_dels cs)) (t_list d)) ko = None) (every li_inss cs)"
    using assms by (auto simp: batch_fits_def list_all_iff image_iff)
  have dist: "distinct (map fst (every li_inss cs))" using assms by (simp add: batch_fits_def)
  let ?d = "\<lparr>t_store = filter (\<lambda>(k, r). k \<notin> set (every key_dels cs)) ?st,
      t_hash = filter (\<lambda>((k, f), v). k \<notin> set (every key_dels cs))
        (insert_on_conflict_update (distinct_on_last (every hf_ups cs)) (filter (\<lambda>(kf, v). kf \<notin> set (every hf_dels cs)) (t_hash d))),
      t_list = filter (\<lambda>((k, n), v). k \<notin> set (every key_dels cs))
        (insert_on_conflict_update (every li_inss cs) (filter (\<lambda>(ko, v). ko \<notin> set (every li_dels cs)) (t_list d)))\<rparr>"
  have "drain_plans (fst (change_vecs cs)) (snd (change_vecs cs)) d = Inr ?d"
    using fk fresh dist
    by (simp add: drain_plans_def run_plan_simps sql_store_upsert_def sql_hash_field_delete_def sql_hash_field_upsert_def
        sql_list_item_delete_def sql_list_item_insert_def sql_store_delete_def change_vecs_def cong: if_cong)
  moreover have "batch_after cs d ?d"
    by (auto simp: batch_after_def store_after_def child_after_def hash_find_filter_key hash_find_filter_not_in
        map_of_rev_distinct_on_last find_insert_rows split: option.splits)
  ultimately show ?thesis by blast
qed

section \<open>A drained batch is its events in order\<close>

lemma batch_ordered_snoc: "batch_ordered (cs @ [c]) \<longleftrightarrow> batch_ordered cs \<and> (\<forall>c' \<in> set cs. order_kept c' c)"
  by (auto simp: batch_ordered_def sorted_wrt_append)

lemma apply_changes_snoc: "apply_changes (cs @ [c]) d = and_then (apply_changes cs d) (apply_change c)"
  by (simp add: apply_changes_def)

lemma and_then_Inr: "and_then r f = Inr y \<longleftrightarrow> (\<exists>x. r = Inr x \<and> f x = Inr y)"
  by (cases r) auto

lemma in_every: "x \<in> set (every f cs) \<longleftrightarrow> (\<exists>c \<in> set cs. x \<in> set (f c))"
  by (auto simp: every_def)

lemma fst_every: "x \<in> fst ` set (every f cs) \<longleftrightarrow> (\<exists>c \<in> set cs. x \<in> fst ` set (f c))"
  by (simp add: every_def image_UN)

lemma ordered_facts:
  assumes "\<forall>c' \<in> set cs. order_kept c' c"
  shows "change_key c \<notin> set (every key_dels cs)"
    "\<And>k f. c = HashFieldDelete k f \<Longrightarrow> (k, f) \<notin> fst ` set (every hf_ups cs)"
    "\<And>k n. c = ListItemDelete k n \<Longrightarrow> (k, n) \<notin> fst ` set (every li_inss cs)"
proof -
  show "change_key c \<notin> set (every key_dels cs)"
  proof
    assume "change_key c \<in> set (every key_dels cs)"
    then obtain c' where c': "c' \<in> set cs" "change_key c \<in> set (key_dels c')" by (auto simp: in_every)
    have "order_kept c' c" using assms c'(1) by blast
    then show False using c'(2) by (cases c') auto
  qed
  show "(k, f) \<notin> fst ` set (every hf_ups cs)" if "c = HashFieldDelete k f" for k f
  proof
    assume "(k, f) \<in> fst ` set (every hf_ups cs)"
    then obtain c' where c': "c' \<in> set cs" "(k, f) \<in> fst ` set (hf_ups c')" unfolding fst_every by blast
    have "order_kept c' c" using assms c'(1) by blast
    then show False using c'(2) that by (cases c') auto
  qed
  show "(k, n) \<notin> fst ` set (every li_inss cs)" if "c = ListItemDelete k n" for k n
  proof
    assume "(k, n) \<in> fst ` set (every li_inss cs)"
    then obtain c' where c': "c' \<in> set cs" "(k, n) \<in> fst ` set (li_inss c')" unfolding fst_every by blast
    have "order_kept c' c" using assms c'(1) by blast
    then show False using c'(2) that by (cases c') auto
  qed
qed

lemmas plan_defs =
  sql_store_upsert_def sql_store_delete_def sql_hash_field_upsert_def sql_hash_field_delete_def
  sql_list_item_insert_def sql_list_item_delete_def insert_on_conflict_update_def fk_ok_def

text \<open>The tables after one more change.\<close>

lemma apply_change_after:
  assumes old: "batch_after cs d d1" and fits: "batch_fits cs d" and ord: "\<forall>c' \<in> set cs. order_kept c' c"
    and ap: "apply_change c d1 = Inr d2"
  shows "batch_after (cs @ [c]) d d2" "batch_fits (cs @ [c]) d"
proof -
  have st: "hash_find (t_store d1) k = store_after cs d k"
    and ht: "hash_find (t_hash d1) kf = child_after cs (every hf_ups cs) (every hf_dels cs) (t_hash d) kf"
    and lt: "hash_find (t_list d1) ko = child_after cs (every li_inss cs) (every li_dels cs) (t_list d) ko" for k kf ko
    using old unfolding batch_after_def by blast+
  note O = ordered_facts [OF ord]
  have none: "map_of (rev xs) k = None" if "k \<notin> fst ` set xs" for xs :: "('a \<times> 'b) list" and k
    using that by (simp add: map_of_eq_None_iff)
  have "batch_after (cs @ [c]) d d2 \<and> batch_fits (cs @ [c]) d"
  proof (cases c)
    case (KeyUpsert k e tlv)
    then have "d2 = d1\<lparr>t_store := hash_enter (t_store d1) k (change_row e tlv)\<rparr>" using ap by (simp add: plan_defs)
    then show ?thesis using O(1) fits KeyUpsert
      by (auto simp: batch_after_def batch_fits_def store_after_def child_after_def st ht lt)
  next
    case (KeyDelete k)
    then have d2: "d2 = d1\<lparr>t_store := filter (\<lambda>(k', r). k' \<notin> {k}) (t_store d1),
        t_hash := filter (\<lambda>((k', f), v). k' \<notin> {k}) (t_hash d1), t_list := filter (\<lambda>((k', n), v). k' \<notin> {k}) (t_list d1)\<rparr>"
      using ap by (simp add: plan_defs)
    show ?thesis using fits KeyDelete unfolding d2
      by (auto simp: batch_after_def batch_fits_def store_after_def child_after_def st ht lt hash_find_filter_key hash_find_filter_not_in)
  next
    case (HashFieldUpsert k f v)
    then have d2: "d2 = d1\<lparr>t_hash := hash_enter (t_hash d1) (k, f) (Some v)\<rparr>" "hash_find (t_store d1) k \<noteq> None"
      using ap by (auto simp: plan_defs split: if_splits)
    then have "k \<in> fst ` set (every up_rows cs) \<or> hash_find (t_store d) k \<noteq> None"
      using none [of k "every up_rows cs"] by (auto simp: st store_after_def split: if_splits)
    then show ?thesis using O(1) fits HashFieldUpsert d2(1)
      by (auto simp: batch_after_def batch_fits_def store_after_def child_after_def st ht lt)
  next
    case (HashFieldDelete k f)
    then have d2: "d2 = d1\<lparr>t_hash := filter (\<lambda>(kf, v). kf \<notin> {(k, f)}) (t_hash d1)\<rparr>" using ap by (simp add: plan_defs)
    show ?thesis using O(2) [OF HashFieldDelete] none [of "(k, f)" "every hf_ups cs"] fits HashFieldDelete unfolding d2
      by (auto simp: batch_after_def batch_fits_def store_after_def child_after_def st ht lt hash_find_filter_not_in split: option.splits)
  next
    case (ListItemInsert k n v)
    then have d2: "d2 = d1\<lparr>t_list := hash_enter (t_list d1) (k, n) (Some v)\<rparr>" "hash_find (t_store d1) k \<noteq> None"
      "hash_find (t_list d1) (k, n) = None"
      using ap by (auto simp: plan_defs split: if_splits)
    have par: "k \<in> fst ` set (every up_rows cs) \<or> hash_find (t_store d) k \<noteq> None"
      using d2(2) none [of k "every up_rows cs"] by (auto simp: st store_after_def split: if_splits)
    have "(k, n) \<notin> fst ` set (every li_inss cs)" "(k, n) \<in> set (every li_dels cs) \<or> hash_find (t_list d) (k, n) = None"
      using d2(3) O(1) ListItemInsert map_of_eq_None_iff [of "rev (every li_inss cs)" "(k, n)"]
      by (auto simp: lt child_after_def split: if_splits option.splits)
    then show ?thesis using O(1) fits ListItemInsert d2(1) par
      by (auto simp: batch_after_def batch_fits_def store_after_def child_after_def st ht lt)
  next
    case (ListItemDelete k n)
    then have d2: "d2 = d1\<lparr>t_list := filter (\<lambda>(ko, v). ko \<notin> {(k, n)}) (t_list d1)\<rparr>" using ap by (simp add: plan_defs)
    show ?thesis using O(3) [OF ListItemDelete] none [of "(k, n)" "every li_inss cs"] fits ListItemDelete unfolding d2
      by (auto simp: batch_after_def batch_fits_def store_after_def child_after_def st ht lt hash_find_filter_not_in split: option.splits)
  qed
  then show "batch_after (cs @ [c]) d d2" "batch_fits (cs @ [c]) d" by simp_all
qed

lemma apply_changes_after:
  "batch_ordered cs \<Longrightarrow> apply_changes cs d = Inr d' \<Longrightarrow> batch_fits cs d \<and> batch_after cs d d'"
proof (induction cs arbitrary: d' rule: rev_induct)
  case Nil
  then show ?case by (simp add: apply_changes_def batch_fits_def batch_after_def store_after_def child_after_def)
next
  case (snoc c cs)
  then obtain d1 where d1: "apply_changes cs d = Inr d1" "apply_change c d1 = Inr d'"
    by (auto simp: apply_changes_snoc and_then_Inr)
  from snoc.IH [OF _ d1(1)] snoc.prems(1) apply_change_after [OF _ _ _ d1(2)] show ?case
    by (simp add: batch_ordered_snoc)
qed

section \<open>A pass of the drain\<close>

definition db_same :: "db \<Rightarrow> db \<Rightarrow> bool" where
  "db_same d d' \<longleftrightarrow>
     hash_find (t_store d') = hash_find (t_store d) \<and> hash_find (t_hash d') = hash_find (t_hash d) \<and>
     hash_find (t_list d') = hash_find (t_list d)"

lemma batch_after_same: "batch_after cs d d1 \<Longrightarrow> batch_after cs d d2 \<Longrightarrow> db_same d1 d2"
  by (simp add: batch_after_def db_same_def fun_eq_iff)

lemma decodes_body [simp]: "decodes a (ev_body ev) c = decodes a ev c"
  by (cases c; simp add: decodes_def ev_body_def pg_redis_event_decode_key_def pg_redis_event_decode_field_def
      pg_redis_event_decode_value_def event_payload_base_def)

lemma drain_batch_max_pos [simp]: "drain_batch_max mx \<noteq> 0"
  by (simp add: drain_batch_max_def ASYNC_DRAIN_BATCH_MAX_def Let_def)

lemma drain_cases:
  assumes on: "persistence_writes_enabled g" and ok: "ring_ok 0 (as_ring S)"
    and c: "pg_redis_dirty_ring_collect (drain_batch_max mx) (as_ring S) = (events, base, R)"
    and dr: "pg_redis_persistence_async_drain g spi_ok mx S = (res, S')"
  shows "ring_ok 0 (as_ring S')" "map ev_body events = take (drain_batch_max mx) (ring_queue (as_ring S))"
    "events = [] \<Longrightarrow> res = Inr 0 \<and> ring_queue (as_ring S') = [] \<and> as_db S' = as_db S \<and> as_area S' = as_area S"
    "\<And>err. events \<noteq> [] \<Longrightarrow> res = Inl err \<Longrightarrow> ring_queue (as_ring S') = ring_queue (as_ring S) \<and> as_db S' = as_db S \<and> as_area S' = as_area S"
    "\<And>n. events \<noteq> [] \<Longrightarrow> res = Inr n \<Longrightarrow> n = length events \<and> spi_ok \<and>
       ring_queue (as_ring S') = drop n (ring_queue (as_ring S)) \<and> ring_capacity (as_ring S') = ring_capacity (as_ring S) \<and>
       drain_plans (fst (drain_events (as_area S) events)) (snd (drain_events (as_area S) events)) (as_db S) = Inr (as_db S')"
proof -
  note C = ring_collect_ok [OF ok c]
  show "map ev_body events = take (drain_batch_max mx) (ring_queue (as_ring S))" by (rule C(4))
  obtain v dels where v: "drain_events (as_area S) events = (v, dels)" by force
  obtain R2 a2 where r: "pg_redis_dirty_ring_release_batch base (length events) (R, as_area S) = (R2, a2)" by force
  note L = release_batch_ok(1,2) [OF C(1) r [unfolded C(3)]] and A = abort_batch_ok [OF C(1)]
  have e: "events = [] \<Longrightarrow> res = Inr 0 \<and> S' = S\<lparr>as_ring := R\<rparr>"
    "events \<noteq> [] \<Longrightarrow> \<not> spi_ok \<Longrightarrow> res = Inl SpiConnectFailed \<and> S' = S\<lparr>as_ring := pg_redis_dirty_ring_abort_batch base (length events) R\<rparr>"
    "\<And>err. events \<noteq> [] \<Longrightarrow> spi_ok \<Longrightarrow> drain_plans v dels (as_db S) = Inl err \<Longrightarrow>
       res = Inl err \<and> S' = S\<lparr>as_ring := pg_redis_dirty_ring_abort_batch base (length events) R\<rparr>"
    "\<And>d. events \<noteq> [] \<Longrightarrow> spi_ok \<Longrightarrow> drain_plans v dels (as_db S) = Inr d \<Longrightarrow>
       res = Inr (length events) \<and> S' = \<lparr>as_ring = R2, as_area = a2, as_db = d\<rparr>"
    using dr on c v r by (auto simp: pg_redis_persistence_async_drain_def drain_finish_def Let_def)
  have fp: "(\<exists>err. drain_plans v dels (as_db S) = Inl err) \<or> (\<exists>d. drain_plans v dels (as_db S) = Inr d)"
    by (cases "drain_plans v dels (as_db S)") auto
  show "ring_ok 0 (as_ring S')"
  proof (cases "events = []")
    case True
    then show ?thesis using e(1) C(1) by simp
  next
    case False
    then show ?thesis using e(2-4) A(1) L(1) C(3) fp by (cases spi_ok) auto
  qed
  show "res = Inr 0 \<and> ring_queue (as_ring S') = [] \<and> as_db S' = as_db S \<and> as_area S' = as_area S" if "events = []"
    using e(1) [OF that] C(2,4) that by simp
  show "ring_queue (as_ring S') = ring_queue (as_ring S) \<and> as_db S' = as_db S \<and> as_area S' = as_area S"
    if "events \<noteq> []" "res = Inl err" for err
    using e(2-4) that A(2) C(2,3) fp by (cases spi_ok) auto
  show "n = length events \<and> spi_ok \<and> ring_queue (as_ring S') = drop n (ring_queue (as_ring S)) \<and>
      ring_capacity (as_ring S') = ring_capacity (as_ring S) \<and>
      drain_plans (fst (drain_events (as_area S) events)) (snd (drain_events (as_area S) events)) (as_db S) = Inr (as_db S')"
    if "events \<noteq> []" "res = Inr n" for n
    using e(2-4) that L(2) C(2) fp v collect_capacity [OF c] release_capacity [OF r] by (cases spi_ok) auto
qed

text \<open>A pass frees exactly the spilled payloads of the events it wrote.\<close>

lemma drain_area:
  assumes on: "persistence_writes_enabled g" and ok: "ring_ok 0 (as_ring S)"
    and dr: "pg_redis_persistence_async_drain g spi_ok mx S = (Inr n, S')"
  shows "hash_find (as_area S') p =
    (if \<exists>ev \<in> set (take n (ring_queue (as_ring S))). p \<in> event_owned ev then None else hash_find (as_area S) p)"
proof -
  obtain events base R where c: "pg_redis_dirty_ring_collect (drain_batch_max mx) (as_ring S) = (events, base, R)" by (metis prod_cases3)
  note C = ring_collect_ok [OF ok c] and D = drain_cases [OF on ok c dr]
  show ?thesis
  proof (cases "events = []")
    case True
    then show ?thesis using D(3) by simp
  next
    case False
    obtain R2 a2 where r: "pg_redis_dirty_ring_release_batch base (length events) (R, as_area S) = (R2, a2)" by force
    have "n = length events" "spi_ok" using D(5) [OF False] by simp_all
    then have "as_area S' = a2"
      using dr on c r False by (auto simp: pg_redis_persistence_async_drain_def drain_finish_def Let_def split: prod.splits sum.splits)
    then show ?thesis using release_batch_ok(3) [OF C(1) r [unfolded C(3)], of p] C(2) \<open>n = length events\<close> by simp
  qed
qed

lemma drain_batch_changes:
  assumes on: "persistence_writes_enabled g" and ok: "ring_ok 0 (as_ring S)"
    and dec: "list_all2 (decodes (as_area S)) (take (drain_batch_max mx) (ring_queue (as_ring S))) cs"
    and fits: "batch_fits cs (as_db S)"
    and dr: "pg_redis_persistence_async_drain g True mx S = (res, S')"
  shows "res = Inr (length cs) \<and> ring_ok 0 (as_ring S') \<and> ring_queue (as_ring S') = drop (length cs) (ring_queue (as_ring S)) \<and>
    batch_after cs (as_db S) (as_db S')"
proof -
  obtain events base R where c: "pg_redis_dirty_ring_collect (drain_batch_max mx) (as_ring S) = (events, base, R)" by (metis prod_cases3)
  note D = drain_cases [OF on ok c dr]
  have "list_all2 (decodes (as_area S)) events cs"
    using dec unfolding D(2) [symmetric] by (simp add: list_all2_map1)
  then have ve: "drain_events (as_area S) events = change_vecs cs" and len: "length events = length cs"
    by (simp_all add: drain_events_changes list_all2_lengthD)
  from drain_plans_after [OF fits] obtain d' where
    d': "drain_plans (fst (change_vecs cs)) (snd (change_vecs cs)) (as_db S) = Inr d'" "batch_after cs (as_db S) d'" by blast
  show ?thesis
  proof (cases "events = []")
    case True
    then have "cs = []" using len by simp
    moreover have "ring_queue (as_ring S) = []"
      using D(2) True by simp
    ultimately show ?thesis using D(1,3) True by (simp add: batch_after_def store_after_def child_after_def)
  next
    case False
    obtain n where n: "res = Inr n"
      using dr False on c d'(1) ve by (auto simp: pg_redis_persistence_async_drain_def drain_finish_def Let_def split: prod.splits)
    then show ?thesis using D(1) D(5) [OF False n] d' ve len by simp
  qed
qed

section \<open>Blocking publication\<close>

definition some_ok :: "async_state \<Rightarrow> bool" where
  "some_ok S \<longleftrightarrow> (\<exists>n. ring_ok n (as_ring S))"

lemma publish_cases:
  assumes "ring_ok n R"
  obtains "pg_redis_dirty_ring_publish now ev R = Some (Inr PG_REDIS_RING_FULL, R)" "ring_capacity R \<le> length (ring_queue R)"
  | R' where "pg_redis_dirty_ring_publish now ev R = Some (Inr PG_REDIS_RING_OK, R')" "ring_ok n R'"
      "ring_queue R' = ring_queue R @ [ev_body ev]"
  using publish_ok [OF assms, of now ev] by (auto simp: ring_queue_def split: if_splits)

text \<open>In \<open>block\<close> mode there are at most a hundred attempts.\<close>

lemma block_returns:
  assumes env: "\<And>k S. some_ok S \<Longrightarrow> some_ok (others k S)"
  shows "some_ok S \<Longrightarrow> spin < 100 \<Longrightarrow>
    \<exists>r S'. publish_blocking_loop g spi_ok PG_REDIS_ASYNC_FULL_BLOCK others now ev spin S = Some (r, S') \<and> some_ok S' \<and>
      (r = Inr () \<or> r = Inl RingFull) \<and> (r = Inr () \<longrightarrow> (\<exists>q. ring_queue (as_ring S') = q @ [ev_body ev]))"
proof (induction "100 - spin" arbitrary: spin S)
  case (Suc m)
  then obtain n where ok: "ring_ok n (as_ring S)" by (auto simp: some_ok_def)
  show ?case
  proof (rule publish_cases [OF ok, of now ev])
    assume p: "pg_redis_dirty_ring_publish now ev (as_ring S) = Some (Inr PG_REDIS_RING_FULL, as_ring S)"
    show ?thesis
    proof (cases "spin + 1 \<ge> 100")
      case True
      then show ?thesis using ok by (subst publish_blocking_loop.simps) (auto simp: p Let_def some_ok_def)
    next
      case False
      then have "m = 100 - (spin + 1)" "spin + 1 < 100" using Suc.hyps(2) by simp_all
      from Suc.hyps(1) [OF this(1) env [OF Suc.prems(1), of spin] this(2)]
      show ?thesis using False by (subst publish_blocking_loop.simps) (simp add: p Let_def)
    qed
  next
    fix R'
    assume p: "pg_redis_dirty_ring_publish now ev (as_ring S) = Some (Inr PG_REDIS_RING_OK, R')" "ring_ok n R'"
      "ring_queue R' = ring_queue (as_ring S) @ [ev_body ev]"
    then show ?thesis by (subst publish_blocking_loop.simps) (auto simp: some_ok_def)
  qed
qed simp

text \<open>In \<open>sync_flush\<close> mode one drain makes room, or its error is raised.\<close>

lemma sync_flush_returns:
  assumes on: "persistence_writes_enabled g" and ok: "ring_ok 0 (as_ring S)"
  shows "\<exists>r S'. publish_blocking_loop g spi_ok PG_REDIS_ASYNC_FULL_SYNC_FLUSH others now ev spin S = Some (r, S') \<and>
    ring_ok 0 (as_ring S') \<and>
    (case r of
       Inr _ \<Rightarrow> \<exists>k. ring_queue (as_ring S') = drop k (ring_queue (as_ring S)) @ [ev_body ev]
     | Inl err \<Rightarrow> ring_queue (as_ring S') = ring_queue (as_ring S) \<and> as_db S' = as_db S)"
proof (rule publish_cases [OF ok, of now ev])
  fix R'
  assume "pg_redis_dirty_ring_publish now ev (as_ring S) = Some (Inr PG_REDIS_RING_OK, R')" "ring_ok 0 R'"
    "ring_queue R' = ring_queue (as_ring S) @ [ev_body ev]"
  then show ?thesis by (subst publish_blocking_loop.simps) (auto intro!: exI [of _ 0])
next
  assume p: "pg_redis_dirty_ring_publish now ev (as_ring S) = Some (Inr PG_REDIS_RING_FULL, as_ring S)"
    and full: "ring_capacity (as_ring S) \<le> length (ring_queue (as_ring S))"
  obtain res S1 where dr: "pg_redis_persistence_async_drain g spi_ok 0 S = (res, S1)" by force
  obtain events base R where c: "pg_redis_dirty_ring_collect (drain_batch_max 0) (as_ring S) = (events, base, R)" by (metis prod_cases3)
  note D = drain_cases [OF on ok c dr]
  have "ring_queue (as_ring S) \<noteq> []" using full ring_okD(1) [OF ok] by auto
  then have ne: "events \<noteq> []" using D(2) by auto
  show ?thesis
  proof (cases res)
    case (Inl err)
    then show ?thesis using D(1) D(4) [OF ne Inl] dr
      by (subst publish_blocking_loop.simps) (auto simp: p Let_def pg_redis_persistence_sync_drain_def)
  next
    case (Inr n)
    note S1 = D(5) [OF ne Inr]
    have "\<not> ring_capacity (as_ring S1) \<le> length (ring_queue (as_ring S1))"
    proof -
      have "length (ring_queue (as_ring S)) \<le> ring_capacity (as_ring S)" using ring_okD(3,4) [OF ok] by (simp add: ring_queue_def)
      moreover have "0 < n" using S1 ne by simp
      moreover have "length (ring_queue (as_ring S1)) = length (ring_queue (as_ring S)) - n"
        "ring_capacity (as_ring S1) = ring_capacity (as_ring S)" using S1 by simp_all
      ultimately show ?thesis using ring_okD(1) [OF ok] by linarith
    qed
    then obtain R' where "pg_redis_dirty_ring_publish now ev (as_ring S1) = Some (Inr PG_REDIS_RING_OK, R')" "ring_ok 0 R'"
      "ring_queue R' = ring_queue (as_ring S1) @ [ev_body ev]"
      using publish_cases [OF D(1), of now ev] by metis
    then have "publish_blocking_loop g spi_ok PG_REDIS_ASYNC_FULL_SYNC_FLUSH others now ev 0 S1 = Some (Inr (), S1\<lparr>as_ring := R'\<rparr>)"
      "ring_ok 0 R'" "ring_queue R' = drop n (ring_queue (as_ring S)) @ [ev_body ev]"
      using S1 by (auto simp: publish_blocking_loop.simps)
    then show ?thesis using dr Inr
      by (subst publish_blocking_loop.simps) (auto simp: p Let_def pg_redis_persistence_sync_drain_def)
  qed
qed

section \<open>Properties\<close>

text \<open>
  C22: A pass of the drain writes what its events say. When the events at the front of the ring decode to
  changes whose order the plans keep, and applying these one after the other succeeds, the pass succeeds,
  the three tables hold exactly what one-by-one application gives, and the events leave the ring.
\<close>

theorem drain_applies_in_order:
  assumes "persistence_writes_enabled g" "ring_ok 0 (as_ring S)"
    and "list_all2 (decodes (as_area S)) (take (drain_batch_max mx) (ring_queue (as_ring S))) cs"
    and "batch_ordered cs" "apply_changes cs (as_db S) = Inr d'"
    and "pg_redis_persistence_async_drain g True mx S = (res, S')"
  shows "res = Inr (length cs) \<and> db_same d' (as_db S') \<and> ring_ok 0 (as_ring S') \<and>
    ring_queue (as_ring S') = drop (length cs) (ring_queue (as_ring S))"
proof -
  have A: "batch_fits cs (as_db S)" "batch_after cs (as_db S) d'" using apply_changes_after [OF assms(4,5)] by simp_all
  from drain_batch_changes [OF assms(1-3) A(1) assms(6)] batch_after_same [OF A(2)] show ?thesis by blast
qed

text \<open>The configuration, the ring and the tables of the examples.\<close>

definition async_guc :: guc where
  "async_guc = \<lparr>pg_redis_persistence_mode = Some ''async_table'', pg_redis_storage_mode = Some ''shared'',
     pg_redis_max_key_size = 1024, pg_redis_max_value_size = 1048576, shmem_initialized = True\<rparr>"

definition async_start :: "nat \<Rightarrow> db \<Rightarrow> async_state" where
  "async_start n d = \<lparr>as_ring = pg_redis_dirty_ring_shmem_init n, as_area = [], as_db = d\<rparr>"

lemma async_start_ok: "0 < n \<Longrightarrow> int n < 2 ^ 31 \<Longrightarrow> ring_ok 0 (as_ring (async_start n d)) \<and> ring_queue (as_ring (async_start n d)) = []"
  using ring_ok_init [of n] by (simp add: async_start_def ring_queue_def pg_redis_dirty_ring_shmem_init_def)

lemma async_guc_enabled: "persistence_writes_enabled async_guc"
  by code_simp

text \<open>A ring with one event: the key and the value of a string key, inline.\<close>

definition sample_event :: PgRedisDirtyEvent where
  "sample_event = blank_slot\<lparr>ev_key_len := 1, ev_value_len := 2, ev_inline_bytes := [107, 118, 118] @ replicate 253 0\<rparr>"

definition sample_change :: change where
  "sample_change = KeyUpsert [107] (fresh_entry\<lparr>e_version := 0\<rparr>) [118, 118]"

definition sample_state :: async_state where
  "sample_state = (async_start 4 db_empty)
     \<lparr>as_ring := snd (the (pg_redis_dirty_ring_publish 7 sample_event (as_ring (async_start 4 db_empty))))\<rparr>"

lemma sample_decodes: "decodes [] sample_event sample_change"
  by (simp add: decodes_def sample_event_def sample_change_def blank_slot_def event_payload_base_def fresh_entry_def e_type_def
      pg_redis_event_decode_key_def pg_redis_event_decode_field_def pg_redis_event_decode_value_def)

lemma sample_state_ok: "ring_ok 0 (as_ring sample_state)" "ring_queue (as_ring sample_state) = [sample_event]"
    "as_area sample_state = []" "as_db sample_state = db_empty"
proof -
  have ok: "ring_ok 0 (pg_redis_dirty_ring_shmem_init 4)" using ring_ok_init [of 4] by simp
  have e: "ring_queue (pg_redis_dirty_ring_shmem_init 4) = []" "ev_body sample_event = sample_event"
    "\<not> ring_capacity (pg_redis_dirty_ring_shmem_init 4) \<le> 0"
    by (simp_all add: ring_queue_def pg_redis_dirty_ring_shmem_init_def ev_body_def sample_event_def blank_slot_def ring_capacity_def)
  show "ring_ok 0 (as_ring sample_state)" "ring_queue (as_ring sample_state) = [sample_event]"
    by (rule publish_cases [OF ok, of 7 sample_event]; use e in \<open>auto simp: sample_state_def async_start_def\<close>)+
  show "as_area sample_state = []" "as_db sample_state = db_empty" by (simp_all add: sample_state_def async_start_def)
qed

theorem drain_applies_in_order_witness:
  "\<exists>S' d'. pg_redis_persistence_async_drain async_guc True 0 sample_state = (Inr 1, S') \<and> ring_queue (as_ring S') = [] \<and>
     apply_change sample_change db_empty = Inr d' \<and> db_same d' (as_db S')"
proof -
  obtain res S' where d: "pg_redis_persistence_async_drain async_guc True 0 sample_state = (res, S')" by force
  have dec: "list_all2 (decodes (as_area sample_state)) (take (drain_batch_max 0) (ring_queue (as_ring sample_state))) [sample_change]"
    using sample_decodes by (simp add: sample_state_ok drain_batch_max_def ASYNC_DRAIN_BATCH_MAX_def)
  obtain d' where d': "apply_change sample_change db_empty = Inr d'" by (simp add: sample_change_def sql_store_upsert_def)
  have "apply_changes [sample_change] (as_db sample_state) = Inr d'" by (simp add: apply_changes_def sample_state_ok d')
  from drain_applies_in_order [OF async_guc_enabled sample_state_ok(1) dec _ this d] d d' show ?thesis
    by (simp add: batch_ordered_def sample_state_ok)
qed

text \<open>
  C29: A pass of the drain that fails, because SPI does not connect or a plan raises, loses nothing: every
  event is pending again, the segment that holds the spilled payloads is untouched, and so are the tables.
\<close>

theorem drain_failure_keeps_events:
  assumes "persistence_writes_enabled g" "ring_ok 0 (as_ring S)"
    and "pg_redis_persistence_async_drain g spi_ok mx S = (Inl err, S')"
  shows "ring_ok 0 (as_ring S') \<and> ring_queue (as_ring S') = ring_queue (as_ring S) \<and> as_area S' = as_area S \<and> as_db S' = as_db S"
proof -
  obtain events base R where c: "pg_redis_dirty_ring_collect (drain_batch_max mx) (as_ring S) = (events, base, R)" by (metis prod_cases3)
  note D = drain_cases [OF assms(1,2) c assms(3)]
  have "events \<noteq> []" using D(3) by auto
  from D(4) [OF this, of err] D(1) show ?thesis by simp
qed

theorem drain_failure_keeps_events_witness:
  "\<exists>S'. pg_redis_persistence_async_drain async_guc False 0 sample_state = (Inl SpiConnectFailed, S') \<and>
     ring_queue (as_ring S') = [sample_event]"
proof -
  obtain events base R1 where c: "pg_redis_dirty_ring_collect (drain_batch_max 0) (as_ring sample_state) = (events, base, R1)" by (metis prod_cases3)
  have "map ev_body events = take (drain_batch_max 0) [sample_event]"
    using ring_collect_ok(4) [OF sample_state_ok(1) c] by (simp add: sample_state_ok)
  then have "events \<noteq> []" by (auto simp: drain_batch_max_def ASYNC_DRAIN_BATCH_MAX_def)
  then obtain S' where d: "pg_redis_persistence_async_drain async_guc False 0 sample_state = (Inl SpiConnectFailed, S')"
    using c async_guc_enabled by (simp add: pg_redis_persistence_async_drain_def)
  from drain_failure_keeps_events [OF async_guc_enabled sample_state_ok(1) d] d show ?thesis by (auto simp: sample_state_ok)
qed

text \<open>
  C37: The drain does not keep the order of a field that was set and then deleted within one batch: the
  plans delete before they insert. With its parent row present, the field is gone when the two events are
  applied in order, and is present with the deleted value after the drain's plans.
\<close>

theorem drain_resurrects_deleted_field:
  assumes "hash_find (t_store d) k \<noteq> None"
  shows "(\<exists>d1. apply_changes [HashFieldUpsert k f v, HashFieldDelete k f] d = Inr d1 \<and> hash_find (t_hash d1) (k, f) = None) \<and>
    (\<exists>d2. drain_plans (fst (change_vecs [HashFieldUpsert k f v, HashFieldDelete k f]))
       (snd (change_vecs [HashFieldUpsert k f v, HashFieldDelete k f])) d = Inr d2 \<and> hash_find (t_hash d2) (k, f) = Some (Some v))"
proof
  show "\<exists>d1. apply_changes [HashFieldUpsert k f v, HashFieldDelete k f] d = Inr d1 \<and> hash_find (t_hash d1) (k, f) = None"
    using assms by (simp add: apply_changes_def plan_defs hash_find_filter_not_in)
  let ?cs = "[HashFieldUpsert k f v, HashFieldDelete k f]"
  have "batch_fits ?cs d" using assms by (simp add: batch_fits_def)
  from drain_plans_after [OF this] obtain d2 where
    "drain_plans (fst (change_vecs ?cs)) (snd (change_vecs ?cs)) d = Inr d2" "batch_after ?cs d d2" by blast
  then show "\<exists>d2. drain_plans (fst (change_vecs ?cs)) (snd (change_vecs ?cs)) d = Inr d2 \<and> hash_find (t_hash d2) (k, f) = Some (Some v)"
    by (intro exI [of _ d2]) (simp add: batch_after_def child_after_def)
qed

theorem drain_resurrects_deleted_field_witness:
  "\<exists>d2. drain_plans (fst (change_vecs [HashFieldUpsert [1] [2] [3], HashFieldDelete [1] [2]]))
       (snd (change_vecs [HashFieldUpsert [1] [2] [3], HashFieldDelete [1] [2]]))
       (db_empty\<lparr>t_store := [([1], \<lparr>r_type = ''hash'', r_value = None, r_expire = None, r_version = 1\<rparr>)]\<rparr>) = Inr d2 \<and>
     hash_find (t_hash d2) ([1], [2]) = Some (Some [3])"
  using drain_resurrects_deleted_field
    [of "db_empty\<lparr>t_store := [([1], \<lparr>r_type = ''hash'', r_value = None, r_expire = None, r_version = 1\<rparr>)]\<rparr>" "[1]" "[2]" "[3]"]
  by (simp add: hash_find_def)



end
