(* ===== verification/Shared_Atomic.thy ===== *)
theory Shared_Atomic
  imports Shared_Store Async_Drain
begin

text \<open>
  The atomic \<open>HSET\<close> and \<open>HDEL\<close> of \<open>src/shared_store.c\<close>: the table in the segment is changed directly and,
  in asynchronous mode, the events are published under the same lock. When the ring is full the lock is
  released, the ring drained or given time, and \<open>HSET\<close> starts over. \<open>others spin S\<close> is what other processes
  have made of the shared state during the sleep after that spin; all clock readings of one command are
  taken as one. The publication count that only decides whether to wake the worker is left out, and so is
  the rest of the stack buffer an event is encoded in, which no one reads.
\<close>

section \<open>State and entries\<close>

record shared_state =
  sh_keys :: "(bytes, PgRedisSharedEntry) htab"
  sh_async :: async_state

definition store_of :: "shared_state \<Rightarrow> shared_store" where
  "store_of S = \<lparr>ss_keys = sh_keys S, ss_area = as_area (sh_async S)\<rparr>"

definition put_entry :: "bytes \<Rightarrow> PgRedisSharedEntry \<Rightarrow> dsa_area \<Rightarrow> shared_state \<Rightarrow> shared_state" where
  "put_entry key se a S = \<lparr>sh_keys = hash_enter (sh_keys S) key se, sh_async = (sh_async S)\<lparr>as_area := a\<rparr>\<rparr>"

fun blank_value :: "PgRedisValueType \<Rightarrow> PgRedisValue" where
  "blank_value PG_REDIS_TYPE_STRING = StringValue None"
| "blank_value PG_REDIS_TYPE_INT = IntValue 0"
| "blank_value PG_REDIS_TYPE_HASH = HashValue None"
| "blank_value PG_REDIS_TYPE_LIST = ListValue None"

text \<open>The stub that carries the metadata of an entry to the encoder.\<close>

definition fill_event_entry :: "PgRedisSharedEntry \<Rightarrow> PgRedisEntry" where
  "fill_event_entry se =
     \<lparr>e_value = blank_value (se_type se), e_expire_at = se_expire_at se, e_has_expire = se_has_expire se, e_dirty = False,
      e_deleted = False, e_in_dirty_set = False, e_version = se_version se, e_memory_usage = 0\<rparr>"

definition event_key :: "bytes \<Rightarrow> bytes" where
  "event_key key = take PG_REDIS_MAX_KEY_SIZE key"

section \<open>Publication under the lock\<close>

text \<open>Encode and publish once; the spill of an event that found the ring full is freed.\<close>

definition publish_once ::
    "allocator \<Rightarrow> int \<Rightarrow> change \<Rightarrow> async_state \<Rightarrow> (PgRedisRingPublishResult result \<times> async_state) option" where
  "publish_once al now c A =
     (case encode_change al c blank_slot (as_area A) of
        (Inl err, a) \<Rightarrow> Some (Inl err, A\<lparr>as_area := a\<rparr>)
      | (Inr ev, a) \<Rightarrow>
          (case pg_redis_dirty_ring_publish now ev (as_ring A) of
             None \<Rightarrow> None
           | Some (Inr PG_REDIS_RING_FULL, R) \<Rightarrow>
               Some (Inr PG_REDIS_RING_FULL, A\<lparr>as_ring := R, as_area := snd (free_event_spill ev a)\<rparr>)
           | Some (r, R) \<Rightarrow> Some (r, A\<lparr>as_ring := R, as_area := a\<rparr>)))"

definition handle_ring_full_after_unlock ::
    "guc \<Rightarrow> bool \<Rightarrow> async_full_action \<Rightarrow> (nat \<Rightarrow> shared_state \<Rightarrow> shared_state) \<Rightarrow> nat \<Rightarrow> shared_state \<Rightarrow> nat result \<times> shared_state" where
  "handle_ring_full_after_unlock g spi_ok act others spin S =
     (if act = PG_REDIS_ASYNC_FULL_SYNC_FLUSH
      then case pg_redis_persistence_sync_drain g spi_ok (sh_async S) of
             (Inl err, A) \<Rightarrow> (Inl err, S\<lparr>sh_async := A\<rparr>)
           | (Inr _, A) \<Rightarrow> (Inr 0, S\<lparr>sh_async := A\<rparr>)
      else if spin + 1 \<ge> 100 then (Inl RingFull, S)
      else (Inr (spin + 1), others spin S))"

section \<open>HSET\<close>

datatype PgRedisFastHashMutateOutcome =
    PG_REDIS_FAST_HASH_MUTATE_OK_NEW
  | PG_REDIS_FAST_HASH_MUTATE_OK_OVERWRITE
  | PG_REDIS_FAST_HASH_MUTATE_OK_DELETED
  | PG_REDIS_FAST_HASH_MUTATE_NOOP
  | PG_REDIS_FAST_HASH_MUTATE_KEY_EXPIRED
  | PG_REDIS_FAST_HASH_MUTATE_WRONGTYPE

definition fresh_hash_entry :: PgRedisSharedEntry where
  "fresh_hash_entry = \<lparr>se_value = SharedHash 0 0, se_expire_at = 0, se_has_expire = False, se_version = 0\<rparr>"

text \<open>The entry that \<open>HSET\<close> works on: the hash there, or a fresh one; on the left the type that is in the way.\<close>

definition hset_entry :: "int \<Rightarrow> bytes \<Rightarrow> shared_store \<Rightarrow> (PgRedisValueType + PgRedisSharedEntry \<times> dsa_area) option" where
  "hset_entry now key S =
     (case hash_find (ss_keys S) key of
        None \<Rightarrow> Some (Inr (fresh_hash_entry, ss_area S))
      | Some se \<Rightarrow>
          if se_expired now se
          then map_option (\<lambda>(_, a). Inr (fresh_hash_entry, a)) (pg_redis_shared_entry_release_payloads se (ss_area S))
          else if se_type se \<noteq> PG_REDIS_TYPE_HASH then Some (Inl (se_type se))
          else Some (Inr (se, ss_area S)))"

text \<open>The table pointer is updated in the entry itself, also when the set raises.\<close>

definition hset_apply ::
    "hash_fn \<Rightarrow> allocator \<Rightarrow> bytes \<Rightarrow> bytes \<Rightarrow> PgRedisSharedEntry \<Rightarrow> dsa_area \<Rightarrow> bool result \<times> PgRedisSharedEntry \<times> dsa_area" where
  "hset_apply hb al field value se a =
     (case se_value se of
        SharedHash p c \<Rightarrow>
          (case pg_redis_shared_hash_set hb al p field value a of
             (Inl err, p, a) \<Rightarrow> (Inl err, se\<lparr>se_value := SharedHash p c\<rparr>, a)
           | (Inr was_new, p, a) \<Rightarrow>
               (Inr was_new, se\<lparr>se_value := SharedHash p (if was_new then c + 1 else c), se_version := se_version se + 1\<rparr>, a))
      | _ \<Rightarrow> (Inr False, se, a))"

type_synonym mutate_answer = "PgRedisFastHashMutateOutcome \<times> PgRedisValueType option"

definition hset_answer :: "bool \<Rightarrow> mutate_answer" where
  "hset_answer was_new =
     (if was_new then PG_REDIS_FAST_HASH_MUTATE_OK_NEW else PG_REDIS_FAST_HASH_MUTATE_OK_OVERWRITE, None)"

text \<open>Both events, the parent row first; whether there was room for both.\<close>

definition hset_publish ::
    "allocator \<Rightarrow> int \<Rightarrow> bytes \<Rightarrow> bytes \<Rightarrow> bytes \<Rightarrow> PgRedisSharedEntry \<Rightarrow> async_state \<Rightarrow>
     (PgRedisRingPublishResult result \<times> async_state) option" where
  "hset_publish al now key field value se A =
     (case publish_once al now (KeyUpsert (event_key key) (fill_event_entry se) []) A of
        None \<Rightarrow> None
      | Some (Inl err, A) \<Rightarrow> Some (Inl err, A)
      | Some (Inr PG_REDIS_RING_FULL, A) \<Rightarrow> Some (Inr PG_REDIS_RING_FULL, A)
      | Some (Inr PG_REDIS_RING_OK, A) \<Rightarrow> publish_once al now (HashFieldUpsert key field value) A)"

text \<open>One pass of the retry loop, all under the lock; no answer when the ring was full.\<close>

definition hset_attempt ::
    "hash_fn \<Rightarrow> allocator \<Rightarrow> guc \<Rightarrow> int \<Rightarrow> bytes \<Rightarrow> bytes \<Rightarrow> bytes \<Rightarrow> shared_state \<Rightarrow>
     (mutate_answer option result \<times> shared_state) option" where
  "hset_attempt hb al g now key field value S =
     (case hset_entry now key (store_of S) of
        None \<Rightarrow> None
      | Some (Inl actual) \<Rightarrow> Some (Inr (Some (PG_REDIS_FAST_HASH_MUTATE_WRONGTYPE, Some actual)), S)
      | Some (Inr (se, a)) \<Rightarrow>
          (case hset_apply hb al field value se a of
             (Inl err, se, a) \<Rightarrow> Some (Inl err, put_entry key se a S)
           | (Inr was_new, se, a) \<Rightarrow>
               let S = put_entry key se a S in
               if pg_redis_effective_persistence_mode g = PG_REDIS_PERSIST_ASYNC_TABLE
               then case hset_publish al now key field value se (sh_async S) of
                      None \<Rightarrow> None
                    | Some (Inl err, A) \<Rightarrow> Some (Inl err, S\<lparr>sh_async := A\<rparr>)
                    | Some (Inr PG_REDIS_RING_FULL, A) \<Rightarrow> Some (Inr None, S\<lparr>sh_async := A\<rparr>)
                    | Some (Inr PG_REDIS_RING_OK, A) \<Rightarrow> Some (Inr (Some (hset_answer was_new)), S\<lparr>sh_async := A\<rparr>)
               else Some (Inr (Some (hset_answer was_new)), S)))"

partial_function (option) hset_loop ::
    "hash_fn \<Rightarrow> allocator \<Rightarrow> guc \<Rightarrow> bool \<Rightarrow> async_full_action \<Rightarrow> (nat \<Rightarrow> shared_state \<Rightarrow> shared_state) \<Rightarrow> int \<Rightarrow>
     bytes \<Rightarrow> bytes \<Rightarrow> bytes \<Rightarrow> nat \<Rightarrow> shared_state \<Rightarrow> (mutate_answer result \<times> shared_state) option" where
  "hset_loop hb al g spi_ok act others now key field value spin S =
     (case hset_attempt hb al g now key field value S of
        None \<Rightarrow> None
      | Some (Inl err, S) \<Rightarrow> Some (Inl err, S)
      | Some (Inr (Some answer), S) \<Rightarrow> Some (Inr answer, S)
      | Some (Inr None, S) \<Rightarrow>
          (case handle_ring_full_after_unlock g spi_ok act others spin S of
             (Inl err, S) \<Rightarrow> Some (Inl err, S)
           | (Inr spin, S) \<Rightarrow> hset_loop hb al g spi_ok act others now key field value spin S))"

definition pg_redis_shared_hash_set_atomic ::
    "hash_fn \<Rightarrow> allocator \<Rightarrow> guc \<Rightarrow> bool \<Rightarrow> async_full_action \<Rightarrow> (nat \<Rightarrow> shared_state \<Rightarrow> shared_state) \<Rightarrow> int \<Rightarrow>
     bytes \<Rightarrow> bytes \<Rightarrow> bytes \<Rightarrow> shared_state \<Rightarrow> (mutate_answer result \<times> shared_state) option" where
  "pg_redis_shared_hash_set_atomic hb al g spi_ok act others now key field value S =
     hset_loop hb al g spi_ok act others now key field value 0 S"

section \<open>HDEL\<close>

text \<open>The event of a deleted field is published until there is room, the lock free in between.\<close>

partial_function (option) publish_event_under_lock ::
    "guc \<Rightarrow> bool \<Rightarrow> async_full_action \<Rightarrow> (nat \<Rightarrow> shared_state \<Rightarrow> shared_state) \<Rightarrow> int \<Rightarrow> PgRedisDirtyEvent \<Rightarrow> nat \<Rightarrow>
     shared_state \<Rightarrow> (unit result \<times> shared_state) option" where
  "publish_event_under_lock g spi_ok act others now ev spin S =
     (case pg_redis_dirty_ring_publish now ev (as_ring (sh_async S)) of
        None \<Rightarrow> None
      | Some (Inl err, R) \<Rightarrow> Some (Inl err, S\<lparr>sh_async := (sh_async S)\<lparr>as_ring := R\<rparr>\<rparr>)
      | Some (Inr PG_REDIS_RING_OK, R) \<Rightarrow> Some (Inr (), S\<lparr>sh_async := (sh_async S)\<lparr>as_ring := R\<rparr>\<rparr>)
      | Some (Inr PG_REDIS_RING_FULL, R) \<Rightarrow>
          (case handle_ring_full_after_unlock g spi_ok act others spin (S\<lparr>sh_async := (sh_async S)\<lparr>as_ring := R\<rparr>\<rparr>) of
             (Inl err, S) \<Rightarrow> Some (Inl err, S)
           | (Inr spin, S) \<Rightarrow> publish_event_under_lock g spi_ok act others now ev spin S))"

definition hdel_publish ::
    "allocator \<Rightarrow> guc \<Rightarrow> bool \<Rightarrow> async_full_action \<Rightarrow> (nat \<Rightarrow> shared_state \<Rightarrow> shared_state) \<Rightarrow> int \<Rightarrow> bytes \<Rightarrow> bytes \<Rightarrow>
     shared_state \<Rightarrow> (unit result \<times> shared_state) option" where
  "hdel_publish al g spi_ok act others now key field S =
     (case encode_change al (HashFieldDelete key field) blank_slot (as_area (sh_async S)) of
        (Inl err, a) \<Rightarrow> Some (Inl err, S\<lparr>sh_async := (sh_async S)\<lparr>as_area := a\<rparr>\<rparr>)
      | (Inr ev, a) \<Rightarrow>
          publish_event_under_lock g spi_ok act others now ev 0 (S\<lparr>sh_async := (sh_async S)\<lparr>as_area := a\<rparr>\<rparr>))"

definition pg_redis_shared_hash_del_atomic ::
    "hash_fn \<Rightarrow> allocator \<Rightarrow> guc \<Rightarrow> bool \<Rightarrow> async_full_action \<Rightarrow> (nat \<Rightarrow> shared_state \<Rightarrow> shared_state) \<Rightarrow> int \<Rightarrow>
     bytes \<Rightarrow> bytes \<Rightarrow> shared_state \<Rightarrow> (mutate_answer result \<times> shared_state) option" where
  "pg_redis_shared_hash_del_atomic hb al g spi_ok act others now key field S =
     (case hash_find (sh_keys S) key of
        None \<Rightarrow> Some (Inr (PG_REDIS_FAST_HASH_MUTATE_NOOP, None), S)
      | Some se \<Rightarrow>
          if se_expired now se
          then map_option (\<lambda>(_, a). (Inr (PG_REDIS_FAST_HASH_MUTATE_NOOP, None),
                   \<lparr>sh_keys = hash_remove (sh_keys S) key, sh_async = (sh_async S)\<lparr>as_area := a\<rparr>\<rparr>))
                 (pg_redis_shared_entry_release_payloads se (as_area (sh_async S)))
          else case se_value se of
            SharedHash p c \<Rightarrow>
              (case pg_redis_shared_hash_del hb al p field (as_area (sh_async S)) of
                 (Inl err, p, a) \<Rightarrow> Some (Inl err, put_entry key (se\<lparr>se_value := SharedHash p c\<rparr>) a S)
               | (Inr False, p, a) \<Rightarrow>
                   Some (Inr (PG_REDIS_FAST_HASH_MUTATE_NOOP, None), put_entry key (se\<lparr>se_value := SharedHash p c\<rparr>) a S)
               | (Inr True, p, a) \<Rightarrow>
                   let S = put_entry key (se\<lparr>se_value := SharedHash p (c - 1), se_version := se_version se + 1\<rparr>) a S in
                   if pg_redis_effective_persistence_mode g = PG_REDIS_PERSIST_ASYNC_TABLE
                   then map_option (\<lambda>(r, S). (map_sum id (\<lambda>_. (PG_REDIS_FAST_HASH_MUTATE_OK_DELETED, None)) r, S))
                          (hdel_publish al g spi_ok act others now key field S)
                   else Some (Inr (PG_REDIS_FAST_HASH_MUTATE_OK_DELETED, None), S))
          | _ \<Rightarrow> Some (Inr (PG_REDIS_FAST_HASH_MUTATE_WRONGTYPE, Some (se_type se)), S))"

section \<open>Events and the keyspace share the segment\<close>

definition event_used :: "dsa_area \<Rightarrow> PgRedisDirtyEvent \<Rightarrow> bool" where
  "event_used a ev \<longleftrightarrow> (\<forall>q \<in> event_owned ev. hash_find a q \<noteq> None)"

interpretation event: owner event_used "\<lambda>a. event_owned" event_payload_base
proof unfold_locales
  fix a b ev assume "event_used a ev" and same: "\<And>q. q \<in> event_owned ev \<Longrightarrow> hash_find b q = hash_find a q"
  then show "event_used b ev" by (simp add: event_used_def)
  show "event_payload_base b ev = event_payload_base a ev"
    using same by (auto simp: event_payload_base_def event_owned_def pg_redis_shared_addr_def split: if_splits)
qed (simp_all add: event_used_def)

lemma event_used_body [simp]: "event_used a (ev_body ev) = event_used a ev"
  by (simp add: event_used_def)

lemma decodes_kept:
  assumes "decodes a ev c" "event_used a ev" "dsa_frame a F b G" "event_owned ev \<inter> F = {}"
  shows "decodes b ev c"
proof -
  have "event_payload_base b ev = event_payload_base a ev" using event.kept(3) [OF assms(2-4)] .
  then show ?thesis
    using assms(1) by (simp add: decodes_def pg_redis_event_decode_key_def pg_redis_event_decode_field_def pg_redis_event_decode_value_def)
qed

lemma store_of_simps [simp]:
  "ss_keys (store_of S) = sh_keys S" "ss_area (store_of S) = as_area (sh_async S)"
  "store_of (put_entry key se a S) = \<lparr>ss_keys = hash_enter (sh_keys S) key se, ss_area = a\<rparr>"
  "as_ring (sh_async (put_entry key se a S)) = as_ring (sh_async S)" "as_area (sh_async (put_entry key se a S)) = a"
  "as_db (sh_async (put_entry key se a S)) = as_db (sh_async S)" "sh_keys (put_entry key se a S) = hash_enter (sh_keys S) key se"
  by (simp_all add: store_of_def put_entry_def)

text \<open>The keyspace does not see a change of the segment outside its chunks.\<close>

lemma shared_kept:
  assumes ok: "shared_ok hb T" and fr: "dsa_frame (ss_area T) F b G" and d: "store_owned T \<inter> F = {}"
  shows "shared_ok hb (T\<lparr>ss_area := b\<rparr>)" "shared_view (T\<lparr>ss_area := b\<rparr>) = shared_view T"
    "store_owned (T\<lparr>ss_area := b\<rparr>) = store_owned T" "store_owned T \<inter> G = {}"
proof -
  have fam: "entry.family hb (ss_area T) (hash_find (ss_keys T))" using ok by (simp add: shared_ok_def)
  have d': "entry.whole (ss_area T) (hash_find (ss_keys T)) \<inter> F = {}" using d by (simp add: store_owned_def)
  note K = entry.family_kept [OF fam fr d']
  show "shared_ok hb (T\<lparr>ss_area := b\<rparr>)" using K(1) ok by (simp add: shared_ok_def)
  show "store_owned (T\<lparr>ss_area := b\<rparr>) = store_owned T" "store_owned T \<inter> G = {}" using K(2,3) by (simp_all add: store_owned_def)
  show "shared_view (T\<lparr>ss_area := b\<rparr>) = shared_view T"
  proof
    show "shared_view (T\<lparr>ss_area := b\<rparr>) k = shared_view T k" for k
      using K(4) [of k] by (cases "hash_find (ss_keys T) k") (simp_all add: shared_view_def)
  qed
qed

text \<open>One publication: published, no room, or no memory for the spill.\<close>

lemma publish_once_cases:
  assumes al: "dsa_alloc_ok al" and c: "change_fits c" and ok: "ring_ok 0 (as_ring A)"
  obtains (oom) "publish_once al now c A = Some (Inl OutOfSharedMemory, A)"
  | (full) a where "publish_once al now c A = Some (Inr PG_REDIS_RING_FULL, A\<lparr>as_area := a\<rparr>)" "dsa_frame (as_area A) {} a {}"
      "ring_capacity (as_ring A) \<le> length (ring_queue (as_ring A))"
  | (done_) ev a R where "publish_once al now c A = Some (Inr PG_REDIS_RING_OK, A\<lparr>as_ring := R, as_area := a\<rparr>)"
      "dsa_frame (as_area A) {} a (event_owned ev)" "event_used a ev" "decodes a ev c" "ring_ok 0 R"
      "ring_queue R = ring_queue (as_ring A) @ [ev_body ev]" "ring_capacity R = ring_capacity (as_ring A)"
proof -
  obtain r a where e: "encode_change al c blank_slot (as_area A) = (r, a)" by force
  from encode_change_ok [OF al c e] show thesis
  proof (elim disjE conjE exE)
    assume "r = Inl OutOfSharedMemory" "a = as_area A"
    then show thesis using e by (intro oom) (simp add: publish_once_def)
  next
    fix ev assume r: "r = Inr ev" and dec: "decodes a ev c" and fr: "dsa_frame (as_area A) {} a (event_owned ev)"
    have used: "event_used a ev" using encode_change_used e r by (auto simp: event_used_def)
    show thesis
    proof (rule publish_cases [OF ok, of now ev])
      assume p: "pg_redis_dirty_ring_publish now ev (as_ring A) = Some (Inr PG_REDIS_RING_FULL, as_ring A)"
        and n: "ring_capacity (as_ring A) \<le> length (ring_queue (as_ring A))"
      have "dsa_frame a (event_owned ev) (snd (free_event_spill ev a)) {}"
        by (auto simp: free_event_spill_def event_owned_def dsa_frame_def)
      from dsa_frame_trans [OF fr this] show thesis using e r p n by (intro full) (simp_all add: publish_once_def)
    next
      fix R assume p: "pg_redis_dirty_ring_publish now ev (as_ring A) = Some (Inr PG_REDIS_RING_OK, R)" "ring_ok 0 R"
        "ring_queue R = ring_queue (as_ring A) @ [ev_body ev]"
      have "publish_once al now c A = Some (Inr PG_REDIS_RING_OK, A\<lparr>as_ring := R, as_area := a\<rparr>)"
        using e r p(1) by (simp add: publish_once_def)
      then show thesis using fr used dec p(2,3) publish_capacity [OF p(1)] by (rule done_)
    qed
  qed
qed

section \<open>The hash that a mutation works on\<close>

text \<open>What a client sees under the key: the fields and the expiry of a live hash, nothing when there is none.\<close>

definition live_hash :: "int \<Rightarrow> shared_store \<Rightarrow> bytes \<Rightarrow> (bytes \<Rightarrow> bytes option) \<times> int option" where
  "live_hash now T key = (case shared_live now T key of Some (RHash m, t) \<Rightarrow> (m, t) | _ \<Rightarrow> (Map.empty, None))"

definition holds_other :: "int \<Rightarrow> shared_store \<Rightarrow> bytes \<Rightarrow> bool" where
  "holds_other now T key \<longleftrightarrow> (\<exists>v t. shared_live now T key = Some (v, t) \<and> (\<forall>m. v \<noteq> RHash m))"

text \<open>An entry in the segment that is this hash.\<close>

definition is_hash :: "hash_fn \<Rightarrow> dsa_area \<Rightarrow> PgRedisSharedEntry \<Rightarrow> (bytes \<Rightarrow> bytes option) \<times> int option \<Rightarrow> bool" where
  "is_hash hb a se mt \<longleftrightarrow> se_ok hb a se \<and> se_type se = PG_REDIS_TYPE_HASH \<and> se_abs a se = (RHash (fst mt), snd mt)"

lemma is_hashE:
  assumes "is_hash hb a se mt"
  obtains p c where "se_value se = SharedHash p c" "shared_hash_ok hb a p" "c = int (card (dom (shared_map a p)))"
    "shared_map a p = fst mt" "snd mt = (if se_has_expire se then Some (se_expire_at se) else None)"
  using assms by (cases "se_value se") (auto simp: is_hash_def se_defs se_type_def)

lemma fresh_hash_is_hash [simp]: "is_hash hb a fresh_hash_entry (Map.empty, None)" "se_owned a fresh_hash_entry = {}"
  by (simp_all add: is_hash_def fresh_hash_entry_def se_defs se_type_def)

lemma hset_entry_ok:
  assumes ok: "shared_ok hb T"
  shows "if holds_other now T key
    then \<exists>ty. hset_entry now key T = Some (Inl ty) \<and> ty \<noteq> PG_REDIS_TYPE_HASH \<and> map_option se_type (hash_find (ss_keys T) key) = Some ty
    else \<exists>se a. hset_entry now key T = Some (Inr (se, a)) \<and> is_hash hb a se (live_hash now T key) \<and>
      dsa_frame (ss_area T) (entry.owno (ss_area T) (hash_find (ss_keys T) key)) a (se_owned a se)"
proof (cases "hash_find (ss_keys T) key")
  case None
  then have l: "shared_live now T key = None" by (simp add: shared_live_find)
  then show ?thesis using None by (simp add: holds_other_def live_hash_def hset_entry_def)
next
  case (Some se)
  note E = shared_ok_entry [OF ok Some]
  show ?thesis
  proof (cases "se_expired now se")
    case True
    then have l: "shared_live now T key = None" using Some by (simp add: shared_live_find)
    obtain b where "pg_redis_shared_entry_release_payloads se (ss_area T) = Some (se\<lparr>se_value := empty_value (se_type se)\<rparr>, b)"
      "dsa_frame (ss_area T) (se_owned (ss_area T) se) b {}" using release_ok [OF E] by blast
    then show ?thesis using l True Some by (simp add: holds_other_def live_hash_def hset_entry_def)
  next
    case False
    then have l: "shared_live now T key = Some (se_abs (ss_area T) se)" using Some by (simp add: shared_live_find)
    show ?thesis
      using l False Some E
      by (cases "se_value se") (auto simp: holds_other_def live_hash_def hset_entry_def se_abs_def se_type_def is_hash_def)
  qed
qed

lemma hset_apply_ok:
  assumes al: "dsa_alloc_ok al" and h: "is_hash hb a se mt" and f: "length f \<le> PG_REDIS_MAX_FIELD_SIZE"
    and op: "hset_apply hb al f v se a = (r, se', a')"
  shows "dsa_frame a (se_owned a se) a' (se_owned a' se')"
    and "is_hash hb a' se' (case r of Inr _ \<Rightarrow> ((fst mt)(f \<mapsto> v), snd mt) | Inl _ \<Rightarrow> mt)"
    and "\<And>new. r = Inr new \<Longrightarrow> (new \<longleftrightarrow> fst mt f = None) \<and> se_version se' = se_version se + 1 \<and> int (length v) \<le> UINT16_MAX"
    and "\<And>err. r = Inl err \<Longrightarrow> err = OutOfSharedMemory \<or> err = HashValueTooLong (length v)"
proof -
  obtain p c where pc: "se_value se = SharedHash p c" "shared_hash_ok hb a p" "c = int (card (dom (shared_map a p)))"
    "shared_map a p = fst mt" "snd mt = (if se_has_expire se then Some (se_expire_at se) else None)" by (rule is_hashE [OF h])
  obtain r1 p1 a1 where s: "pg_redis_shared_hash_set hb al p f v a = (r1, p1, a1)" by (metis prod_cases3)
  note S = shared_hash_set_ok [OF al pc(2) f s]
  have "a' = a1 \<and> r = r1 \<and> se_value se' = SharedHash p1 (if r1 = Inr True then c + 1 else c) \<and>
      se_has_expire se' = se_has_expire se \<and> se_expire_at se' = se_expire_at se \<and>
      (\<forall>new. r1 = Inr new \<longrightarrow> se_version se' = se_version se + 1)"
    using op s pc(1) by (cases r1) (auto simp: hset_apply_def split: if_splits)
  then have e: "a' = a1" "r = r1" "se_value se' = SharedHash p1 (if r1 = Inr True then c + 1 else c)"
    "se_has_expire se' = se_has_expire se" "se_expire_at se' = se_expire_at se"
    "\<And>new. r1 = Inr new \<Longrightarrow> se_version se' = se_version se + 1" by blast+
  show "dsa_frame a (se_owned a se) a' (se_owned a' se')" using S(2) by (simp add: se_owned_def e pc(1))
  show "(new \<longleftrightarrow> fst mt f = None) \<and> se_version se' = se_version se + 1 \<and> int (length v) \<le> UINT16_MAX" if "r = Inr new" for new
    using S(3) that e pc(4) by (simp add: set_outcome_def)
  show "err = OutOfSharedMemory \<or> err = HashValueTooLong (length v)" if "r = Inl err" for err
    using S(3) that e(2) by (auto simp: set_outcome_def)
  have m: "shared_map a1 p1 = (case r of Inr _ \<Rightarrow> (fst mt)(f \<mapsto> v) | Inl _ \<Rightarrow> fst mt)"
    using S(3) pc(4) unfolding e(2) by (cases r1) (simp_all add: set_outcome_def)
  have "(if r1 = Inr True then c + 1 else c) = int (card (dom (shared_map a1 p1)))"
  proof (cases r1)
    case (Inr new)
    then show ?thesis using S(3) pc(3,4) card_dom_upd [OF finite_shared_map, of a p f v] by (simp add: set_outcome_def)
  qed (use m pc(3,4) e(2) in auto)
  then show "is_hash hb a' se' (case r of Inr _ \<Rightarrow> ((fst mt)(f \<mapsto> v), snd mt) | Inl _ \<Rightarrow> mt)"
    using S(1) m pc(5) by (cases r) (simp_all add: is_hash_def se_defs se_type_def e)
qed

section \<open>The invariant of the shared state\<close>

text \<open>Keyspace and ring are well formed, and a spilled event shares no chunk with the keyspace or another event.\<close>

definition spills_apart :: "PgRedisDirtyEvent list \<Rightarrow> bool" where
  "spills_apart q \<longleftrightarrow> sorted_wrt (\<lambda>e e'. event_owned e \<inter> event_owned e' = {}) q"

definition joint_ok :: "hash_fn \<Rightarrow> shared_state \<Rightarrow> bool" where
  "joint_ok hb S \<longleftrightarrow> shared_ok hb (store_of S) \<and> ring_ok 0 (as_ring (sh_async S)) \<and>
     spills_apart (ring_queue (as_ring (sh_async S))) \<and>
     (\<forall>ev \<in> set (ring_queue (as_ring (sh_async S))). event_used (as_area (sh_async S)) ev \<and> event_owned ev \<inter> store_owned (store_of S) = {})"

abbreviation queue_of :: "shared_state \<Rightarrow> PgRedisDirtyEvent list" where
  "queue_of S \<equiv> ring_queue (as_ring (sh_async S))"

abbreviation slots_of :: "shared_state \<Rightarrow> nat" where
  "slots_of S \<equiv> ring_capacity (as_ring (sh_async S))"

lemma joint_okD:
  assumes "joint_ok hb S"
  shows "shared_ok hb (store_of S)" "ring_ok 0 (as_ring (sh_async S))"
    "\<And>ev. ev \<in> set (queue_of S) \<Longrightarrow> event_used (as_area (sh_async S)) ev"
    "\<And>ev. ev \<in> set (queue_of S) \<Longrightarrow> event_owned ev \<inter> store_owned (store_of S) = {}"
    "spills_apart (queue_of S)"
  using assms by (simp_all add: joint_ok_def)

lemma queue_length: "ring_ok n R \<Longrightarrow> length (ring_queue R) \<le> ring_capacity R"
  using ring_okD(4) [of n R] by (simp add: ring_queue_def)

text \<open>An entry is replaced.\<close>

lemma joint_put:
  assumes ok: "joint_ok hb S" and se: "se_ok hb a se"
    and fr: "dsa_frame (as_area (sh_async S)) (entry.owno (as_area (sh_async S)) (hash_find (sh_keys S) key)) a (se_owned a se)"
  shows "joint_ok hb (put_entry key se a S)"
    and "shared_view (store_of (put_entry key se a S)) = (shared_view (store_of S))(key \<mapsto> se_abs a se)"
proof -
  note J = joint_okD [OF ok]
  have fr': "dsa_frame (ss_area (store_of S)) (entry.owno (ss_area (store_of S)) (hash_find (ss_keys (store_of S)) key)) a (se_owned a se)"
    using fr by simp
  note P = shared_put [OF J(1) se fr']
  have e: "\<lparr>ss_keys = hash_enter (ss_keys (store_of S)) key se, ss_area = a\<rparr> = store_of (put_entry key se a S)" by simp
  show "shared_view (store_of (put_entry key se a S)) = (shared_view (store_of S))(key \<mapsto> se_abs a se)" using P(2) unfolding e .
  have "event_used a ev \<and> event_owned ev \<inter> store_owned (store_of (put_entry key se a S)) = {}" if "ev \<in> set (queue_of S)" for ev
    using event.kept [OF J(3) [OF that] P(3) [unfolded store_of_simps]] J(4) [OF that] by (simp flip: e)
  then show "joint_ok hb (put_entry key se a S)" using P(1) J(2,5) unfolding e by (simp add: joint_ok_def)
qed

text \<open>The segment changes outside the keyspace and the pending events; events may be added or dropped.\<close>

lemma joint_async:
  assumes ok: "joint_ok hb S" and fr: "dsa_frame (as_area (sh_async S)) F (as_area A) G" and d: "store_owned (store_of S) \<inter> F = {}"
    and R: "ring_ok 0 (as_ring A)" and apart: "spills_apart (ring_queue (as_ring A))"
    and ev: "\<And>ev. ev \<in> set (ring_queue (as_ring A)) \<Longrightarrow>
      ev \<in> set (queue_of S) \<and> event_owned ev \<inter> F = {} \<or> event_used (as_area A) ev \<and> event_owned ev \<subseteq> G"
  shows "joint_ok hb (S\<lparr>sh_async := A\<rparr>)" "shared_view (store_of (S\<lparr>sh_async := A\<rparr>)) = shared_view (store_of S)"
    "store_owned (store_of (S\<lparr>sh_async := A\<rparr>)) = store_owned (store_of S)"
proof -
  note J = joint_okD [OF ok]
  have e: "(store_of S)\<lparr>ss_area := as_area A\<rparr> = store_of (S\<lparr>sh_async := A\<rparr>)" by (simp add: store_of_def)
  have fr': "dsa_frame (ss_area (store_of S)) F (as_area A) G" using fr by simp
  note K = shared_kept [OF J(1) fr' d, unfolded e]
  show "shared_view (store_of (S\<lparr>sh_async := A\<rparr>)) = shared_view (store_of S)" using K(2) .
  show o: "store_owned (store_of (S\<lparr>sh_async := A\<rparr>)) = store_owned (store_of S)" using K(3) .
  have "event_used (as_area A) x \<and> event_owned x \<inter> store_owned (store_of S) = {}" if x: "x \<in> set (ring_queue (as_ring A))" for x
    using ev [OF x]
  proof
    assume q: "x \<in> set (queue_of S) \<and> event_owned x \<inter> F = {}"
    then show ?thesis using event.kept(1) [OF J(3) fr] J(4) by blast
  next
    assume "event_used (as_area A) x \<and> event_owned x \<subseteq> G"
    then show ?thesis using K(4) by blast
  qed
  then show "joint_ok hb (S\<lparr>sh_async := A\<rparr>)" using K(1) R apart o by (simp add: joint_ok_def)
qed

text \<open>What one publication does to a well-formed state.\<close>

definition publish_outcome :: "change \<Rightarrow> shared_state \<Rightarrow> PgRedisRingPublishResult result \<Rightarrow> async_state \<Rightarrow> bool" where
  "publish_outcome c S r A \<longleftrightarrow>
     r = Inl OutOfSharedMemory \<and> ring_queue (as_ring A) = queue_of S \<or>
     r = Inr PG_REDIS_RING_FULL \<and> length (queue_of S) = slots_of S \<and> ring_queue (as_ring A) = queue_of S \<or>
     r = Inr PG_REDIS_RING_OK \<and> length (queue_of S) < slots_of S \<and>
       (\<exists>ev. ring_queue (as_ring A) = queue_of S @ [ev_body ev] \<and> decodes (as_area A) ev c \<and> event_used (as_area A) ev)"

lemma joint_publish:
  assumes al: "dsa_alloc_ok al" and c: "change_fits c" and ok: "joint_ok hb S"
  obtains r A F where "publish_once al now c (sh_async S) = Some (r, A)" "joint_ok hb (S\<lparr>sh_async := A\<rparr>)"
    "shared_view (store_of (S\<lparr>sh_async := A\<rparr>)) = shared_view (store_of S)" "ring_capacity (as_ring A) = slots_of S"
    "dsa_frame (as_area (sh_async S)) {} (as_area A) F" "publish_outcome c S r A"
proof (rule publish_once_cases [OF al c joint_okD(2) [OF ok], of now])
  assume "publish_once al now c (sh_async S) = Some (Inl OutOfSharedMemory, sh_async S)"
  moreover have "S\<lparr>sh_async := sh_async S\<rparr> = S" by simp
  ultimately show thesis using ok by (intro that [of "Inl OutOfSharedMemory" "sh_async S" "{}"]) (auto simp: publish_outcome_def)
next
  note J = joint_okD [OF ok]
  fix a assume f: "publish_once al now c (sh_async S) = Some (Inr PG_REDIS_RING_FULL, (sh_async S)\<lparr>as_area := a\<rparr>)"
    "dsa_frame (as_area (sh_async S)) {} a {}" "slots_of S \<le> length (queue_of S)"
  have "joint_ok hb (S\<lparr>sh_async := (sh_async S)\<lparr>as_area := a\<rparr>\<rparr>)"
      "shared_view (store_of (S\<lparr>sh_async := (sh_async S)\<lparr>as_area := a\<rparr>\<rparr>)) = shared_view (store_of S)"
    by (rule joint_async [OF ok, of "{}" _ "{}"]; use f(2) J(2,5) in simp)+
  then show thesis using f queue_length [OF J(2)]
    by (intro that [of "Inr PG_REDIS_RING_FULL" "(sh_async S)\<lparr>as_area := a\<rparr>" "{}"]) (auto simp: publish_outcome_def)
next
  fix ev a R assume d: "publish_once al now c (sh_async S) = Some (Inr PG_REDIS_RING_OK, (sh_async S)\<lparr>as_ring := R, as_area := a\<rparr>)"
    "dsa_frame (as_area (sh_async S)) {} a (event_owned ev)" "event_used a ev" "decodes a ev c" "ring_ok 0 R"
    "ring_queue R = queue_of S @ [ev_body ev]" "ring_capacity R = slots_of S"
  let ?A = "(sh_async S)\<lparr>as_ring := R, as_area := a\<rparr>"
  have "event_owned x \<inter> event_owned ev = {}" if "x \<in> set (queue_of S)" for x
    using event.kept(4) [OF joint_okD(3) [OF ok that] d(2)] by simp
  then have ap: "spills_apart (queue_of S @ [ev_body ev])"
    using joint_okD(5) [OF ok] by (simp add: spills_apart_def sorted_wrt_append)
  have "joint_ok hb (S\<lparr>sh_async := ?A\<rparr>)" "shared_view (store_of (S\<lparr>sh_async := ?A\<rparr>)) = shared_view (store_of S)"
    by (rule joint_async [OF ok, of "{}" _ "event_owned ev"]; use d ap in \<open>auto\<close>)+
  then show thesis using d queue_length [OF d(5)] 
    by (intro that [of "Inr PG_REDIS_RING_OK" ?A "event_owned ev"]) (auto simp: publish_outcome_def)
qed

section \<open>HSET on the shared state\<close>

lemma event_changes_fit:
  assumes "length key \<le> PG_REDIS_MAX_KEY_SIZE" "length f \<le> PG_REDIS_MAX_FIELD_SIZE" "int (length v) \<le> UINT16_MAX"
  shows "change_fits (KeyUpsert (event_key key) e [])" "change_fits (HashFieldUpsert key f v)" "change_fits (HashFieldDelete key f)"
    "event_key key = key"
  using assms by (simp_all add: change_fits_def event_key_def PG_REDIS_MAX_KEY_SIZE_def PG_REDIS_MAX_FIELD_SIZE_def UINT16_MAX_def)

text \<open>The two events of a set, published or not.\<close>

lemma hset_publish_ok:
  assumes al: "dsa_alloc_ok al" and ok: "joint_ok hb S" and len: "length key \<le> PG_REDIS_MAX_KEY_SIZE"
      "length f \<le> PG_REDIS_MAX_FIELD_SIZE" "int (length v) \<le> UINT16_MAX"
  obtains r A where "hset_publish al now key f v se (sh_async S) = Some (r, A)" "joint_ok hb (S\<lparr>sh_async := A\<rparr>)"
    "shared_view (store_of (S\<lparr>sh_async := A\<rparr>)) = shared_view (store_of S)" "ring_capacity (as_ring A) = slots_of S"
    "length (ring_queue (as_ring A)) \<ge> length (queue_of S)"
    "r = Inl OutOfSharedMemory \<or>
     r = Inr PG_REDIS_RING_FULL \<and> length (ring_queue (as_ring A)) = slots_of S \<and> length (queue_of S) + 1 \<ge> slots_of S \<or>
     r = Inr PG_REDIS_RING_OK \<and> length (queue_of S) + 2 \<le> slots_of S \<and>
       (\<exists>e1 e2. ring_queue (as_ring A) = queue_of S @ [e1, e2] \<and>
          decodes (as_area A) e1 (KeyUpsert key (fill_event_entry se) []) \<and> decodes (as_area A) e2 (HashFieldUpsert key f v))"
proof -
  note fits = event_changes_fit [OF len]
  obtain r1 A1 F1 where p1: "publish_once al now (KeyUpsert (event_key key) (fill_event_entry se) []) (sh_async S) = Some (r1, A1)"
    "joint_ok hb (S\<lparr>sh_async := A1\<rparr>)" "shared_view (store_of (S\<lparr>sh_async := A1\<rparr>)) = shared_view (store_of S)"
    "ring_capacity (as_ring A1) = slots_of S" "publish_outcome (KeyUpsert (event_key key) (fill_event_entry se) []) S r1 A1"
    by (rule joint_publish [OF al fits(1) ok])
  from p1(5) consider (oom) "r1 = Inl OutOfSharedMemory" "ring_queue (as_ring A1) = queue_of S"
    | (full) "r1 = Inr PG_REDIS_RING_FULL" "length (queue_of S) = slots_of S" "ring_queue (as_ring A1) = queue_of S"
    | (ok1) ev where "r1 = Inr PG_REDIS_RING_OK" "length (queue_of S) < slots_of S" "ring_queue (as_ring A1) = queue_of S @ [ev_body ev]"
        "decodes (as_area A1) ev (KeyUpsert key (fill_event_entry se) [])" "event_used (as_area A1) ev"
    unfolding publish_outcome_def fits(4) by blast
  then show thesis
  proof cases
    case oom
    then show thesis using p1 by (intro that [of r1 A1]) (simp_all add: hset_publish_def)
  next
    case full
    then show thesis using p1 by (intro that [of r1 A1]) (simp_all add: hset_publish_def)
  next
    case ok1
    let ?S = "S\<lparr>sh_async := A1\<rparr>"
    obtain r2 A2 F2 where p2: "publish_once al now (HashFieldUpsert key f v) (sh_async ?S) = Some (r2, A2)"
      "joint_ok hb (?S\<lparr>sh_async := A2\<rparr>)" "shared_view (store_of (?S\<lparr>sh_async := A2\<rparr>)) = shared_view (store_of ?S)"
      "ring_capacity (as_ring A2) = slots_of ?S" "dsa_frame (as_area (sh_async ?S)) {} (as_area A2) F2"
      "publish_outcome (HashFieldUpsert key f v) ?S r2 A2"
      by (rule joint_publish [OF al fits(2) p1(2)])
    have q: "hset_publish al now key f v se (sh_async S) = Some (r2, A2)" "joint_ok hb (S\<lparr>sh_async := A2\<rparr>)"
      "shared_view (store_of (S\<lparr>sh_async := A2\<rparr>)) = shared_view (store_of S)" "ring_capacity (as_ring A2) = slots_of S"
      using p1 p2 ok1(1) by (simp_all add: hset_publish_def)
    have "decodes (as_area A2) ev (KeyUpsert key (fill_event_entry se) [])"
      using decodes_kept [OF ok1(4,5), of "{}"] p2(5) by simp
    moreover have "length (ring_queue (as_ring A2)) \<ge> length (queue_of S)" using p2(6) ok1(3) by (auto simp: publish_outcome_def)
    ultimately show thesis using q p1(4) p2(6) ok1
      by (intro that [of r2 A2]) (auto simp: publish_outcome_def)
  qed
qed

text \<open>One attempt; \<open>set_view\<close> is the keyspace with the field set.\<close>

definition set_view :: "int \<Rightarrow> bytes \<Rightarrow> bytes \<Rightarrow> bytes \<Rightarrow> shared_state \<Rightarrow> keyspace" where
  "set_view now key f v S =
     (shared_view (store_of S))(key \<mapsto> (RHash ((fst (live_hash now (store_of S) key))(f \<mapsto> v)), snd (live_hash now (store_of S) key)))"

definition touch_view :: "int \<Rightarrow> bytes \<Rightarrow> shared_state \<Rightarrow> keyspace" where
  "touch_view now key S =
     (shared_view (store_of S))(key \<mapsto> (RHash (fst (live_hash now (store_of S) key)), snd (live_hash now (store_of S) key)))"

definition in_async :: "guc \<Rightarrow> bool" where
  "in_async g \<longleftrightarrow> pg_redis_effective_persistence_mode g = PG_REDIS_PERSIST_ASYNC_TABLE"

definition hset_events :: "bytes \<Rightarrow> bytes \<Rightarrow> bytes \<Rightarrow> shared_state \<Rightarrow> shared_state \<Rightarrow> bool" where
  "hset_events key f v S S' \<longleftrightarrow>
     (\<exists>e1 e2 e. queue_of S' = queue_of S @ [e1, e2] \<and> e_type e = PG_REDIS_TYPE_HASH \<and>
        decodes (as_area (sh_async S')) e1 (KeyUpsert key e []) \<and> decodes (as_area (sh_async S')) e2 (HashFieldUpsert key f v))"

lemma hset_wrongtype:
  assumes ok: "joint_ok hb S" and o: "holds_other now (store_of S) key"
  shows "\<exists>ty. hset_attempt hb al g now key f v S = Some (Inr (Some (PG_REDIS_FAST_HASH_MUTATE_WRONGTYPE, Some ty)), S) \<and>
    map_option se_type (hash_find (sh_keys S) key) = Some ty"
  using hset_entry_ok [OF joint_okD(1) [OF ok], of now key] o by (auto simp: hset_attempt_def)

lemma hset_attempt_ok:
  assumes al: "dsa_alloc_ok al" and ok: "joint_ok hb S" and len: "length key \<le> PG_REDIS_MAX_KEY_SIZE" "length f \<le> PG_REDIS_MAX_FIELD_SIZE"
    and no: "\<not> holds_other now (store_of S) key"
  obtains (err) err S' where "hset_attempt hb al g now key f v S = Some (Inl err, S')" "joint_ok hb S'"
      "shared_view (store_of S') = touch_view now key S \<or> shared_view (store_of S') = set_view now key f v S"
      "err = OutOfSharedMemory \<or> err = HashValueTooLong (length v)"
      "err = HashValueTooLong (length v) \<Longrightarrow> shared_view (store_of S') = touch_view now key S"
  | (full) S' where "hset_attempt hb al g now key f v S = Some (Inr None, S')" "joint_ok hb S'" "in_async g"
      "shared_view (store_of S') = set_view now key f v S" "slots_of S' = slots_of S" "length (queue_of S') = slots_of S"
      "length (queue_of S) + 1 \<ge> slots_of S"
  | (ans) S' where "hset_attempt hb al g now key f v S = Some (Inr (Some (hset_answer (fst (live_hash now (store_of S) key) f = None))), S')"
      "joint_ok hb S'" "shared_view (store_of S') = set_view now key f v S"
      "if in_async g then length (queue_of S) + 2 \<le> slots_of S \<and> hset_events key f v S S' else queue_of S' = queue_of S"
proof -
  let ?mt = "live_hash now (store_of S) key"
  obtain se a where e: "hset_entry now key (store_of S) = Some (Inr (se, a))" "is_hash hb a se ?mt"
    "dsa_frame (as_area (sh_async S)) (entry.owno (as_area (sh_async S)) (hash_find (sh_keys S) key)) a (se_owned a se)"
    using hset_entry_ok [OF joint_okD(1) [OF ok], of now key] no by auto
  obtain r se' a' where ap: "hset_apply hb al f v se a = (r, se', a')" by (metis prod_cases3)
  note H = hset_apply_ok [OF al e(2) len(2) ap]
  let ?S = "put_entry key se' a' S"
  have seok: "se_ok hb a' se'" and ab: "se_abs a' se' = (RHash (case r of Inr _ \<Rightarrow> (fst ?mt)(f \<mapsto> v) | Inl _ \<Rightarrow> fst ?mt), snd ?mt)"
    and ty: "se_type se' = PG_REDIS_TYPE_HASH" using H(2) by (auto simp: is_hash_def split: sum.splits)
  note P = joint_put [OF ok seok dsa_frame_trans [OF e(3) H(1)]]
  show thesis
  proof (cases r)
    case (Inl x)
    have "shared_view (store_of ?S) = touch_view now key S" using P(2) ab Inl by (simp add: touch_view_def)
    then show thesis using e(1) ap Inl P(1) H(4) [OF Inl] by (intro err [of x ?S]) (simp_all add: hset_attempt_def)
  next
    case (Inr new)
    have v: "shared_view (store_of ?S) = set_view now key f v S" using P(2) ab Inr by (simp add: set_view_def)
    have n: "new = (fst ?mt f = None)" "int (length v) \<le> UINT16_MAX" using H(3) [OF Inr] by simp_all
    show thesis
    proof (cases "in_async g")
      case False
      then show thesis using e(1) ap Inr P(1) v n
        by (intro ans [of ?S]) (simp_all add: hset_attempt_def in_async_def)
    next
      case True
      obtain r2 A where p: "hset_publish al now key f v se' (sh_async ?S) = Some (r2, A)" "joint_ok hb (?S\<lparr>sh_async := A\<rparr>)"
        "shared_view (store_of (?S\<lparr>sh_async := A\<rparr>)) = shared_view (store_of ?S)" "ring_capacity (as_ring A) = slots_of ?S"
        and out: "r2 = Inl OutOfSharedMemory \<or>
          r2 = Inr PG_REDIS_RING_FULL \<and> length (ring_queue (as_ring A)) = slots_of ?S \<and> length (queue_of ?S) + 1 \<ge> slots_of ?S \<or>
          r2 = Inr PG_REDIS_RING_OK \<and> length (queue_of ?S) + 2 \<le> slots_of ?S \<and>
          (\<exists>e1 e2. ring_queue (as_ring A) = queue_of ?S @ [e1, e2] \<and>
             decodes (as_area A) e1 (KeyUpsert key (fill_event_entry se') []) \<and> decodes (as_area A) e2 (HashFieldUpsert key f v))"
        by (rule hset_publish_ok [OF al P(1) len n(2)])
      have att: "hset_attempt hb al g now key f v S =
          Some (case r2 of Inl err \<Rightarrow> Inl err | Inr PG_REDIS_RING_FULL \<Rightarrow> Inr None | Inr PG_REDIS_RING_OK \<Rightarrow> Inr (Some (hset_answer new)),
            ?S\<lparr>sh_async := A\<rparr>)"
        using e(1) ap Inr True p(1)
        by (simp add: hset_attempt_def in_async_def Let_def split: sum.splits PgRedisRingPublishResult.splits)
      have et: "e_type (fill_event_entry se') = PG_REDIS_TYPE_HASH" using ty by (simp add: fill_event_entry_def e_type_def)
      from out show thesis
      proof (elim disjE conjE exE)
        assume "r2 = Inl OutOfSharedMemory"
        then show thesis using att p v by (intro err [of OutOfSharedMemory "?S\<lparr>sh_async := A\<rparr>"]) simp_all
      next
        assume "r2 = Inr PG_REDIS_RING_FULL" "length (ring_queue (as_ring A)) = slots_of ?S" "length (queue_of ?S) + 1 \<ge> slots_of ?S"
        then show thesis using att p v True by (intro full [of "?S\<lparr>sh_async := A\<rparr>"]) simp_all
      next
        fix e1 e2 assume q: "r2 = Inr PG_REDIS_RING_OK" "length (queue_of ?S) + 2 \<le> slots_of ?S" "ring_queue (as_ring A) = queue_of ?S @ [e1, e2]"
          "decodes (as_area A) e1 (KeyUpsert key (fill_event_entry se') [])" "decodes (as_area A) e2 (HashFieldUpsert key f v)"
        then have "hset_events key f v S (?S\<lparr>sh_async := A\<rparr>)" using et unfolding hset_events_def by auto
        then show thesis using att p v n True q(1,2) by (intro ans [of "?S\<lparr>sh_async := A\<rparr>"]) simp_all
      qed
    qed
  qed
qed

text \<open>An encoded event that is not published yet, its spill apart from all others, can be appended.\<close>

definition event_apart :: "shared_state \<Rightarrow> PgRedisDirtyEvent \<Rightarrow> bool" where
  "event_apart S ev \<longleftrightarrow> event_used (as_area (sh_async S)) ev \<and> event_owned ev \<inter> store_owned (store_of S) = {} \<and>
     (\<forall>x \<in> set (queue_of S). event_owned x \<inter> event_owned ev = {})"

lemma joint_append:
  assumes ok: "joint_ok hb S" and ev: "event_apart S ev" and R: "ring_ok 0 R" "ring_queue R = queue_of S @ [ev_body ev]"
  shows "joint_ok hb (S\<lparr>sh_async := (sh_async S)\<lparr>as_ring := R\<rparr>\<rparr>)"
    "store_of (S\<lparr>sh_async := (sh_async S)\<lparr>as_ring := R\<rparr>\<rparr>) = store_of S"
proof -
  show e: "store_of (S\<lparr>sh_async := (sh_async S)\<lparr>as_ring := R\<rparr>\<rparr>) = store_of S" by (simp add: store_of_def)
  have "spills_apart (queue_of S @ [ev_body ev])"
    using joint_okD(5) [OF ok] ev by (simp add: spills_apart_def sorted_wrt_append event_apart_def)
  then show "joint_ok hb (S\<lparr>sh_async := (sh_async S)\<lparr>as_ring := R\<rparr>\<rparr>)"
    using ok ev R unfolding joint_ok_def e by (auto simp: event_apart_def)
qed

text \<open>An entry is removed.\<close>

lemma joint_remove:
  assumes ok: "joint_ok hb S"
    and fr: "dsa_frame (as_area (sh_async S)) (entry.owno (as_area (sh_async S)) (hash_find (sh_keys S) key)) a {}"
  defines "S' \<equiv> \<lparr>sh_keys = hash_remove (sh_keys S) key, sh_async = (sh_async S)\<lparr>as_area := a\<rparr>\<rparr>"
  shows "joint_ok hb S'" "shared_view (store_of S') = (shared_view (store_of S))(key := None)"
proof -
  note J = joint_okD [OF ok]
  have fr': "dsa_frame (ss_area (store_of S)) (entry.owno (ss_area (store_of S)) (hash_find (ss_keys (store_of S)) key)) a {}"
    using fr by simp
  have e: "\<lparr>ss_keys = hash_remove (ss_keys (store_of S)) key, ss_area = a\<rparr> = store_of S'" by (simp add: store_of_def S'_def)
  note P = shared_drop [OF J(1) fr', unfolded e]
  show "shared_view (store_of S') = (shared_view (store_of S))(key := None)" using P(2) .
  have "event_used a ev \<and> event_owned ev \<inter> store_owned (store_of S') = {}" if "ev \<in> set (queue_of S)" for ev
    using event.kept [OF J(3) [OF that] P(3) [unfolded store_of_simps]] J(4) [OF that] by simp
  then show "joint_ok hb S'" using P(1) J(2,5) by (simp add: joint_ok_def S'_def)
qed

section \<open>Draining under the keyspace\<close>

lemma in_async_writes: "in_async g \<Longrightarrow> persistence_writes_enabled g"
  by (auto simp: in_async_def pg_redis_effective_persistence_mode_def persistence_writes_enabled_def Let_def split: if_splits)

lemma joint_drain:
  assumes on: "in_async g" and ok: "joint_ok hb S" and dr: "pg_redis_persistence_sync_drain g spi_ok (sh_async S) = (res, A)"
  shows "joint_ok hb (S\<lparr>sh_async := A\<rparr>)" "shared_view (store_of (S\<lparr>sh_async := A\<rparr>)) = shared_view (store_of S)"
    "\<And>n. res = Inr n \<Longrightarrow> ring_queue (as_ring A) = drop (min 1024 (length (queue_of S))) (queue_of S) \<and>
       (queue_of S \<noteq> [] \<longrightarrow> ring_capacity (as_ring A) = slots_of S)"
    "\<exists>k. ring_queue (as_ring A) = drop k (queue_of S) \<and> (\<forall>err. res = Inl err \<longrightarrow> k = 0) \<and>
       dsa_frame (as_area (sh_async S)) (\<Union> (event_owned ` set (take k (queue_of S)))) (as_area A) {}"
    "store_owned (store_of (S\<lparr>sh_async := A\<rparr>)) = store_owned (store_of S)"
proof -
  note J = joint_okD [OF ok] and on' = in_async_writes [OF on]
  have dr': "pg_redis_persistence_async_drain g spi_ok 0 (sh_async S) = (res, A)" using dr by (simp add: pg_redis_persistence_sync_drain_def)
  obtain events base R where c: "pg_redis_dirty_ring_collect (drain_batch_max 0) (as_ring (sh_async S)) = (events, base, R)" by (metis prod_cases3)
  note D = drain_cases [OF on' J(2) c dr']
  have mx: "drain_batch_max 0 = 1024" by (simp add: drain_batch_max_def ASYNC_DRAIN_BATCH_MAX_def)
  have len: "length events = min 1024 (length (queue_of S))" using D(2) mx by (metis length_map length_take min.commute)
  have none: "queue_of S = []" if "events = []" using D(2) mx that by simp
  show "ring_queue (as_ring A) = drop (min 1024 (length (queue_of S))) (queue_of S) \<and>
      (queue_of S \<noteq> [] \<longrightarrow> ring_capacity (as_ring A) = slots_of S)" if "res = Inr n" for n
  proof (cases "events = []")
    case True
    then show ?thesis using D(3) [OF True] none by simp
  next
    case False
    then show ?thesis using D(5) [OF False that] len by simp
  qed
  define k where "k = (case res of Inl _ \<Rightarrow> 0 | Inr n \<Rightarrow> n)"
  let ?gone = "\<Union> (event_owned ` set (take k (queue_of S)))"
  have q: "ring_queue (as_ring A) = drop k (queue_of S)"
    using D(3-5) none by (cases "events = []"; cases res) (auto simp: k_def)
  have fr: "dsa_frame (as_area (sh_async S)) ?gone (as_area A) {}"
  proof (cases res)
    case (Inl err)
    then have "as_area A = as_area (sh_async S)" using D(3,4) by (cases "events = []") auto
    then show ?thesis using Inl by (simp add: k_def)
  next
    case (Inr n)
    from drain_area [OF on' J(2) dr' [unfolded Inr]] show ?thesis using Inr by (auto simp: dsa_frame_def k_def)
  qed
  have gone: "store_owned (store_of S) \<inter> ?gone = {}"
    using J(4) by (auto dest: in_set_takeD)
  have ap: "spills_apart (take k (queue_of S) @ drop k (queue_of S))" using J(5) by simp
  have ap': "spills_apart (ring_queue (as_ring A))"
    using ap unfolding q spills_apart_def sorted_wrt_append by simp
  have left: "event_owned x \<inter> ?gone = {}" if "x \<in> set (drop k (queue_of S))" for x
    using ap that unfolding spills_apart_def sorted_wrt_append by blast
  show "\<exists>k. ring_queue (as_ring A) = drop k (queue_of S) \<and> (\<forall>err. res = Inl err \<longrightarrow> k = 0) \<and>
      dsa_frame (as_area (sh_async S)) (\<Union> (event_owned ` set (take k (queue_of S)))) (as_area A) {}"
    using q fr by (auto simp: k_def)
  show "joint_ok hb (S\<lparr>sh_async := A\<rparr>)" "shared_view (store_of (S\<lparr>sh_async := A\<rparr>)) = shared_view (store_of S)"
    "store_owned (store_of (S\<lparr>sh_async := A\<rparr>)) = store_owned (store_of S)"
    by (rule joint_async [OF ok fr gone D(1) ap']; use left in \<open>auto simp: q dest: in_set_dropD\<close>)+
qed

end
