(* ===== verification/Shared_Retry.thy ===== *)
theory Shared_Retry
  imports Shared_Atomic
begin

text \<open>
  The retry loops of the atomic \<open>HSET\<close> and \<open>HDEL\<close>: what a command that met a full ring has done when it
  returns. In \<open>sync_flush\<close> mode a single drain makes room, so that the loops end; in \<open>block\<close> mode they end
  after a hundred rounds at the latest, whatever other processes do to the shared state meanwhile.
\<close>

section \<open>After a set\<close>

lemma hash_there:
  assumes no: "\<not> holds_other now T key"
  shows "\<not> expired_at now (RHash m, snd (live_hash now T key))"
    and "shared_live now T key = None \<Longrightarrow> live_hash now T key = (Map.empty, None)"
    and "shared_live now T key = Some x \<Longrightarrow> x = (RHash (fst (live_hash now T key)), snd (live_hash now T key))"
proof -
  show "\<not> expired_at now (RHash m, snd (live_hash now T key))"
    by (auto simp: live_hash_def shared_live_def drop_expired_def expired_at_def split: option.splits prod.splits rvalue.splits if_splits)
  show "live_hash now T key = (Map.empty, None)" if "shared_live now T key = None" using that by (simp add: live_hash_def)
  show "x = (RHash (fst (live_hash now T key)), snd (live_hash now T key))" if "shared_live now T key = Some x"
  proof (cases x)
    case (Pair v t)
    then show ?thesis using no that by (cases v) (simp_all add: live_hash_def holds_other_def)
  qed
qed

lemma after_set:
  assumes no: "\<not> holds_other now (store_of S) key" and v: "shared_view (store_of S') = set_view now key f v S"
  shows "live_hash now (store_of S') key =
      ((fst (live_hash now (store_of S) key))(f \<mapsto> v), snd (live_hash now (store_of S) key))"
    and "\<not> holds_other now (store_of S') key" "set_view now key f v S' = set_view now key f v S"
    and "touch_view now key S' = set_view now key f v S"
proof -
  let ?mt = "live_hash now (store_of S) key"
  have l: "shared_live now (store_of S') key = Some (RHash ((fst ?mt)(f \<mapsto> v)), snd ?mt)"
    using hash_there(1) [OF no] by (simp add: shared_live_def v set_view_def drop_expired_def)
  then show m: "live_hash now (store_of S') key = ((fst ?mt)(f \<mapsto> v), snd ?mt)" by (simp add: live_hash_def)
  show "\<not> holds_other now (store_of S') key" using l by (simp add: holds_other_def)
  show "set_view now key f v S' = set_view now key f v S" "touch_view now key S' = set_view now key f v S"
    by (simp_all add: set_view_def [of _ _ _ _ S'] touch_view_def m v) (simp_all add: set_view_def)
qed

section \<open>HSET\<close>

lemma hset_loop_answer:
  assumes "hset_attempt hb al g now key f v S = Some (Inr (Some x), S')"
  shows "hset_loop hb al g spi_ok act others now key f v spin S = Some (Inr x, S')"
  using assms by (subst hset_loop.simps) simp

lemma hset_loop_error:
  assumes "hset_attempt hb al g now key f v S = Some (Inl err, S')"
  shows "hset_loop hb al g spi_ok act others now key f v spin S = Some (Inl err, S')"
  using assms by (subst hset_loop.simps) simp

lemma hset_loop_again:
  assumes "hset_attempt hb al g now key f v S = Some (Inr None, S1)"
  shows "hset_loop hb al g spi_ok act others now key f v spin S =
    (case handle_ring_full_after_unlock g spi_ok act others spin S1 of
       (Inl err, S2) \<Rightarrow> Some (Inl err, S2)
     | (Inr spin', S2) \<Rightarrow> hset_loop hb al g spi_ok act others now key f v spin' S2)"
  using assms by (subst hset_loop.simps) (simp split: sum.splits prod.splits)

text \<open>What a set may leave behind when it raises: the key without the field, or with it.\<close>

definition hset_left :: "int \<Rightarrow> bytes \<Rightarrow> bytes \<Rightarrow> bytes \<Rightarrow> shared_state \<Rightarrow> shared_state \<Rightarrow> bool" where
  "hset_left now key f v S S' \<longleftrightarrow>
     shared_view (store_of S') = touch_view now key S \<or> shared_view (store_of S') = set_view now key f v S"

definition hset_outcome ::
    "guc \<Rightarrow> int \<Rightarrow> bytes \<Rightarrow> bytes \<Rightarrow> bytes \<Rightarrow> shared_state \<Rightarrow> mutate_answer result \<Rightarrow> shared_state \<Rightarrow> bool" where
  "hset_outcome g now key f v S res S' \<longleftrightarrow>
     (case res of
        Inl err \<Rightarrow> \<not> holds_other now (store_of S) key \<and> hset_left now key f v S S'
      | Inr answer \<Rightarrow>
          if holds_other now (store_of S) key
          then \<exists>ty. answer = (PG_REDIS_FAST_HASH_MUTATE_WRONGTYPE, Some ty) \<and>
                 map_option se_type (hash_find (sh_keys S) key) = Some ty \<and> S' = S
          else answer = hset_answer (fst (live_hash now (store_of S) key) f = None) \<and>
               shared_view (store_of S') = set_view now key f v S \<and>
               (if in_async g then hset_events key f v S S' else queue_of S' = queue_of S))"

lemma hset_with_room:
  assumes al: "dsa_alloc_ok al" and ok: "joint_ok hb S" and len: "length key \<le> PG_REDIS_MAX_KEY_SIZE" "length f \<le> PG_REDIS_MAX_FIELD_SIZE"
    and room: "in_async g \<Longrightarrow> length (queue_of S) + 2 \<le> slots_of S"
  shows "\<exists>res S'. hset_loop hb al g spi_ok act others now key f v spin S = Some (res, S') \<and> joint_ok hb S' \<and>
    hset_outcome g now key f v S res S'"
proof (cases "holds_other now (store_of S) key")
  case True
  obtain ty where "hset_attempt hb al g now key f v S = Some (Inr (Some (PG_REDIS_FAST_HASH_MUTATE_WRONGTYPE, Some ty)), S)"
    "map_option se_type (hash_find (sh_keys S) key) = Some ty" using hset_wrongtype [OF ok True] by blast
  then show ?thesis using hset_loop_answer ok True by (fastforce simp: hset_outcome_def)
next
  case False
  show ?thesis
  proof (rule hset_attempt_ok [OF al ok len False, of g v])
    fix err S' assume "hset_attempt hb al g now key f v S = Some (Inl err, S')" "joint_ok hb S'"
      "shared_view (store_of S') = touch_view now key S \<or> shared_view (store_of S') = set_view now key f v S"
    then show ?thesis using hset_loop_error False by (auto simp: hset_outcome_def hset_left_def)
  next
    fix S' assume "in_async g" "slots_of S \<le> length (queue_of S) + 1"
    then show ?thesis using room by simp
  next
    fix S' assume "hset_attempt hb al g now key f v S = Some (Inr (Some (hset_answer (fst (live_hash now (store_of S) key) f = None))), S')"
      "joint_ok hb S'" "shared_view (store_of S') = set_view now key f v S"
      "if in_async g then length (queue_of S) + 2 \<le> slots_of S \<and> hset_events key f v S S' else queue_of S' = queue_of S"
    then show ?thesis using hset_loop_answer False by (auto simp: hset_outcome_def)
  qed
qed

text \<open>In flush mode one drain is enough; the second attempt finds the field that the first one left.\<close>

lemma hset_full_ring:
  assumes al: "dsa_alloc_ok al" and ok: "joint_ok hb S" and len: "length key \<le> PG_REDIS_MAX_KEY_SIZE" "length f \<le> PG_REDIS_MAX_FIELD_SIZE"
    and on: "in_async g" and full: "slots_of S \<le> length (queue_of S) + 1" and two: "2 \<le> slots_of S"
    and no: "\<not> holds_other now (store_of S) key"
  shows "\<exists>res S'. hset_loop hb al g spi_ok PG_REDIS_ASYNC_FULL_SYNC_FLUSH others now key f v spin S = Some (res, S') \<and> joint_ok hb S' \<and>
    (case res of Inl err \<Rightarrow> hset_left now key f v S S'
     | Inr answer \<Rightarrow> answer = hset_answer False \<and> shared_view (store_of S') = set_view now key f v S)"
proof (rule hset_attempt_ok [OF al ok len no, of g v])
  fix err S' assume "hset_attempt hb al g now key f v S = Some (Inl err, S')" "joint_ok hb S'"
    "shared_view (store_of S') = touch_view now key S \<or> shared_view (store_of S') = set_view now key f v S"
  then show ?thesis using hset_loop_error by (auto simp: hset_left_def)
next
  fix S' assume "if in_async g then length (queue_of S) + 2 \<le> slots_of S \<and> hset_events key f v S S' else queue_of S' = queue_of S"
  then show ?thesis using on full by simp
next
  fix S1 assume a1: "hset_attempt hb al g now key f v S = Some (Inr None, S1)" "joint_ok hb S1"
    and v1: "shared_view (store_of S1) = set_view now key f v S" and q1: "slots_of S1 = slots_of S" "length (queue_of S1) = slots_of S"
  obtain r A where d: "pg_redis_persistence_sync_drain g spi_ok (sh_async S1) = (r, A)" by force
  note D = joint_drain [OF on a1(2) d]
  let ?S2 = "S1\<lparr>sh_async := A\<rparr>"
  have v2: "shared_view (store_of ?S2) = set_view now key f v S" using D(2) v1 by simp
  show ?thesis
  proof (cases r)
    case (Inl err)
    then show ?thesis using hset_loop_again [OF a1(1)] d D(1) v2 by (auto simp: handle_ring_full_after_unlock_def hset_left_def)
  next
    case (Inr n)
    have ne: "queue_of S1 \<noteq> []" using q1 two by auto
    have q2: "length (queue_of ?S2) + 2 \<le> slots_of ?S2" using D(3) [OF Inr] ne q1 two by simp
    note after = after_set [OF no v2]
    obtain res S' where l: "hset_loop hb al g spi_ok PG_REDIS_ASYNC_FULL_SYNC_FLUSH others now key f v 0 ?S2 = Some (res, S')"
      "joint_ok hb S'" "hset_outcome g now key f v ?S2 res S'" using hset_with_room [OF al D(1) len] q2 by blast
    have "case res of Inl err \<Rightarrow> hset_left now key f v S S'
        | Inr answer \<Rightarrow> answer = hset_answer False \<and> shared_view (store_of S') = set_view now key f v S"
      using l(3) after by (simp add: hset_outcome_def hset_left_def split: sum.splits)
    then show ?thesis using l(1,2) hset_loop_again [OF a1(1)] d Inr by (simp add: handle_ring_full_after_unlock_def)
  qed
qed

text \<open>In block mode the loop gives up after a hundred rounds; each round meets a well-formed state.\<close>

lemma hset_block:
  assumes al: "dsa_alloc_ok al" and len: "length key \<le> PG_REDIS_MAX_KEY_SIZE" "length f \<le> PG_REDIS_MAX_FIELD_SIZE"
    and others: "\<And>s T. joint_ok hb T \<Longrightarrow> joint_ok hb (others s T)" and ok: "joint_ok hb S"
  shows "\<exists>res S'. hset_loop hb al g spi_ok PG_REDIS_ASYNC_FULL_BLOCK others now key f v spin S = Some (res, S') \<and> joint_ok hb S'"
  using ok
proof (induction "100 - spin" arbitrary: spin S rule: less_induct)
  case less
  show ?case
  proof (cases "holds_other now (store_of S) key")
    case True
    obtain ty where "hset_attempt hb al g now key f v S = Some (Inr (Some (PG_REDIS_FAST_HASH_MUTATE_WRONGTYPE, Some ty)), S)"
      using hset_wrongtype [OF less.prems True] by blast
    from hset_loop_answer [OF this] show ?thesis using less.prems by simp
  next
    case False
    show ?thesis
    proof (rule hset_attempt_ok [OF al less.prems len False, of g v])
      fix S1 assume a1: "hset_attempt hb al g now key f v S = Some (Inr None, S1)" "joint_ok hb S1"
      show ?thesis
      proof (cases "spin + 1 \<ge> 100")
        case True
        then show ?thesis using hset_loop_again [OF a1(1)] a1(2) by (simp add: handle_ring_full_after_unlock_def)
      next
        case False
        then show ?thesis
          using less.hyps [of "spin + 1" "others spin S1"] others [OF a1(2)] hset_loop_again [OF a1(1)]
          by (simp add: handle_ring_full_after_unlock_def)
      qed
    qed (simp_all add: hset_loop_answer hset_loop_error)
  qed
qed

text \<open>When nobody drains meanwhile, the command raises, with the field set.\<close>

lemma hset_block_full:
  assumes al: "dsa_alloc_ok al" and len: "length key \<le> PG_REDIS_MAX_KEY_SIZE" "length f \<le> PG_REDIS_MAX_FIELD_SIZE"
    and ok: "joint_ok hb S" and on: "in_async g" and full: "slots_of S \<le> length (queue_of S) + 1"
    and no: "\<not> holds_other now (store_of S) key"
  shows "\<exists>err S'. hset_loop hb al g spi_ok PG_REDIS_ASYNC_FULL_BLOCK (\<lambda>s T. T) now key f v spin S = Some (Inl err, S') \<and>
    joint_ok hb S' \<and> hset_left now key f v S S' \<and> (err = RingFull \<longrightarrow> shared_view (store_of S') = set_view now key f v S)"
  using ok full no
proof (induction "100 - spin" arbitrary: spin S rule: less_induct)
  case less
  show ?case
  proof (rule hset_attempt_ok [OF al less.prems(1) len less.prems(3), of g v])
    fix err S' assume "hset_attempt hb al g now key f v S = Some (Inl err, S')" "joint_ok hb S'"
      "shared_view (store_of S') = touch_view now key S \<or> shared_view (store_of S') = set_view now key f v S"
      "err = OutOfSharedMemory \<or> err = HashValueTooLong (length v)"
    then show ?thesis using hset_loop_error by (auto simp: hset_left_def)
  next
    fix S' assume "if in_async g then length (queue_of S) + 2 \<le> slots_of S \<and> hset_events key f v S S' else queue_of S' = queue_of S"
    then show ?thesis using on less.prems(2) by simp
  next
    fix S1 assume a1: "hset_attempt hb al g now key f v S = Some (Inr None, S1)" "joint_ok hb S1"
      and v1: "shared_view (store_of S1) = set_view now key f v S" and q1: "slots_of S1 = slots_of S" "length (queue_of S1) = slots_of S"
    note after = after_set [OF less.prems(3) v1]
    show ?thesis
    proof (cases "spin + 1 \<ge> 100")
      case True
      then show ?thesis
        using hset_loop_again [OF a1(1)] a1(2) v1 by (simp add: handle_ring_full_after_unlock_def hset_left_def)
    next
      case False
      obtain err S' where l: "hset_loop hb al g spi_ok PG_REDIS_ASYNC_FULL_BLOCK (\<lambda>s T. T) now key f v (spin + 1) S1 = Some (Inl err, S')"
        "joint_ok hb S'" "hset_left now key f v S1 S'" "err = RingFull \<longrightarrow> shared_view (store_of S') = set_view now key f v S1"
        using less.hyps [of "spin + 1" S1, OF _ a1(2) _ after(2)] False q1 by fastforce
      have "hset_loop hb al g spi_ok PG_REDIS_ASYNC_FULL_BLOCK (\<lambda>s T. T) now key f v spin S = Some (Inl err, S')"
        using hset_loop_again [OF a1(1)] False l(1) by (simp add: handle_ring_full_after_unlock_def)
      then show ?thesis using l(2-4) after(3,4) by (simp add: hset_left_def)
    qed
  qed
qed

section \<open>HDEL\<close>

text \<open>The publication loop in flush mode.\<close>

lemma publish_flush:
  assumes on: "in_async g" and ok: "joint_ok hb S" and ev: "event_apart S ev" "decodes (as_area (sh_async S)) ev c"
  shows "\<exists>res S'. publish_event_under_lock g spi_ok PG_REDIS_ASYNC_FULL_SYNC_FLUSH others now ev spin S = Some (res, S') \<and> joint_ok hb S' \<and>
    shared_view (store_of S') = shared_view (store_of S) \<and>
    (case res of Inl err \<Rightarrow> queue_of S' = queue_of S
     | Inr _ \<Rightarrow> \<exists>k. queue_of S' = drop k (queue_of S) @ [ev_body ev] \<and> decodes (as_area (sh_async S')) ev c)"
proof (rule publish_cases [OF joint_okD(2) [OF ok], of now ev])
  fix R assume p: "pg_redis_dirty_ring_publish now ev (as_ring (sh_async S)) = Some (Inr PG_REDIS_RING_OK, R)" "ring_ok 0 R"
    "ring_queue R = queue_of S @ [ev_body ev]"
  let ?S = "S\<lparr>sh_async := (sh_async S)\<lparr>as_ring := R\<rparr>\<rparr>"
  have "publish_event_under_lock g spi_ok PG_REDIS_ASYNC_FULL_SYNC_FLUSH others now ev spin S = Some (Inr (), ?S)"
    using p(1) by (subst publish_event_under_lock.simps) simp
  moreover have "queue_of ?S = drop 0 (queue_of S) @ [ev_body ev]" "decodes (as_area (sh_async ?S)) ev c" using p(3) ev(2) by simp_all
  then have "case Inr () of Inl err \<Rightarrow> queue_of ?S = queue_of S
      | Inr u \<Rightarrow> \<exists>k. queue_of ?S = drop k (queue_of S) @ [ev_body ev] \<and> decodes (as_area (sh_async ?S)) ev c"
    unfolding sum.case by blast
  moreover have "shared_view (store_of ?S) = shared_view (store_of S)" using joint_append(2) [OF ok ev(1) p(2,3)] by (rule arg_cong)
  ultimately show ?thesis using joint_append(1) [OF ok ev(1) p(2,3)] by blast
next
  assume p: "pg_redis_dirty_ring_publish now ev (as_ring (sh_async S)) = Some (Inr PG_REDIS_RING_FULL, as_ring (sh_async S))"
    and n: "slots_of S \<le> length (queue_of S)"
  obtain r A where d: "pg_redis_persistence_sync_drain g spi_ok (sh_async S) = (r, A)" by force
  note D = joint_drain [OF on ok d]
  let ?S = "S\<lparr>sh_async := A\<rparr>"
  have loop: "publish_event_under_lock g spi_ok PG_REDIS_ASYNC_FULL_SYNC_FLUSH others now ev spin S =
      (case r of Inl err \<Rightarrow> Some (Inl err, ?S)
       | Inr _ \<Rightarrow> publish_event_under_lock g spi_ok PG_REDIS_ASYNC_FULL_SYNC_FLUSH others now ev 0 ?S)"
    using p d by (subst publish_event_under_lock.simps) (simp add: handle_ring_full_after_unlock_def split: sum.splits)
  obtain k where k: "ring_queue (as_ring A) = drop k (queue_of S)" "\<And>err. r = Inl err \<Longrightarrow> k = 0"
    "dsa_frame (as_area (sh_async S)) (\<Union> (event_owned ` set (take k (queue_of S)))) (as_area A) {}" using D(4) by blast
  show ?thesis
  proof (cases r)
    case (Inl err)
    then show ?thesis using loop D(1,2) k(1,2) by simp
  next
    case (Inr m)
    have away: "event_owned ev \<inter> \<Union> (event_owned ` set (take k (queue_of S))) = {}"
      using ev(1) unfolding event_apart_def by (blast dest: in_set_takeD)
    have used: "event_used (as_area (sh_async S)) ev" using ev(1) by (simp add: event_apart_def)
    have ap: "event_apart ?S ev"
      using event.kept(1) [OF used k(3) away] ev(1) k(1) D(5) by (auto simp: event_apart_def dest: in_set_dropD)
    have dec: "decodes (as_area A) ev c" by (rule decodes_kept [OF ev(2) used k(3) away])
    have pos: "0 < slots_of S" using ring_okD(1) [OF joint_okD(2) [OF ok]] .
    have room: "length (ring_queue (as_ring A)) < ring_capacity (as_ring A)" using D(3) [OF Inr] n pos queue_length [OF joint_okD(2) [OF ok]] by auto
    show ?thesis
    proof (rule publish_cases [OF joint_okD(2) [OF D(1)], of now ev])
      fix R assume p: "pg_redis_dirty_ring_publish now ev (as_ring (sh_async ?S)) = Some (Inr PG_REDIS_RING_OK, R)" "ring_ok 0 R"
        "ring_queue R = queue_of ?S @ [ev_body ev]"
      have "publish_event_under_lock g spi_ok PG_REDIS_ASYNC_FULL_SYNC_FLUSH others now ev spin S =
          Some (Inr (), S\<lparr>sh_async := A\<lparr>as_ring := R\<rparr>\<rparr>)"
        using loop Inr p(1) by (simp add: publish_event_under_lock.simps)
      moreover have "shared_view (store_of (S\<lparr>sh_async := A\<lparr>as_ring := R\<rparr>\<rparr>)) = shared_view (store_of S)"
        using trans [OF arg_cong [where f = shared_view, OF joint_append(2) [OF D(1) ap p(2,3)]] D(2)] by simp
      ultimately show ?thesis using joint_append(1) [OF D(1) ap p(2,3)] p(3) k(1) dec by auto
    qed (use room in simp)
  qed
qed

text \<open>Encoding a change and publishing its event.\<close>

definition publish_encoded ::
    "allocator \<Rightarrow> guc \<Rightarrow> bool \<Rightarrow> async_full_action \<Rightarrow> (nat \<Rightarrow> shared_state \<Rightarrow> shared_state) \<Rightarrow> int \<Rightarrow> change \<Rightarrow>
     shared_state \<Rightarrow> (unit result \<times> shared_state) option" where
  "publish_encoded al g spi_ok act others now c S =
     (case encode_change al c blank_slot (as_area (sh_async S)) of
        (Inl err, a) \<Rightarrow> Some (Inl err, S\<lparr>sh_async := (sh_async S)\<lparr>as_area := a\<rparr>\<rparr>)
      | (Inr ev, a) \<Rightarrow>
          publish_event_under_lock g spi_ok act others now ev 0 (S\<lparr>sh_async := (sh_async S)\<lparr>as_area := a\<rparr>\<rparr>))"

lemma hdel_publish_encoded:
  "hdel_publish al g spi_ok act others now key f = publish_encoded al g spi_ok act others now (HashFieldDelete key f)"
  by (rule ext) (simp only: hdel_publish_def publish_encoded_def)

lemma publish_encoded_ok:
  assumes al: "dsa_alloc_ok al" and on: "in_async g" and ok: "joint_ok hb S" and fits: "change_fits c"
  shows "\<exists>res S'. publish_encoded al g spi_ok PG_REDIS_ASYNC_FULL_SYNC_FLUSH others now c S = Some (res, S') \<and> joint_ok hb S' \<and>
    shared_view (store_of S') = shared_view (store_of S) \<and>
    (case res of Inl err \<Rightarrow> queue_of S' = queue_of S
     | Inr _ \<Rightarrow> \<exists>k ev. queue_of S' = drop k (queue_of S) @ [ev] \<and> decodes (as_area (sh_async S')) ev c)"
proof -
  obtain r a where e: "encode_change al c blank_slot (as_area (sh_async S)) = (r, a)" by force
  note J = joint_okD [OF ok]
  from encode_change_ok [OF al fits e] show ?thesis
  proof (elim disjE conjE exE)
    assume "r = Inl OutOfSharedMemory" "a = as_area (sh_async S)"
    then show ?thesis using e ok by (simp add: publish_encoded_def)
  next
    fix ev assume r: "r = Inr ev" and dec: "decodes a ev c"
      and fr: "dsa_frame (as_area (sh_async S)) {} a (event_owned ev)"
    let ?S = "S\<lparr>sh_async := (sh_async S)\<lparr>as_area := a\<rparr>\<rparr>"
    have used: "event_used a ev" unfolding event_used_def using encode_change_used [OF e [unfolded r]] by blast
    have K: "joint_ok hb ?S" "shared_view (store_of ?S) = shared_view (store_of S)" "store_owned (store_of ?S) = store_owned (store_of S)"
      by (rule joint_async [OF ok, of "{}" _ "event_owned ev"]; use fr J(2,5) in simp)+
    have "store_owned (store_of S) \<inter> event_owned ev = {}"
      using shared_kept(4) [OF J(1), of "{}" a "event_owned ev"] fr by simp
    moreover have "event_owned x \<inter> event_owned ev = {}" if "x \<in> set (queue_of S)" for x
      using event.kept(4) [OF J(3) [OF that] fr] by simp
    ultimately have "event_apart ?S ev" using used K(3) by (auto simp: event_apart_def)
    from publish_flush [OF on K(1) this] dec obtain res S' where
      l: "publish_event_under_lock g spi_ok PG_REDIS_ASYNC_FULL_SYNC_FLUSH others now ev 0 ?S = Some (res, S')" "joint_ok hb S'"
      "shared_view (store_of S') = shared_view (store_of ?S)"
      "case res of Inl err \<Rightarrow> queue_of S' = queue_of ?S
       | Inr _ \<Rightarrow> \<exists>k. queue_of S' = drop k (queue_of ?S) @ [ev_body ev] \<and> decodes (as_area (sh_async S')) ev c"
      by fastforce
    have "case res of Inl err \<Rightarrow> queue_of S' = queue_of S
        | Inr _ \<Rightarrow> \<exists>k ev. queue_of S' = drop k (queue_of S) @ [ev] \<and> decodes (as_area (sh_async S')) ev c"
    proof (cases res)
      case (Inr u)
      then obtain k where "queue_of S' = drop k (queue_of S) @ [ev_body ev]" "decodes (as_area (sh_async S')) (ev_body ev) c"
        using l(4) by auto
      then show ?thesis using Inr by auto
    qed (use l(4) in simp)
    then show ?thesis using e r l(1-3) K(2) by (simp add: publish_encoded_def)
  qed
qed

lemma delete_fits:
  assumes "length key \<le> PG_REDIS_MAX_KEY_SIZE" "length f \<le> PG_REDIS_MAX_FIELD_SIZE"
  shows "change_fits (HashFieldDelete key f)"
  using event_changes_fit(3) [OF assms, of "[]"] by (simp add: UINT16_MAX_def)

lemmas hdel_publish_ok = publish_encoded_ok [OF _ _ _ delete_fits, folded hdel_publish_encoded]

definition del_view :: "int \<Rightarrow> bytes \<Rightarrow> bytes \<Rightarrow> shared_state \<Rightarrow> keyspace" where
  "del_view now key f S =
     (shared_view (store_of S))(key \<mapsto> (RHash ((fst (live_hash now (store_of S) key))(f := None)), snd (live_hash now (store_of S) key)))"

text \<open>
  What a delete answers and does: nothing on another type, nothing visible when the field is not there;
  otherwise the field goes and, in asynchronous mode, its event follows those that were pending.
\<close>

definition hdel_outcome ::
    "guc \<Rightarrow> int \<Rightarrow> bytes \<Rightarrow> bytes \<Rightarrow> shared_state \<Rightarrow> mutate_answer result \<Rightarrow> shared_state \<Rightarrow> bool" where
  "hdel_outcome g now key f S res S' \<longleftrightarrow>
     (if holds_other now (store_of S) key
      then S' = S \<and> res = Inr (PG_REDIS_FAST_HASH_MUTATE_WRONGTYPE, map_option se_type (hash_find (sh_keys S) key))
      else if fst (live_hash now (store_of S) key) f = None
      then res = Inr (PG_REDIS_FAST_HASH_MUTATE_NOOP, None) \<and> shared_live now (store_of S') = shared_live now (store_of S) \<and>
           queue_of S' = queue_of S
      else shared_view (store_of S') = del_view now key f S \<and>
           (case res of
              Inl err \<Rightarrow> in_async g \<and> queue_of S' = queue_of S
            | Inr answer \<Rightarrow> answer = (PG_REDIS_FAST_HASH_MUTATE_OK_DELETED, None) \<and>
                (if in_async g
                 then \<exists>k ev. queue_of S' = drop k (queue_of S) @ [ev] \<and> decodes (as_area (sh_async S')) ev (HashFieldDelete key f)
                 else queue_of S' = queue_of S)))"

lemma hdel_table:
  assumes al: "dsa_alloc_ok al" and h: "is_hash hb a se mt" and v: "se_value se = SharedHash p c"
    and d: "pg_redis_shared_hash_del hb al p f a = (r, p', a')"
    and se'_def: "se' = se\<lparr>se_value := SharedHash p' (if fst mt f = None then c else c - 1), se_version := n\<rparr>"
  shows "r = Inr (fst mt f \<noteq> None)" "is_hash hb a' se' ((fst mt)(f := None), snd mt)" "dsa_frame a (se_owned a se) a' (se_owned a' se')"
proof -
  obtain p0 c0 where pc: "se_value se = SharedHash p0 c0" "shared_hash_ok hb a p0" "c0 = int (card (dom (shared_map a p0)))"
    "shared_map a p0 = fst mt" "snd mt = (if se_has_expire se then Some (se_expire_at se) else None)" by (rule is_hashE [OF h])
  have e: "p0 = p" "c0 = c" using pc(1) v by simp_all
  note D = shared_hash_del_ok [OF al pc(2) [unfolded e] d]
  show "r = Inr (fst mt f \<noteq> None)" using D(1) pc(4) e by simp
  show "dsa_frame a (se_owned a se) a' (se_owned a' se')" using D(4) v by (simp add: se_owned_def se'_def)
  have "finite (dom (fst mt))" using finite_shared_map [of a p] pc(4) e by simp
  then have "(if fst mt f = None then c else c - 1) = int (card (dom ((fst mt)(f := None))))"
    using pc(3,4) e card_Diff_singleton [of f "dom (fst mt)"] card_gt_0_iff [of "dom (fst mt)"] by (auto simp: domIff of_nat_diff)
  then show "is_hash hb a' se' ((fst mt)(f := None), snd mt)"
    using D(2,3) pc(4,5) e by (simp add: is_hash_def se_defs se_type_def se'_def)
qed

text \<open>A live hash under the key.\<close>

lemma hdel_hash:
  assumes al: "dsa_alloc_ok al" and ok: "joint_ok hb S" and len: "length key \<le> PG_REDIS_MAX_KEY_SIZE" "length f \<le> PG_REDIS_MAX_FIELD_SIZE"
    and se: "hash_find (sh_keys S) key = Some se" "\<not> se_expired now se" "se_value se = SharedHash p c"
  shows "\<exists>res S'. pg_redis_shared_hash_del_atomic hb al g spi_ok PG_REDIS_ASYNC_FULL_SYNC_FLUSH others now key f S = Some (res, S') \<and>
    joint_ok hb S' \<and> hdel_outcome g now key f S res S'"
proof -
  let ?mt = "live_hash now (store_of S) key" and ?a = "as_area (sh_async S)"
  have sk: "hash_find (ss_keys (store_of S)) key = Some se" using se(1) by simp
  have l: "shared_live now (store_of S) key = Some (se_abs ?a se)" using se by (simp add: shared_live_find)
  have no: "\<not> holds_other now (store_of S) key" using l se(3) by (auto simp: holds_other_def se_abs_def)
  have h: "is_hash hb ?a se ?mt"
    using shared_ok_entry [OF joint_okD(1) [OF ok] sk] hash_there(3) [OF no l] se(3) by (simp add: is_hash_def se_type_def)
  obtain r p' a' where d: "pg_redis_shared_hash_del hb al p f ?a = (r, p', a')" by (metis prod_cases3)
  let ?se = "\<lambda>n. se\<lparr>se_value := SharedHash p' (if fst ?mt f = None then c else c - 1), se_version := n\<rparr>"
  note T = hdel_table [OF al h se(3) d refl]
  have fr: "dsa_frame ?a (entry.owno ?a (hash_find (sh_keys S) key)) a' (se_owned a' (?se n))" for n using T(3) se(1) by simp
  have seok: "se_ok hb a' (?se n)" and ab: "se_abs a' (?se n) = (RHash ((fst ?mt)(f := None)), snd ?mt)" for n
    using T(2) [of n] by (simp_all add: is_hash_def)
  note P = joint_put [OF ok seok fr]
  let ?S = "put_entry key (?se (se_version se + 1)) a' S"
  show ?thesis
  proof (cases "fst ?mt f = None")
    case True
    let ?S0 = "put_entry key (?se (se_version se)) a' S"
    have "(fst ?mt)(f := None) = fst ?mt" using True by auto
    then have "shared_view (store_of ?S0) = (shared_view (store_of S))(key \<mapsto> se_abs ?a se)"
      by (simp only: P(2) ab hash_there(3) [OF no l])
    then have "shared_view (store_of ?S0) = shared_view (store_of S)" using se(1) by (simp add: shared_view_def fun_upd_idem)
    then show ?thesis using P(1) [of "se_version se"] True se d T(1) no
      by (simp add: pg_redis_shared_hash_del_atomic_def hdel_outcome_def shared_live_def)
  next
    case False
    then obtain y where y: "fst ?mt f = Some y" by auto
    have v: "shared_view (store_of ?S) = del_view now key f S" using P(2) ab by (simp add: del_view_def)
    have q: "queue_of ?S = queue_of S" by simp
    show ?thesis
    proof (cases "in_async g")
      case off: False
      then show ?thesis using P(1) [of "se_version se + 1"] y se d T(1) no v
        by (simp add: pg_redis_shared_hash_del_atomic_def hdel_outcome_def Let_def in_async_def)
    next
      case on: True
      obtain res S' where h: "hdel_publish al g spi_ok PG_REDIS_ASYNC_FULL_SYNC_FLUSH others now key f ?S = Some (res, S')" "joint_ok hb S'"
        "shared_view (store_of S') = shared_view (store_of ?S)"
        "case res of Inl err \<Rightarrow> queue_of S' = queue_of ?S
         | Inr _ \<Rightarrow> \<exists>k ev. queue_of S' = drop k (queue_of ?S) @ [ev] \<and> decodes (as_area (sh_async S')) ev (HashFieldDelete key f)"
        using hdel_publish_ok [OF al on P(1) len] by blast
      have "pg_redis_shared_hash_del_atomic hb al g spi_ok PG_REDIS_ASYNC_FULL_SYNC_FLUSH others now key f S =
          Some (map_sum id (\<lambda>_. (PG_REDIS_FAST_HASH_MUTATE_OK_DELETED, None)) res, S')"
        using se d T(1) y on h(1) by (simp add: pg_redis_shared_hash_del_atomic_def Let_def in_async_def)
      moreover have "hdel_outcome g now key f S (map_sum id (\<lambda>_. (PG_REDIS_FAST_HASH_MUTATE_OK_DELETED, None)) res) S'"
        using h(3,4) v q no False on by (cases res) (simp_all add: hdel_outcome_def)
      ultimately show ?thesis using h(2) by blast
    qed
  qed
qed

lemma hdel_ok:
  assumes al: "dsa_alloc_ok al" and ok: "joint_ok hb S" and len: "length key \<le> PG_REDIS_MAX_KEY_SIZE" "length f \<le> PG_REDIS_MAX_FIELD_SIZE"
  shows "\<exists>res S'. pg_redis_shared_hash_del_atomic hb al g spi_ok PG_REDIS_ASYNC_FULL_SYNC_FLUSH others now key f S = Some (res, S') \<and>
    joint_ok hb S' \<and> hdel_outcome g now key f S res S'"
proof (cases "hash_find (sh_keys S) key")
  case None
  then have "shared_live now (store_of S) key = None" by (simp add: shared_live_find)
  then show ?thesis using None ok by (simp add: pg_redis_shared_hash_del_atomic_def hdel_outcome_def holds_other_def live_hash_def)
next
  case (Some se)
  have sk: "hash_find (ss_keys (store_of S)) key = Some se" using Some by simp
  show ?thesis
  proof (cases "se_expired now se")
    case True
    then have l: "shared_live now (store_of S) key = None" using Some by (simp add: shared_live_find)
    obtain b where b: "pg_redis_shared_entry_release_payloads se (as_area (sh_async S)) = Some (se\<lparr>se_value := empty_value (se_type se)\<rparr>, b)"
      "dsa_frame (as_area (sh_async S)) (se_owned (as_area (sh_async S)) se) b {}"
      using release_ok [OF shared_ok_entry [OF joint_okD(1) [OF ok] sk]] by auto
    have "dsa_frame (as_area (sh_async S)) (entry.owno (as_area (sh_async S)) (hash_find (sh_keys S) key)) b {}" using b(2) Some by simp
    note R = joint_remove [OF ok this]
    have "(shared_live now (store_of S))(key := None) = shared_live now (store_of S)" using l by (simp add: fun_upd_idem)
    then show ?thesis using R l b(1) Some True
      by (simp add: pg_redis_shared_hash_del_atomic_def hdel_outcome_def holds_other_def live_hash_def shared_live_def)
  next
    case False
    have l: "shared_live now (store_of S) key = Some (se_abs (as_area (sh_async S)) se)" using Some False by (simp add: shared_live_find)
    show ?thesis
    proof (cases "\<exists>p c. se_value se = SharedHash p c")
      case True
      then show ?thesis using hdel_hash [OF al ok len Some False] by blast
    next
      case other: False
      then have "holds_other now (store_of S) key" using l by (cases "se_value se") (auto simp: holds_other_def se_abs_def)
      moreover have "pg_redis_shared_hash_del_atomic hb al g spi_ok PG_REDIS_ASYNC_FULL_SYNC_FLUSH others now key f S =
          Some (Inr (PG_REDIS_FAST_HASH_MUTATE_WRONGTYPE, Some (se_type se)), S)"
        using Some False other by (simp add: pg_redis_shared_hash_del_atomic_def split: shared_value.splits)
      ultimately show ?thesis using ok Some by (simp add: hdel_outcome_def)
    qed
  qed
qed

section \<open>Concrete states\<close>

declare hset_loop.simps [code] publish_event_under_lock.simps [code] reserve_loop.simps [code]

definition sample_shared :: "nat \<Rightarrow> shared_state" where
  "sample_shared n = \<lparr>sh_keys = [], sh_async = async_start n db_empty\<rparr>"

definition sample_busy :: shared_state where
  "sample_busy = \<lparr>sh_keys = [], sh_async = (async_start 2 db_empty)
     \<lparr>as_ring := snd (the (pg_redis_dirty_ring_publish 7 sample_event (as_ring (async_start 2 db_empty))))\<rparr>\<rparr>"

lemma no_keys: "shared_ok hb \<lparr>ss_keys = [], ss_area = []\<rparr>" "store_owned \<lparr>ss_keys = [], ss_area = []\<rparr> = {}"
    "shared_live now \<lparr>ss_keys = [], ss_area = []\<rparr> = Map.empty" "shared_view \<lparr>ss_keys = [], ss_area = []\<rparr> = Map.empty"
  by (auto simp: shared_ok_def store_owned_def shared_live_find shared_view_def entry.family_def entry.whole_def)

lemma sample_shared_ok:
  "joint_ok hb (sample_shared 4)" "queue_of (sample_shared n) = []" "slots_of (sample_shared n) = n"
  "store_of (sample_shared n) = \<lparr>ss_keys = [], ss_area = []\<rparr>"
  using ring_ok_init [of 4] no_keys(1)
  by (simp_all add: joint_ok_def sample_shared_def store_of_def async_start_def ring_queue_def spills_apart_def
      pg_redis_dirty_ring_shmem_init_def ring_capacity_def)

lemma sample_busy_ok:
  "joint_ok hb sample_busy" "queue_of sample_busy = [sample_event]" "slots_of sample_busy = 2"
  "store_of sample_busy = \<lparr>ss_keys = [], ss_area = []\<rparr>"
proof -
  let ?R = "pg_redis_dirty_ring_shmem_init 2"
  have ok: "ring_ok 0 ?R" using ring_ok_init [of 2] by simp
  have e: "ring_queue ?R = []" "ev_body sample_event = sample_event" "ring_capacity ?R = 2"
    by (simp_all add: ring_queue_def pg_redis_dirty_ring_shmem_init_def ev_body_def sample_event_def blank_slot_def ring_capacity_def)
  obtain R where R: "pg_redis_dirty_ring_publish 7 sample_event ?R = Some (Inr PG_REDIS_RING_OK, R)" "ring_ok 0 R" "ring_queue R = [sample_event]"
    by (rule publish_cases [OF ok, of 7 sample_event]) (use e in auto)
  have s: "sample_busy = \<lparr>sh_keys = [], sh_async = (async_start 2 db_empty)\<lparr>as_ring := R\<rparr>\<rparr>"
    using R(1) by (simp add: sample_busy_def async_start_def)
  show "queue_of sample_busy = [sample_event]" "slots_of sample_busy = 2" "store_of sample_busy = \<lparr>ss_keys = [], ss_area = []\<rparr>"
    using R e publish_capacity [OF R(1)] by (simp_all add: s store_of_def async_start_def)
  then show "joint_ok hb sample_busy"
    using R(2) no_keys(1) by (simp add: joint_ok_def spills_apart_def event_used_def sample_event_def event_owned_def blank_slot_def s)
qed

lemma free_key: "\<not> holds_other now \<lparr>ss_keys = [], ss_area = []\<rparr> key" "live_hash now \<lparr>ss_keys = [], ss_area = []\<rparr> key = (Map.empty, None)"
  by (simp_all add: holds_other_def live_hash_def no_keys)

lemmas sample_sizes = PG_REDIS_MAX_KEY_SIZE_def PG_REDIS_MAX_FIELD_SIZE_def

section \<open>Properties\<close>

text \<open>
  C9: The atomic \<open>HSET\<close> of the shared keyspace refines the map update. With room for its two events (or
  outside asynchronous mode) it returns and keeps the invariant of the segment. On a key that holds another
  type it answers so and changes nothing; otherwise it answers whether the field is new, sets it, leaves every
  other key alone and appends the parent row and the field, decodable, to the ring. When it raises, the key is
  there with the field set or not.
\<close>

theorem hset_atomic_refines:
  assumes "dsa_alloc_ok al" "joint_ok hb S" "length key \<le> PG_REDIS_MAX_KEY_SIZE" "length f \<le> PG_REDIS_MAX_FIELD_SIZE"
    and "in_async g \<Longrightarrow> length (queue_of S) + 2 \<le> slots_of S"
  shows "\<exists>res S'. pg_redis_shared_hash_set_atomic hb al g spi_ok act others now key f v S = Some (res, S') \<and> joint_ok hb S' \<and>
    hset_outcome g now key f v S res S'"
  unfolding pg_redis_shared_hash_set_atomic_def by (rule hset_with_room [OF assms])

theorem hset_atomic_refines_witness:
  "\<exists>S'. pg_redis_shared_hash_set_atomic (\<lambda>_. 5) (bump_alloc 3) async_guc True PG_REDIS_ASYNC_FULL_BLOCK (\<lambda>_ S. S) 7 [1] [2] [3] (sample_shared 4) =
       Some (Inr (PG_REDIS_FAST_HASH_MUTATE_OK_NEW, None), S') \<and>
     shared_view (store_of S') = [[1] \<mapsto> (RHash [[2] \<mapsto> [3]], None)] \<and> length (queue_of S') = 2"
proof -
  have r: "fst (the (pg_redis_shared_hash_set_atomic (\<lambda>_. 5) (bump_alloc 3) async_guc True PG_REDIS_ASYNC_FULL_BLOCK (\<lambda>_ S. S) 7 [1] [2] [3]
      (sample_shared 4))) = Inr (PG_REDIS_FAST_HASH_MUTATE_OK_NEW, None)" by code_simp
  have on: "in_async async_guc" by code_simp
  from hset_atomic_refines [of "bump_alloc 3" "\<lambda>_. 5" "sample_shared 4" "[1]" "[2]" async_guc True PG_REDIS_ASYNC_FULL_BLOCK "\<lambda>_ S. S" 7 "[3]"]
  obtain res S' where
    l: "pg_redis_shared_hash_set_atomic (\<lambda>_. 5) (bump_alloc 3) async_guc True PG_REDIS_ASYNC_FULL_BLOCK (\<lambda>_ S. S) 7 [1] [2] [3] (sample_shared 4) =
      Some (res, S')" "hset_outcome async_guc 7 [1] [2] [3] (sample_shared 4) res S'"
    using bump_alloc_ok sample_shared_ok by (auto simp: sample_sizes)
  with r have "res = Inr (PG_REDIS_FAST_HASH_MUTATE_OK_NEW, None)" by simp
  then show ?thesis using l on by (auto simp: hset_outcome_def sample_shared_ok free_key set_view_def no_keys hset_events_def)
qed

text \<open>
  C13: In \<open>sync_flush\<close> mode a full ring does not stop \<open>HSET\<close>: with a ring of at least two slots it returns
  after one drain and keeps the invariant, and when it succeeds the field is set. But the attempt that found
  the ring full has already set the field, so that the answer is that it was overwritten, also for a new field.
\<close>

theorem hset_full_ring_returns:
  assumes "dsa_alloc_ok al" "joint_ok hb S" "length key \<le> PG_REDIS_MAX_KEY_SIZE" "length f \<le> PG_REDIS_MAX_FIELD_SIZE"
    and "in_async g" "slots_of S \<le> length (queue_of S) + 1" "2 \<le> slots_of S" "\<not> holds_other now (store_of S) key"
  shows "\<exists>res S'. pg_redis_shared_hash_set_atomic hb al g spi_ok PG_REDIS_ASYNC_FULL_SYNC_FLUSH others now key f v S = Some (res, S') \<and>
    joint_ok hb S' \<and>
    (case res of Inl err \<Rightarrow> hset_left now key f v S S'
     | Inr answer \<Rightarrow> answer = (PG_REDIS_FAST_HASH_MUTATE_OK_OVERWRITE, None) \<and> shared_view (store_of S') = set_view now key f v S)"
proof -
  have "(PG_REDIS_FAST_HASH_MUTATE_OK_OVERWRITE, None) = hset_answer False" by (simp add: hset_answer_def)
  then show ?thesis using hset_full_ring [OF assms] unfolding pg_redis_shared_hash_set_atomic_def by metis
qed

theorem hset_full_ring_returns_witness:
  "shared_view (store_of sample_busy) [1] = None \<and>
   (\<exists>S'. pg_redis_shared_hash_set_atomic (\<lambda>_. 5) (bump_alloc 9) async_guc True PG_REDIS_ASYNC_FULL_SYNC_FLUSH (\<lambda>_ S. S) 7 [1] [2] [3] sample_busy =
       Some (Inr (PG_REDIS_FAST_HASH_MUTATE_OK_OVERWRITE, None), S') \<and>
     shared_view (store_of S') = [[1] \<mapsto> (RHash [[2] \<mapsto> [3]], None)])"
proof -
  have r: "\<not> isl (fst (the (pg_redis_shared_hash_set_atomic (\<lambda>_. 5) (bump_alloc 9) async_guc True PG_REDIS_ASYNC_FULL_SYNC_FLUSH (\<lambda>_ S. S) 7
      [1] [2] [3] sample_busy)))" by code_simp
  have on: "in_async async_guc" by code_simp
  from hset_full_ring_returns [of "bump_alloc 9" "\<lambda>_. 5" sample_busy "[1]" "[2]" async_guc 7 True "\<lambda>_ S. S" "[3]"]
  obtain res S' where
    l: "pg_redis_shared_hash_set_atomic (\<lambda>_. 5) (bump_alloc 9) async_guc True PG_REDIS_ASYNC_FULL_SYNC_FLUSH (\<lambda>_ S. S) 7 [1] [2] [3] sample_busy =
      Some (res, S')" "case res of Inl err \<Rightarrow> hset_left 7 [1] [2] [3] sample_busy S'
     | Inr answer \<Rightarrow> answer = (PG_REDIS_FAST_HASH_MUTATE_OK_OVERWRITE, None) \<and> shared_view (store_of S') = set_view 7 [1] [2] [3] sample_busy"
    using bump_alloc_ok sample_busy_ok on free_key by (auto simp: sample_sizes)
  with r obtain x where "res = Inr x" by (cases res) simp_all
  then show ?thesis using l by (auto simp: sample_busy_ok free_key set_view_def no_keys)
qed



text \<open>
  C10: The atomic \<open>HDEL\<close> refines the removal from the map, in \<open>sync_flush\<close> mode also when the ring is full. It
  returns and keeps the invariant; on another type it answers so and changes nothing; where the field is not
  there nothing visible changes and nothing is published; otherwise the field is gone and the event that says
  so, decodable, is the last of the ring. When it raises, the field is gone and the pending events are as before.
\<close>

theorem hdel_atomic_refines:
  assumes "dsa_alloc_ok al" "joint_ok hb S" "length key \<le> PG_REDIS_MAX_KEY_SIZE" "length f \<le> PG_REDIS_MAX_FIELD_SIZE"
  shows "\<exists>res S'. pg_redis_shared_hash_del_atomic hb al g spi_ok PG_REDIS_ASYNC_FULL_SYNC_FLUSH others now key f S = Some (res, S') \<and>
    joint_ok hb S' \<and> hdel_outcome g now key f S res S'"
  by (rule hdel_ok [OF assms])

theorem hdel_atomic_refines_witness:
  "\<exists>S S' ev. pg_redis_shared_hash_set_atomic (\<lambda>_. 5) (bump_alloc 9) async_guc True PG_REDIS_ASYNC_FULL_BLOCK (\<lambda>_ S. S) 7 [1] [2] [3]
       (sample_shared 4) = Some (Inr (PG_REDIS_FAST_HASH_MUTATE_OK_NEW, None), S) \<and>
     pg_redis_shared_hash_del_atomic (\<lambda>_. 5) (bump_alloc 9) async_guc True PG_REDIS_ASYNC_FULL_SYNC_FLUSH (\<lambda>_ S. S) 7 [1] [2] S =
       Some (Inr (PG_REDIS_FAST_HASH_MUTATE_OK_DELETED, None), S') \<and>
     shared_view (store_of S') = [[1] \<mapsto> (RHash Map.empty, None)] \<and>
     last (queue_of S') = ev \<and> decodes (as_area (sh_async S')) ev (HashFieldDelete [1] [2])"
proof -
  let ?al = "bump_alloc 9"
  have on: "in_async async_guc" by code_simp
  have len: "length [1::byte] \<le> PG_REDIS_MAX_KEY_SIZE" "length [2::byte] \<le> PG_REDIS_MAX_FIELD_SIZE" by (simp_all add: sample_sizes)
  have r: "fst (the (hset_loop (\<lambda>_. 5) ?al async_guc True PG_REDIS_ASYNC_FULL_BLOCK (\<lambda>_ S. S) 7 [1] [2] [3] 0 (sample_shared 4))) =
      Inr (PG_REDIS_FAST_HASH_MUTATE_OK_NEW, None)" by code_simp
  from hset_with_room [OF bump_alloc_ok [of 9] sample_shared_ok(1) len, of async_guc "\<lambda>_. 5" True PG_REDIS_ASYNC_FULL_BLOCK "\<lambda>_ S. S" 7 "[3]" 0]
  obtain res S where s: "hset_loop (\<lambda>_. 5) ?al async_guc True PG_REDIS_ASYNC_FULL_BLOCK (\<lambda>_ S. S) 7 [1] [2] [3] 0 (sample_shared 4) = Some (res, S)"
    "joint_ok (\<lambda>_. 5) S" "hset_outcome async_guc 7 [1] [2] [3] (sample_shared 4) res S" by (auto simp: sample_shared_ok)
  with r have res: "res = Inr (PG_REDIS_FAST_HASH_MUTATE_OK_NEW, None)" by simp
  have v: "shared_view (store_of S) = [[1] \<mapsto> (RHash [[2] \<mapsto> [3]], None)]"
    using s(3) res by (auto simp: hset_outcome_def sample_shared_ok free_key set_view_def no_keys)
  have m: "live_hash 7 (store_of S) [1] = ([[2] \<mapsto> [3]], None)" "\<not> holds_other 7 (store_of S) [1]"
    by (simp_all add: live_hash_def holds_other_def shared_live_def v drop_expired_def expired_at_def)
  from hdel_atomic_refines [OF bump_alloc_ok [of 9] s(2) len, of async_guc True "\<lambda>_ S. S" 7]
  obtain res' S' where d: "pg_redis_shared_hash_del_atomic (\<lambda>_. 5) ?al async_guc True PG_REDIS_ASYNC_FULL_SYNC_FLUSH (\<lambda>_ S. S) 7 [1] [2] S = Some (res', S')"
    "hdel_outcome async_guc 7 [1] [2] S res' S'" by blast
  have "\<not> isl (fst (the (pg_redis_shared_hash_del_atomic (\<lambda>_. 5) ?al async_guc True PG_REDIS_ASYNC_FULL_SYNC_FLUSH (\<lambda>_ S. S) 7 [1] [2]
      (snd (the (hset_loop (\<lambda>_. 5) ?al async_guc True PG_REDIS_ASYNC_FULL_BLOCK (\<lambda>_ S. S) 7 [1] [2] [3] 0 (sample_shared 4)))))))" by code_simp
  then obtain x where "res' = Inr x" using s(1) d(1) by (cases res') simp_all
  then show ?thesis using s(1) res d v m on by (auto simp: pg_redis_shared_hash_set_atomic_def hdel_outcome_def del_view_def)
qed

text \<open>
  A value that is too long for the table does not only raise: a key that was not there is afterwards, as
  an empty hash.
\<close>

lemma failed_hset_creates_key:
  assumes "hash_find (sh_keys S) key = None" "int (length v) > UINT16_MAX"
  shows "\<exists>S'. pg_redis_shared_hash_set_atomic hb al g spi_ok act others now key f v S = Some (Inl (HashValueTooLong (length v)), S') \<and>
    shared_live now (store_of S) key = None \<and> shared_live now (store_of S') key = Some (RHash Map.empty, None)"
proof -
  let ?S = "put_entry key fresh_hash_entry (as_area (sh_async S)) S"
  have "hset_attempt hb al g now key f v S = Some (Inl (HashValueTooLong (length v)), ?S)"
    using assms by (simp add: hset_attempt_def hset_entry_def hset_apply_def fresh_hash_entry_def pg_redis_shared_hash_set_def)
  from hset_loop_error [OF this] show ?thesis
    using assms by (simp add: pg_redis_shared_hash_set_atomic_def shared_live_find se_expired_def fresh_hash_entry_def se_abs_def)
qed

end
