(* ===== verification/Shared_Commands.thy ===== *)
theory Shared_Commands
  imports Shared_Retry Refinement
begin

text \<open>
  The commands of \<open>src/pg_redis.c\<close> with shared storage, and the shared branches of \<open>src/kv_store.c\<close> and
  \<open>src/ttl.c\<close> they go through. A command works on a scratch copy of the entry; \<open>shared_mark_dirty\<close> writes the
  copy back and, in asynchronous mode, publishes its changes. The hash commands go to the table directly.
  The backend has loaded the tables (\<open>persistence_loaded\<close>), so that \<open>ensure_loaded\<close> does nothing. Each step
  between two acquisitions of the partition lock is atomic; while a publisher outside the lock sleeps on a
  full ring, other processes are taken to publish and drain (\<open>sx_drain\<close>), not to change the keyspace.
\<close>

section \<open>Environment and control flow\<close>

record shared_env =
  sx_hash :: hash_fn
  sx_alloc :: allocator
  sx_full :: async_full_action
  sx_others :: "nat \<Rightarrow> shared_state \<Rightarrow> shared_state"
  sx_drain :: "nat \<Rightarrow> async_state \<Rightarrow> async_state"
  sx_spi_ok :: bool
  sx_now :: int
  sx_now2 :: int

type_synonym 'a shared_run = "('a result \<times> shared_state) option"

definition bind_sh :: "'a shared_run \<Rightarrow> ('a \<Rightarrow> shared_state \<Rightarrow> 'b shared_run) \<Rightarrow> 'b shared_run" where
  "bind_sh p f = (case p of None \<Rightarrow> None | Some (Inl err, S) \<Rightarrow> Some (Inl err, S) | Some (Inr x, S) \<Rightarrow> f x S)"

definition set_store :: "shared_store \<Rightarrow> shared_state \<Rightarrow> shared_state" where
  "set_store T S = \<lparr>sh_keys = ss_keys T, sh_async = (sh_async S)\<lparr>as_area := ss_area T\<rparr>\<rparr>"

section \<open>Dispatch of the keyspace operations\<close>

definition shared_kv_remove :: "bytes \<Rightarrow> shared_state \<Rightarrow> bool shared_run" where
  "shared_kv_remove key S =
     map_option (\<lambda>(removed, T). (Inr removed, set_store T S)) (pg_redis_shared_store_remove key (store_of S))"

definition shared_kv_lookup_raw :: "bytes \<Rightarrow> shared_state \<Rightarrow> PgRedisEntry option shared_run" where
  "shared_kv_lookup_raw key S = map_option (\<lambda>r. (r, S)) (pg_redis_shared_store_lookup_raw key (store_of S))"

definition shared_kv_lookup :: "shared_env \<Rightarrow> bytes \<Rightarrow> shared_state \<Rightarrow> PgRedisEntry option shared_run" where
  "shared_kv_lookup x key S =
     bind_sh (shared_kv_lookup_raw key S) (\<lambda>r S.
       case r of
         None \<Rightarrow> Some (Inr None, S)
       | Some e \<Rightarrow>
           if pg_redis_entry_is_expired (sx_now x) e
           then bind_sh (shared_kv_remove key S) (\<lambda>_ S. Some (Inr None, S))
           else Some (Inr (Some e), S))"

definition shared_kv_upsert :: "shared_env \<Rightarrow> bytes \<Rightarrow> shared_state \<Rightarrow> (bool \<times> PgRedisEntry) shared_run" where
  "shared_kv_upsert x key S =
     map_option (\<lambda>(r, T). (r, set_store T S)) (pg_redis_shared_store_upsert (sx_now x) key (store_of S))"

definition shared_writeback :: "shared_env \<Rightarrow> bytes \<Rightarrow> PgRedisEntry \<Rightarrow> shared_state \<Rightarrow> unit shared_run" where
  "shared_writeback x key e S =
     map_option (\<lambda>(r, T). (r, set_store T S)) (pg_redis_shared_store_writeback (sx_hash x) (sx_alloc x) key e (store_of S))"

section \<open>Publication of the changes of a scratch copy\<close>

definition publish_change :: "guc \<Rightarrow> shared_env \<Rightarrow> change \<Rightarrow> shared_state \<Rightarrow> unit shared_run" where
  "publish_change g x c S =
     (case encode_change (sx_alloc x) c blank_slot (as_area (sh_async S)) of
        (Inl err, a) \<Rightarrow> Some (Inl err, S\<lparr>sh_async := (sh_async S)\<lparr>as_area := a\<rparr>\<rparr>)
      | (Inr ev, a) \<Rightarrow>
          map_option (\<lambda>(r, A). (r, S\<lparr>sh_async := A\<rparr>))
            (pg_redis_dirty_ring_publish_blocking g (sx_spi_ok x) (sx_full x) (sx_drain x) (sx_now x) ev
               ((sh_async S)\<lparr>as_area := a\<rparr>)))"

fun publish_changes :: "guc \<Rightarrow> shared_env \<Rightarrow> change list \<Rightarrow> shared_state \<Rightarrow> unit shared_run" where
  "publish_changes g x [] S = Some (Inr (), S)"
| "publish_changes g x (c # cs) S = bind_sh (publish_change g x c S) (\<lambda>_ S. publish_changes g x cs S)"

definition publish_async_key_upsert :: "guc \<Rightarrow> shared_env \<Rightarrow> bytes \<Rightarrow> PgRedisEntry \<Rightarrow> shared_state \<Rightarrow> unit shared_run" where
  "publish_async_key_upsert g x key e S =
     (if e_type e = PG_REDIS_TYPE_STRING \<or> e_type e = PG_REDIS_TYPE_INT
      then case pg_redis_encode_value (e_value e) of
             None \<Rightarrow> Some (Inr (), S)
           | Some tlv \<Rightarrow> publish_change g x (KeyUpsert key e (va_data tlv)) S
      else publish_change g x (KeyUpsert key e []) S)"

definition publish_async_hash_deltas :: "guc \<Rightarrow> shared_env \<Rightarrow> bytes \<Rightarrow> PgRedisHash \<Rightarrow> shared_state \<Rightarrow> unit shared_run" where
  "publish_async_hash_deltas g x key h S =
     publish_changes g x (map (\<lambda>(f, v). HashFieldUpsert key f v) (hash_dirty_items h) @
                          map (HashFieldDelete key) (h_tombstones h)) S"

definition publish_async_list_deltas :: "guc \<Rightarrow> shared_env \<Rightarrow> bytes \<Rightarrow> PgRedisList \<Rightarrow> shared_state \<Rightarrow> unit shared_run" where
  "publish_async_list_deltas g x key l S =
     publish_changes g x (map (\<lambda>n. ListItemInsert key (ln_ord n) (ln_value n)) (filter ln_pending_insert (l_nodes l)) @
                          map (ListItemDelete key) (l_pending_delete_ords l)) S"

definition shared_mark_dirty :: "guc \<Rightarrow> shared_env \<Rightarrow> bytes \<Rightarrow> PgRedisEntry \<Rightarrow> shared_state \<Rightarrow> unit shared_run" where
  "shared_mark_dirty g x key e S =
     bind_sh (shared_writeback x key e S) (\<lambda>_ S.
       if pg_redis_effective_persistence_mode g = PG_REDIS_PERSIST_ASYNC_TABLE
       then bind_sh (publish_async_key_upsert g x key e S) (\<lambda>_ S.
              case e_value e of
                HashValue (Some h) \<Rightarrow> publish_async_hash_deltas g x key h S
              | ListValue (Some l) \<Rightarrow> publish_async_list_deltas g x key l S
              | _ \<Rightarrow> Some (Inr (), S))
       else Some (Inr (), S))"

section \<open>Strings and generic commands\<close>

definition shared_set :: "guc \<Rightarrow> shared_env \<Rightarrow> bytes \<Rightarrow> bytes \<Rightarrow> shared_state \<Rightarrow> bool shared_run" where
  "shared_set g x key_t val_t S =
     bind_sh (Some (key_arg g key_t, S)) (\<lambda>key S.
     bind_sh (Some (argtext_to_pstring g val_t False, S)) (\<lambda>val S.
     bind_sh (shared_kv_upsert x key S) (\<lambda>(is_new, e) S.
       let e = (if \<not> is_new \<and> e_type e \<noteq> PG_REDIS_TYPE_STRING then pg_redis_entry_release_value False e else e);
           e = e\<lparr>e_value := StringValue (Some val), e_version := e_version e + 1, e_dirty := True, e_deleted := False\<rparr>
       in bind_sh (shared_mark_dirty g x key e S) (\<lambda>_ S. Some (Inr True, S)))))"

definition shared_get :: "guc \<Rightarrow> shared_env \<Rightarrow> bytes \<Rightarrow> shared_state \<Rightarrow> bytes option shared_run" where
  "shared_get g x key_t S =
     bind_sh (Some (key_arg g key_t, S)) (\<lambda>key S.
     bind_sh (shared_kv_lookup x key S) (\<lambda>r S.
       case r of
         None \<Rightarrow> Some (Inr None, S)
       | Some e \<Rightarrow>
           (case e_value e of
              StringValue s \<Rightarrow> Some (Inr s, S)
            | IntValue i \<Rightarrow> Some (map_sum id Some (pg_redis_format_int64 i), S)
            | HashValue _ \<Rightarrow> Some (Inl (WrongType key PG_REDIS_TYPE_HASH PG_REDIS_TYPE_STRING), S)
            | ListValue _ \<Rightarrow> Some (Inl (WrongType key PG_REDIS_TYPE_LIST PG_REDIS_TYPE_STRING), S))))"

definition shared_del :: "guc \<Rightarrow> shared_env \<Rightarrow> bytes \<Rightarrow> shared_state \<Rightarrow> bool shared_run" where
  "shared_del g x key_t S = bind_sh (Some (key_arg g key_t, S)) (\<lambda>key S. shared_kv_remove key S)"

definition shared_exists :: "guc \<Rightarrow> shared_env \<Rightarrow> bytes \<Rightarrow> shared_state \<Rightarrow> bool shared_run" where
  "shared_exists g x key_t S =
     bind_sh (Some (key_arg g key_t, S)) (\<lambda>key S.
     bind_sh (shared_kv_lookup x key S) (\<lambda>r S. Some (Inr (r \<noteq> None), S)))"

text \<open>The expiry is set in a scratch copy that nobody writes back.\<close>

definition shared_set_expire_seconds :: "shared_env \<Rightarrow> bytes \<Rightarrow> int \<Rightarrow> shared_state \<Rightarrow> bool shared_run" where
  "shared_set_expire_seconds x key seconds S =
     bind_sh (shared_kv_lookup x key S) (\<lambda>r S.
       case r of
         None \<Rightarrow> Some (Inr False, S)
       | Some e \<Rightarrow>
           if seconds \<le> 0 then bind_sh (shared_kv_remove key S) (\<lambda>_ S. Some (Inr True, S))
           else Some (Inr True, S))"

definition shared_expire :: "guc \<Rightarrow> shared_env \<Rightarrow> bytes \<Rightarrow> int \<Rightarrow> shared_state \<Rightarrow> bool shared_run" where
  "shared_expire g x key_t seconds S =
     bind_sh (Some (key_arg g key_t, S)) (\<lambda>key S.
     bind_sh (shared_set_expire_seconds x key seconds S) (\<lambda>ok S.
       if ok \<and> seconds > 0
       then bind_sh (shared_kv_lookup_raw key S) (\<lambda>r S.
              case r of
                None \<Rightarrow> Some (Inr ok, S)
              | Some e \<Rightarrow> bind_sh (shared_mark_dirty g x key e S) (\<lambda>_ S. Some (Inr ok, S)))
       else Some (Inr ok, S)))"

definition shared_ttl :: "guc \<Rightarrow> shared_env \<Rightarrow> bytes \<Rightarrow> shared_state \<Rightarrow> int shared_run" where
  "shared_ttl g x key_t S =
     bind_sh (Some (key_arg g key_t, S)) (\<lambda>key S.
     bind_sh (shared_kv_lookup x key S) (\<lambda>r S.
       case r of
         None \<Rightarrow> Some (Inr (-2), S)
       | Some e \<Rightarrow>
           if \<not> e_has_expire e then Some (Inr (-1), S)
           else if sx_now2 x \<ge> e_expire_at e then bind_sh (shared_kv_remove key S) (\<lambda>_ S. Some (Inr (-2), S))
           else let diff_us = wrap64 (e_expire_at e - sx_now2 x)
                in Some (Inr (wrap32 (wrap64 (diff_us + 999999) div 1000000)), S)))"

definition incr_base :: "bytes \<Rightarrow> bool \<Rightarrow> PgRedisEntry \<Rightarrow> int result" where
  "incr_base key is_new e =
     (if is_new then Inr 0
      else case e_value e of
        StringValue None \<Rightarrow> Inl (NotAnInteger key)
      | StringValue (Some str) \<Rightarrow>
          (case pg_redis_parse_int64 str of None \<Rightarrow> Inl (NotAnInteger key) | Some parsed \<Rightarrow> Inr parsed)
      | IntValue i \<Rightarrow> Inr i
      | _ \<Rightarrow> Inl (WrongType key (e_type e) PG_REDIS_TYPE_INT))"

definition shared_incrdecr :: "guc \<Rightarrow> shared_env \<Rightarrow> bytes \<Rightarrow> int \<Rightarrow> shared_state \<Rightarrow> int shared_run" where
  "shared_incrdecr g x key_t delta S =
     bind_sh (Some (key_arg g key_t, S)) (\<lambda>key S.
     bind_sh (shared_kv_upsert x key S) (\<lambda>(is_new, e) S.
     bind_sh (Some (incr_base key is_new e, S)) (\<lambda>i S.
       let newval = wrap64 (i + delta)
       in bind_sh (shared_mark_dirty g x key (e\<lparr>e_value := IntValue newval, e_version := e_version e + 1\<rparr>) S)
            (\<lambda>_ S. Some (Inr newval, S)))))"

section \<open>Hashes\<close>

text \<open>The path through a scratch copy, for what the direct paths below leave to it.\<close>

definition shared_with_hash ::
    "shared_env \<Rightarrow> bytes \<Rightarrow> 'r \<Rightarrow> (PgRedisEntry \<Rightarrow> PgRedisHash \<Rightarrow> shared_state \<Rightarrow> 'r shared_run) \<Rightarrow> shared_state \<Rightarrow> 'r shared_run" where
  "shared_with_hash x key missing f S =
     bind_sh (shared_kv_lookup x key S) (\<lambda>r S.
       case r of
         None \<Rightarrow> Some (Inr missing, S)
       | Some e \<Rightarrow>
           if e_type e \<noteq> PG_REDIS_TYPE_HASH then Some (Inl (WrongType key (e_type e) PG_REDIS_TYPE_HASH), S)
           else f e (hash_of (e_value e)) S)"

definition shared_hset_slow :: "guc \<Rightarrow> shared_env \<Rightarrow> bytes \<Rightarrow> bytes \<Rightarrow> bytes \<Rightarrow> shared_state \<Rightarrow> bool shared_run" where
  "shared_hset_slow g x key field val S =
     bind_sh (shared_kv_upsert x key S) (\<lambda>(is_new, e) S.
       if \<not> is_new \<and> e_type e \<noteq> PG_REDIS_TYPE_HASH then Some (Inl (WrongType key (e_type e) PG_REDIS_TYPE_HASH), S)
       else bind_sh (Some (pg_redis_hash_set (if is_new then pg_redis_hash_create else hash_of (e_value e)) field val, S))
              (\<lambda>(new_field, h) S.
                 bind_sh (shared_mark_dirty g x key (e\<lparr>e_value := HashValue (Some h), e_version := e_version e + 1\<rparr>) S)
                   (\<lambda>_ S. Some (Inr new_field, S))))"

definition shared_hset :: "guc \<Rightarrow> shared_env \<Rightarrow> bytes \<Rightarrow> bytes \<Rightarrow> bytes \<Rightarrow> shared_state \<Rightarrow> bool shared_run" where
  "shared_hset g x key_t field_t val_t S =
     bind_sh (Some (key_arg g key_t, S)) (\<lambda>key S.
     bind_sh (Some (field_arg g field_t, S)) (\<lambda>field S.
     bind_sh (Some (argtext_to_pstring g val_t False, S)) (\<lambda>val S.
     bind_sh (pg_redis_shared_hash_set_atomic (sx_hash x) (sx_alloc x) g (sx_spi_ok x) (sx_full x) (sx_others x) (sx_now x)
                key field val S) (\<lambda>(outcome, actual) S.
       case outcome of
         PG_REDIS_FAST_HASH_MUTATE_OK_NEW \<Rightarrow> Some (Inr True, S)
       | PG_REDIS_FAST_HASH_MUTATE_OK_OVERWRITE \<Rightarrow> Some (Inr False, S)
       | PG_REDIS_FAST_HASH_MUTATE_WRONGTYPE \<Rightarrow> Some (Inl (WrongType key (the actual) PG_REDIS_TYPE_HASH), S)
       | _ \<Rightarrow> shared_hset_slow g x key field val S))))"

definition shared_hget :: "guc \<Rightarrow> shared_env \<Rightarrow> bytes \<Rightarrow> bytes \<Rightarrow> shared_state \<Rightarrow> bytes option shared_run" where
  "shared_hget g x key_t field_t S =
     bind_sh (Some (key_arg g key_t, S)) (\<lambda>key S.
     bind_sh (Some (field_arg g field_t, S)) (\<lambda>field S.
     bind_sh (Some (pg_redis_shared_hash_lookup_field (sx_hash x) (sx_now x) key field True (store_of S), S))
       (\<lambda>(outcome, v, actual) S.
       case outcome of
         PG_REDIS_FAST_HASH_HIT \<Rightarrow> Some (Inr v, S)
       | PG_REDIS_FAST_HASH_FIELD_MISS \<Rightarrow> Some (Inr None, S)
       | PG_REDIS_FAST_HASH_KEY_MISS \<Rightarrow> Some (Inr None, S)
       | PG_REDIS_FAST_HASH_WRONGTYPE \<Rightarrow> Some (Inl (WrongType key (the actual) PG_REDIS_TYPE_HASH), S)
       | PG_REDIS_FAST_HASH_KEY_EXPIRED \<Rightarrow>
           shared_with_hash x key None (\<lambda>e h S. Some (Inr (pg_redis_hash_get h field), S)) S)))"

definition shared_hdel :: "guc \<Rightarrow> shared_env \<Rightarrow> bytes \<Rightarrow> bytes \<Rightarrow> shared_state \<Rightarrow> bool shared_run" where
  "shared_hdel g x key_t field_t S =
     bind_sh (Some (key_arg g key_t, S)) (\<lambda>key S.
     bind_sh (Some (field_arg g field_t, S)) (\<lambda>field S.
     bind_sh (pg_redis_shared_hash_del_atomic (sx_hash x) (sx_alloc x) g (sx_spi_ok x) (sx_full x) (sx_others x) (sx_now x)
                key field S) (\<lambda>(outcome, actual) S.
       case outcome of
         PG_REDIS_FAST_HASH_MUTATE_OK_DELETED \<Rightarrow> Some (Inr True, S)
       | PG_REDIS_FAST_HASH_MUTATE_NOOP \<Rightarrow> Some (Inr False, S)
       | PG_REDIS_FAST_HASH_MUTATE_WRONGTYPE \<Rightarrow> Some (Inl (WrongType key (the actual) PG_REDIS_TYPE_HASH), S)
       | _ \<Rightarrow> shared_with_hash x key False (\<lambda>e h S.
                case pg_redis_hash_del h field of (removed, h') \<Rightarrow>
                  if removed
                  then bind_sh (shared_mark_dirty g x key (e\<lparr>e_value := HashValue (Some h'), e_version := e_version e + 1\<rparr>) S)
                         (\<lambda>_ S. Some (Inr removed, S))
                  else Some (Inr removed, S)) S)))"

definition shared_hexists :: "guc \<Rightarrow> shared_env \<Rightarrow> bytes \<Rightarrow> bytes \<Rightarrow> shared_state \<Rightarrow> bool shared_run" where
  "shared_hexists g x key_t field_t S =
     bind_sh (Some (key_arg g key_t, S)) (\<lambda>key S.
     bind_sh (Some (field_arg g field_t, S)) (\<lambda>field S.
     bind_sh (Some (pg_redis_shared_hash_lookup_field (sx_hash x) (sx_now x) key field False (store_of S), S))
       (\<lambda>(outcome, v, actual) S.
       case outcome of
         PG_REDIS_FAST_HASH_HIT \<Rightarrow> Some (Inr True, S)
       | PG_REDIS_FAST_HASH_FIELD_MISS \<Rightarrow> Some (Inr False, S)
       | PG_REDIS_FAST_HASH_KEY_MISS \<Rightarrow> Some (Inr False, S)
       | PG_REDIS_FAST_HASH_WRONGTYPE \<Rightarrow> Some (Inl (WrongType key (the actual) PG_REDIS_TYPE_HASH), S)
       | PG_REDIS_FAST_HASH_KEY_EXPIRED \<Rightarrow>
           shared_with_hash x key False (\<lambda>e h S. Some (Inr (pg_redis_hash_exists h field), S)) S)))"

section \<open>Lists\<close>

definition shared_list_push :: "guc \<Rightarrow> shared_env \<Rightarrow> bytes \<Rightarrow> bytes \<Rightarrow> bool \<Rightarrow> shared_state \<Rightarrow> int shared_run" where
  "shared_list_push g x key_t val_t left S =
     bind_sh (Some (key_arg g key_t, S)) (\<lambda>key S.
     bind_sh (Some (argtext_to_pstring g val_t False, S)) (\<lambda>val S.
     bind_sh (shared_kv_upsert x key S) (\<lambda>(is_new, e) S.
       if \<not> is_new \<and> e_type e \<noteq> PG_REDIS_TYPE_LIST then Some (Inl (WrongType key (e_type e) PG_REDIS_TYPE_LIST), S)
       else
         let l = (case e_value e of ListValue (Some l) \<Rightarrow> if is_new then pg_redis_list_create else l | _ \<Rightarrow> pg_redis_list_create)
         in case (if left then pg_redis_list_lpush val l else pg_redis_list_rpush val l) of
              (newlen, l) \<Rightarrow>
                bind_sh (shared_mark_dirty g x key (e\<lparr>e_value := ListValue (Some l), e_version := e_version e + 1\<rparr>) S)
                  (\<lambda>_ S. Some (Inr newlen, S)))))"

definition shared_with_list ::
    "shared_env \<Rightarrow> bytes \<Rightarrow> 'r \<Rightarrow> (PgRedisEntry \<Rightarrow> PgRedisList option \<Rightarrow> shared_state \<Rightarrow> 'r shared_run) \<Rightarrow> shared_state \<Rightarrow> 'r shared_run" where
  "shared_with_list x key missing f S =
     bind_sh (shared_kv_lookup x key S) (\<lambda>r S.
       case r of
         None \<Rightarrow> Some (Inr missing, S)
       | Some e \<Rightarrow>
           (case e_value e of
              ListValue l \<Rightarrow> f e l S
            | _ \<Rightarrow> Some (Inl (WrongType key (e_type e) PG_REDIS_TYPE_LIST), S)))"

text \<open>A \<open>NULL\<close> list pops nothing.\<close>

definition shared_list_pop :: "guc \<Rightarrow> shared_env \<Rightarrow> bytes \<Rightarrow> bool \<Rightarrow> shared_state \<Rightarrow> bytes option shared_run" where
  "shared_list_pop g x key_t left S =
     bind_sh (Some (key_arg g key_t, S)) (\<lambda>key S.
       shared_with_list x key None (\<lambda>e l S.
         case l of
           None \<Rightarrow> Some (Inr None, S)
         | Some l \<Rightarrow>
             (case (if left then pg_redis_list_lpop l else pg_redis_list_rpop l) of
                (None, l) \<Rightarrow> Some (Inr None, S)
              | (Some val, l) \<Rightarrow>
                  bind_sh (shared_mark_dirty g x key (e\<lparr>e_value := ListValue (Some l), e_version := e_version e + 1\<rparr>) S)
                    (\<lambda>_ S. Some (Inr (Some val), S)))) S)"

definition shared_llen :: "guc \<Rightarrow> shared_env \<Rightarrow> bytes \<Rightarrow> shared_state \<Rightarrow> int shared_run" where
  "shared_llen g x key_t S =
     bind_sh (Some (key_arg g key_t, S)) (\<lambda>key S.
       shared_with_list x key 0 (\<lambda>e l S. Some (Inr (pg_redis_list_length l), S)) S)"

section \<open>Dispatch\<close>

definition shared_reply :: "('a \<Rightarrow> reply) \<Rightarrow> 'a shared_run \<Rightarrow> reply shared_run" where
  "shared_reply f p = bind_sh p (\<lambda>y S. Some (Inr (f y), S))"

fun shared_exec :: "guc \<Rightarrow> shared_env \<Rightarrow> redis_cmd \<Rightarrow> shared_state \<Rightarrow> reply shared_run" where
  "shared_exec g x (CSet k v) S = shared_reply RBool (shared_set g x k v S)"
| "shared_exec g x (CGet k) S = shared_reply RText (shared_get g x k S)"
| "shared_exec g x (CDel k) S = shared_reply RBool (shared_del g x k S)"
| "shared_exec g x (CExists k) S = shared_reply RBool (shared_exists g x k S)"
| "shared_exec g x (CExpire k s) S = shared_reply RBool (shared_expire g x k s S)"
| "shared_exec g x (CTtl k) S = shared_reply RNum (shared_ttl g x k S)"
| "shared_exec g x (CIncr k) S = shared_reply RNum (shared_incrdecr g x k 1 S)"
| "shared_exec g x (CDecr k) S = shared_reply RNum (shared_incrdecr g x k (-1) S)"
| "shared_exec g x (CHset k f v) S = shared_reply RBool (shared_hset g x k f v S)"
| "shared_exec g x (CHget k f) S = shared_reply RText (shared_hget g x k f S)"
| "shared_exec g x (CHdel k f) S = shared_reply RBool (shared_hdel g x k f S)"
| "shared_exec g x (CHexists k f) S = shared_reply RBool (shared_hexists g x k f S)"
| "shared_exec g x (CLpush k v) S = shared_reply RNum (shared_list_push g x k v True S)"
| "shared_exec g x (CRpush k v) S = shared_reply RNum (shared_list_push g x k v False S)"
| "shared_exec g x (CLpop k) S = shared_reply RText (shared_list_pop g x k True S)"
| "shared_exec g x (CRpop k) S = shared_reply RText (shared_list_pop g x k False S)"
| "shared_exec g x (CLlen k) S = shared_reply RNum (shared_llen g x k S)"

text \<open>\<open>FLUSHALL\<close>: the keyspace under all partition locks, then the pending events, then the tables.\<close>

definition shared_flushall :: "guc \<Rightarrow> shared_env \<Rightarrow> shared_state \<Rightarrow> shared_state option" where
  "shared_flushall g x S =
     map_option (\<lambda>(_, T).
         let S = set_store T S;
             A = sh_async S;
             (n, R, a) = pg_redis_dirty_ring_drop_all_pending (as_ring A, as_area A);
             d = (if persistence_writes_enabled g \<and> sx_spi_ok x then sql_truncate (as_db A) else as_db A)
         in S\<lparr>sh_async := A\<lparr>as_ring := R, as_area := a, as_db := d\<rparr>\<rparr>)
       (pg_redis_shared_store_reset_all (store_of S))"

section \<open>The keyspace operations\<close>

lemma bind_sh_simps [simp]:
  "bind_sh None f = None" "bind_sh (Some (Inl err, S)) f = Some (Inl err, S)" "bind_sh (Some (Inr y, S)) f = f y S"
  by (simp_all add: bind_sh_def)

lemma set_store_simps [simp]:
  "store_of (set_store T S) = T" "as_ring (sh_async (set_store T S)) = as_ring (sh_async S)"
  "as_db (sh_async (set_store T S)) = as_db (sh_async S)" "set_store (store_of S) S = S"
  by (simp_all add: set_store_def store_of_def)

lemma joint_store:
  assumes ok: "joint_ok hb S" and T: "shared_ok hb T"
    and fr: "dsa_frame (ss_area (store_of S)) (store_owned (store_of S)) (ss_area T) (store_owned T)"
  shows "joint_ok hb (set_store T S)"
proof -
  note J = joint_okD [OF ok]
  have "event_used (ss_area T) ev \<and> event_owned ev \<inter> store_owned T = {}" if "ev \<in> set (queue_of S)" for ev
    using event.kept [OF J(3) [OF that] fr [unfolded store_of_simps]] J(4) [OF that] by simp
  then show ?thesis using T J(2,5) by (simp add: joint_ok_def) (simp add: set_store_def)
qed

abbreviation view_of :: "shared_state \<Rightarrow> keyspace" where
  "view_of S \<equiv> shared_view (store_of S)"

abbreviation live_of :: "int \<Rightarrow> shared_state \<Rightarrow> keyspace" where
  "live_of now S \<equiv> shared_live now (store_of S)"

lemma kv_remove_ok:
  assumes "joint_ok hb S"
  obtains S' where "shared_kv_remove key S = Some (Inr (view_of S key \<noteq> None), S')" "joint_ok hb S'"
    "view_of S' = (view_of S)(key := None)" "queue_of S' = queue_of S" "as_db (sh_async S') = as_db (sh_async S)"
proof -
  obtain T where T: "pg_redis_shared_store_remove key (store_of S) = Some (view_of S key \<noteq> None, T)" "shared_ok hb T"
    "shared_view T = (view_of S)(key := None)" "dsa_frame (ss_area (store_of S)) (store_owned (store_of S)) (ss_area T) (store_owned T)"
    using remove_ok [OF joint_okD(1) [OF assms], of key] by blast
  show thesis using T joint_store [OF assms T(2,4)] by (intro that [of "set_store T S"]) (simp_all add: shared_kv_remove_def)
qed

text \<open>What a scratch copy brings along: a well-formed payload, and list elements within 16 bits of length.\<close>

definition scratch_full :: "PgRedisEntry \<Rightarrow> bool" where
  "scratch_full e \<longleftrightarrow> scratch_ok (e_value e) \<and>
     (\<forall>l v. e_value e = ListValue (Some l) \<longrightarrow> v \<in> set (list_vals l) \<longrightarrow> int (length v) \<le> UINT16_MAX)"

lemma materialize_full:
  assumes "se_ok hb a se"
  obtains e where "materialize_scratch a se = Some (Inr e)" "abs_entry e = se_abs a se" "e_type e = se_type se" "scratch_full e"
proof -
  obtain e where e: "materialize_scratch a se = Some (Inr e)" "abs_entry e = se_abs a se" "e_type e = se_type se" "scratch_ok (e_value e)"
    using materialize_ok [OF assms] by blast
  have "int (length v) \<le> UINT16_MAX" if l: "e_value e = ListValue (Some l)" "v \<in> set (list_vals l)" for l v
  proof -
    obtain m where m: "se_value se = SharedList m" using e(3) l(1) by (cases "se_value se") (simp_all add: e_type_def se_type_def)
    have "list_vals l = shared_vals a m" using e(2) l(1) m by (simp add: abs_entry_def se_abs_def)
    then show ?thesis using shared_vals_short [of a m v] assms m l(2) by (simp add: se_ok_def)
  qed
  then show thesis using e by (intro that [of e]) (simp_all add: scratch_full_def)
qed

lemma kv_lookup_raw_ok:
  assumes "joint_ok hb S"
  obtains r where "shared_kv_lookup_raw key S = Some (Inr r, S)" "map_option abs_entry r = view_of S key"
    "\<And>e. r = Some e \<Longrightarrow> scratch_full e"
proof (cases "hash_find (ss_keys (store_of S)) key")
  case None
  then show thesis
    by (intro that [of None]) (simp_all add: shared_kv_lookup_raw_def pg_redis_shared_store_lookup_raw_def shared_view_def)
next
  case (Some se)
  obtain e where "materialize_scratch (ss_area (store_of S)) se = Some (Inr e)" "abs_entry e = se_abs (ss_area (store_of S)) se" "scratch_full e"
    by (rule materialize_full [OF shared_ok_entry [OF joint_okD(1) [OF assms] Some]])
  then show thesis using Some
    by (intro that [of "Some e"]) (simp_all add: shared_kv_lookup_raw_def pg_redis_shared_store_lookup_raw_def shared_view_def)
qed

lemma kv_lookup_ok:
  assumes ok: "joint_ok hb S"
  obtains r S' where "shared_kv_lookup x key S = Some (Inr r, S')" "joint_ok hb S'" "live_of (sx_now x) S' = live_of (sx_now x) S"
    "live_of (sx_now x) S key = map_option abs_entry r" "queue_of S' = queue_of S" "\<And>e. r = Some e \<Longrightarrow> S' = S \<and> scratch_full e"
proof -
  obtain r where r: "shared_kv_lookup_raw key S = Some (Inr r, S)" "map_option abs_entry r = view_of S key"
    "\<And>e. r = Some e \<Longrightarrow> scratch_full e" by (rule kv_lookup_raw_ok [OF ok, of key]) blast
  show thesis
  proof (cases "\<exists>e. r = Some e \<and> pg_redis_entry_is_expired (sx_now x) e")
    case True
    then obtain e where e: "r = Some e" "pg_redis_entry_is_expired (sx_now x) e" by blast
    obtain S' where S': "shared_kv_remove key S = Some (Inr (view_of S key \<noteq> None), S')" "joint_ok hb S'"
      "view_of S' = (view_of S)(key := None)" "queue_of S' = queue_of S" by (rule kv_remove_ok [OF ok])
    have l: "live_of (sx_now x) S key = None" using r(2) e by (simp add: shared_live_def drop_expired_def flip: r(2))
    then have "live_of (sx_now x) S' = live_of (sx_now x) S" by (simp add: shared_live_def S'(3) fun_upd_idem)
    then show thesis using r(1) e S' l by (intro that [of None S']) (simp_all add: shared_kv_lookup_def)
  next
    case False
    then have "live_of (sx_now x) S key = map_option abs_entry r" "shared_kv_lookup x key S = Some (Inr r, S)"
      using r(1) by (auto simp: shared_live_def drop_expired_def shared_kv_lookup_def simp flip: r(2) split: option.splits)
    then show thesis using r(3) ok by (intro that [of r S]) simp_all
  qed
qed

lemma kv_upsert_ok:
  assumes ok: "joint_ok hb S"
  obtains n e S' where "shared_kv_upsert x key S = Some (Inr (n, e), S')" "joint_ok hb S'" "n \<longleftrightarrow> live_of (sx_now x) S key = None"
    "abs_entry e = (if n then (RString [], None) else the (live_of (sx_now x) S key))"
    "view_of S' = (view_of S)(key \<mapsto> abs_entry e)" "queue_of S' = queue_of S" "scratch_full e"
proof -
  note J = joint_okD(1) [OF ok]
  obtain n se a where u: "upsert_entry (sx_now x) key (store_of S) = Some (n, se, a)" "se_ok hb a se"
    "dsa_frame (ss_area (store_of S)) (entry.owno (ss_area (store_of S)) (hash_find (ss_keys (store_of S)) key)) a (se_owned a se)"
    "n \<longleftrightarrow> live_of (sx_now x) S key = None" "se_abs a se = (if n then (RString [], None) else the (view_of S key))"
    using upsert_entry_ok [OF J, of "sx_now x" key] by blast
  obtain e where e: "materialize_scratch a se = Some (Inr e)" "abs_entry e = se_abs a se" "scratch_full e"
    by (rule materialize_full [OF u(2)])
  have l: "the (view_of S key) = the (live_of (sx_now x) S key)" if "\<not> n"
    using that u(4) by (auto simp: shared_live_find shared_view_def split: option.splits if_splits)
  note P = shared_put [OF J u(2,3)]
  let ?T = "\<lparr>ss_keys = hash_enter (ss_keys (store_of S)) key se, ss_area = a\<rparr>"
  have "joint_ok hb (set_store ?T S)" by (rule joint_store [OF ok P(1)]) (use P(3) in simp)
  then show thesis using u(1,4,5) e P(2) l
    by (intro that [of n e "set_store ?T S"]) (simp_all add: shared_kv_upsert_def pg_redis_shared_store_upsert_def)
qed

section \<open>Publication\<close>

text \<open>With nobody to wait for, publishing outside the lock is publishing under it.\<close>

lemma blocking_under_lock:
  assumes "publish_event_under_lock g spi_ok act others now ev spin S = Some y"
  shows "act = PG_REDIS_ASYNC_FULL_SYNC_FLUSH \<longrightarrow>
    (\<forall>spin'. publish_blocking_loop g spi_ok act others' now ev spin' (sh_async S) = Some (fst y, sh_async (snd y))) \<and>
    snd y = S\<lparr>sh_async := sh_async (snd y)\<rparr>"
proof (induction rule: publish_event_under_lock.raw_induct [OF _ assms])
  case (1 loop g spi_ok act others now ev spin S y)
  show ?case
  proof (rule impI)
    assume act: "act = PG_REDIS_ASYNC_FULL_SYNC_FLUSH"
    have IH: "publish_blocking_loop g spi_ok act others' now ev spin' (sh_async T) = Some (fst y, sh_async (snd y))"
      "snd y = T\<lparr>sh_async := sh_async (snd y)\<rparr>" if "loop g spi_ok act others now ev 0 T = Some y" for T spin'
      using 1(1) [OF that] act by blast+
    have IH': "publish_blocking_loop g spi_ok act others' now ev 0 A = Some (fst y, sh_async (snd y))"
      "S\<lparr>sh_async := sh_async (snd y)\<rparr> = snd y" if "loop g spi_ok act others now ev 0 (S\<lparr>sh_async := A\<rparr>) = Some y" for A
      using IH [OF that] by simp_all
    show "(\<forall>spin'. publish_blocking_loop g spi_ok act others' now ev spin' (sh_async S) = Some (fst y, sh_async (snd y))) \<and>
      snd y = S\<lparr>sh_async := sh_async (snd y)\<rparr>"
      using 1(2) act IH'
      by (subst publish_blocking_loop.simps)
        (auto simp: handle_ring_full_after_unlock_def Let_def split: option.splits sum.splits PgRedisRingPublishResult.splits prod.splits)
  qed
qed

lemma publish_change_ok:
  assumes al: "dsa_alloc_ok (sx_alloc x)" and on: "in_async g" and full: "sx_full x = PG_REDIS_ASYNC_FULL_SYNC_FLUSH"
    and ok: "joint_ok hb S" and fits: "change_fits c"
  obtains r S' where "publish_change g x c S = Some (r, S')" "joint_ok hb S'" "view_of S' = view_of S"
proof -
  obtain r S' where p: "publish_encoded (sx_alloc x) g (sx_spi_ok x) PG_REDIS_ASYNC_FULL_SYNC_FLUSH (sx_others x) (sx_now x) c S = Some (r, S')"
    "joint_ok hb S'" "view_of S' = view_of S" using publish_encoded_ok [OF al on ok fits] by metis
  obtain q a where e: "encode_change (sx_alloc x) c blank_slot (as_area (sh_async S)) = (q, a)" by force
  have "publish_change g x c S = Some (r, S')"
  proof (cases q)
    case (Inl err)
    then show ?thesis using p(1) e by (simp add: publish_change_def publish_encoded_def)
  next
    case (Inr ev)
    let ?S = "S\<lparr>sh_async := (sh_async S)\<lparr>as_area := a\<rparr>\<rparr>"
    have u: "publish_event_under_lock g (sx_spi_ok x) PG_REDIS_ASYNC_FULL_SYNC_FLUSH (sx_others x) (sx_now x) ev 0 ?S = Some (r, S')"
      using p(1) e Inr by (simp add: publish_encoded_def)
    have b: "publish_blocking_loop g (sx_spi_ok x) PG_REDIS_ASYNC_FULL_SYNC_FLUSH (sx_drain x) (sx_now x) ev 0 ((sh_async S)\<lparr>as_area := a\<rparr>) =
        Some (r, sh_async S')" "S' = ?S\<lparr>sh_async := sh_async S'\<rparr>"
      using blocking_under_lock [OF u, of "sx_drain x"] by simp_all
    have "S\<lparr>sh_async := sh_async S'\<rparr> = S'" using b(2) by simp
    then show ?thesis using e Inr b(1) full by (simp add: publish_change_def pg_redis_dirty_ring_publish_blocking_def)
  qed
  then show thesis using p(2,3) by (rule that)
qed

lemma publish_changes_ok:
  assumes al: "dsa_alloc_ok (sx_alloc x)" and on: "in_async g" and full: "sx_full x = PG_REDIS_ASYNC_FULL_SYNC_FLUSH"
  shows "joint_ok hb S \<Longrightarrow> \<forall>c \<in> set cs. change_fits c \<Longrightarrow>
    \<exists>r S'. publish_changes g x cs S = Some (r, S') \<and> joint_ok hb S' \<and> view_of S' = view_of S"
proof (induction cs arbitrary: S)
  case (Cons c cs)
  have fc: "change_fits c" using Cons.prems(2) by simp
  obtain r S1 where p: "publish_change g x c S = Some (r, S1)" "joint_ok hb S1" "view_of S1 = view_of S"
    by (rule publish_change_ok [OF al on full Cons.prems(1) fc])
  show ?case
  proof (cases r)
    case (Inr u)
    then show ?thesis using p Cons.IH [OF p(2)] Cons.prems(2) by auto
  qed (use p in simp)
qed simp

section \<open>Writing back\<close>

text \<open>Values whose events keep their lengths: a string with its five byte header, list elements as they are.\<close>

fun value_fits :: "PgRedisValue \<Rightarrow> bool" where
  "value_fits (StringValue (Some s)) \<longleftrightarrow> int (length s) + 5 \<le> UINT16_MAX"
| "value_fits (ListValue (Some l)) \<longleftrightarrow> (\<forall>v \<in> set (list_vals l). int (length v) \<le> UINT16_MAX)"
| "value_fits _ \<longleftrightarrow> True"

definition env_fits :: "guc \<Rightarrow> shared_env \<Rightarrow> bool" where
  "env_fits g x \<longleftrightarrow> dsa_alloc_ok (sx_alloc x) \<and> (in_async g \<longrightarrow> sx_full x = PG_REDIS_ASYNC_FULL_SYNC_FLUSH)"

lemma key_fits: "length key \<le> PG_REDIS_MAX_KEY_SIZE \<Longrightarrow> int (length key) \<le> UINT16_MAX"
  by (simp add: PG_REDIS_MAX_KEY_SIZE_def UINT16_MAX_def)

lemma publish_deltas_ok:
  assumes env: "env_fits g x" and on: "in_async g" and ok: "joint_ok hb S" and key: "length key \<le> PG_REDIS_MAX_KEY_SIZE"
    and fits: "value_fits (e_value e)" and ty: "e_type e \<noteq> PG_REDIS_TYPE_HASH"
  shows "\<exists>r S'. bind_sh (publish_async_key_upsert g x key e S) (\<lambda>_ S.
      case e_value e of
        HashValue (Some h) \<Rightarrow> publish_async_hash_deltas g x key h S
      | ListValue (Some l) \<Rightarrow> publish_async_list_deltas g x key l S
      | _ \<Rightarrow> Some (Inr (), S)) = Some (r, S') \<and> joint_ok hb S' \<and> view_of S' = view_of S"
proof -
  have E: "dsa_alloc_ok (sx_alloc x)" "sx_full x = PG_REDIS_ASYNC_FULL_SYNC_FLUSH" using env on by (simp_all add: env_fits_def)
  have up: "change_fits (KeyUpsert key e tlv)" if "int (length tlv) \<le> UINT16_MAX" for tlv
    using that key_fits [OF key] by (simp add: change_fits_def UINT16_MAX_def)
  obtain r S1 where p: "publish_async_key_upsert g x key e S = Some (r, S1)" "joint_ok hb S1" "view_of S1 = view_of S"
  proof (cases "e_value e")
    case (StringValue s)
    let ?tlv = "PG_REDIS_TLV_STRING # put_u32_le (word_of_nat (length (case s of None \<Rightarrow> [] | Some b \<Rightarrow> b))) @ (case s of None \<Rightarrow> [] | Some b \<Rightarrow> b)"
    have "int (length ?tlv) \<le> UINT16_MAX" using fits StringValue by (cases s) (simp_all add: UINT16_MAX_def)
    then have "change_fits (KeyUpsert key e ?tlv)" by (rule up)
    from publish_change_ok [OF E(1) on E(2) ok this] obtain r S1 where
      p: "publish_change g x (KeyUpsert key e ?tlv) S = Some (r, S1)" "joint_ok hb S1" "view_of S1 = view_of S" by blast
    show thesis using p StringValue by (intro that [of r S1]) (simp_all add: publish_async_key_upsert_def e_type_def Let_def)
  next
    case (IntValue i)
    have "change_fits (KeyUpsert key e (PG_REDIS_TLV_INT # put_u32_le 8 @ put_i64_le i))" by (rule up) (simp add: UINT16_MAX_def)
    from publish_change_ok [OF E(1) on E(2) ok this] obtain r S1 where
      p: "publish_change g x (KeyUpsert key e (PG_REDIS_TLV_INT # put_u32_le 8 @ put_i64_le i)) S = Some (r, S1)" "joint_ok hb S1" "view_of S1 = view_of S" by blast
    show thesis using p IntValue by (intro that [of r S1]) (simp_all add: publish_async_key_upsert_def e_type_def Let_def)
  next
    case (ListValue l)
    have "change_fits (KeyUpsert key e [])" by (rule up) (simp add: UINT16_MAX_def)
    from publish_change_ok [OF E(1) on E(2) ok this] obtain r S1 where
      p: "publish_change g x (KeyUpsert key e []) S = Some (r, S1)" "joint_ok hb S1" "view_of S1 = view_of S" by blast
    show thesis using p ListValue by (intro that [of r S1]) (simp_all add: publish_async_key_upsert_def e_type_def Let_def)
  qed (use ty in \<open>simp add: e_type_def\<close>)
  show ?thesis
  proof (cases "\<exists>u l. r = Inr u \<and> e_value e = ListValue (Some l)")
    case True
    then obtain u l where l: "r = Inr u" "e_value e = ListValue (Some l)" by blast
    have "\<forall>c \<in> set (map (\<lambda>n. ListItemInsert key (ln_ord n) (ln_value n)) (filter ln_pending_insert (l_nodes l)) @
        map (ListItemDelete key) (l_pending_delete_ords l)). change_fits c"
      using fits l(2) key_fits [OF key] by (auto simp: change_fits_def list_vals_def UINT16_MAX_def)
    from publish_changes_ok [OF E(1) on E(2) p(2) this] obtain r S' where
      "publish_async_list_deltas g x key l S1 = Some (r, S')" "joint_ok hb S'" "view_of S' = view_of S1"
      unfolding publish_async_list_deltas_def by blast
    then show ?thesis using p l by simp
  next
    case False
    then have "bind_sh (publish_async_key_upsert g x key e S) (\<lambda>_ S.
      case e_value e of
        HashValue (Some h) \<Rightarrow> publish_async_hash_deltas g x key h S
      | ListValue (Some l) \<Rightarrow> publish_async_list_deltas g x key l S
      | _ \<Rightarrow> Some (Inr (), S)) = Some (map_sum id (\<lambda>_. ()) r, S1)"
      using p(1) ty by (cases r; cases "e_value e") (auto simp: e_type_def split: option.splits)
    then show ?thesis using p(2,3) by simp
  qed
qed

lemma kv_writeback_ok:
  assumes al: "dsa_alloc_ok (sx_alloc x)" and ok: "joint_ok (sx_hash x) S" and sc: "storable (e_value e)"
    and np: "\<not> in_place (hash_find (sh_keys S) key) e"
    and fits: "\<And>l v. e_value e = ListValue (Some l) \<Longrightarrow> v \<in> set (list_vals l) \<Longrightarrow> int (length v) \<le> UINT16_MAX"
  obtains r S' where "shared_writeback x key e S = Some (r, S')" "joint_ok (sx_hash x) S'" "queue_of S' = queue_of S"
    "\<And>k. k \<noteq> key \<Longrightarrow> view_of S' k = view_of S k" "\<And>u. r = Inr u \<Longrightarrow> view_of S' = (view_of S)(key \<mapsto> abs_entry e)"
proof -
  have np': "\<not> in_place (hash_find (ss_keys (store_of S)) key) e" using np by (simp add: store_of_def)
  have w: "writable (ss_area (store_of S)) (hash_find (ss_keys (store_of S)) key) e"
    using sc np' by (auto simp: writable_def in_place_def e_type_def se_type_def split: option.splits shared_value.splits PgRedisValue.splits)
  have ab: "(stored_abs (e_value e), e_expiry e) = abs_entry e"
    by (simp add: abs_entry_def, rule stored_abs_same) (use fits in blast)
  obtain r T where W: "pg_redis_shared_store_writeback (sx_hash x) (sx_alloc x) key e (store_of S) = Some (r, T)" "shared_ok (sx_hash x) T"
    "dsa_frame (ss_area (store_of S)) (store_owned (store_of S)) (ss_area T) (store_owned T)"
    "\<And>k. k \<noteq> key \<Longrightarrow> shared_view T k = view_of S k" "r = Inr () \<Longrightarrow> shared_view T = (view_of S)(key \<mapsto> abs_entry e)"
    using writeback_ok [OF al joint_okD(1) [OF ok] w] np' ab by (metis fun_upd_apply)
  then show thesis using joint_store [OF ok W(2,3)]
    by (intro that [of r "set_store T S"]) (simp_all add: shared_writeback_def)
qed

lemma mark_dirty_ok:
  assumes env: "env_fits g x" and ok: "joint_ok (sx_hash x) S" and key: "length key \<le> PG_REDIS_MAX_KEY_SIZE"
    and fits: "value_fits (e_value e)" and sc: "storable (e_value e)" and ty: "e_type e \<noteq> PG_REDIS_TYPE_HASH"
  obtains r S' where "shared_mark_dirty g x key e S = Some (r, S')" "joint_ok (sx_hash x) S'"
    "\<And>k. k \<noteq> key \<Longrightarrow> view_of S' k = view_of S k" "\<And>u. r = Inr u \<Longrightarrow> view_of S' = (view_of S)(key \<mapsto> abs_entry e)"
proof -
  have al: "dsa_alloc_ok (sx_alloc x)" using env by (simp add: env_fits_def)
  have np: "\<not> in_place (hash_find (sh_keys S) key) e" using ty by (simp add: in_place_def)
  obtain r S1 where W: "shared_writeback x key e S = Some (r, S1)" "joint_ok (sx_hash x) S1"
    "\<And>k. k \<noteq> key \<Longrightarrow> view_of S1 k = view_of S k" "\<And>u. r = Inr u \<Longrightarrow> view_of S1 = (view_of S)(key \<mapsto> abs_entry e)"
    by (rule kv_writeback_ok [OF al ok sc np]) (use fits in auto)
  show thesis
  proof (cases "r = Inr () \<and> in_async g")
    case True
    obtain r' S' where "bind_sh (publish_async_key_upsert g x key e S1) (\<lambda>_ S.
        case e_value e of
          HashValue (Some h) \<Rightarrow> publish_async_hash_deltas g x key h S
        | ListValue (Some l) \<Rightarrow> publish_async_list_deltas g x key l S
        | _ \<Rightarrow> Some (Inr (), S)) = Some (r', S')" "joint_ok (sx_hash x) S'" "view_of S' = view_of S1"
      using publish_deltas_ok [OF env _ W(2) key fits ty] True by blast
    then show thesis using W True by (intro that [of r' S']) (simp_all add: shared_mark_dirty_def in_async_def)
  next
    case False
    have "shared_mark_dirty g x key e S = Some (r, S1)"
      using W(1) False by (cases r) (simp_all add: shared_mark_dirty_def in_async_def)
    then show thesis using W by (intro that [of r S1]) simp_all
  qed
qed

end
