(* ===== verification/Shared_Meaning.thy ===== *)
theory Shared_Meaning
  imports Shared_Commands
begin

text \<open>
  The commands with shared storage have the same abstract meaning as with session storage, with the
  exceptions that \<open>excused\<close> lists. When the abstract command raises, so does the code, and nothing visible
  changes; when it does not, the code may still run out of memory or fail to publish, and then only the key
  of the command is affected.
\<close>

section \<open>What a command means\<close>

definition excused :: "redis_cmd \<Rightarrow> reply \<Rightarrow> reply \<Rightarrow> bool" where
  "excused c y y0 \<longleftrightarrow>
     (\<exists>k. c = CDel k \<and> y = RBool True \<and> y0 = RBool False) \<or>
     (\<exists>k. c = CGet k \<and> y = RText None \<and> y0 = RText (Some [])) \<or>
     (\<exists>k f v. c = CHset k f v \<and> y = RBool False \<and> y0 = RBool True)"

definition shared_means :: "shared_env \<Rightarrow> redis_cmd \<Rightarrow> shared_state \<Rightarrow> reply result \<times> keyspace \<Rightarrow> reply shared_run \<Rightarrow> bool" where
  "shared_means x c S spec p \<longleftrightarrow>
     (\<exists>r S'. p = Some (r, S') \<and> joint_ok (sx_hash x) S' \<and>
        (\<forall>k. k \<noteq> cmd_key c \<longrightarrow> live_of (sx_now x) S' k = live_of (sx_now x) S k) \<and>
        (case spec of
           (Inl err, _) \<Rightarrow> r = Inl err \<and> live_of (sx_now x) S' = live_of (sx_now x) S
         | (Inr y0, m) \<Rightarrow> (\<forall>y. r = Inr y \<longrightarrow> live_of (sx_now x) S' = m \<and> (y = y0 \<or> excused c y y0))))"

lemma means_error:
  assumes "p = Some (Inl err, S')" "joint_ok (sx_hash x) S'" "live_of (sx_now x) S' = live_of (sx_now x) S" "fst spec = Inl err"
  shows "shared_means x c S spec p"
  using assms by (cases spec) (simp add: shared_means_def)

lemma means_reply:
  assumes "p = Some (Inr y, S')" "joint_ok (sx_hash x) S'" "spec = (Inr y0, live_of (sx_now x) S')"
    and "y = y0 \<or> excused c y y0" "\<And>k. k \<noteq> cmd_key c \<Longrightarrow> live_of (sx_now x) S' k = live_of (sx_now x) S k"
  shows "shared_means x c S spec p"
  using assms by (simp add: shared_means_def)

text \<open>A scratch copy is written back.\<close>

lemma live_cong: "view_of S' k = view_of S k \<Longrightarrow> live_of now S' k = live_of now S k"
  by (simp add: shared_live_def drop_expired_def)

lemma means_put:
  assumes p: "p = bind_sh (shared_mark_dirty g x (cmd_key c) e S1) (\<lambda>_ S. Some (Inr y, S))"
    and env: "env_fits g x" and ok: "joint_ok (sx_hash x) S1" and key: "length (cmd_key c) \<le> PG_REDIS_MAX_KEY_SIZE"
    and e: "value_fits (e_value e)" "storable (e_value e)" "e_type e \<noteq> PG_REDIS_TYPE_HASH" "\<not> expired_at (sx_now x) (abs_entry e)"
    and S1: "\<And>k. k \<noteq> cmd_key c \<Longrightarrow> view_of S1 k = view_of S k"
    and spec: "spec = (Inr y, (live_of (sx_now x) S)(cmd_key c \<mapsto> abs_entry e))"
  shows "shared_means x c S spec p"
proof -
  obtain r S' where d: "shared_mark_dirty g x (cmd_key c) e S1 = Some (r, S')" "joint_ok (sx_hash x) S'"
    "\<And>k. k \<noteq> cmd_key c \<Longrightarrow> view_of S' k = view_of S1 k" "\<And>u. r = Inr u \<Longrightarrow> view_of S' = (view_of S1)(cmd_key c \<mapsto> abs_entry e)"
    by (rule mark_dirty_ok [OF env ok key e(1-3)]) blast
  have o: "live_of (sx_now x) S' k = live_of (sx_now x) S k" if "k \<noteq> cmd_key c" for k
    using d(3) S1 that by (intro live_cong) simp
  have "live_of (sx_now x) S' = (live_of (sx_now x) S)(cmd_key c \<mapsto> abs_entry e)" if "r = Inr u" for u
  proof
    fix k
    show "live_of (sx_now x) S' k = ((live_of (sx_now x) S)(cmd_key c \<mapsto> abs_entry e)) k"
      using o [of k] d(4) [OF that] e(4) by (cases "k = cmd_key c") (simp_all add: shared_live_def)
  qed
  then show ?thesis using p d(1,2) o spec by (cases r) (auto simp: shared_means_def)
qed

lemma bind_sh_assoc [simp]: "bind_sh (bind_sh p f) h = bind_sh p (\<lambda>y S. bind_sh (f y S) h)"
  by (simp add: bind_sh_def split: option.splits prod.splits sum.splits)

section \<open>Commands that write through a scratch copy\<close>

lemma live_not_expired: "live_of now S key = Some q \<Longrightarrow> \<not> expired_at now q"
  by (auto simp: shared_live_def drop_expired_def split: option.splits if_splits)

lemma live_old:
  assumes "n \<longleftrightarrow> live_of now S key = None" "abs_entry e = (if n then (RString [], None) else the (live_of now S key))"
  shows "\<not> n \<Longrightarrow> live_of now S key = Some (abs_entry e)" "\<not> expired_at now (v, e_expiry e)"
    "\<not> n \<Longrightarrow> view_of S1 = (view_of S)(key \<mapsto> abs_entry e) \<Longrightarrow> live_of now S1 = live_of now S"
    "n \<Longrightarrow> live_of now S key = None" "n \<Longrightarrow> e_expiry e = None"
proof -
  show "n \<Longrightarrow> live_of now S key = None" "n \<Longrightarrow> e_expiry e = None" using assms by (simp_all add: abs_entry_def)
  show l: "live_of now S key = Some (abs_entry e)" if "\<not> n" using assms that by auto
  have "\<not> expired_at now (abs_entry e)"
  proof (cases n)
    case False
    then show ?thesis using l live_not_expired by blast
  qed (use assms in \<open>simp add: expired_at_def\<close>)
  then show x: "\<not> expired_at now (v, e_expiry e)" for v by (simp add: expired_at_def abs_entry_def)
  assume n: "\<not> n" and v: "view_of S1 = (view_of S)(key \<mapsto> abs_entry e)"
  show "live_of now S1 = live_of now S"
  proof
    fix j show "live_of now S1 j = live_of now S j"
      using l [OF n] x [of "fst (abs_entry e)"] by (auto simp: shared_live_def v abs_entry_def)
  qed
qed

lemma parse_empty [simp]: "pg_redis_parse_int64 [] = None"
  by code_simp

lemma shared_set_means:
  assumes env: "env_fits g x" and ok: "joint_ok (sx_hash x) S" and a: "arg_error g (CSet k v) = None" and v: "int (length v) + 5 \<le> UINT16_MAX"
  shows "shared_means x (CSet k v) S (redis_step (sx_now2 x) (CSet k v) (live_of (sx_now x) S)) (shared_exec g x (CSet k v) S)"
proof -
  obtain n e S1 where u: "shared_kv_upsert x k S = Some (Inr (n, e), S1)" "joint_ok (sx_hash x) S1" "n \<longleftrightarrow> live_of (sx_now x) S k = None"
    "abs_entry e = (if n then (RString [], None) else the (live_of (sx_now x) S k))" "view_of S1 = (view_of S)(k \<mapsto> abs_entry e)"
    by (rule kv_upsert_ok [OF ok])
  define e0 where "e0 = (if \<not> n \<and> e_type e \<noteq> PG_REDIS_TYPE_STRING then pg_redis_entry_release_value False e else e)"
  define e' where "e' = e0\<lparr>e_value := StringValue (Some v), e_version := e_version e0 + 1, e_dirty := True, e_deleted := False\<rparr>"
  have x: "e_expiry e' = e_expiry e" by (simp add: e'_def e0_def e_expiry_def pg_redis_entry_release_value_def)
  have ab: "abs_entry e' = (RString v, e_expiry e)" using x by (simp add: abs_entry_def) (simp add: e'_def)
  have "e_expiry e = (case live_of (sx_now x) S k of None \<Rightarrow> None | Some (_, t) \<Rightarrow> t)"
    using u(3,4) by (cases "live_of (sx_now x) S k") (auto simp: abs_entry_def)
  then have spec: "redis_step (sx_now2 x) (CSet k v) (live_of (sx_now x) S) = (Inr (RBool True), (live_of (sx_now x) S)(k \<mapsto> abs_entry e'))"
    by (simp add: ab)
  have c: "pg_redis_check_key_len g (length k) = Inr ()" "pg_redis_check_value_len g (length v) = Inr ()"
    using a by (simp_all add: arg_error_None)
  have run: "shared_exec g x (CSet k v) S = bind_sh (shared_mark_dirty g x k e' S1) (\<lambda>_ S. Some (Inr (RBool True), S))"
    using c u(1) by (simp add: shared_reply_def shared_set_def arg_checks e'_def e0_def Let_def)
  show ?thesis
    by (rule means_put [OF _ env u(2), where e = e' and y = "RBool True"])
      (use run spec c live_old(2) [OF u(3,4)] check_key_len_bound [of g "length k"] ab u(5) v in \<open>simp_all add: e'_def e_type_def\<close>)
qed

lemma shared_incr_means:
  assumes env: "env_fits g x" and ok: "joint_ok (sx_hash x) S" and a: "pg_redis_check_key_len g (length k) = Inr ()" and ck: "cmd_key c = k"
  shows "shared_means x c S (spec_incr k delta (live_of (sx_now x) S)) (shared_reply RNum (shared_incrdecr g x k delta S))"
proof -
  obtain n e S1 where u: "shared_kv_upsert x k S = Some (Inr (n, e), S1)" "joint_ok (sx_hash x) S1" "n \<longleftrightarrow> live_of (sx_now x) S k = None"
    "abs_entry e = (if n then (RString [], None) else the (live_of (sx_now x) S k))" "view_of S1 = (view_of S)(k \<mapsto> abs_entry e)"
    by (rule kv_upsert_ok [OF ok])
  note L = live_old [OF u(3,4)]
  show ?thesis
  proof (cases "incr_base k n e")
    case (Inl err)
    then have n: "\<not> n" by (auto simp: incr_base_def)
    have same: "live_of (sx_now x) S1 = live_of (sx_now x) S" using L(3) [OF n u(5)] .
    have "fst (spec_incr k delta (live_of (sx_now x) S)) = Inl err"
      using Inl L(1) [OF n] n
      by (auto simp: spec_incr_def incr_base_def abs_entry_def e_type_def Let_def split: PgRedisValue.splits option.splits)
    then show ?thesis
      using a u(1,2) Inl same by (intro means_error [of _ err S1]) (simp_all add: shared_reply_def shared_incrdecr_def arg_checks)
  next
    case (Inr i)
    define e' where "e' = e\<lparr>e_value := IntValue (wrap64 (i + delta)), e_version := e_version e + 1\<rparr>"
    have ab: "abs_entry e' = (RInt (wrap64 (i + delta)), e_expiry e)" by (simp add: e'_def abs_entry_def e_expiry_def)
    have spec: "spec_incr k delta (live_of (sx_now x) S) = (Inr (RNum (wrap64 (i + delta))), (live_of (sx_now x) S)(k \<mapsto> (RInt (wrap64 (i + delta)), e_expiry e)))"
    proof (cases n)
      case True
      then show ?thesis using Inr L(4,5) by (simp add: spec_incr_def incr_base_def Let_def)
    next
      case False
      from L(1) [OF this] Inr False show ?thesis
        by (cases "e_value e") (auto simp: spec_incr_def incr_base_def Let_def abs_entry_def split: option.splits)
    qed
    have run: "shared_reply RNum (shared_incrdecr g x k delta S) =
        bind_sh (shared_mark_dirty g x k e' S1) (\<lambda>_ S. Some (Inr (RNum (wrap64 (i + delta))), S))"
      using a u(1) Inr by (simp add: shared_reply_def shared_incrdecr_def arg_checks e'_def Let_def)
    show ?thesis
      by (rule means_put [OF _ env u(2), where e = e' and y = "RNum (wrap64 (i + delta))"])
        (use run spec ck L(2) check_key_len_bound [OF a] ab u(5) in \<open>simp_all add: e'_def e_type_def\<close>)
  qed
qed

lemma shared_push_means:
  assumes env: "env_fits g x" and ok: "joint_ok (sx_hash x) S" and a: "pg_redis_check_key_len g (length k) = Inr ()"
      "pg_redis_check_value_len g (length v) = Inr ()"
    and ck: "cmd_key c = k" and v: "int (length v) \<le> UINT16_MAX"
  shows "shared_means x c S (spec_push k (\<lambda>xs. if left then v # xs else xs @ [v]) (live_of (sx_now x) S))
    (shared_reply RNum (shared_list_push g x k v left S))"
proof -
  obtain n e S1 where u: "shared_kv_upsert x k S = Some (Inr (n, e), S1)" "joint_ok (sx_hash x) S1" "n \<longleftrightarrow> live_of (sx_now x) S k = None"
    "abs_entry e = (if n then (RString [], None) else the (live_of (sx_now x) S k))" "view_of S1 = (view_of S)(k \<mapsto> abs_entry e)" "scratch_full e"
    by (rule kv_upsert_ok [OF ok])
  note L = live_old [OF u(3,4)]
  show ?thesis
  proof (cases "\<not> n \<and> e_type e \<noteq> PG_REDIS_TYPE_LIST")
    case True
    then have n: "\<not> n" by blast
    have same: "live_of (sx_now x) S1 = live_of (sx_now x) S" using L(3) [OF n u(5)] .
    have "fst (spec_push k (\<lambda>xs. if left then v # xs else xs @ [v]) (live_of (sx_now x) S)) = Inl (WrongType k (e_type e) PG_REDIS_TYPE_LIST)"
      using True L(1) [OF n]
      by (cases "e_value e") (auto simp: spec_push_def abs_entry_def e_type_def Let_def)
    then show ?thesis
      using a u(1,2) True same
      by (intro means_error [of _ "WrongType k (e_type e) PG_REDIS_TYPE_LIST" S1]) (simp_all add: shared_reply_def shared_list_push_def arg_checks)
  next
    case False
    then have c: "(\<not> n \<and> e_type e \<noteq> PG_REDIS_TYPE_LIST) = False" by blast
    define l where "l = (case e_value e of ListValue (Some l) \<Rightarrow> if n then pg_redis_list_create else l | _ \<Rightarrow> pg_redis_list_create)"
    define p where "p = (if left then pg_redis_list_lpush v l else pg_redis_list_rpush v l)"
    define e' where "e' = e\<lparr>e_value := ListValue (Some (snd p)), e_version := e_version e + 1\<rparr>"
    have l: "list_ok l" "\<forall>w \<in> set (list_vals l). int (length w) \<le> UINT16_MAX"
      using u(6) False by (auto simp: l_def scratch_full_def split: PgRedisValue.splits option.splits)
    have spec_l: "spec_push k h (live_of (sx_now x) S) =
        (Inr (RNum (int (length (h (list_vals l))))), (live_of (sx_now x) S)(k \<mapsto> (RList (h (list_vals l)), e_expiry e)))" for h
    proof (cases n)
      case True
      then have "list_vals l = []" by (simp add: l_def split: PgRedisValue.splits option.splits)
      then show ?thesis using L(4,5) True by (simp add: spec_push_def)
    next
      case n: False
      from L(1) [OF n] n False show ?thesis
        by (cases "e_value e") (auto simp: spec_push_def l_def abs_entry_def e_type_def split: option.splits)
    qed
    have vals: "list_vals (snd p) = (if left then v # list_vals l else list_vals l @ [v])" "fst p = int (length (list_vals (snd p)))" "list_ok (snd p)"
      using l(1) list_ok_lpush [OF l(1)] list_ok_rpush [OF l(1)] by (simp_all add: p_def)
    have ab: "abs_entry e' = (RList (list_vals (snd p)), e_expiry e)" by (simp add: e'_def abs_entry_def e_expiry_def)
    have spec: "spec_push k (\<lambda>xs. if left then v # xs else xs @ [v]) (live_of (sx_now x) S) = (Inr (RNum (fst p)), (live_of (sx_now x) S)(k \<mapsto> abs_entry e'))"
      using spec_l vals by (simp add: ab)
    have run: "shared_reply RNum (shared_list_push g x k v left S) = bind_sh (shared_mark_dirty g x k e' S1) (\<lambda>_ S. Some (Inr (RNum (fst p)), S))"
      using a u(1) c by (cases p) (auto simp: shared_reply_def shared_list_push_def arg_checks e'_def Let_def simp flip: l_def p_def)
    show ?thesis
      by (rule means_put [OF _ env u(2), where e = e' and y = "RNum (fst p)"])
        (use run spec ck L(2) check_key_len_bound [OF a(1)] ab u(5) vals l(2) v in \<open>auto simp: e'_def e_type_def split: if_splits\<close>)
  qed
qed

lemma shared_pop_means:
  assumes env: "env_fits g x" and ok: "joint_ok (sx_hash x) S" and a: "pg_redis_check_key_len g (length k) = Inr ()" and ck: "cmd_key c = k"
  shows "shared_means x c S
    (spec_list k (RText None) (\<lambda>xs t. if xs = [] then (Inr (RText None), live_of (sx_now x) S)
       else (Inr (RText (Some (if left then hd xs else last xs))),
             (live_of (sx_now x) S)(k \<mapsto> (RList (if left then tl xs else butlast xs), t)))) (live_of (sx_now x) S))
    (shared_reply RText (shared_list_pop g x k left S))" (is "shared_means x c S ?spec ?p")
proof -
  let ?L = "live_of (sx_now x) S"
  obtain r S1 where u: "shared_kv_lookup x k S = Some (Inr r, S1)" "joint_ok (sx_hash x) S1" "live_of (sx_now x) S1 = ?L"
    "?L k = map_option abs_entry r" "\<And>e. r = Some e \<Longrightarrow> S1 = S \<and> scratch_full e" by (rule kv_lookup_ok [OF ok, of x k]) blast
  note run = shared_reply_def shared_list_pop_def shared_with_list_def arg_checks
  consider (none) "r = None" | (other) e where "r = Some e" "e_type e \<noteq> PG_REDIS_TYPE_LIST" | (empty) e where "r = Some e" "e_value e = ListValue None"
    | (list) e l where "r = Some e" "e_value e = ListValue (Some l)"
    by (cases r) (auto simp: e_type_def value_type_cases, metis not_None_eq)
  then show ?thesis
  proof cases
    case none
    then show ?thesis using u a by (intro means_reply [of _ "RText None" S1 _ _ "RText None"]) (simp_all add: run spec_list_def)
  next
    case other
    then show ?thesis using u a
      by (intro means_error [of _ "WrongType k (e_type e) PG_REDIS_TYPE_LIST" S1]; cases "e_value e")
        (simp_all add: run spec_list_def abs_entry_def e_type_def)
  next
    case empty
    then show ?thesis using u a by (intro means_reply [of _ "RText None" S1 _ _ "RText None"]) (simp_all add: run spec_list_def abs_entry_def)
  next
    case list
    have S1: "S1 = S" and l: "list_ok l" "\<forall>v \<in> set (list_vals l). int (length v) \<le> UINT16_MAX"
      using u(5) [OF list(1)] list(2) by (auto simp: scratch_full_def)
    have lk: "?L k = Some (RList (list_vals l), e_expiry e)" using u(4) list by (simp add: abs_entry_def)
    define q where "q = (if left then pg_redis_list_lpop l else pg_redis_list_rpop l)"
    have q: "fst q = (if list_vals l = [] then None else Some (if left then hd (list_vals l) else last (list_vals l)))"
      "list_vals (snd q) = (if left then tl (list_vals l) else butlast (list_vals l))" "list_ok (snd q)"
      using list_ok_lpop [OF l(1)] list_ok_rpop [OF l(1)] by (simp_all add: q_def list_pop_cases)
    show ?thesis
    proof (cases "list_vals l = []")
      case True
      then show ?thesis using u(1,2,3) a list lk q S1
        by (intro means_reply [of _ "RText None" S1 _ _ "RText None"]) (auto simp: run spec_list_def q_def [symmetric] split: prod.splits option.splits)
    next
      case False
      define e' where "e' = e\<lparr>e_value := ListValue (Some (snd q)), e_version := e_version e + 1\<rparr>"
      let ?y = "RText (Some (if left then hd (list_vals l) else last (list_vals l)))"
      have ab: "abs_entry e' = (RList (list_vals (snd q)), e_expiry e)" by (simp add: e'_def abs_entry_def e_expiry_def)
      have spec: "?spec = (Inr ?y, ?L(k \<mapsto> abs_entry e'))" using lk False q by (simp add: spec_list_def ab)
      have rn: "?p = bind_sh (shared_mark_dirty g x k e' S) (\<lambda>_ S. Some (Inr ?y, S))"
        using u(1) a list q(1) False S1 by (auto simp: run e'_def q_def [symmetric] split: prod.splits)
      have "\<forall>v \<in> set (list_vals (snd q)). int (length v) \<le> UINT16_MAX"
        using l(2) q(2) by (cases "list_vals l") (auto dest: in_set_butlastD split: if_splits)
      moreover have "\<not> expired_at (sx_now x) (RList (list_vals (snd q)), e_expiry e)"
        using live_not_expired [OF lk] by (simp add: expired_at_def)
      ultimately show ?thesis
        by (intro means_put [OF _ env ok, where e = e' and y = ?y])
          (use rn spec ck check_key_len_bound [OF a] ab q(3) in \<open>simp_all add: e'_def e_type_def\<close>)
    qed
  qed
qed

section \<open>Commands that read or remove\<close>

text \<open>A reply that only depends on the live entry.\<close>

lemma means_read:
  assumes u: "shared_kv_lookup x k S = Some (Inr r, S1)" "joint_ok (sx_hash x) S1" "live_of (sx_now x) S1 = live_of (sx_now x) S"
    and p: "p = Some (q, S1)" and spec: "spec = (q0, live_of (sx_now x) S)"
    and same: "q = q0 \<or> (\<exists>y y0. q = Inr y \<and> q0 = Inr y0 \<and> excused c y y0)"
  shows "shared_means x c S spec p"
proof (cases q0)
  case (Inl err)
  then show ?thesis using assms by (intro means_error [of _ err S1]) auto
next
  case (Inr y0)
  then obtain y where "q = Inr y" "y = y0 \<or> excused c y y0" using same by auto
  then show ?thesis using assms Inr by (intro means_reply [of _ y S1 _ _ y0]) auto
qed

definition ints_ok :: "keyspace \<Rightarrow> bool" where
  "ints_ok m \<longleftrightarrow> (\<forall>k i t. m k = Some (RInt i, t) \<longrightarrow> int64_range i)"

lemma shared_read_means:
  assumes ok: "joint_ok (sx_hash x) S" and a: "pg_redis_check_key_len g (length k) = Inr ()" and ints: "ints_ok (live_of (sx_now x) S)"
  shows "shared_means x (CGet k) S (redis_step (sx_now2 x) (CGet k) (live_of (sx_now x) S)) (shared_exec g x (CGet k) S)"
    and "shared_means x (CExists k) S (redis_step (sx_now2 x) (CExists k) (live_of (sx_now x) S)) (shared_exec g x (CExists k) S)"
    and "shared_means x (CLlen k) S (redis_step (sx_now2 x) (CLlen k) (live_of (sx_now x) S)) (shared_exec g x (CLlen k) S)"
proof -
  let ?L = "live_of (sx_now x) S"
  obtain r S1 where u: "shared_kv_lookup x k S = Some (Inr r, S1)" "joint_ok (sx_hash x) S1" "live_of (sx_now x) S1 = ?L"
    "?L k = map_option abs_entry r" "\<And>e. r = Some e \<Longrightarrow> S1 = S \<and> scratch_full e" by (rule kv_lookup_ok [OF ok, of x k]) blast
  note run = shared_reply_def shared_get_def shared_exists_def shared_llen_def shared_with_list_def arg_checks
  show "shared_means x (CExists k) S (redis_step (sx_now2 x) (CExists k) ?L) (shared_exec g x (CExists k) S)"
    by (rule means_read [OF u(1-3), of _ "Inr (RBool (r \<noteq> None))" _ "Inr (RBool (r \<noteq> None))"]) (use u a in \<open>simp_all add: run\<close>)
  have i: "pg_redis_format_int64 i = Inr (snprintf_int64 i)" if "r = Some e" "e_value e = IntValue i" for e i
    using that u(4) ints by (auto simp: ints_ok_def abs_entry_def intro!: format_int64_total)
  show "shared_means x (CGet k) S (redis_step (sx_now2 x) (CGet k) ?L) (shared_exec g x (CGet k) S)"
  proof (cases r)
    case None
    then show ?thesis using u a by (intro means_read [OF u(1-3)]) (auto simp: run)
  next
    case (Some e)
    then show ?thesis using u(1,4) a i [OF Some]
      by (cases "e_value e"; intro means_read [OF u(1-3)]) (auto simp: run abs_entry_def excused_def split: option.splits)
  qed
  show "shared_means x (CLlen k) S (redis_step (sx_now2 x) (CLlen k) ?L) (shared_exec g x (CLlen k) S)"
  proof (cases r)
    case None
    then show ?thesis using u a by (intro means_read [OF u(1-3)]) (auto simp: run spec_list_def)
  next
    case (Some e)
    have "list_ok l" if "e_value e = ListValue (Some l)" for l using u(5) [OF Some] that by (simp add: scratch_full_def)
    then show ?thesis using u(1,4) a Some
      by (cases "e_value e"; intro means_read [OF u(1-3)])
        (auto simp: run abs_entry_def spec_list_def list_length_vals pg_redis_list_length_def [of None] e_type_def split: option.splits)
  qed
qed

lemma live_removed: "view_of S' = (view_of S)(k := None) \<Longrightarrow> live_of now S' = (live_of now S)(k := None)"
  by (simp add: shared_live_def)

lemma shared_del_means:
  assumes ok: "joint_ok (sx_hash x) S" and a: "pg_redis_check_key_len g (length k) = Inr ()"
  shows "shared_means x (CDel k) S (redis_step (sx_now2 x) (CDel k) (live_of (sx_now x) S)) (shared_exec g x (CDel k) S)"
proof -
  obtain S' where d: "shared_kv_remove k S = Some (Inr (view_of S k \<noteq> None), S')" "joint_ok (sx_hash x) S'" "view_of S' = (view_of S)(k := None)"
    by (rule kv_remove_ok [OF ok])
  have "live_of (sx_now x) S k \<noteq> None \<Longrightarrow> view_of S k \<noteq> None" by (auto simp: shared_live_def drop_expired_def split: option.splits)
  then show ?thesis using d a live_removed [OF d(3)]
    by (intro means_reply [of _ "RBool (view_of S k \<noteq> None)" S' _ _ "RBool (live_of (sx_now x) S k \<noteq> None)"])
      (auto simp: shared_reply_def shared_del_def arg_checks excused_def)
qed

text \<open>\<open>TTL\<close>, and \<open>EXPIRE\<close> with a time that has passed.\<close>

lemma shared_ttl_means:
  assumes ok: "joint_ok (sx_hash x) S" and a: "pg_redis_check_key_len g (length k) = Inr ()"
    and small: "expiry_small (sx_now2 x) (live_of (sx_now x) S)"
  shows "shared_means x (CTtl k) S (redis_step (sx_now2 x) (CTtl k) (live_of (sx_now x) S)) (shared_exec g x (CTtl k) S)"
proof -
  let ?L = "live_of (sx_now x) S"
  obtain r S1 where u: "shared_kv_lookup x k S = Some (Inr r, S1)" "joint_ok (sx_hash x) S1" "live_of (sx_now x) S1 = ?L"
    "?L k = map_option abs_entry r" "\<And>e. r = Some e \<Longrightarrow> S1 = S \<and> scratch_full e" by (rule kv_lookup_ok [OF ok, of x k]) blast
  note run = shared_reply_def shared_ttl_def arg_checks
  show ?thesis
  proof (cases r)
    case None
    then show ?thesis using u a by (intro means_read [OF u(1-3)]) (auto simp: run)
  next
    case (Some e)
    show ?thesis
    proof (cases "e_has_expire e \<and> e_expire_at e \<le> sx_now2 x")
      case True
      obtain S' where d: "shared_kv_remove k S1 = Some (Inr (view_of S1 k \<noteq> None), S')" "joint_ok (sx_hash x) S'" "view_of S' = (view_of S1)(k := None)"
        by (rule kv_remove_ok [OF u(2)])
      have "live_of (sx_now x) S' = ?L(k := None)" using live_removed [OF d(3)] u(3) by simp
      then show ?thesis using u(1,4) d a Some True
        by (intro means_reply [of _ "RNum (-2)" S' _ _ "RNum (-2)"]) (auto simp: run abs_entry_def e_expiry_def)
    next
      case False
      have "wrap32 (wrap64 (wrap64 (e_expire_at e - sx_now2 x) + 999999) div 1000000) = ceil_seconds (e_expire_at e - sx_now2 x)"
        if "e_has_expire e"
      proof -
        have "e_expire_at e - sx_now2 x \<le> 2147483647 * 1000000"
          using small u(4) Some that by (auto simp: expiry_small_def abs_entry_def e_expiry_def)
        then show ?thesis using ttl_wrap False that by simp
      qed
      then show ?thesis using u(1,4) a Some False
        by (intro means_read [OF u(1-3), of _ "Inr (RNum (if e_has_expire e then ceil_seconds (e_expire_at e - sx_now2 x) else -1))"
            _ "Inr (RNum (if e_has_expire e then ceil_seconds (e_expire_at e - sx_now2 x) else -1))"])
          (auto simp: run abs_entry_def e_expiry_def Let_def)
    qed
  qed
qed

lemma shared_expire_now_means:
  assumes ok: "joint_ok (sx_hash x) S" and a: "pg_redis_check_key_len g (length k) = Inr ()" and s: "s \<le> 0"
  shows "shared_means x (CExpire k s) S (redis_step (sx_now2 x) (CExpire k s) (live_of (sx_now x) S)) (shared_exec g x (CExpire k s) S)"
proof -
  let ?L = "live_of (sx_now x) S"
  obtain r S1 where u: "shared_kv_lookup x k S = Some (Inr r, S1)" "joint_ok (sx_hash x) S1" "live_of (sx_now x) S1 = ?L"
    "?L k = map_option abs_entry r" "\<And>e. r = Some e \<Longrightarrow> S1 = S \<and> scratch_full e" by (rule kv_lookup_ok [OF ok, of x k]) blast
  note run = shared_reply_def shared_expire_def shared_set_expire_seconds_def arg_checks
  show ?thesis
  proof (cases r)
    case None
    then show ?thesis using u a by (intro means_read [OF u(1-3)]) (auto simp: run)
  next
    case (Some e)
    obtain S' where d: "shared_kv_remove k S1 = Some (Inr (view_of S1 k \<noteq> None), S')" "joint_ok (sx_hash x) S'" "view_of S' = (view_of S1)(k := None)"
      by (rule kv_remove_ok [OF u(2)])
    have "live_of (sx_now x) S' = ?L(k := None)" using live_removed [OF d(3)] u(3) by simp
    then show ?thesis using u(1,4) d a Some s
      by (intro means_reply [of _ "RBool True" S' _ _ "RBool True"]) (auto simp: run abs_entry_def)
  qed
qed

section \<open>Hash commands\<close>

text \<open>What the direct paths know about a key.\<close>

lemma type_at:
  assumes ok: "joint_ok hb S" and l: "live_of now S k = Some (v, t)"
  shows "map_option se_type (hash_find (sh_keys S) k) = Some (rvalue_type v)"
proof -
  obtain se where "hash_find (sh_keys S) k = Some se" "(v, t) = se_abs (as_area (sh_async S)) se"
    using l by (auto simp: shared_live_find split: option.splits if_splits)
  then show ?thesis by (cases "se_value se") (auto simp: se_type_def se_abs_def)
qed

lemma live_hash_of:
  "live_of now S k = None \<Longrightarrow> \<not> holds_other now (store_of S) k \<and> live_hash now (store_of S) k = (Map.empty, None)"
  "live_of now S k = Some (RHash m, t) \<Longrightarrow> \<not> holds_other now (store_of S) k \<and> live_hash now (store_of S) k = (m, t)"
  "live_of now S k = Some (v, t) \<Longrightarrow> rvalue_type v \<noteq> PG_REDIS_TYPE_HASH \<Longrightarrow> holds_other now (store_of S) k"
  by (auto simp: holds_other_def live_hash_def)

lemma live_set:
  assumes no: "\<not> holds_other now (store_of S) k" and v: "view_of S' = (view_of S)(k \<mapsto> (RHash m, snd (live_hash now (store_of S) k)))"
  shows "live_of now S' = (live_of now S)(k \<mapsto> (RHash m, snd (live_hash now (store_of S) k)))"
  using hash_there(1) [OF no] by (simp add: shared_live_def v)

lemma shared_hset_means:
  assumes env: "env_fits g x" and ok: "joint_ok (sx_hash x) S" and a: "arg_error g (CHset k f v) = None"
    and two: "in_async g \<Longrightarrow> 2 \<le> slots_of S"
  shows "shared_means x (CHset k f v) S (redis_step (sx_now2 x) (CHset k f v) (live_of (sx_now x) S)) (shared_exec g x (CHset k f v) S)"
proof -
  let ?L = "live_of (sx_now x) S"
  have al: "dsa_alloc_ok (sx_alloc x)" and fl: "in_async g \<Longrightarrow> sx_full x = PG_REDIS_ASYNC_FULL_SYNC_FLUSH"
    using env by (simp_all add: env_fits_def)
  have c: "pg_redis_check_key_len g (length k) = Inr ()" "pg_redis_check_field_len (length f) = Inr ()" "pg_redis_check_value_len g (length v) = Inr ()"
    using a by (simp_all add: arg_error_None)
  have len: "length k \<le> PG_REDIS_MAX_KEY_SIZE" "length f \<le> PG_REDIS_MAX_FIELD_SIZE"
    using check_key_len_bound [OF c(1)] c(2) by (simp_all add: check_field_len_iff)
  define run where "run = pg_redis_shared_hash_set_atomic (sx_hash x) (sx_alloc x) g (sx_spi_ok x) (sx_full x) (sx_others x) (sx_now x) k f v S"
  note ex = shared_reply_def shared_hset_def arg_checks c run_def [symmetric]
  show ?thesis
  proof (cases "holds_other (sx_now x) (store_of S) k")
    case True
    then obtain w t where l: "?L k = Some (w, t)" "\<forall>m. w \<noteq> RHash m" by (auto simp: holds_other_def)
    obtain ty where "hset_attempt (sx_hash x) (sx_alloc x) g (sx_now x) k f v S = Some (Inr (Some (PG_REDIS_FAST_HASH_MUTATE_WRONGTYPE, Some ty)), S)"
      "map_option se_type (hash_find (sh_keys S) k) = Some ty" using hset_wrongtype [OF ok True] by blast
    then have "run = Some (Inr (PG_REDIS_FAST_HASH_MUTATE_WRONGTYPE, Some (rvalue_type w)), S)"
      using hset_loop_answer type_at [OF ok l(1)] by (simp add: run_def pg_redis_shared_hash_set_atomic_def)
    then show ?thesis using l ok
      by (intro means_error [of _ "WrongType k (rvalue_type w) PG_REDIS_TYPE_HASH" S]; cases w) (auto simp: ex)
  next
    case no: False
    let ?mt = "live_hash (sx_now x) (store_of S) k"
    have step: "redis_step (sx_now2 x) (CHset k f v) ?L = (Inr (RBool (fst ?mt f = None)), ?L(k \<mapsto> (RHash ((fst ?mt)(f \<mapsto> v)), snd ?mt)))"
      using hash_there(2,3) [OF no] by (cases "?L k") auto
    have "\<exists>r S'. run = Some (r, S') \<and> joint_ok (sx_hash x) S' \<and>
        (case r of Inl err \<Rightarrow> hset_left (sx_now x) k f v S S'
         | Inr answer \<Rightarrow> (answer = hset_answer (fst ?mt f = None) \<or> answer = hset_answer False) \<and> view_of S' = set_view (sx_now x) k f v S)"
      (is "\<exists>r S'. run = Some (r, S') \<and> joint_ok (sx_hash x) S' \<and> ?out r S'")
    proof (cases "in_async g \<and> slots_of S \<le> length (queue_of S) + 1")
      case True
      obtain r S' where h: "run = Some (r, S')" "joint_ok (sx_hash x) S'"
        "case r of Inl err \<Rightarrow> hset_left (sx_now x) k f v S S'
         | Inr answer \<Rightarrow> answer = hset_answer False \<and> view_of S' = set_view (sx_now x) k f v S"
        using hset_full_ring [OF al ok len _ _ _ no, of g "sx_spi_ok x" "sx_others x" v 0] True two fl
        by (auto simp: run_def pg_redis_shared_hash_set_atomic_def)
      have "?out r S'" using h(3) by (cases r) simp_all
      then show ?thesis using h(1,2) by blast
    next
      case False
      then have "in_async g \<Longrightarrow> length (queue_of S) + 2 \<le> slots_of S" by simp
      then obtain r S' where h: "run = Some (r, S')" "joint_ok (sx_hash x) S'" "hset_outcome g (sx_now x) k f v S r S'"
        using hset_with_room [OF al ok len, of g "sx_spi_ok x" "sx_full x" "sx_others x" "sx_now x" v 0]
        by (auto simp: run_def pg_redis_shared_hash_set_atomic_def)
      have "?out r S'" using h(3) no by (cases r) (simp_all add: hset_outcome_def)
      then show ?thesis using h(1,2) by blast
    qed
    then obtain r S' where h: "run = Some (r, S')" "joint_ok (sx_hash x) S'" "?out r S'" by blast
    show ?thesis
    proof (cases r)
      case (Inl err)
      then have "view_of S' j = view_of S j" if "j \<noteq> k" for j
        using h(3) that by (auto simp: hset_left_def touch_view_def set_view_def)
      then show ?thesis using h(1,2) Inl step by (auto simp: shared_means_def ex intro: live_cong)
    next
      case (Inr answer)
      then have "live_of (sx_now x) S' = ?L(k \<mapsto> (RHash ((fst ?mt)(f \<mapsto> v)), snd ?mt))"
        using h(3) by (intro live_set [OF no]) (simp add: set_view_def)
      then show ?thesis using h Inr step
        by (auto simp: shared_means_def ex hset_answer_def excused_def split: if_splits)
    qed
  qed
qed

lemma shared_hdel_means:
  assumes env: "env_fits g x" and ok: "joint_ok (sx_hash x) S" and a: "arg_error g (CHdel k f) = None"
    and fl: "sx_full x = PG_REDIS_ASYNC_FULL_SYNC_FLUSH"
  shows "shared_means x (CHdel k f) S (redis_step (sx_now2 x) (CHdel k f) (live_of (sx_now x) S)) (shared_exec g x (CHdel k f) S)"
proof -
  let ?L = "live_of (sx_now x) S" and ?mt = "live_hash (sx_now x) (store_of S) k"
  have al: "dsa_alloc_ok (sx_alloc x)" using env by (simp add: env_fits_def)
  have c: "pg_redis_check_key_len g (length k) = Inr ()" "pg_redis_check_field_len (length f) = Inr ()"
    using a by (simp_all add: arg_error_None)
  have len: "length k \<le> PG_REDIS_MAX_KEY_SIZE" "length f \<le> PG_REDIS_MAX_FIELD_SIZE"
    using check_key_len_bound [OF c(1)] c(2) by (simp_all add: check_field_len_iff)
  note ex = shared_reply_def shared_hdel_def arg_checks c fl
  obtain r S' where h: "pg_redis_shared_hash_del_atomic (sx_hash x) (sx_alloc x) g (sx_spi_ok x) PG_REDIS_ASYNC_FULL_SYNC_FLUSH (sx_others x)
      (sx_now x) k f S = Some (r, S')" "joint_ok (sx_hash x) S'" "hdel_outcome g (sx_now x) k f S r S'"
    using hdel_ok [OF al ok len] by blast
  show ?thesis
  proof (cases "holds_other (sx_now x) (store_of S) k")
    case True
    then obtain w t where l: "?L k = Some (w, t)" "\<forall>m. w \<noteq> RHash m" by (auto simp: holds_other_def)
    have "S' = S" "r = Inr (PG_REDIS_FAST_HASH_MUTATE_WRONGTYPE, Some (rvalue_type w))"
      using h(3) True type_at [OF ok l(1)] by (simp_all add: hdel_outcome_def)
    then show ?thesis using l h(1,2)
      by (intro means_error [of _ "WrongType k (rvalue_type w) PG_REDIS_TYPE_HASH" S]; cases w) (auto simp: ex spec_hash_def)
  next
    case no: False
    have step: "redis_step (sx_now2 x) (CHdel k f) ?L = (Inr (RBool (fst ?mt f \<noteq> None)),
        if ?L k = None then ?L else ?L(k \<mapsto> (RHash ((fst ?mt)(f := None)), snd ?mt)))"
      using hash_there(2,3) [OF no] by (cases "?L k") (auto simp: spec_hash_def)
    show ?thesis
    proof (cases "fst ?mt f = None")
      case True
      then have m: "(fst ?mt)(f := None) = fst ?mt" by auto
      have "(if ?L k = None then ?L else ?L(k \<mapsto> (RHash ((fst ?mt)(f := None)), snd ?mt))) = ?L"
        using hash_there(3) [OF no] by (cases "?L k") (simp_all add: m fun_upd_idem)
      then show ?thesis using h no True step
        by (intro means_reply [of _ "RBool False" S' _ _ "RBool False"]) (simp_all add: hdel_outcome_def ex)
    next
      case False
      have lk: "?L k \<noteq> None"
      proof
        assume "?L k = None"
        then show False using live_hash_of(1) False by simp
      qed
      have v: "view_of S' = (view_of S)(k \<mapsto> (RHash ((fst ?mt)(f := None)), snd ?mt))"
        using h(3) no False by (simp add: hdel_outcome_def del_view_def)
      note live_set [OF no v]
      then show ?thesis using h no False step lk
        by (cases r) (auto simp: shared_means_def hdel_outcome_def ex)
    qed
  qed
qed

text \<open>The two direct reads; an expired key goes through the slow path, which evicts it.\<close>

lemma shared_hash_read_means:
  assumes ok: "joint_ok (sx_hash x) S" and a: "pg_redis_check_key_len g (length k) = Inr ()" "pg_redis_check_field_len (length f) = Inr ()"
  shows "shared_means x (CHget k f) S (redis_step (sx_now2 x) (CHget k f) (live_of (sx_now x) S)) (shared_exec g x (CHget k f) S)" (is ?goal1)
    and "shared_means x (CHexists k f) S (redis_step (sx_now2 x) (CHexists k f) (live_of (sx_now x) S)) (shared_exec g x (CHexists k f) S)" (is ?goal2)
proof -
  let ?L = "live_of (sx_now x) S"
  obtain r S1 where u: "shared_kv_lookup x k S = Some (Inr r, S1)" "joint_ok (sx_hash x) S1" "live_of (sx_now x) S1 = ?L"
    "?L k = map_option abs_entry r" "\<And>e. r = Some e \<Longrightarrow> S1 = S \<and> scratch_full e" by (rule kv_lookup_ok [OF ok, of x k]) blast
  note fld = lookup_field_ok [OF joint_okD(1) [OF ok], of "sx_now x" k f]
  note run = shared_reply_def shared_hget_def shared_hexists_def shared_with_hash_def arg_checks a fld spec_hash_def
  have "?goal1 \<and> ?goal2"
  proof (cases "?L k")
    case None
    then have r: "r = None" using u(4) by simp
    show ?thesis
    proof (cases "view_of S k = None")
      case True
      then show ?thesis using None ok
        by (intro conjI means_reply [of _ "RText None" S _ _ "RText None"] means_reply [of _ "RBool False" S _ _ "RBool False"])
          (simp_all add: run)
    next
      case False
      then show ?thesis using None u(1-3) r
        by (intro conjI means_reply [of _ "RText None" S1 _ _ "RText None"] means_reply [of _ "RBool False" S1 _ _ "RBool False"])
          (auto simp: run)
    qed
  next
    case (Some q)
    then obtain w t where l: "?L k = Some (w, t)" by (cases q) simp
    obtain z where ty: "hash_find (sh_keys S) k = Some z" "se_type z = rvalue_type w" using type_at [OF ok l] by auto
    show ?thesis
    proof (cases w)
      case (RHash m)
      then show ?thesis using l ok
        by (intro conjI means_reply [of _ "RText (m f)" S _ _ "RText (m f)"] means_reply [of _ "RBool (m f \<noteq> None)" S _ _ "RBool (m f \<noteq> None)"])
          (auto simp: run)
    qed (use l ok ty in \<open>intro conjI means_error [of _ "WrongType k (rvalue_type w) PG_REDIS_TYPE_HASH" S]; simp add: run\<close>)+
  qed
  then show ?goal1 ?goal2 by blast+
qed

section \<open>All commands\<close>

text \<open>Values within the 16-bit lengths of lists and events; \<open>EXPIRE\<close> with a positive time is apart.\<close>

fun shared_cmd_fits :: "redis_cmd \<Rightarrow> bool" where
  "shared_cmd_fits (CSet k v) \<longleftrightarrow> int (length v) + 5 \<le> UINT16_MAX"
| "shared_cmd_fits (CLpush k v) \<longleftrightarrow> int (length v) \<le> UINT16_MAX"
| "shared_cmd_fits (CRpush k v) \<longleftrightarrow> int (length v) \<le> UINT16_MAX"
| "shared_cmd_fits (CExpire k s) \<longleftrightarrow> s \<le> 0"
| "shared_cmd_fits _ \<longleftrightarrow> True"

lemma shared_exec_arg_error:
  assumes "arg_error g c = Some err"
  shows "shared_exec g x c S = Some (Inl err, S)"
  using assms
  by (cases c)
    (auto simp: arg_error_def arg_checks shared_reply_def shared_set_def shared_get_def shared_del_def shared_exists_def
      shared_expire_def shared_ttl_def shared_incrdecr_def shared_hset_def shared_hget_def shared_hdel_def shared_hexists_def
      shared_list_push_def shared_list_pop_def shared_llen_def split: sum.splits)

lemma shared_step_means:
  assumes env: "dsa_alloc_ok (sx_alloc x)" "sx_full x = PG_REDIS_ASYNC_FULL_SYNC_FLUSH" and ok: "joint_ok (sx_hash x) S"
    and two: "in_async g \<Longrightarrow> 2 \<le> slots_of S" and ints: "ints_ok (live_of (sx_now x) S)"
    and small: "expiry_small (sx_now2 x) (live_of (sx_now x) S)" and fits: "shared_cmd_fits c" and a: "arg_error g c = None"
  shows "shared_means x c S (redis_step (sx_now2 x) c (live_of (sx_now x) S)) (shared_exec g x c S)"
proof -
  have E: "env_fits g x" using env by (simp add: env_fits_def)
  have k: "pg_redis_check_key_len g (length (cmd_key c)) = Inr ()" using a by (simp add: arg_error_None)
  show ?thesis
  proof (cases c)
    case (CSet k v)
    then show ?thesis using shared_set_means [OF E ok] a fits by simp
  next
    case (CGet k')
    then show ?thesis using shared_read_means(1) [OF ok _ ints] k by simp
  next
    case (CDel k')
    then show ?thesis using shared_del_means [OF ok] k by simp
  next
    case (CExists k')
    then show ?thesis using shared_read_means(2) [OF ok _ ints] k by simp
  next
    case (CExpire k' s)
    then show ?thesis using shared_expire_now_means [OF ok] k fits by simp
  next
    case (CTtl k')
    then show ?thesis using shared_ttl_means [OF ok _ small] k by simp
  next
    case (CIncr k')
    then show ?thesis using shared_incr_means [OF E ok, of k' c 1] k by simp
  next
    case (CDecr k')
    then show ?thesis using shared_incr_means [OF E ok, of k' c "-1"] k by simp
  next
    case (CHset k' f v)
    then show ?thesis using shared_hset_means [OF E ok] a two by simp
  next
    case (CHget k' f)
    then show ?thesis using shared_hash_read_means(1) [OF ok] a by (simp add: arg_error_None)
  next
    case (CHdel k' f)
    then show ?thesis using shared_hdel_means [OF E ok _ env(2)] a by simp
  next
    case (CHexists k' f)
    then show ?thesis using shared_hash_read_means(2) [OF ok] a by (simp add: arg_error_None)
  next
    case (CLpush k' v)
    then show ?thesis using shared_push_means [OF E ok, of k' v c True] a fits by (simp add: arg_error_None)
  next
    case (CRpush k' v)
    then show ?thesis using shared_push_means [OF E ok, of k' v c False] a fits by (simp add: arg_error_None)
  next
    case (CLpop k')
    then show ?thesis using shared_pop_means [OF E ok, of k' c True] k by (simp cong: if_cong)
  next
    case (CRpop k')
    then show ?thesis using shared_pop_means [OF E ok, of k' c False] k by (simp cong: if_cong)
  next
    case (CLlen k')
    then show ?thesis using shared_read_means(3) [OF ok _ ints] k by simp
  qed
qed


definition sample_env :: shared_env where
  "sample_env = \<lparr>sx_hash = \<lambda>_. 5, sx_alloc = bump_alloc 3, sx_full = PG_REDIS_ASYNC_FULL_SYNC_FLUSH, sx_others = \<lambda>_ S. S,
     sx_drain = \<lambda>_ A. A, sx_spi_ok = True, sx_now = 7, sx_now2 = 7\<rparr>"

lemma sample_live: "shared_live now \<lparr>ss_keys = [], ss_area = []\<rparr> = Map.empty"
  by (rule ext) (simp add: shared_live_find hash_find_def)

declare publish_blocking_loop.simps [code]


section \<open>Commands that do not do what they say\<close>

text \<open>
  With shared storage \<open>EXPIRE\<close> with a positive time answers true for a live key, but when it returns the
  key has the expiry it had before: the time is set in a scratch copy that is dropped, and a fresh copy of
  the unchanged entry is written back and published.
\<close>

lemma shared_expire_ignored:
  assumes "dsa_alloc_ok (sx_alloc x)" "sx_full x = PG_REDIS_ASYNC_FULL_SYNC_FLUSH" "joint_ok (sx_hash x) S"
    and "0 < seconds" "shared_expire g x k seconds S = Some (Inr answer, S')"
    and "\<And>m t. live_of (sx_now x) S k \<noteq> Some (RHash m, t)"
    and "\<And>s t. live_of (sx_now x) S k = Some (RString s, t) \<Longrightarrow> int (length s) + 5 \<le> UINT16_MAX"
  shows "live_of (sx_now x) S' = live_of (sx_now x) S \<and> (answer \<longleftrightarrow> live_of (sx_now x) S k \<noteq> None)"
proof -
  let ?L = "live_of (sx_now x) S"
  have env: "env_fits g x" using assms(1,2) by (simp add: env_fits_def)
  obtain r S1 where u: "shared_kv_lookup x k S = Some (Inr r, S1)" "joint_ok (sx_hash x) S1" "live_of (sx_now x) S1 = ?L"
    "?L k = map_option abs_entry r" "\<And>e. r = Some e \<Longrightarrow> S1 = S \<and> scratch_full e" by (rule kv_lookup_ok [OF assms(3), of x k]) blast
  note run = shared_expire_def shared_set_expire_seconds_def
  have key: "key_arg g k = Inr k" and len: "length k \<le> PG_REDIS_MAX_KEY_SIZE"
    using assms(5) check_key_len_bound [of g "length k"]
    by (auto simp: run key_arg_check split: sum.splits if_splits)
  show "live_of (sx_now x) S' = ?L \<and> (answer \<longleftrightarrow> ?L k \<noteq> None)"
  proof (cases r)
    case None
    then show ?thesis using assms(5) u key by (simp add: run)
  next
    case (Some e)
    then have S1: "S1 = S" and lk: "?L k = Some (abs_entry e)" using u(4,5) by auto
    obtain e' where e': "shared_kv_lookup_raw k S = Some (Inr e', S)" "map_option abs_entry e' = view_of S k" "\<And>e. e' = Some e \<Longrightarrow> scratch_full e"
      by (rule kv_lookup_raw_ok [OF assms(3), of k]) blast
    have vk: "view_of S k = Some (abs_entry e)" using lk by (auto simp: shared_live_def drop_expired_def split: option.splits if_splits)
    then obtain e2 where e2: "e' = Some e2" "abs_entry e2 = abs_entry e" using e'(2) by auto
    have ty: "e_type e2 \<noteq> PG_REDIS_TYPE_HASH"
    proof
      assume "e_type e2 = PG_REDIS_TYPE_HASH"
      then obtain m where "abs_entry e2 = (RHash m, e_expiry e2)" by (cases "e_value e2") (auto simp: abs_entry_def e_type_def split: option.splits)
      then show False using assms(6) lk e2(2) by metis
    qed
    have fits: "value_fits (e_value e2)" and sc: "scratch_ok (e_value e2)"
      using assms(7) lk e2 e'(3) [OF e2(1)]
      by (cases "e_value e2" rule: value_fits.cases, auto simp: abs_entry_def scratch_full_def)
    obtain r2 S2 where d: "shared_mark_dirty g x k e2 S = Some (r2, S2)" "\<And>u. r2 = Inr u \<Longrightarrow> view_of S2 = (view_of S)(k \<mapsto> abs_entry e2)"
      by (rule mark_dirty_ok [OF env assms(3) len fits scratch_storable [OF sc] ty]) blast
    have r2: "r2 = Inr ()" "answer" "S' = S2"
      using assms(4,5) u(1) Some S1 key e'(1) e2(1) d(1) by (cases r2, auto simp: run)+
    have "view_of S2 = view_of S" using d(2) [OF r2(1)] e2(2) vk by (simp add: fun_upd_idem)
    then show ?thesis using r2 lk by (simp add: shared_live_def)
  qed
qed

text \<open>The key of \<open>sample_store\<close>, which expires at 100, beside an empty ring.\<close>

definition sample_keyed :: shared_state where
  "sample_keyed = \<lparr>sh_keys = ss_keys sample_store, sh_async = (async_start 4 db_empty)\<lparr>as_area := ss_area sample_store\<rparr>\<rparr>"

lemma sample_keyed_ok:
  "joint_ok hb sample_keyed" "store_of sample_keyed = sample_store"
proof -
  show st: "store_of sample_keyed = sample_store" by (simp add: sample_keyed_def store_of_def)
  show "joint_ok hb sample_keyed"
    using sample_store_ok sample_shared_ok(1) [of hb] sample_shared_ok(2) [of 4] unfolding joint_ok_def st
    by (simp add: sample_keyed_def sample_shared_def)
qed

text \<open>
  With shared storage \<open>DEL\<close> and the eviction of an expired key take the key out of the keyspace but queue
  no event and touch no table, so that in asynchronous mode the durable row stays.
\<close>

lemma shared_del_not_published:
  assumes "joint_ok hb S" "shared_exec g x (CDel k) S = Some (Inr y, S')"
  shows "view_of S' = (view_of S)(k := None) \<and> queue_of S' = queue_of S \<and> as_db (sh_async S') = as_db (sh_async S)"
proof -
  obtain S2 where d: "shared_kv_remove k S = Some (Inr (view_of S k \<noteq> None), S2)" "joint_ok hb S2"
    "view_of S2 = (view_of S)(k := None)" "queue_of S2 = queue_of S" "as_db (sh_async S2) = as_db (sh_async S)"
    by (rule kv_remove_ok [OF assms(1)])
  have "S' = S2" using assms(2) d(1)
    by (auto simp: shared_reply_def shared_del_def key_arg_check split: sum.splits if_splits)
  then show ?thesis using d by simp
qed

end
