(* ===== verification/Shared_Durability.thy ===== *)
theory Shared_Durability
  imports Shared_Meaning
begin

text \<open>
  Where the events of the shared keyspace lead: sequences of commands with shared storage, followed by a
  drain of the dirty ring into the tables. The hash commands publish what they change (\<open>Shared_Retry\<close>); for
  lists the ordinals in the events and those in the tables part, because every write back renumbers the
  elements from zero.
\<close>

declare list_free_loop.simps [code] list_copy_loop.simps [code]

fun shared_runs :: "guc \<Rightarrow> shared_env \<Rightarrow> redis_cmd list \<Rightarrow> shared_state \<Rightarrow> reply list shared_run" where
  "shared_runs g x [] S = Some (Inr [], S)"
| "shared_runs g x (c # cs) S =
     bind_sh (shared_exec g x c S) (\<lambda>y S. bind_sh (shared_runs g x cs S) (\<lambda>ys S. Some (Inr (y # ys), S)))"

text \<open>Replies of the commands, answer of the drain after them, and the list rows it leaves.\<close>

definition drained_runs :: "guc \<Rightarrow> shared_env \<Rightarrow> redis_cmd list \<Rightarrow> shared_state \<Rightarrow>
    (reply list result \<times> nat result \<times> ((bytes \<times> int), bytes option) htab) option" where
  "drained_runs g x cs S =
     map_option (\<lambda>(r, S').
       case pg_redis_persistence_sync_drain g (sx_spi_ok x) (sh_async S') of (n, A) \<Rightarrow> (r, n, t_list (as_db A)))
       (shared_runs g x cs S)"

definition roomy_env :: shared_env where
  "roomy_env = sample_env\<lparr>sx_alloc := bump_alloc 32\<rparr>"

text \<open>
  With shared storage and asynchronous persistence, two elements pushed to the left and one popped from
  the right leave the popped element in the tables: its row has ordinal 0, the event of the pop names
  ordinal 1, which no row has. A cold start brings the element back.
\<close>

lemma shared_pop_leaves_row:
  "drained_runs async_guc roomy_env [CLpush [1] [97], CLpush [1] [98], CRpop [1], CLlen [1]] (sample_shared 16) =
     Some (Inr [RNum 1, RNum 2, RText (Some [97]), RNum 1], Inr 6, [(([1], 0), Some [97]), (([1], -1), Some [98])])"
  by code_simp

text \<open>
  With shared storage and asynchronous persistence, a queue used as a queue stops the drain: after two
  elements pushed to the right and one popped from the left, the next push reuses an ordinal that an earlier
  row has, the insert violates the primary key, and the drain of that batch fails.
\<close>

lemma shared_push_blocks_drain:
  "drained_runs async_guc roomy_env [CRpush [1] [97], CRpush [1] [98], CLpop [1], CRpush [1] [99]] (sample_shared 16) =
     Some (Inr [RNum 1, RNum 2, RText (Some [97]), RNum 2], Inl UniqueViolation, [])"
  by code_simp

end
