(* ===== verification/Shared_Load.thy ===== *)
theory Shared_Load
  imports Shared_Durability
begin

text \<open>
  The cold start with shared storage, \<open>src/persistence.c\<close>: the rows of the tables go through a scratch copy
  of the entry, as in a session, and every copy is written back. How the backends agree on who loads is in
  \<open>Load_Steps\<close>, and what becomes of strings and integers in \<open>Async_Survival\<close>.
\<close>

section \<open>Rows\<close>

fun shared_load_rows :: "('r \<Rightarrow> shared_state \<Rightarrow> unit shared_run) \<Rightarrow> 'r list \<Rightarrow> shared_state \<Rightarrow> unit shared_run" where
  "shared_load_rows f [] S = Some (Inr (), S)"
| "shared_load_rows f (r # rs) S = bind_sh (f r S) (\<lambda>_ S. shared_load_rows f rs S)"

definition shared_load_scalar ::
    "shared_env \<Rightarrow> bytes \<Rightarrow> PgRedisEntry \<Rightarrow> int option \<Rightarrow> PgRedisValue \<Rightarrow> (bytea \<Rightarrow> PgRedisValue option) \<Rightarrow> bytea option \<Rightarrow>
     shared_state \<Rightarrow> unit shared_run" where
  "shared_load_scalar x key e expire unset decode raw S =
     (case raw of
        None \<Rightarrow> shared_writeback x key (load_string_meta expire (e\<lparr>e_value := unset\<rparr>)) S
      | Some raw \<Rightarrow>
          (case decode raw of
             Some v \<Rightarrow> shared_writeback x key (load_string_meta expire (e\<lparr>e_value := v\<rparr>)) S
           | None \<Rightarrow> bind_sh (shared_kv_remove key S) (\<lambda>_ S. Some (Inr (), S))))"

definition shared_load_string_row :: "shared_env \<Rightarrow> bytes \<times> store_row \<Rightarrow> shared_state \<Rightarrow> unit shared_run" where
  "shared_load_string_row x row S =
     (case row of (key, r) \<Rightarrow>
        if length key > PG_REDIS_MAX_KEY_SIZE then Some (Inr (), S)
        else bind_sh (shared_kv_upsert x key S) (\<lambda>(is_new, e) S.
          if r_type r = ''string''
          then shared_load_scalar x key e (r_expire r) (union_string (e_value e))
                 (\<lambda>raw. map_option (StringValue \<circ> Some) (pg_redis_decode_string (Some raw))) (r_value r) S
          else if r_type r = ''int''
          then shared_load_scalar x key e (r_expire r) (union_int (e_value e))
                 (\<lambda>raw. map_option IntValue (pg_redis_decode_int (Some raw))) (r_value r) S
          else Some (Inr (), S)))"

definition shared_load_hash_row ::
    "shared_env \<Rightarrow> bytes \<times> bytes \<times> bytes option \<times> int option \<Rightarrow> shared_state \<Rightarrow> unit shared_run" where
  "shared_load_hash_row x row S =
     (case row of (key, field, value, expire) \<Rightarrow>
        if length key > PG_REDIS_MAX_KEY_SIZE then Some (Inr (), S)
        else if length field > PG_REDIS_MAX_FIELD_SIZE then Some (Inr (), S)
        else bind_sh (shared_kv_upsert x key S) (\<lambda>(is_new, e) S.
          shared_writeback x key (load_hash_entry is_new e field value expire) S))"

definition shared_load_list_row ::
    "shared_env \<Rightarrow> bytes \<times> int \<times> bytes option \<times> int option \<Rightarrow> shared_state \<Rightarrow> unit shared_run" where
  "shared_load_list_row x row S =
     (case row of (key, ord, value, expire) \<Rightarrow>
        if length key > PG_REDIS_MAX_KEY_SIZE then Some (Inr (), S)
        else bind_sh (shared_kv_upsert x key S) (\<lambda>(is_new, e) S.
          shared_writeback x key (load_list_entry is_new e ord value expire) S))"

definition shared_do_load :: "shared_env \<Rightarrow> int \<Rightarrow> db \<Rightarrow> shared_state \<Rightarrow> unit shared_run" where
  "shared_do_load x sql_now d S =
     (if \<not> sx_spi_ok x then Some (Inl SpiConnectFailed, S)
      else bind_sh (shared_load_rows (shared_load_string_row x) (select_strings sql_now d) S) (\<lambda>_ S.
           bind_sh (shared_load_rows (shared_load_hash_row x) (select_hashes sql_now d) S) (\<lambda>_ S.
           shared_load_rows (shared_load_list_row x) (select_lists sql_now d) S)))"

section \<open>A hash\<close>

lemma clear_dirty_items [simp]: "hash_dirty_items (hash_clear_dirty h) = []" "h_tombstones (hash_clear_dirty h) = h_tombstones h"
  by (auto simp: hash_dirty_items_def hash_clear_dirty_def hash_seq_def hash_map_entries_def filter_empty_conv)

text \<open>A row of a hash that is in the keyspace: no field is dirty when the copy is written back in place.\<close>

lemma load_hash_row_dropped:
  assumes ok: "joint_ok (sx_hash x) S" and l: "live_of (sx_now x) S k = Some (RHash m, t)"
    and len: "length k \<le> PG_REDIS_MAX_KEY_SIZE" "length f \<le> PG_REDIS_MAX_FIELD_SIZE"
  obtains S' where "shared_load_hash_row x (k, f, v, xp) S = Some (Inr (), S')" "joint_ok (sx_hash x) S'"
    "view_of S' = (view_of S)(k \<mapsto> (RHash m, case xp of None \<Rightarrow> t | Some t' \<Rightarrow> Some t'))"
proof -
  let ?a = "ss_area (store_of S)"
  note J = joint_okD(1) [OF ok]
  obtain se where se: "hash_find (ss_keys (store_of S)) k = Some se" "\<not> se_expired (sx_now x) se" "se_abs ?a se = (RHash m, t)"
    using l by (auto simp: shared_live_find split: option.splits if_splits)
  note seok = shared_ok_entry [OF J se(1)]
  obtain p c where p: "se_value se = SharedHash p c" using se(3) by (cases "se_value se") (auto simp: se_abs_def)
  obtain r where r: "pg_redis_shared_hash_materialize p ?a = Inr r" "\<And>h. r = Some h \<Longrightarrow> h_tombstones h = []"
    using shared_hash_materialize_ok [of "sx_hash x" ?a p] seok p by (auto simp: se_ok_def split: option.splits)
  define e where "e = \<lparr>e_value = HashValue r, e_expire_at = se_expire_at se, e_has_expire = se_has_expire se, e_dirty = False,
    e_deleted = False, e_in_dirty_set = False, e_version = se_version se, e_memory_usage = 0\<rparr>"
  define e' where "e' = load_hash_entry False e f v xp"
  have up: "shared_kv_upsert x k S = Some (Inr (False, e), set_store \<lparr>ss_keys = hash_enter (ss_keys (store_of S)) k se, ss_area = ?a\<rparr> S)"
    using se p r by (simp add: shared_kv_upsert_def pg_redis_shared_store_upsert_def upsert_entry_def materialize_scratch_def e_def)
  obtain new h where s: "pg_redis_hash_set (hash_of (HashValue r)) f (cell v) = Inr (new, h)" using hash_set_Inr [OF len(2)] by blast
  have h: "h_tombstones h = []"
    using hash_set_cases [OF s] r(2) create_tombstones by (simp add: hash_of_def split: option.splits)
  have e': "e_value e' = HashValue (Some (hash_clear_dirty h))" "e_expiry e' = (case xp of None \<Rightarrow> t | Some t' \<Rightarrow> Some t')"
    using s se(3) by (auto simp: e'_def load_hash_entry_def e_def e_type_def Let_def load_child_meta_def e_expiry_def se_abs_def split: option.splits)
  define se' where "se' = \<lparr>se_value = SharedHash p c, se_expire_at = e_expire_at e', se_has_expire = e_has_expire e', se_version = e_version e'\<rparr>"
  have wb: "writeback_entry hb al (Some se) e' a = Some (Inr (), se', a)" for hb al a
    using p e'(1) h by (simp add: writeback_entry_def surgical_apply_hash_def se'_def)
  have abs: "se_abs ?a se' = (RHash m, e_expiry e')" and own: "se_owned ?a se' = se_owned ?a se" and sok: "se_ok (sx_hash x) ?a se'"
    using se(3) p seok by (simp_all add: se'_def se_defs e_expiry_def)
  let ?T = "\<lparr>ss_keys = hash_enter (ss_keys (store_of S)) k se', ss_area = ?a\<rparr>"
  have fr: "dsa_frame ?a (entry.owno ?a (hash_find (ss_keys (store_of S)) k)) ?a (se_owned ?a se')"
    using own se(1) by simp
  note P = shared_put [OF J sok fr]
  have "joint_ok (sx_hash x) (set_store ?T S)" by (rule joint_store [OF ok P(1)]) (use P(3) in simp)
  moreover have "shared_load_hash_row x (k, f, v, xp) S = Some (Inr (), set_store ?T S)"
    using len up wb by (simp add: shared_load_hash_row_def shared_writeback_def pg_redis_shared_store_writeback_def set_store_def e'_def)
  ultimately show thesis using P(2) abs e'(2) by (intro that [of "set_store ?T S"]) simp_all
qed

text \<open>The first row, which finds the string that \<open>upsert\<close> has entered.\<close>

lemma upsert_new_type:
  assumes "shared_kv_upsert x k S = Some (Inr (True, e), S')"
  shows "\<exists>se. hash_find (sh_keys S') k = Some se \<and> se_type se = PG_REDIS_TYPE_STRING"
proof -
  have "map_sum id (Pair False) z \<noteq> Inr (True, e)" for z :: "PgRedisEntry result" by (cases z) simp_all
  then show ?thesis using assms
    by (auto simp: shared_kv_upsert_def pg_redis_shared_store_upsert_def upsert_entry_def fresh_shared_entry_def set_store_def se_type_def
        split: option.splits if_splits)
qed

lemma load_hash_row_first:
  assumes al: "dsa_alloc_ok (sx_alloc x)" and ok: "joint_ok (sx_hash x) S" and l: "live_of (sx_now x) S k = None"
    and len: "length k \<le> PG_REDIS_MAX_KEY_SIZE" "length f \<le> PG_REDIS_MAX_FIELD_SIZE"
  obtains r S' where "shared_load_hash_row x (k, f, v, xp) S = Some (r, S')" "joint_ok (sx_hash x) S'"
    "\<And>j. j \<noteq> k \<Longrightarrow> view_of S' j = view_of S j" "\<And>u. r = Inr u \<Longrightarrow> view_of S' k = Some (RHash [f \<mapsto> cell v], xp)"
proof -
  obtain n e S1 where u: "shared_kv_upsert x k S = Some (Inr (n, e), S1)" "joint_ok (sx_hash x) S1" "n \<longleftrightarrow> live_of (sx_now x) S k = None"
    "abs_entry e = (if n then (RString [], None) else the (live_of (sx_now x) S k))" "view_of S1 = (view_of S)(k \<mapsto> abs_entry e)"
    by (rule kv_upsert_ok [OF ok])
  have n: "n" and ex: "e_expiry e = None" using u(3,4) l by (simp_all add: abs_entry_def)
  define e' where "e' = load_hash_entry True e f v xp"
  obtain new h where s: "pg_redis_hash_set pg_redis_hash_create f (cell v) = Inr (new, h)" using hash_set_Inr [OF len(2)] by blast
  have "hash_map pg_redis_hash_create = map_of (rev [])" by (simp add: fun_eq_iff pg_redis_hash_create_def hash_map_def)
  from hash_step_clean [OF hash_ok_create this create_tombstones len(2), of "cell v"]
  have h: "hash_ok (hash_clear_dirty h)" "hash_map (hash_clear_dirty h) = [f \<mapsto> cell v]" using s by auto
  have t: "h_tombstones h = []" using hash_set_cases [OF s] create_tombstones by simp
  have val: "e_value e' = HashValue (Some (hash_clear_dirty h))" and exp: "e_expiry e' = xp"
    using s ex by (auto simp: e'_def load_hash_entry_def hash_of_def Let_def load_child_meta_def e_expiry_def pg_redis_entry_release_value_def
        split: option.splits if_splits)
  have np: "\<not> in_place (hash_find (sh_keys S1) k) e'" using upsert_new_type [of x k S e S1] u(1) n by (auto simp: in_place_def)
  obtain r S' where w: "shared_writeback x k e' S1 = Some (r, S')" "joint_ok (sx_hash x) S'" "\<And>j. j \<noteq> k \<Longrightarrow> view_of S' j = view_of S1 j"
    "\<And>u. r = Inr u \<Longrightarrow> view_of S' = (view_of S1)(k \<mapsto> abs_entry e')"
    by (rule kv_writeback_ok [OF al u(2) _ np]) (use val h(1) t in simp_all)
  have "abs_entry e' = (RHash [f \<mapsto> cell v], xp)" by (simp add: abs_entry_def val exp h(2))
  then show thesis using u(1,5) n w len
    by (intro that [of r S']) (simp_all add: shared_load_hash_row_def e'_def)
qed

text \<open>
  C40: The cold start with shared storage loads only the first field of every hash: of the rows of one key
  that is not in the keyspace, in whatever order the query returns them, the first is entered and all others
  leave the hash as it is. The load reports success.
\<close>

theorem shared_load_keeps_first_field:
  assumes "dsa_alloc_ok (sx_alloc x)" "joint_ok (sx_hash x) S" "live_of (sx_now x) S k = None" "fresh_at (sx_now x) xp"
    and "length k \<le> PG_REDIS_MAX_KEY_SIZE" "length f \<le> PG_REDIS_MAX_FIELD_SIZE" "\<forall>(f, v) \<in> set fvs. length f \<le> PG_REDIS_MAX_FIELD_SIZE"
  shows "\<exists>r S'. shared_load_rows (shared_load_hash_row x) (map (\<lambda>(f, v). (k, f, v, xp)) ((f, v) # fvs)) S = Some (r, S') \<and>
    joint_ok (sx_hash x) S' \<and> (r = Inr () \<longrightarrow> view_of S' k = Some (RHash [f \<mapsto> cell v], xp))"
proof -
  have rest: "\<exists>S'. shared_load_rows (shared_load_hash_row x) (map (\<lambda>(f, v). (k, f, v, xp)) fvs) S1 = Some (Inr (), S') \<and>
      joint_ok (sx_hash x) S' \<and> view_of S' k = view_of S1 k"
    if "joint_ok (sx_hash x) S1" "view_of S1 k = Some (RHash m, xp)" for S1 m
    using that assms(7)
  proof (induction fvs arbitrary: S1)
    case (Cons fv fvs)
    obtain f v where fv: "fv = (f, v)" by force
    have l: "live_of (sx_now x) S1 k = Some (RHash m, xp)"
      using Cons.prems(2) assms(4) by (auto simp: shared_live_def drop_expired_def expired_at_def fresh_at_def split: option.splits)
    have len: "length f \<le> PG_REDIS_MAX_FIELD_SIZE" using Cons.prems(3) fv by simp
    obtain S2 where h: "shared_load_hash_row x (k, f, v, xp) S1 = Some (Inr (), S2)" "joint_ok (sx_hash x) S2"
      "view_of S2 = (view_of S1)(k \<mapsto> (RHash m, case xp of None \<Rightarrow> xp | Some t' \<Rightarrow> Some t'))"
      by (rule load_hash_row_dropped [OF Cons.prems(1) l assms(5) len])
    then have "view_of S2 k = Some (RHash m, xp)" by (cases xp) simp_all
    then obtain S' where "shared_load_rows (shared_load_hash_row x) (map (\<lambda>(f, v). (k, f, v, xp)) fvs) S2 = Some (Inr (), S')"
      "joint_ok (sx_hash x) S'" "view_of S' k = view_of S2 k" using Cons.IH [OF h(2)] Cons.prems(3) by auto
    then show ?case using h Cons.prems(2) \<open>view_of S2 k = Some (RHash m, xp)\<close> by (simp add: fv)
  qed simp
  obtain r S1 where first: "shared_load_hash_row x (k, f, v, xp) S = Some (r, S1)" "joint_ok (sx_hash x) S1"
    "\<And>u. r = Inr u \<Longrightarrow> view_of S1 k = Some (RHash [f \<mapsto> cell v], xp)"
    by (rule load_hash_row_first [OF assms(1-3,5,6), of v xp]) blast
  show ?thesis
  proof (cases r)
    case (Inl err)
    then show ?thesis using first by simp
  next
    case (Inr u)
    then show ?thesis using first rest [OF first(2) first(3) [OF Inr]] by auto
  qed
qed

theorem shared_load_keeps_first_field_witness:
  "\<exists>S'. shared_load_rows (shared_load_hash_row roomy_env) [([104], [97], Some [1], None), ([104], [98], Some [2], None)] (sample_shared 4) =
     Some (Inr (), S') \<and> view_of S' [104] = Some (RHash [[97] \<mapsto> [1]], None)"
proof -
  have "map_option fst (shared_load_rows (shared_load_hash_row roomy_env) [([104], [97], Some [1], None), ([104], [98], Some [2], None)]
      (sample_shared 4)) = Some (Inr ())" by code_simp
  then show ?thesis
    using shared_load_keeps_first_field [of roomy_env "sample_shared 4" "[104]" None "[97]" "[([98], Some [2])]" "Some [1]"]
    by (auto simp: roomy_env_def sample_env_def sample_shared_ok sample_live bump_alloc_ok fresh_at_def cell_def
        PG_REDIS_MAX_KEY_SIZE_def PG_REDIS_MAX_FIELD_SIZE_def)
qed

section \<open>A list\<close>

lemma load_list_entry_vals:
  assumes "is_new \<or> e_type e \<noteq> PG_REDIS_TYPE_LIST \<Longrightarrow> xs = []"
    and "\<not> is_new \<Longrightarrow> e_type e = PG_REDIS_TYPE_LIST \<Longrightarrow> list_vals (list_of (e_value e)) = xs"
  shows "\<exists>l. e_value (load_list_entry is_new e n v xp) = ListValue (Some l) \<and> list_vals l = xs @ [cell v]"
proof -
  have "l_nodes (snd (pg_redis_list_rpush w l)) \<noteq> []" for w l
    using list_vals_rpush [of w l] by (auto simp: list_vals_def)
  then show ?thesis using assms by (auto simp: load_list_entry_def Let_def list_of_def)
qed

lemma load_list_entry_expiry:
  "e_expiry (load_list_entry is_new e n v xp) = (case xp of None \<Rightarrow> e_expiry e | Some t \<Rightarrow> Some t)"
  by (simp add: load_list_entry_def load_child_meta_def pg_redis_entry_release_value_def e_expiry_def Let_def split: option.splits)

definition listed :: "int \<Rightarrow> shared_state \<Rightarrow> bytes \<Rightarrow> bytes list \<Rightarrow> bool" where
  "listed now S k xs \<longleftrightarrow> (\<exists>t. live_of now S k = Some (RList xs, t)) \<or> live_of now S k = None \<and> xs = []"

lemma load_list_row_appends:
  assumes al: "dsa_alloc_ok (sx_alloc x)" and ok: "joint_ok (sx_hash x) S" and l: "listed (sx_now x) S k xs" and fr: "fresh_at (sx_now x) xp"
    and len: "length k \<le> PG_REDIS_MAX_KEY_SIZE" "int (length (cell v)) \<le> UINT16_MAX"
  obtains r S' where "shared_load_list_row x (k, n, v, xp) S = Some (r, S')" "joint_ok (sx_hash x) S'"
    "\<And>u. r = Inr u \<Longrightarrow> listed (sx_now x) S' k (xs @ [cell v]) \<and> live_of (sx_now x) S' k \<noteq> None"
proof -
  obtain new e S1 where u: "shared_kv_upsert x k S = Some (Inr (new, e), S1)" "joint_ok (sx_hash x) S1" "new \<longleftrightarrow> live_of (sx_now x) S k = None"
    "abs_entry e = (if new then (RString [], None) else the (live_of (sx_now x) S k))" "view_of S1 = (view_of S)(k \<mapsto> abs_entry e)" "scratch_full e"
    by (rule kv_upsert_ok [OF ok])
  note L = live_old [OF u(3,4)]
  define e' where "e' = load_list_entry new e n v xp"
  have old: "abs_value (e_value e) = RList xs" if "\<not> new" using l L(1) [OF that] by (auto simp: listed_def abs_entry_def)
  have "\<exists>l. e_value e' = ListValue (Some l) \<and> list_vals l = xs @ [cell v]" unfolding e'_def
  proof (rule load_list_entry_vals)
    assume "new \<or> e_type e \<noteq> PG_REDIS_TYPE_LIST"
    then show "xs = []" using old l L(4) by (cases new; cases "e_value e") (auto simp: listed_def e_type_def)
  next
    assume "\<not> new" "e_type e = PG_REDIS_TYPE_LIST"
    then show "list_vals (list_of (e_value e)) = xs" using old by (cases "e_value e") (auto simp: list_of_def e_type_def split: option.splits)
  qed
  then obtain l where val: "e_value e' = ListValue (Some l)" "list_vals l = xs @ [cell v]" by blast
  have short: "int (length w) \<le> UINT16_MAX" if "w \<in> set xs" for w
  proof (cases new)
    case True
    then show ?thesis using l L(4) that by (auto simp: listed_def)
  next
    case False
    from old [OF False] that u(6) show ?thesis by (cases "e_value e") (auto simp: scratch_full_def split: option.splits)
  qed
  have ex: "\<not> expired_at (sx_now x) (w, e_expiry e')" for w
    using L(2) fr by (auto simp: e'_def load_list_entry_expiry expired_at_def fresh_at_def split: option.splits)
  have np: "\<not> in_place (hash_find (sh_keys S1) k) e'" using val(1) by (simp add: in_place_def e_type_def)
  obtain r S' where w: "shared_writeback x k e' S1 = Some (r, S')" "joint_ok (sx_hash x) S'"
    "\<And>u. r = Inr u \<Longrightarrow> view_of S' = (view_of S1)(k \<mapsto> abs_entry e')"
    by (rule kv_writeback_ok [OF al u(2) _ np]) (use val short len(2) in auto)
  have "live_of (sx_now x) S' k = Some (RList (xs @ [cell v]), e_expiry e')" if "r = Inr u" for u
    using w(3) [OF that] ex by (simp add: shared_live_def drop_expired_def abs_entry_def val)
  then show thesis using u(1) w len(1) by (intro that [of r S']) (auto simp: shared_load_list_row_def e'_def listed_def)
qed

text \<open>
  With shared storage the rows of a list are appended to the list that the keyspace has: a load into an
  empty keyspace brings the list back in its order, and a second load, after a failed one or by a second
  loader, doubles it.
\<close>

lemma shared_load_appends_list:
  assumes "dsa_alloc_ok (sx_alloc x)" "joint_ok (sx_hash x) S" "listed (sx_now x) S k xs" "fresh_at (sx_now x) xp"
    and "length k \<le> PG_REDIS_MAX_KEY_SIZE" "\<forall>(n, v) \<in> set nvs. int (length (cell v)) \<le> UINT16_MAX"
  shows "\<exists>r S'. shared_load_rows (shared_load_list_row x) (map (\<lambda>(n, v). (k, n, v, xp)) nvs) S = Some (r, S') \<and>
    joint_ok (sx_hash x) S' \<and> (r = Inr () \<longrightarrow> listed (sx_now x) S' k (xs @ map (cell \<circ> snd) nvs))"
  using assms(2,3,6)
proof (induction nvs arbitrary: S xs)
  case (Cons nv nvs)
  obtain n v where nv: "nv = (n, v)" by force
  have len: "int (length (cell v)) \<le> UINT16_MAX" using Cons.prems(3) nv by simp
  obtain r S1 where h: "shared_load_list_row x (k, n, v, xp) S = Some (r, S1)" "joint_ok (sx_hash x) S1"
    "\<And>u. r = Inr u \<Longrightarrow> listed (sx_now x) S1 k (xs @ [cell v])"
    by (rule load_list_row_appends [OF assms(1) Cons.prems(1,2) assms(4,5) len, of n]) blast
  show ?case
  proof (cases r)
    case (Inl err)
    then show ?thesis using h by (simp add: nv)
  next
    case (Inr u)
    then show ?thesis using h Cons.IH [OF h(2) h(3) [OF Inr]] Cons.prems(3) by (auto simp: nv)
  qed
qed simp

end
