(* ===== verification/Async_Survival.thy ===== *)
theory Async_Survival
  imports Shared_Load
begin

text \<open>
  From a command with shared storage to the next cold start: the events that commands on strings and integers
  publish, the drains that write them to the tables, and the load of these tables into an empty keyspace. The
  invariant is that the tables, with the pending events applied in their order, hold a row for every key, and
  that the row stands for what the keyspace shows.
\<close>

section \<open>Tables and pending events\<close>

fun is_upsert :: "change \<Rightarrow> bool" where
  "is_upsert (KeyUpsert k e tlv) \<longleftrightarrow> True"
| "is_upsert _ \<longleftrightarrow> False"

definition tracks :: "(bytes \<Rightarrow> store_row option) \<Rightarrow> async_state \<Rightarrow> bool" where
  "tracks rows A \<longleftrightarrow> htab_ok (t_store (as_db A)) \<and> t_hash (as_db A) = [] \<and> t_list (as_db A) = [] \<and>
     (\<exists>cs. list_all2 (decodes (as_area A)) (ring_queue (as_ring A)) cs \<and> list_all is_upsert cs \<and> store_after cs (as_db A) = rows)"

lemma upserts_only:
  assumes "list_all is_upsert cs"
  shows "every hf_ups cs = []" "every hf_dels cs = []" "every li_inss cs = []" "every li_dels cs = []" "every key_dels cs = []"
proof -
  have "every hf_ups cs = [] \<and> every hf_dels cs = [] \<and> every li_inss cs = [] \<and> every li_dels cs = [] \<and> every key_dels cs = []"
    using assms
  proof (induction cs)
    case (Cons c cs)
    then show ?case by (cases c) auto
  qed simp
  then show "every hf_ups cs = []" "every hf_dels cs = []" "every li_inss cs = []" "every li_dels cs = []" "every key_dels cs = []"
    by simp_all
qed

lemma store_after_upserts:
  "list_all is_upsert cs \<Longrightarrow>
   store_after cs d k = (case map_of (rev (every up_rows cs)) k of Some r \<Rightarrow> Some r | None \<Rightarrow> hash_find (t_store d) k)"
  by (simp add: store_after_def upserts_only)

lemma store_after_snoc:
  assumes "list_all is_upsert cs"
  shows "store_after (cs @ [KeyUpsert k e tlv]) d = (store_after cs d)(k \<mapsto> change_row e tlv)"
proof -
  have "list_all is_upsert (cs @ [KeyUpsert k e tlv])" using assms by simp
  then show ?thesis using assms by (auto simp: store_after_upserts fun_eq_iff split: option.splits)
qed

lemma upsert_plans:
  assumes "list_all is_upsert cs" "drain_plans (fst (change_vecs cs)) (snd (change_vecs cs)) d = Inr d'"
  shows "t_hash d' = t_hash d" "t_list d' = t_list d" "htab_ok (t_store d) \<Longrightarrow> htab_ok (t_store d')" "hash_find (t_store d') = store_after cs d"
proof -
  have "d' = d\<lparr>t_store := insert_on_conflict_update (distinct_on_last (every up_rows cs)) (t_store d)\<rparr>"
    using assms(2) unfolding change_vecs_def upserts_only [OF assms(1)]
    by (auto simp: drain_plans_def run_plan_simps sql_store_upsert_def sql_hash_field_delete_def sql_hash_field_upsert_def
        sql_list_item_delete_def sql_list_item_insert_def sql_store_delete_def fk_ok_def insert_on_conflict_update_def case_prod_unfold)
  then show "t_hash d' = t_hash d" "t_list d' = t_list d" "htab_ok (t_store d) \<Longrightarrow> htab_ok (t_store d')" "hash_find (t_store d') = store_after cs d"
    by (auto simp: fun_eq_iff store_after_upserts [OF assms(1)] find_insert_rows map_of_rev_distinct_on_last split: option.splits)
qed

lemma decodes_list_kept:
  assumes "list_all2 (decodes a) q cs" "dsa_frame a F b G" "\<And>ev. ev \<in> set q \<Longrightarrow> event_used a ev \<and> event_owned ev \<inter> F = {}"
  shows "list_all2 (decodes b) q cs"
  using assms(1,3)
proof (induction q cs rule: list_all2_induct)
  case (Cons ev q c cs)
  then show ?case using decodes_kept [OF _ _ assms(2)] by auto
qed simp

text \<open>What is tracked depends on the segment only through the pending events.\<close>

lemma tracks_kept:
  assumes "tracks rows A" "dsa_frame (as_area A) F (as_area B) G" "as_ring B = as_ring A" "as_db B = as_db A"
    and "\<And>ev. ev \<in> set (ring_queue (as_ring A)) \<Longrightarrow> event_used (as_area A) ev \<and> event_owned ev \<inter> F = {}"
  shows "tracks rows B"
  using assms decodes_list_kept [OF _ assms(2,5)] unfolding tracks_def by metis

lemma tracks_store:
  assumes "tracks rows (sh_async S)" "joint_ok hb S"
    and "dsa_frame (ss_area (store_of S)) (store_owned (store_of S)) (ss_area T) G"
  shows "tracks rows (sh_async (set_store T S))"
proof (rule tracks_kept [OF assms(1)])
  show "dsa_frame (as_area (sh_async S)) (store_owned (store_of S)) (as_area (sh_async (set_store T S))) G"
    using assms(3) by (simp add: set_store_def)
qed (use joint_okD(3,4) [OF assms(2)] in simp_all)

section \<open>Drains and publications\<close>

lemma drain_tracks:
  assumes on: "in_async g" and ok: "joint_ok hb S" and tr: "tracks rows (sh_async S)"
    and dr: "pg_redis_persistence_sync_drain g spi_ok (sh_async S) = (res, A)"
  shows "tracks rows A"
proof -
  note J = joint_okD [OF ok] and on' = in_async_writes [OF on]
  have dr': "pg_redis_persistence_async_drain g spi_ok 0 (sh_async S) = (res, A)" using dr by (simp add: pg_redis_persistence_sync_drain_def)
  obtain events base R where c: "pg_redis_dirty_ring_collect (drain_batch_max 0) (as_ring (sh_async S)) = (events, base, R)" by (metis prod_cases3)
  note D = drain_cases [OF on' J(2) c dr']
  obtain cs where t: "htab_ok (t_store (as_db (sh_async S)))" "t_hash (as_db (sh_async S)) = []" "t_list (as_db (sh_async S)) = []"
    and cs: "list_all2 (decodes (as_area (sh_async S))) (queue_of S) cs" "list_all is_upsert cs" "store_after cs (as_db (sh_async S)) = rows"
    using tr by (auto simp: tracks_def)
  show ?thesis
  proof (cases "events \<noteq> [] \<and> (\<exists>n. res = Inr n)")
    case False
    then have "ring_queue (as_ring A) = queue_of S \<and> as_db A = as_db (sh_async S) \<and> as_area A = as_area (sh_async S)"
      using D(2-4) by (cases "events = []"; cases res) auto
    then show ?thesis using tr by (simp add: tracks_def)
  next
    case True
    then obtain n where n: "res = Inr n" by blast
    note N = D(5) [OF _ n]
    have len: "n = length events" using N True by blast
    have n': "n \<le> length (queue_of S)" using arg_cong [OF D(2), of length] len by simp
    have ev: "map ev_body events = take n (queue_of S)"
      using D(2) len by (metis length_map length_take min.absorb_iff2 min.left_idem min.commute take_all_iff nle_le take_take)
    have d: "list_all2 (decodes (as_area (sh_async S))) (take n (queue_of S)) (take n cs)"
      "list_all2 (decodes (as_area (sh_async S))) (drop n (queue_of S)) (drop n cs)"
      using cs(1) by (simp_all add: list_all2_takeI list_all2_dropI)
    have u: "list_all is_upsert (take n cs)" "list_all is_upsert (drop n cs)"
      using cs(2) by (auto simp: list_all_iff dest: in_set_takeD in_set_dropD)
    have "list_all2 (decodes (as_area (sh_async S))) events (take n cs)" using d(1) unfolding ev [symmetric] by (simp add: list_all2_map1)
    then have v: "drain_events (as_area (sh_async S)) events = change_vecs (take n cs)" by (rule drain_events_changes)
    have p: "drain_plans (fst (change_vecs (take n cs))) (snd (change_vecs (take n cs))) (as_db (sh_async S)) = Inr (as_db A)"
      using N True unfolding v by blast
    note U = upsert_plans [OF u(1) p]
    have q: "ring_queue (as_ring A) = drop n (queue_of S)" using N True by blast
    have fr: "dsa_frame (as_area (sh_async S)) (\<Union> (event_owned ` set (take n (queue_of S)))) (as_area A) {}"
      using drain_area [OF on' J(2) dr' [unfolded n]] by (auto simp: dsa_frame_def)
    have ap: "spills_apart (take n (queue_of S) @ drop n (queue_of S))" using J(5) by simp
    have "event_used (as_area (sh_async S)) x \<and> event_owned x \<inter> \<Union> (event_owned ` set (take n (queue_of S))) = {}"
      if "x \<in> set (drop n (queue_of S))" for x
      using ap that J(3) [OF in_set_dropD [OF that]] unfolding spills_apart_def sorted_wrt_append by blast
    from decodes_list_kept [OF d(2) fr this] have "list_all2 (decodes (as_area A)) (ring_queue (as_ring A)) (drop n cs)" unfolding q .
    moreover have "store_after (drop n cs) (as_db A) = rows"
    proof -
      have "every up_rows cs = every up_rows (take n cs) @ every up_rows (drop n cs)"
        using every_simps(3) [of up_rows "take n cs" "drop n cs"] by simp
      then have "store_after (drop n cs) (as_db A) = store_after cs (as_db (sh_async S))"
        by (auto simp: fun_eq_iff store_after_upserts [OF u(2)] store_after_upserts [OF cs(2)] store_after_upserts [OF u(1)] U(4) map_add_def split: option.splits)
      then show ?thesis using cs(3) by simp
    qed
    ultimately show ?thesis using U(1-3) t u(2) unfolding tracks_def by metis
  qed
qed

text \<open>A successful publication in flush mode: at most one drain, and the event is the last one pending.\<close>

lemma publish_steps:
  assumes on: "in_async g" and ok: "joint_ok hb S" and ev: "event_apart S ev" "decodes (as_area (sh_async S)) ev c"
    and run: "publish_blocking_loop g spi_ok PG_REDIS_ASYNC_FULL_SYNC_FLUSH others now ev spin (sh_async S) = Some (Inr u, A')"
  obtains A R where "A = sh_async S \<or> (\<exists>n. pg_redis_persistence_sync_drain g spi_ok (sh_async S) = (Inr n, A))"
    "A' = A\<lparr>as_ring := R\<rparr>" "ring_queue R = ring_queue (as_ring A) @ [ev_body ev]" "decodes (as_area A) ev c"
proof (rule publish_cases [OF joint_okD(2) [OF ok], of now ev])
  fix R assume p: "pg_redis_dirty_ring_publish now ev (as_ring (sh_async S)) = Some (Inr PG_REDIS_RING_OK, R)"
    "ring_queue R = queue_of S @ [ev_body ev]"
  then show thesis using run ev(2) by (intro that [of "sh_async S" R]) (simp_all add: publish_blocking_loop.simps)
next
  assume p: "pg_redis_dirty_ring_publish now ev (as_ring (sh_async S)) = Some (Inr PG_REDIS_RING_FULL, as_ring (sh_async S))"
    and n: "slots_of S \<le> length (queue_of S)"
  obtain r A where d: "pg_redis_persistence_sync_drain g spi_ok (sh_async S) = (r, A)" by force
  note D = joint_drain [OF on ok d]
  have loop: "(case r of Inl err \<Rightarrow> Some (Inl err, A) | Inr _ \<Rightarrow> publish_blocking_loop g spi_ok PG_REDIS_ASYNC_FULL_SYNC_FLUSH others now ev 0 A) = Some (Inr u, A')"
    using run p d by (subst (asm) publish_blocking_loop.simps) (simp split: sum.splits)
  then obtain m where m: "r = Inr m" by (cases r) simp_all
  obtain k where k: "ring_queue (as_ring A) = drop k (queue_of S)"
    "dsa_frame (as_area (sh_async S)) (\<Union> (event_owned ` set (take k (queue_of S)))) (as_area A) {}" using D(4) by blast
  have away: "event_owned ev \<inter> \<Union> (event_owned ` set (take k (queue_of S))) = {}"
    using ev(1) unfolding event_apart_def by (blast dest: in_set_takeD)
  have used: "event_used (as_area (sh_async S)) ev" using ev(1) by (simp add: event_apart_def)
  have dec: "decodes (as_area A) ev c" by (rule decodes_kept [OF ev(2) used k(2) away])
  have room: "length (ring_queue (as_ring A)) < ring_capacity (as_ring A)"
    using D(3) [OF m] n ring_okD(1) [OF joint_okD(2) [OF ok]] queue_length [OF joint_okD(2) [OF ok]] by auto
  have okA: "ring_ok 0 (as_ring A)" using joint_okD(2) [OF D(1)] by simp
  show thesis
  proof (rule publish_cases [OF okA, of now ev])
    fix R assume q: "pg_redis_dirty_ring_publish now ev (as_ring A) = Some (Inr PG_REDIS_RING_OK, R)"
      "ring_queue R = ring_queue (as_ring A) @ [ev_body ev]"
    then show thesis using loop m d dec by (intro that [of A R]) (simp_all add: publish_blocking_loop.simps)
  qed (use room in simp)
qed

lemma publish_tracks:
  assumes al: "dsa_alloc_ok (sx_alloc x)" and on: "in_async g" and full: "sx_full x = PG_REDIS_ASYNC_FULL_SYNC_FLUSH"
    and ok: "joint_ok hb S" and fits: "change_fits (KeyUpsert k e tlv)" and tr: "tracks rows (sh_async S)"
    and run: "publish_change g x (KeyUpsert k e tlv) S = Some (Inr u, S')"
  shows "tracks (rows(k \<mapsto> change_row e tlv)) (sh_async S')"
proof -
  obtain r a where enc: "encode_change (sx_alloc x) (KeyUpsert k e tlv) blank_slot (as_area (sh_async S)) = (r, a)" by force
  obtain ev where r: "r = Inr ev" using run enc by (cases r) (auto simp: publish_change_def)
  have dec: "decodes a ev (KeyUpsert k e tlv)" and fr: "dsa_frame (as_area (sh_async S)) {} a (event_owned ev)"
    using encode_change_ok [OF al fits enc] r by auto
  let ?S = "S\<lparr>sh_async := (sh_async S)\<lparr>as_area := a\<rparr>\<rparr>"
  note J = joint_okD [OF ok]
  have used: "event_used a ev" unfolding event_used_def using encode_change_used [OF enc [unfolded r]] by blast
  have K: "joint_ok hb ?S" "store_owned (store_of ?S) = store_owned (store_of S)"
    by (rule joint_async [OF ok, of "{}" _ "event_owned ev"]; use fr J(2,5) in simp)+
  have "store_owned (store_of S) \<inter> event_owned ev = {}"
    using shared_kept(4) [OF J(1), of "{}" a "event_owned ev"] fr by simp
  moreover have "event_owned y \<inter> event_owned ev = {}" if "y \<in> set (queue_of S)" for y
    using event.kept(4) [OF J(3) [OF that] fr] by simp
  ultimately have apart: "event_apart ?S ev" using used K(2) by (auto simp: event_apart_def)
  have tr': "tracks rows (sh_async ?S)" by (rule tracks_kept [OF tr, of "{}" _ "event_owned ev"]) (use fr J(3) in simp_all)
  obtain A' where A': "publish_blocking_loop g (sx_spi_ok x) PG_REDIS_ASYNC_FULL_SYNC_FLUSH (sx_drain x) (sx_now x) ev 0 (sh_async ?S) = Some (Inr u, A')"
    "S' = S\<lparr>sh_async := A'\<rparr>"
    using run enc r full by (auto simp: publish_change_def pg_redis_dirty_ring_publish_blocking_def)
  have dec': "decodes (as_area (sh_async ?S)) ev (KeyUpsert k e tlv)" using dec by simp
  obtain A R where A: "A = sh_async ?S \<or> (\<exists>n. pg_redis_persistence_sync_drain g (sx_spi_ok x) (sh_async ?S) = (Inr n, A))"
    "A' = A\<lparr>as_ring := R\<rparr>" "ring_queue R = ring_queue (as_ring A) @ [ev_body ev]" "decodes (as_area A) ev (KeyUpsert k e tlv)"
    by (rule publish_steps [OF on K(1) apart dec' A'(1)])
  have "tracks rows A" using A(1) tr' drain_tracks [OF on K(1) tr'] by blast
  then obtain cs where cs: "list_all2 (decodes (as_area A)) (ring_queue (as_ring A)) cs" "list_all is_upsert cs" "store_after cs (as_db A) = rows"
    and t: "htab_ok (t_store (as_db A))" "t_hash (as_db A) = []" "t_list (as_db A) = []" by (auto simp: tracks_def)
  have "list_all2 (decodes (as_area A)) (ring_queue R) (cs @ [KeyUpsert k e tlv])" using cs(1) A(3,4) by (simp add: list_all2_appendI)
  moreover have "list_all is_upsert (cs @ [KeyUpsert k e tlv])" "store_after (cs @ [KeyUpsert k e tlv]) (as_db A) = rows(k \<mapsto> change_row e tlv)"
    using cs(2,3) by (simp_all add: store_after_snoc)
  ultimately show ?thesis using t A'(2) A(2) unfolding tracks_def by auto
qed

section \<open>Commands\<close>

fun scalar :: "PgRedisValue \<Rightarrow> bool" where
  "scalar (StringValue (Some s)) \<longleftrightarrow> int (length s) + 5 \<le> UINT16_MAX"
| "scalar (IntValue i) \<longleftrightarrow> int64_range i"
| "scalar _ \<longleftrightarrow> False"

definition row_of :: "PgRedisEntry \<Rightarrow> store_row" where
  "row_of e = change_row e (va_data (the (pg_redis_encode_value (e_value e))))"

text \<open>Every key has an entry whose row the tables are to hold, and which the keyspace shows.\<close>

definition durable :: "hash_fn \<Rightarrow> shared_state \<Rightarrow> bool" where
  "durable hb S \<longleftrightarrow> joint_ok hb S \<and>
     (\<exists>ent. (\<forall>k e. ent k = Some e \<longrightarrow> scalar (e_value e) \<and> e_expiry e = None \<and> length k \<le> PG_REDIS_MAX_KEY_SIZE) \<and>
        tracks (\<lambda>k. map_option row_of (ent k)) (sh_async S) \<and> view_of S = (\<lambda>k. map_option abs_entry (ent k)))"

lemma upsert_tracks:
  assumes "joint_ok hb S" "tracks rows (sh_async S)" "shared_kv_upsert x key S = Some (r, S')"
  shows "tracks rows (sh_async S')"
proof -
  note J = joint_okD(1) [OF assms(1)]
  obtain n se a where u: "upsert_entry (sx_now x) key (store_of S) = Some (n, se, a)" "se_ok hb a se"
    "dsa_frame (ss_area (store_of S)) (entry.owno (ss_area (store_of S)) (hash_find (ss_keys (store_of S)) key)) a (se_owned a se)"
    using upsert_entry_ok [OF J, of "sx_now x" key] by blast
  let ?T = "\<lparr>ss_keys = hash_enter (ss_keys (store_of S)) key se, ss_area = a\<rparr>"
  have "S' = set_store ?T S" using assms(3) u(1) by (auto simp: shared_kv_upsert_def pg_redis_shared_store_upsert_def)
  then show ?thesis using tracks_store [OF assms(2,1), of ?T] shared_put(3) [OF J u(2,3)] by simp
qed

lemma writeback_tracks:
  assumes "dsa_alloc_ok (sx_alloc x)" "joint_ok (sx_hash x) S" "tracks rows (sh_async S)" "scalar (e_value e)"
    and "shared_writeback x key e S = Some (Inr u, S')"
  shows "tracks rows (sh_async S')"
proof -
  have w: "writable (ss_area (store_of S)) (hash_find (ss_keys (store_of S)) key) e"
    using assms(4) by (cases "e_value e" rule: scalar.cases)
      (auto simp: writable_def e_type_def se_type_def split: option.splits shared_value.splits)
  obtain r T where W: "pg_redis_shared_store_writeback (sx_hash x) (sx_alloc x) key e (store_of S) = Some (r, T)"
    "r = Inr () \<Longrightarrow> dsa_frame (ss_area (store_of S)) (store_owned (store_of S)) (ss_area T) (store_owned T)"
    using writeback_ok [OF assms(1) joint_okD(1) [OF assms(2)] w] by blast
  have "r = Inr ()" "S' = set_store T S" using assms(5) W(1) by (auto simp: shared_writeback_def)
  then show ?thesis using tracks_store [OF assms(3,2) W(2)] by simp
qed

lemma scalar_event:
  assumes "scalar (e_value e)" "length k \<le> PG_REDIS_MAX_KEY_SIZE" "pg_redis_encode_value (e_value e) = Some b"
  shows "change_fits (KeyUpsert k e (va_data b))" "e_type e = PG_REDIS_TYPE_STRING \<or> e_type e = PG_REDIS_TYPE_INT"
    "value_fits (e_value e)" "storable (e_value e)"
  using assms key_fits [OF assms(2)]
  by (cases "e_value e" rule: scalar.cases; auto simp: change_fits_def e_type_def UINT16_MAX_def Let_def)+

lemma scalar_encodes: "scalar v \<Longrightarrow> \<exists>b. pg_redis_encode_value v = Some b"
  by (cases v rule: scalar.cases) (simp_all add: Let_def)

text \<open>A scratch copy of a string or an integer is written back and published.\<close>

lemma mark_dirty_durable:
  assumes env: "env_fits g x" and on: "in_async g" and ok: "joint_ok (sx_hash x) S" and tr: "tracks rows (sh_async S)"
    and e: "scalar (e_value e)" "length k \<le> PG_REDIS_MAX_KEY_SIZE"
    and run: "shared_mark_dirty g x k e S = Some (Inr u, S')"
  shows "joint_ok (sx_hash x) S' \<and> tracks (rows(k \<mapsto> row_of e)) (sh_async S') \<and> view_of S' = (view_of S)(k \<mapsto> abs_entry e)"
proof -
  obtain b where b: "pg_redis_encode_value (e_value e) = Some b" using scalar_encodes [OF e(1)] by blast
  note F = scalar_event [OF e b]
  have ty: "e_type e \<noteq> PG_REDIS_TYPE_HASH" using F(2) by auto
  obtain r S1 where V: "shared_mark_dirty g x k e S = Some (r, S1)" "joint_ok (sx_hash x) S1"
    "\<And>u. r = Inr u \<Longrightarrow> view_of S1 = (view_of S)(k \<mapsto> abs_entry e)"
    by (rule mark_dirty_ok [OF env ok e(2) F(3,4) ty]) blast
  have E: "dsa_alloc_ok (sx_alloc x)" "sx_full x = PG_REDIS_ASYNC_FULL_SYNC_FLUSH" using env on by (simp_all add: env_fits_def)
  have np: "\<not> in_place (hash_find (sh_keys S) k) e" using ty by (simp add: in_place_def)
  obtain q S2 where W: "shared_writeback x k e S = Some (q, S2)" "joint_ok (sx_hash x) S2"
    by (rule kv_writeback_ok [OF E(1) ok F(4) np]) (use e(1) in auto)
  obtain v where q: "q = Inr v" using run W(1) by (cases q) (auto simp: shared_mark_dirty_def)
  have p: "publish_async_key_upsert g x k e S2 = publish_change g x (KeyUpsert k e (va_data b)) S2"
    using F(2) b by (auto simp: publish_async_key_upsert_def)
  have "publish_change g x (KeyUpsert k e (va_data b)) S2 = Some (Inr (), S')"
    using run W(1) q on p e(1)
    by (cases "publish_change g x (KeyUpsert k e (va_data b)) S2"; cases "e_value e" rule: scalar.cases)
      (auto simp: shared_mark_dirty_def in_async_def bind_sh_def split: prod.splits sum.splits)
  from publish_tracks [OF E(1) on E(2) W(2) F(1) writeback_tracks [OF E(1) ok tr e(1) W(1) [unfolded q]] this]
  have "tracks (rows(k \<mapsto> row_of e)) (sh_async S')" by (simp add: row_of_def b)
  then show ?thesis using V run by auto
qed

fun scalar_cmd :: "redis_cmd \<Rightarrow> bool" where
  "scalar_cmd (CSet k v) \<longleftrightarrow> int (length v) + 5 \<le> UINT16_MAX"
| "scalar_cmd (CIncr k) \<longleftrightarrow> True"
| "scalar_cmd (CDecr k) \<longleftrightarrow> True"
| "scalar_cmd (CGet k) \<longleftrightarrow> True"
| "scalar_cmd _ \<longleftrightarrow> False"

lemma write_durable:
  assumes env: "env_fits g x" and on: "in_async g" and d: "durable (sx_hash x) S"
    and u: "shared_kv_upsert x k S = Some (Inr (n, e0), S1)" and e: "scalar (e_value e)" "e_expiry e = e_expiry e0"
    and k: "length k \<le> PG_REDIS_MAX_KEY_SIZE" and run: "shared_mark_dirty g x k e S1 = Some (Inr v, S')"
  shows "durable (sx_hash x) S'"
proof -
  obtain ent where ok: "joint_ok (sx_hash x) S" and ent: "\<And>k e. ent k = Some e \<Longrightarrow> scalar (e_value e) \<and> e_expiry e = None \<and> length k \<le> PG_REDIS_MAX_KEY_SIZE"
    and tr: "tracks (\<lambda>k. map_option row_of (ent k)) (sh_async S)" and vw: "view_of S = (\<lambda>k. map_option abs_entry (ent k))"
    using d by (auto simp: durable_def)
  obtain n' e' S1' where U: "shared_kv_upsert x k S = Some (Inr (n', e'), S1')" "joint_ok (sx_hash x) S1'" "n' \<longleftrightarrow> live_of (sx_now x) S k = None"
    "abs_entry e' = (if n' then (RString [], None) else the (live_of (sx_now x) S k))" "view_of S1' = (view_of S)(k \<mapsto> abs_entry e')"
    by (rule kv_upsert_ok [OF ok])
  have same: "n' = n" "e' = e0" "S1' = S1" using u U(1) by simp_all
  have "e_expiry e0 = None"
  proof (cases n)
    case False
    then obtain p where "live_of (sx_now x) S k = Some p" "abs_entry e0 = p" using U(3,4) same by auto
    then have "view_of S k = Some (abs_entry e0)" by (auto simp: shared_live_def drop_expired_def split: option.splits if_splits)
    then obtain e1 where "ent k = Some e1" "abs_entry e1 = abs_entry e0" using vw by auto
    then show ?thesis using ent [of k e1] by (simp add: abs_entry_def)
  qed (use U(4) same in \<open>simp add: abs_entry_def\<close>)
  then have ex: "e_expiry e = None" using e(2) by simp
  have tr1: "tracks (\<lambda>k. map_option row_of (ent k)) (sh_async S1)" by (rule upsert_tracks [OF ok tr u])
  have "joint_ok (sx_hash x) S1" using U(2) same by simp
  note M = mark_dirty_durable [OF env on this tr1 e(1) k run]
  let ?ent = "ent(k \<mapsto> e)"
  have "(\<lambda>j. map_option row_of (?ent j)) = (\<lambda>j. map_option row_of (ent j))(k \<mapsto> row_of e)"
    "view_of S' = (\<lambda>j. map_option abs_entry (?ent j))"
    using M U(5) same vw by (auto simp: fun_eq_iff)
  then show ?thesis using M ent e(1) ex k unfolding durable_def by (intro conjI exI [of _ ?ent]) auto
qed

lemma command_durable:
  assumes env: "env_fits g x" and on: "in_async g" and d: "durable (sx_hash x) S" and c: "scalar_cmd c"
    and run: "shared_exec g x c S = Some (Inr y, S')"
  shows "durable (sx_hash x) S'"
proof -
  have a: "arg_error g c = None" using run shared_exec_arg_error [of g c _ x S] by (cases "arg_error g c") auto
  then have key: "pg_redis_check_key_len g (length (cmd_key c)) = Inr ()" by (simp add: arg_error_None)
  then have len: "length (cmd_key c) \<le> PG_REDIS_MAX_KEY_SIZE" using check_key_len_bound by blast
  have ok: "joint_ok (sx_hash x) S" using d by (simp add: durable_def)
  have incr: "durable (sx_hash x) S'" if i: "shared_incrdecr g x k delta S = Some (Inr z, S')" "cmd_key c = k" for k delta z
  proof -
    obtain n e S1 where u: "shared_kv_upsert x k S = Some (Inr (n, e), S1)" by (rule kv_upsert_ok [OF ok])
    obtain j where j: "incr_base k n e = Inr j" using i(1) u key i(2)
      by (cases "incr_base k n e") (auto simp: shared_incrdecr_def arg_checks)
    define e' where "e' = e\<lparr>e_value := IntValue (wrap64 (j + delta)), e_version := e_version e + 1\<rparr>"
    have "bind_sh (shared_mark_dirty g x k e' S1) (\<lambda>_ S. Some (Inr (wrap64 (j + delta)), S)) = Some (Inr z, S')"
      using i(1) u j key i(2) by (simp add: shared_incrdecr_def arg_checks e'_def Let_def)
    then obtain v where "shared_mark_dirty g x k e' S1 = Some (Inr v, S')"
      by (auto simp: bind_sh_def split: option.splits sum.splits)
    from write_durable [OF env on d u _ _ _ this] show ?thesis using len i(2) by (simp add: e'_def e_expiry_def)
  qed
  show ?thesis
  proof (cases c)
    case (CSet k v)
    obtain n e S1 where u: "shared_kv_upsert x k S = Some (Inr (n, e), S1)" by (rule kv_upsert_ok [OF ok])
    define e0 where "e0 = (if \<not> n \<and> e_type e \<noteq> PG_REDIS_TYPE_STRING then pg_redis_entry_release_value False e else e)"
    define e' where "e' = e0\<lparr>e_value := StringValue (Some v), e_version := e_version e0 + 1, e_dirty := True, e_deleted := False\<rparr>"
    have cv: "pg_redis_check_value_len g (length v) = Inr ()" using a CSet by (simp add: arg_error_None)
    have "bind_sh (shared_mark_dirty g x k e' S1) (\<lambda>_ S. Some (Inr (RBool True), S)) = Some (Inr y, S')"
      using run u key cv CSet by (simp add: shared_reply_def shared_set_def arg_checks e'_def e0_def Let_def)
    then obtain w where w: "shared_mark_dirty g x k e' S1 = Some (Inr w, S')"
      by (auto simp: bind_sh_def split: option.splits sum.splits)
    show ?thesis
      by (rule write_durable [OF env on d u _ _ _ w]) (use c len CSet in \<open>simp_all add: e'_def e0_def e_expiry_def pg_redis_entry_release_value_def\<close>)
  next
    case (CGet k)
    obtain ent where ent: "\<And>k e. ent k = Some e \<Longrightarrow> e_expiry e = None" and vw: "view_of S = (\<lambda>k. map_option abs_entry (ent k))"
      using d by (auto simp: durable_def)
    obtain r where r: "shared_kv_lookup_raw k S = Some (Inr r, S)" "map_option abs_entry r = view_of S k"
      by (rule kv_lookup_raw_ok [OF ok]) blast
    have "\<not> pg_redis_entry_is_expired (sx_now x) e" if re: "r = Some e" for e
    proof -
      obtain e1 where "ent k = Some e1" "abs_entry e1 = abs_entry e" using r(2) vw re by (cases "ent k") auto
      then have "\<not> e_has_expire e" using ent [of k e1] by (auto simp: abs_entry_def e_expiry_def split: if_splits)
      then show ?thesis by (simp add: pg_redis_entry_is_expired_def)
    qed
    then have "shared_kv_lookup x k S = Some (Inr r, S)" using r(1) by (simp add: shared_kv_lookup_def split: option.splits)
    then have "S' = S" using run key CGet
      by (auto simp: shared_reply_def shared_get_def arg_checks bind_sh_def split: option.splits PgRedisValue.splits sum.splits)
    then show ?thesis using d by simp
  next
    case (CIncr k)
    then show ?thesis using run incr [of k 1] by (auto simp: shared_reply_def bind_sh_def split: option.splits sum.splits)
  next
    case (CDecr k)
    then show ?thesis using run incr [of k "-1"] by (auto simp: shared_reply_def bind_sh_def split: option.splits sum.splits)
  qed (use c in simp_all)
qed

section \<open>Sessions with drains\<close>

text \<open>Commands of any backends and passes of the drain, which may fail to connect, in any order.\<close>

datatype async_step = Command shared_env redis_cmd | DrainPass bool

fun async_session :: "guc \<Rightarrow> async_step list \<Rightarrow> shared_state \<Rightarrow> reply list shared_run" where
  "async_session g [] S = Some (Inr [], S)"
| "async_session g (Command x c # ss) S =
     bind_sh (shared_exec g x c S) (\<lambda>y S. bind_sh (async_session g ss S) (\<lambda>ys S. Some (Inr (y # ys), S)))"
| "async_session g (DrainPass spi_ok # ss) S =
     async_session g ss (S\<lparr>sh_async := snd (pg_redis_persistence_sync_drain g spi_ok (sh_async S))\<rparr>)"

fun scalar_step :: "guc \<Rightarrow> hash_fn \<Rightarrow> async_step \<Rightarrow> bool" where
  "scalar_step g hb (Command x c) \<longleftrightarrow> env_fits g x \<and> sx_hash x = hb \<and> scalar_cmd c"
| "scalar_step g hb (DrainPass spi_ok) \<longleftrightarrow> True"

fun drain_passes :: "guc \<Rightarrow> nat \<Rightarrow> async_state \<Rightarrow> async_state" where
  "drain_passes g 0 A = A"
| "drain_passes g (Suc n) A = drain_passes g n (snd (pg_redis_persistence_sync_drain g True A))"

lemma drain_durable:
  assumes "in_async g" "durable hb S"
  shows "durable hb (S\<lparr>sh_async := snd (pg_redis_persistence_sync_drain g spi_ok (sh_async S))\<rparr>)"
proof -
  obtain r A where d: "pg_redis_persistence_sync_drain g spi_ok (sh_async S) = (r, A)" by force
  have ok: "joint_ok hb S" using assms(2) by (simp add: durable_def)
  show ?thesis
    using assms(2) joint_drain(1,2) [OF assms(1) ok d] drain_tracks [OF assms(1) ok _ d] by (auto simp: durable_def d)
qed

lemma session_durable:
  assumes "in_async g"
  shows "list_all (scalar_step g hb) ss \<Longrightarrow> durable hb S \<Longrightarrow> async_session g ss S = Some (Inr ys, S') \<Longrightarrow> durable hb S'"
proof (induction ss arbitrary: S ys)
  case (Cons st ss)
  show ?case
  proof (cases st)
    case (Command x c)
    then obtain y S1 zs where s: "shared_exec g x c S = Some (Inr y, S1)" "async_session g ss S1 = Some (Inr zs, S')"
      using Cons.prems(3) by (auto simp: bind_sh_def split: option.splits sum.splits)
    have "durable hb S1" using command_durable [OF _ assms _ _ s(1)] Cons.prems(1,2) Command by auto
    then show ?thesis using Cons.IH [OF _ _ s(2)] Cons.prems(1) by simp
  next
    case (DrainPass ok)
    then show ?thesis using Cons.IH [OF _ drain_durable [OF assms Cons.prems(2)]] Cons.prems(1,3) by simp
  qed
qed simp

text \<open>A pass that connects writes its batch.\<close>

lemma scalar_drain:
  assumes on: "in_async g" and d: "durable hb S"
  shows "ring_queue (as_ring (snd (pg_redis_persistence_sync_drain g True (sh_async S)))) = drop 1024 (queue_of S)"
proof -
  have ok: "joint_ok hb S" using d by (simp add: durable_def)
  obtain r A where dr: "pg_redis_persistence_async_drain g True 0 (sh_async S) = (r, A)" by force
  obtain cs where cs: "list_all2 (decodes (as_area (sh_async S))) (queue_of S) cs" "list_all is_upsert cs"
    using d by (auto simp: durable_def tracks_def)
  let ?cs = "take (drain_batch_max 0) cs"
  have "list_all2 (decodes (as_area (sh_async S))) (take (drain_batch_max 0) (queue_of S)) ?cs" using cs(1) by (rule list_all2_takeI)
  moreover have "list_all is_upsert ?cs" using cs(2) by (auto simp: list_all_iff dest: in_set_takeD)
  then have "batch_fits ?cs (as_db (sh_async S))" by (simp add: batch_fits_def upserts_only)
  ultimately have "ring_queue (as_ring A) = drop (length ?cs) (queue_of S)"
    using drain_batch_changes [OF in_async_writes [OF on] joint_okD(2) [OF ok] _ _ dr] by blast
  then show ?thesis using dr list_all2_lengthD [OF cs(1)]
    by (cases "length cs \<le> 1024") (simp_all add: pg_redis_persistence_sync_drain_def drain_batch_max_def ASYNC_DRAIN_BATCH_MAX_def)
qed

lemma scalar_drains:
  assumes on: "in_async g"
  shows "durable hb S \<Longrightarrow> durable hb (S\<lparr>sh_async := drain_passes g n (sh_async S)\<rparr>) \<and>
    ring_queue (as_ring (drain_passes g n (sh_async S))) = drop (1024 * n) (queue_of S) \<and>
    view_of (S\<lparr>sh_async := drain_passes g n (sh_async S)\<rparr>) = view_of S"
proof (induction n arbitrary: S)
  case (Suc n)
  obtain r A where d: "pg_redis_persistence_sync_drain g True (sh_async S) = (r, A)" by force
  let ?S = "S\<lparr>sh_async := A\<rparr>"
  have D: "durable hb ?S" using drain_durable [OF on Suc.prems, of True] d by simp
  have V: "view_of ?S = view_of S" using joint_drain(2) [OF on _ d] Suc.prems by (auto simp: durable_def)
  have Q: "queue_of ?S = drop 1024 (queue_of S)" using scalar_drain [OF on Suc.prems] d by simp
  from Suc.IH [OF D] V Q d show ?case by (simp add: algebra_simps)
qed simp

section \<open>The next start\<close>

lemma row_decodes:
  assumes "scalar (e_value e)"
  shows "r_type (row_of e) = ''string'' \<or> r_type (row_of e) = ''int''" "r_expire (row_of e) = e_expiry e"
    "r_type (row_of e) = ''string'' \<Longrightarrow> \<exists>raw s. r_value (row_of e) = Some raw \<and> pg_redis_decode_string (Some raw) = Some s \<and> e_value e = StringValue (Some s)"
    "r_type (row_of e) = ''int'' \<Longrightarrow> \<exists>raw i. r_value (row_of e) = Some raw \<and> pg_redis_decode_int (Some raw) = Some i \<and> e_value e = IntValue i"
proof -
  show "r_type (row_of e) = ''string'' \<or> r_type (row_of e) = ''int''" "r_expire (row_of e) = e_expiry e"
    using assms by (cases "e_value e" rule: scalar.cases; simp add: row_of_def change_row_def e_type_def e_expiry_def)+
  have enc: "r_value (row_of e) = pg_redis_encode_value (e_value e)"
    using assms by (cases "e_value e" rule: scalar.cases) (auto simp: row_of_def change_row_def e_type_def mk_bytea_def Let_def)
  show "\<exists>raw s. r_value (row_of e) = Some raw \<and> pg_redis_decode_string (Some raw) = Some s \<and> e_value e = StringValue (Some s)"
    if ty: "r_type (row_of e) = ''string''"
  proof -
    obtain s where s: "e_value e = StringValue (Some s)" "length s < 2 ^ 32"
      using assms ty by (cases "e_value e" rule: scalar.cases) (auto simp: row_of_def change_row_def e_type_def UINT16_MAX_def)
    obtain raw where "pg_redis_encode_value (e_value e) = Some raw" using scalar_encodes [OF assms] by blast
    then show ?thesis using enc decode_encode_string [OF s(2)] s(1) by auto
  qed
  show "\<exists>raw i. r_value (row_of e) = Some raw \<and> pg_redis_decode_int (Some raw) = Some i \<and> e_value e = IntValue i"
    if ty: "r_type (row_of e) = ''int''"
  proof -
    obtain i where i: "e_value e = IntValue i" "int64_range i"
      using assms ty by (cases "e_value e" rule: scalar.cases) (auto simp: row_of_def change_row_def e_type_def)
    obtain raw where "pg_redis_encode_value (e_value e) = Some raw" using scalar_encodes [OF assms] by blast
    then show ?thesis using enc decode_encode_int [OF i(2)] i(1) by auto
  qed
qed

text \<open>The row of a key that is not in the keyspace yet.\<close>

lemma load_scalar_row:
  assumes al: "dsa_alloc_ok (sx_alloc x)" and ok: "joint_ok (sx_hash x) S" and none: "view_of S k = None"
    and e: "scalar (e_value e)" "length k \<le> PG_REDIS_MAX_KEY_SIZE"
  obtains r S' where "shared_load_string_row x (k, row_of e) S = Some (r, S')" "joint_ok (sx_hash x) S'"
    "\<And>u. r = Inr u \<Longrightarrow> view_of S' = (view_of S)(k \<mapsto> abs_entry e)"
proof -
  obtain n e0 S1 where u: "shared_kv_upsert x k S = Some (Inr (n, e0), S1)" "joint_ok (sx_hash x) S1" "view_of S1 = (view_of S)(k \<mapsto> abs_entry e0)"
    by (rule kv_upsert_ok [OF ok])
  define e' where "e' = load_string_meta (e_expiry e) (e0\<lparr>e_value := e_value e\<rparr>)"
  have v: "e_value e' = e_value e" "e_expiry e' = e_expiry e" by (simp_all add: e'_def load_string_meta_def e_expiry_def split: option.splits)
  obtain b where b: "pg_redis_encode_value (e_value e') = Some b" using scalar_encodes e(1) v(1) by metis
  note F = scalar_event [OF _ e(2) b, unfolded v(1), OF e(1)]
  have np: "\<not> in_place (hash_find (sh_keys S1) k) e'" using F(2) v(1) by (auto simp: in_place_def e_type_def)
  have "storable (e_value e')" using F(4) v(1) by simp
  then obtain r S' where w: "shared_writeback x k e' S1 = Some (r, S')" "joint_ok (sx_hash x) S'"
    "\<And>u. r = Inr u \<Longrightarrow> view_of S' = (view_of S1)(k \<mapsto> abs_entry e')"
    by (rule kv_writeback_ok [OF al u(2) _ np]) (use e(1) v(1) in auto)
  have "shared_load_string_row x (k, row_of e) S = shared_writeback x k e' S1"
    using row_decodes [OF e(1)] u(1) e(2) by (auto simp: shared_load_string_row_def shared_load_scalar_def e'_def)
  then show thesis using w u(3) v by (intro that [of r S']) (simp_all add: abs_entry_def)
qed

lemma load_scalar_rows:
  assumes al: "dsa_alloc_ok (sx_alloc x)"
  shows "joint_ok (sx_hash x) S \<Longrightarrow> distinct (map fst rs) \<Longrightarrow> \<forall>(k, r) \<in> set rs. view_of S k = None \<Longrightarrow>
    \<forall>(k, r) \<in> set rs. length k \<le> PG_REDIS_MAX_KEY_SIZE \<and> (\<exists>e. r = row_of e \<and> scalar (e_value e) \<and> abs_entry e = p k) \<Longrightarrow>
    \<exists>q S'. shared_load_rows (shared_load_string_row x) rs S = Some (q, S') \<and> joint_ok (sx_hash x) S' \<and>
      (q = Inr () \<longrightarrow> view_of S' = (\<lambda>k. if k \<in> fst ` set rs then Some (p k) else view_of S k))"
proof (induction rs arbitrary: S)
  case (Cons kr rs)
  obtain k r where kr: "kr = (k, r)" by force
  obtain e where e: "r = row_of e" "scalar (e_value e)" "abs_entry e = p k" "length k \<le> PG_REDIS_MAX_KEY_SIZE" using Cons.prems(4) kr by auto
  have none: "view_of S k = None" using Cons.prems(3) kr by simp
  obtain q S1 where l: "shared_load_string_row x (k, row_of e) S = Some (q, S1)" "joint_ok (sx_hash x) S1"
    "\<And>u. q = Inr u \<Longrightarrow> view_of S1 = (view_of S)(k \<mapsto> abs_entry e)"
    by (rule load_scalar_row [OF al Cons.prems(1) none e(2,4)]) blast
  show ?case
  proof (cases q)
    case (Inl err)
    then show ?thesis using l e(1) kr by simp
  next
    case (Inr v)
    have "\<forall>(k, r) \<in> set rs. view_of S1 k = None" using Cons.prems(2,3) l(3) [OF Inr] kr by (force simp: image_iff)
    then obtain q' S' where "shared_load_rows (shared_load_string_row x) rs S1 = Some (q', S')" "joint_ok (sx_hash x) S'"
      "q' = Inr () \<longrightarrow> view_of S' = (\<lambda>k. if k \<in> fst ` set rs then Some (p k) else view_of S1 k)"
      using Cons.IH [OF l(2)] Cons.prems(2,4) by auto
    then show ?thesis using l(1) l(3) [OF Inr] Inr e(1,3) kr by (auto simp: fun_eq_iff)
  qed
qed (simp add: fun_eq_iff)

lemma start_durable:
  assumes "joint_ok hb S" "view_of S = Map.empty" "queue_of S = []" "as_db (sh_async S) = db_empty"
  shows "durable hb S"
  using assms unfolding durable_def tracks_def
  by (intro conjI exI [of _ Map.empty] exI [of _ "[]"]) (auto simp: db_empty_def store_after_def fun_eq_iff)

lemma load_durable:
  assumes d: "durable hb S" "queue_of S = []" and al: "dsa_alloc_ok (sx_alloc x)" "sx_hash x = hb" "sx_spi_ok x"
    and S1: "joint_ok hb S1" "view_of S1 = Map.empty"
  shows "\<exists>r S2. shared_do_load x sql_now (as_db (sh_async S)) S1 = Some (r, S2) \<and> joint_ok hb S2 \<and> (r = Inr () \<longrightarrow> view_of S2 = view_of S)"
proof -
  let ?d = "as_db (sh_async S)"
  obtain ent where ent: "\<And>k e. ent k = Some e \<Longrightarrow> scalar (e_value e) \<and> e_expiry e = None \<and> length k \<le> PG_REDIS_MAX_KEY_SIZE"
    and tr: "tracks (\<lambda>k. map_option row_of (ent k)) (sh_async S)" and vw: "view_of S = (\<lambda>k. map_option abs_entry (ent k))"
    using d(1) by (auto simp: durable_def)
  have ht: "htab_ok (t_store ?d)" "t_hash ?d = []" "t_list ?d = []" and find: "hash_find (t_store ?d) k = map_option row_of (ent k)" for k
    using tr d(2) by (auto simp: tracks_def store_after_def fun_eq_iff)
  have row: "\<exists>e. ent k = Some e \<and> r = row_of e" if "(k, r) \<in> set (t_store ?d)" for k r
    using hash_seq_find [OF ht(1), of k r] that find [of k] by (auto simp: hash_seq_def)
  have "\<forall>(k, r) \<in> set (t_store ?d). (r_type r = ''string'' \<or> r_type r = ''int'') \<and> unexpired sql_now r"
  proof (intro ballI, clarify)
    fix k r assume "(k, r) \<in> set (t_store ?d)"
    then obtain e where "ent k = Some e" "r = row_of e" using row by blast
    then show "(r_type r = ''string'' \<or> r_type r = ''int'') \<and> unexpired sql_now r"
      using ent [of k e] row_decodes(1,2) [of e] by (simp add: unexpired_def)
  qed
  then have sel: "select_strings sql_now ?d = t_store ?d" "select_hashes sql_now ?d = []" "select_lists sql_now ?d = []"
    using ht(2,3) by (auto simp: select_strings_def select_hashes_def select_lists_def select_join_def filter_id_conv)
  have keys: "k \<in> fst ` set (t_store ?d) \<longleftrightarrow> ent k \<noteq> None" for k
    using find [of k] map_of_eq_None_iff [of "t_store ?d" k] by (cases "ent k") (auto simp: hash_find_def)
  have "\<forall>(k, r) \<in> set (t_store ?d). length k \<le> PG_REDIS_MAX_KEY_SIZE \<and>
      (\<exists>e. r = row_of e \<and> scalar (e_value e) \<and> abs_entry e = the (map_option abs_entry (ent k)))"
    using row ent by fastforce
  then obtain q S2 where l: "shared_load_rows (shared_load_string_row x) (t_store ?d) S1 = Some (q, S2)" "joint_ok (sx_hash x) S2"
    "q = Inr () \<longrightarrow> view_of S2 = (\<lambda>k. if k \<in> fst ` set (t_store ?d) then Some (the (map_option abs_entry (ent k))) else view_of S1 k)"
    using load_scalar_rows [OF al(1), of S1 "t_store ?d" "\<lambda>k. the (map_option abs_entry (ent k))"] S1 al(2) ht(1)
    by (auto simp: htab_ok_def)
  have "view_of S2 = view_of S" if "q = Inr ()"
    using l(3) that keys S1(2) vw by (auto simp: fun_eq_iff)
  then show ?thesis using l(1,2) al sel by (cases q) (auto simp: shared_do_load_def)
qed


definition sample_steps :: "async_step list" where
  "sample_steps = [Command roomy_env (CSet [107] [118]), Command roomy_env (CIncr [110]), DrainPass True, Command roomy_env (CIncr [110])]"


end
