(* ===== verification/Jobs.thy ===== *)
theory Jobs
  imports Flush Ttl
begin

text \<open>
  The scheduled jobs of \<open>src/jobs.c\<close>, the snapshot of \<open>src/persistence.c\<close> that one of them takes, and the
  commands \<open>SAVE\<close>, \<open>BGSAVE\<close> and \<open>RUN_JOB\<close> of \<open>src/pg_redis.c\<close>. A job runs in a subtransaction: when its handler
  fails, its writes to the tables are undone, while the memory of the backend stays as the handler left it.
  PostgreSQL's \<open>escape_json\<close> and \<open>timestamptz_out\<close>, the clock and the message of an error are parameters.
\<close>

section \<open>Tables and environment\<close>

record job =
  j_type :: string
  j_interval :: int
  j_enabled :: bool
  j_last_run :: "int option"
  j_next_run :: "int option"
  j_last_error :: "string option"

record job_stat =
  js_total_runs :: int
  js_successful_runs :: int
  js_failed_runs :: int
  js_last_duration_ms :: int
  js_last_success :: "int option"
  js_last_failure :: "int option"
  js_last_error :: "string option"

record job_world =
  jw_backend :: backend
  jw_db :: db
  jw_snapshots :: "(int \<times> bytes) list"
  jw_jobs :: "(int, job) htab"
  jw_stats :: "(int, job_stat) htab"

record job_env =
  jx_guc :: guc
  jx_now :: int
  jx_clock :: "bytes \<Rightarrow> int"
  jx_spi_ok :: bool
  jx_insert_ok :: bool
  jx_time :: "int \<Rightarrow> (int \<times> int) \<times> (int \<times> int)"
  jx_message :: "pg_error \<Rightarrow> string"
  jx_escape_json :: "bytes \<Rightarrow> bytes"
  jx_timestamptz_out :: "int \<Rightarrow> bytes"

section \<open>Snapshot\<close>

definition ascii :: "string \<Rightarrow> bytes" where
  "ascii s = map of_char s"

text \<open>The loops with a \<open>first\<close> flag: a comma before every item but the first.\<close>

fun json_items :: "bool \<Rightarrow> bytes list \<Rightarrow> bytes" where
  "json_items first [] = []"
| "json_items first (x # xs) = (if first then [] else ascii '','') @ x @ json_items False xs"

definition serialize_entry_value_json :: "(bytes \<Rightarrow> bytes) \<Rightarrow> PgRedisEntry \<Rightarrow> bytes" where
  "serialize_entry_value_json escape_json e =
     (case e_value e of
        StringValue s \<Rightarrow>
          ascii ''{'' @ ascii ''\"value\":'' @
          (case s of None \<Rightarrow> ascii ''\"\"'' | Some s \<Rightarrow> escape_json s) @ ascii ''}''
      | IntValue i \<Rightarrow> ascii ''{\"value\":'' @ snprintf_int64 i @ ascii ''}''
      | HashValue h \<Rightarrow>
          ascii ''{\"fields\":{'' @
          (case h of None \<Rightarrow> []
           | Some h \<Rightarrow> json_items True (map (\<lambda>(f, x). escape_json f @ ascii '':'' @ escape_json (hf_value x)) (hash_seq (h_fields h)))) @
          ascii ''}}''
      | ListValue l \<Rightarrow>
          ascii ''{\"items\":['' @
          (case l of None \<Rightarrow> [] | Some l \<Rightarrow> json_items True (map (\<lambda>n. escape_json (ln_value n)) (l_nodes l))) @
          ascii '']}'')"

definition snapshot_item :: "job_env \<Rightarrow> bytes \<times> PgRedisEntry \<Rightarrow> bytes" where
  "snapshot_item x ke =
     (case ke of (key, e) \<Rightarrow>
        ascii ''{'' @ ascii ''\"key\":'' @ jx_escape_json x key @ ascii '',\"type\":'' @
        jx_escape_json x (ascii (pg_redis_type_name (e_type e))) @ ascii '',\"value\":'' @
        serialize_entry_value_json (jx_escape_json x) e @
        (if e_has_expire e then ascii '',\"expire_at\":'' @ jx_escape_json x (jx_timestamptz_out x (e_expire_at e)) else []) @
        ascii ''}'')"

fun snapshot_loop :: "job_env \<Rightarrow> (bytes \<times> PgRedisEntry) list \<Rightarrow> bool \<Rightarrow> int \<Rightarrow> bytes \<Rightarrow> int \<times> bytes" where
  "snapshot_loop x [] first count json = (count, json)"
| "snapshot_loop x ((key, e) # es) first count json =
     (if pg_redis_entry_is_expired (jx_clock x key) e then snapshot_loop x es first count json
      else snapshot_loop x es False (count + 1) (json @ (if first then [] else ascii '','') @ snapshot_item x (key, e)))"

definition snapshot_row :: "job_env \<Rightarrow> backend \<Rightarrow> int \<times> bytes" where
  "snapshot_row x b = (case snapshot_loop x (hash_seq (store b)) True 0 (ascii ''['') of (count, json) \<Rightarrow> (count, json @ ascii '']''))"

definition pg_redis_persistence_save_snapshot :: "job_env \<Rightarrow> job_world \<Rightarrow> unit result \<times> job_world" where
  "pg_redis_persistence_save_snapshot x W =
     (let row = snapshot_row x (jw_backend W)
      in if \<not> jx_spi_ok x then (Inl SpiConnectFailed, W)
         else if \<not> jx_insert_ok x then (Inl SnapshotInsertFailed, W)
         else (Inr (), W\<lparr>jw_snapshots := jw_snapshots W @ [row]\<rparr>))"

section \<open>Jobs\<close>

text \<open>The answer of a handler with its message, or the error it raised.\<close>

definition dispatch_job :: "job_env \<Rightarrow> string option \<Rightarrow> job_world \<Rightarrow> (bool \<times> string option) result \<times> job_world" where
  "dispatch_job x job_type W =
     (case job_type of
        None \<Rightarrow> (Inr (False, Some ''missing job_type''), W)
      | Some t \<Rightarrow>
          if t = ''ttl_cleanup''
          then (Inr (True, None), W\<lparr>jw_backend := snd (pg_redis_ttl_sweep (jx_clock x) (jw_backend W))\<rparr>)
          else if t = ''snapshot_save''
          then (case pg_redis_persistence_save_snapshot x W of (r, W) \<Rightarrow> (map_sum id (\<lambda>_. (True, None)) r, W))
          else if t = ''flush_dirty_keys''
          then (case pg_redis_persistence_flush_dirty_batch (jx_guc x) (jx_spi_ok x) (jw_db W) (jw_backend W) of
                  (Inl err, b) \<Rightarrow> (Inl err, W\<lparr>jw_backend := b\<rparr>)
                | (Inr d, b) \<Rightarrow> (Inr (True, None), W\<lparr>jw_db := d, jw_backend := b\<rparr>))
          else if t = ''aof_rewrite'' then (Inr (False, Some ''aof_rewrite is not implemented in v0.1''), W)
          else (Inr (False, Some (''unknown job_type '' @ ''\"'' @ t @ ''\"'')), W))"

definition job_update :: "int \<Rightarrow> string option \<Rightarrow> bool \<Rightarrow> job \<Rightarrow> job" where
  "job_update now last_error success j =
     j\<lparr>j_last_run := Some now, j_next_run := Some (now + j_interval j),
       j_last_error := if success then None else last_error\<rparr>"

definition stat_upsert :: "int \<Rightarrow> string option \<Rightarrow> int \<Rightarrow> bool \<Rightarrow> job_stat option \<Rightarrow> job_stat" where
  "stat_upsert now last_error duration_ms success old =
     (case old of
        None \<Rightarrow>
          \<lparr>js_total_runs = 1, js_successful_runs = (if success then 1 else 0), js_failed_runs = (if success then 0 else 1),
           js_last_duration_ms = duration_ms, js_last_success = (if success then Some now else None),
           js_last_failure = (if success then None else Some now), js_last_error = (if success then None else last_error)\<rparr>
      | Some s \<Rightarrow>
          s\<lparr>js_total_runs := js_total_runs s + 1,
            js_successful_runs := js_successful_runs s + (if success then 1 else 0),
            js_failed_runs := js_failed_runs s + (if success then 0 else 1),
            js_last_duration_ms := duration_ms,
            js_last_success := if success then Some now else js_last_success s,
            js_last_failure := if success then js_last_failure s else Some now,
            js_last_error := if success then js_last_error s else last_error\<rparr>)"

definition update_job_row :: "int \<Rightarrow> int \<Rightarrow> string option \<Rightarrow> int \<Rightarrow> bool \<Rightarrow> job_world \<Rightarrow> job_world" where
  "update_job_row now job_id last_error duration_ms success W =
     W\<lparr>jw_jobs := (case hash_find (jw_jobs W) job_id of
                     None \<Rightarrow> jw_jobs W
                   | Some j \<Rightarrow> hash_enter (jw_jobs W) job_id (job_update now last_error success j)),
       jw_stats := hash_enter (jw_stats W) job_id
                     (stat_upsert now last_error duration_ms success (hash_find (jw_stats W) job_id))\<rparr>"

text \<open>C division truncates towards zero.\<close>

definition job_duration :: "(int \<times> int) \<times> (int \<times> int) \<Rightarrow> int" where
  "job_duration t =
     (case t of ((sec1, usec1), (sec2, usec2)) \<Rightarrow>
        let du = usec2 - usec1;
            d = (sec2 - sec1) * 1000 + sgn du * (\<bar>du\<bar> div 1000)
        in if d < 0 then 0 else d)"

definition pg_redis_jobs_run_one :: "job_env \<Rightarrow> int \<Rightarrow> job_world \<Rightarrow> bool \<times> job_world" where
  "pg_redis_jobs_run_one x job_id W =
     (if \<not> jx_spi_ok x then (False, W)
      else case hash_find (jw_jobs W) job_id of
        None \<Rightarrow> (False, W)
      | Some j \<Rightarrow>
          if \<not> j_enabled j then (False, W)
          else case dispatch_job x (Some (j_type j)) W of (r, W1) \<Rightarrow>
            let success = (case r of Inr (ok, _) \<Rightarrow> ok | Inl _ \<Rightarrow> False);
                err_msg = (case r of Inr (_, msg) \<Rightarrow> msg | Inl err \<Rightarrow> Some (jx_message x err));
                W2 = (if success then W1 else W1\<lparr>jw_db := jw_db W, jw_snapshots := jw_snapshots W\<rparr>)
            in (success,
                update_job_row (jx_now x) job_id
                  (if success then None else case err_msg of None \<Rightarrow> Some ''unknown error'' | Some msg \<Rightarrow> Some msg)
                  (job_duration (jx_time x job_id)) success W2))"

definition job_due :: "int \<Rightarrow> job \<Rightarrow> bool" where
  "job_due now j \<longleftrightarrow> j_enabled j \<and> (case j_next_run j of None \<Rightarrow> False | Some t \<Rightarrow> t \<le> now)"

definition due_ids :: "int \<Rightarrow> (int, job) htab \<Rightarrow> int list" where
  "due_ids now jobs = map fst (sort_key (\<lambda>(_, j). the (j_next_run j)) (filter (\<lambda>(_, j). job_due now j) (hash_seq jobs)))"

fun run_ids :: "job_env \<Rightarrow> int list \<Rightarrow> job_world \<Rightarrow> int \<times> job_world" where
  "run_ids x [] W = (0, W)"
| "run_ids x (job_id # ids) W =
     (if job_id = 0 then run_ids x ids W
      else case pg_redis_jobs_run_one x job_id W of (ok, W) \<Rightarrow>
        case run_ids x ids W of (cnt, W) \<Rightarrow> (if ok then cnt + 1 else cnt, W))"

definition pg_redis_jobs_run_due :: "job_env \<Rightarrow> job_world \<Rightarrow> int \<times> job_world" where
  "pg_redis_jobs_run_due x W = (if \<not> jx_spi_ok x then (0, W) else run_ids x (due_ids (jx_now x) (jw_jobs W)) W)"

section \<open>Commands\<close>

text \<open>A loaded backend; \<open>job_id\<close> is the next value of the sequence.\<close>

definition pg_redis_save :: "job_env \<Rightarrow> job_world \<Rightarrow> bool result \<times> job_world" where
  "pg_redis_save x W = (case pg_redis_persistence_save_snapshot x W of (r, W) \<Rightarrow> (map_sum id (\<lambda>_. True) r, W))"

definition pg_redis_bgsave :: "job_env \<Rightarrow> int \<Rightarrow> job_world \<Rightarrow> bool \<times> job_world" where
  "pg_redis_bgsave x job_id W =
     (if \<not> jx_spi_ok x then (False, W)
      else (True, W\<lparr>jw_jobs := hash_enter (jw_jobs W) job_id
             \<lparr>j_type = ''snapshot_save'', j_interval = 3600 * 1000000, j_enabled = True, j_last_run = None,
              j_next_run = Some (jx_now x), j_last_error = None\<rparr>\<rparr>))"

definition pg_redis_bgrewriteaof :: "job_world \<Rightarrow> bool \<times> job_world" where
  "pg_redis_bgrewriteaof W = (False, W)"

definition pg_redis_run_job :: "job_env \<Rightarrow> int \<Rightarrow> job_world \<Rightarrow> bool \<times> job_world" where
  "pg_redis_run_job x job_id W = pg_redis_jobs_run_one x job_id W"

section \<open>Bookkeeping\<close>

text \<open>Handlers leave the two tables of the scheduler alone.\<close>

lemma dispatch_frame:
  assumes "dispatch_job x t W = (r, W')"
  shows "jw_jobs W' = jw_jobs W" "jw_stats W' = jw_stats W"
  using assms
  by (auto simp: dispatch_job_def pg_redis_persistence_save_snapshot_def Let_def split: option.splits if_splits prod.splits sum.splits)

lemma run_one_not_run:
  "hash_find (jw_jobs W) i = None \<or> (\<exists>j. hash_find (jw_jobs W) i = Some j \<and> \<not> j_enabled j) \<or> \<not> jx_spi_ok x \<Longrightarrow>
     pg_redis_jobs_run_one x i W = (False, W)"
  by (auto simp: pg_redis_jobs_run_one_def)

lemma run_one_ran:
  assumes "jx_spi_ok x" "hash_find (jw_jobs W) i = Some j" "j_enabled j"
  obtains ok err W' where "pg_redis_jobs_run_one x i W = (ok, W')" "ok \<longleftrightarrow> err = None"
    "jw_jobs W' = hash_enter (jw_jobs W) i (job_update (jx_now x) err ok j)"
    "jw_stats W' = hash_enter (jw_stats W) i (stat_upsert (jx_now x) err (job_duration (jx_time x i)) ok (hash_find (jw_stats W) i))"
    "\<not> ok \<Longrightarrow> jw_db W' = jw_db W \<and> jw_snapshots W' = jw_snapshots W"
    "ok \<Longrightarrow> \<exists>msg W1. dispatch_job x (Some (j_type j)) W = (Inr (True, msg), W1) \<and> jw_db W' = jw_db W1 \<and> jw_snapshots W' = jw_snapshots W1"
    "jw_backend W' = jw_backend (snd (dispatch_job x (Some (j_type j)) W))"
proof -
  obtain r W1 where d: "dispatch_job x (Some (j_type j)) W = (r, W1)" by force
  define ok where "ok = (case r of Inr (ok, _) \<Rightarrow> ok | Inl _ \<Rightarrow> False)"
  define msg where "msg = (case r of Inr (_, msg) \<Rightarrow> msg | Inl err \<Rightarrow> Some (jx_message x err))"
  define err where "err = (if ok then None else case msg of None \<Rightarrow> Some ''unknown error'' | Some msg \<Rightarrow> Some msg)"
  define W2 where "W2 = (if ok then W1 else W1\<lparr>jw_db := jw_db W, jw_snapshots := jw_snapshots W\<rparr>)"
  note fr = dispatch_frame [OF d]
  have W2: "jw_jobs W2 = jw_jobs W" "jw_stats W2 = jw_stats W" "jw_backend W2 = jw_backend W1" using fr by (simp_all add: W2_def)
  have run: "pg_redis_jobs_run_one x i W = (ok, update_job_row (jx_now x) i err (job_duration (jx_time x i)) ok W2)"
    using assms d by (simp add: pg_redis_jobs_run_one_def ok_def msg_def err_def W2_def Let_def)
  have e: "ok \<longleftrightarrow> err = None" by (simp add: err_def split: option.splits)
  show thesis
  proof (rule that [OF run e])
    assume "ok"
    then obtain m where "r = Inr (True, m)" by (auto simp: ok_def split: sum.splits)
    with \<open>ok\<close> d show "\<exists>msg W1. dispatch_job x (Some (j_type j)) W = (Inr (True, msg), W1) \<and>
        jw_db (update_job_row (jx_now x) i err (job_duration (jx_time x i)) ok W2) = jw_db W1 \<and>
        jw_snapshots (update_job_row (jx_now x) i err (job_duration (jx_time x i)) ok W2) = jw_snapshots W1"
      by (simp add: update_job_row_def W2_def)
  qed (use W2 assms(2) d in \<open>simp_all add: update_job_row_def\<close>, simp add: W2_def)
qed

lemma run_ids_other:
  "i \<notin> set ids \<Longrightarrow> run_ids x ids W = (n, W') \<Longrightarrow>
     hash_find (jw_jobs W') i = hash_find (jw_jobs W) i \<and> hash_find (jw_stats W') i = hash_find (jw_stats W) i"
proof (induction ids arbitrary: W n)
  case (Cons a ids)
  obtain ok W1 where r: "pg_redis_jobs_run_one x a W = (ok, W1)" by force
  have "hash_find (jw_jobs W1) i = hash_find (jw_jobs W) i \<and> hash_find (jw_stats W1) i = hash_find (jw_stats W) i"
  proof (cases "\<exists>j. hash_find (jw_jobs W) a = Some j \<and> j_enabled j \<and> jx_spi_ok x")
    case True
    then obtain j where j: "jx_spi_ok x" "hash_find (jw_jobs W) a = Some j" "j_enabled j" by blast
    obtain ok' err W2 where "pg_redis_jobs_run_one x a W = (ok', W2)"
      "jw_jobs W2 = hash_enter (jw_jobs W) a (job_update (jx_now x) err ok' j)"
      "jw_stats W2 = hash_enter (jw_stats W) a (stat_upsert (jx_now x) err (job_duration (jx_time x a)) ok' (hash_find (jw_stats W) a))"
      by (rule run_one_ran [OF j]) blast
    then show ?thesis using r Cons.prems(1) by simp
  next
    case False
    then have "hash_find (jw_jobs W) a = None \<or> (\<exists>j. hash_find (jw_jobs W) a = Some j \<and> \<not> j_enabled j) \<or> \<not> jx_spi_ok x"
      by (cases "hash_find (jw_jobs W) a") auto
    then show ?thesis using run_one_not_run r by fastforce
  qed
  then show ?case using Cons r by (auto split: if_splits prod.splits)
qed simp

text \<open>A job that is run once is updated once, whatever the other jobs of the list do.\<close>

lemma run_ids_ran:
  assumes "distinct ids" "i \<in> set ids" "i \<noteq> 0" "jx_spi_ok x" "hash_find (jw_jobs W) i = Some j" "j_enabled j" "run_ids x ids W = (n, W')"
  shows "\<exists>ok err. (ok \<longleftrightarrow> err = None) \<and> hash_find (jw_jobs W') i = Some (job_update (jx_now x) err ok j) \<and>
    hash_find (jw_stats W') i = Some (stat_upsert (jx_now x) err (job_duration (jx_time x i)) ok (hash_find (jw_stats W) i))"
  using assms
proof (induction ids arbitrary: W n)
  case (Cons a ids)
  show ?case
  proof (cases "a = i")
    case True
    obtain ok err W1 where r: "pg_redis_jobs_run_one x i W = (ok, W1)" "ok \<longleftrightarrow> err = None"
      "jw_jobs W1 = hash_enter (jw_jobs W) i (job_update (jx_now x) err ok j)"
      "jw_stats W1 = hash_enter (jw_stats W) i (stat_upsert (jx_now x) err (job_duration (jx_time x i)) ok (hash_find (jw_stats W) i))"
      by (rule run_one_ran [OF Cons.prems(4-6)]) blast
    obtain m where "run_ids x ids W1 = (m, W')" using Cons.prems(3,7) True r(1) by (auto split: if_splits prod.splits)
    moreover have "i \<notin> set ids" using Cons.prems(1) True by simp
    ultimately have "hash_find (jw_jobs W') i = hash_find (jw_jobs W1) i" "hash_find (jw_stats W') i = hash_find (jw_stats W1) i"
      using run_ids_other by blast+
    then show ?thesis using r by auto
  next
    case False
    obtain ok W1 where r: "run_ids x [a] W = (ok, W1)" by force
    have "hash_find (jw_jobs W1) i = hash_find (jw_jobs W) i" "hash_find (jw_stats W1) i = hash_find (jw_stats W) i"
      using run_ids_other [OF _ r, of i] False by simp_all
    moreover obtain m where "run_ids x ids W1 = (m, W')"
      using Cons.prems(7) r by (auto split: if_splits prod.splits)
    ultimately show ?thesis using Cons.IH [of W1 m] Cons.prems False by simp
  qed
qed simp

lemma due_ids_iff:
  assumes "htab_ok jobs"
  shows "distinct (due_ids now jobs)" "i \<in> set (due_ids now jobs) \<longleftrightarrow> (\<exists>j. hash_find jobs i = Some j \<and> job_due now j)"
proof -
  have "distinct (map fst (filter (\<lambda>(_, j). job_due now j) jobs))"
    using assms by (simp add: htab_ok_def distinct_map_filter)
  then have "distinct (map fst (sort_key (\<lambda>(_, j). the (j_next_run j)) (filter (\<lambda>(_, j). job_due now j) jobs)))"
    by (simp add: distinct_map)
  then show "distinct (due_ids now jobs)" by (simp add: due_ids_def hash_seq_def)
  show "i \<in> set (due_ids now jobs) \<longleftrightarrow> (\<exists>j. hash_find jobs i = Some j \<and> job_due now j)"
    using hash_seq_find [OF assms, of i] by (force simp: due_ids_def)
qed

section \<open>Properties\<close>


definition sample_job_env :: job_env where
  "sample_job_env = \<lparr>jx_guc = \<lparr>pg_redis_persistence_mode = None, pg_redis_storage_mode = None, pg_redis_max_key_size = 1024,
     pg_redis_max_value_size = 1048576, shmem_initialized = False\<rparr>, jx_now = 100, jx_clock = \<lambda>_. 100, jx_spi_ok = True, jx_insert_ok = True,
     jx_time = \<lambda>_. ((1, 999000), (2, 1000)), jx_message = \<lambda>_. ''error'', jx_escape_json = \<lambda>s. s, jx_timestamptz_out = \<lambda>_. []\<rparr>"

definition sample_jobs :: job_world where
  "sample_jobs = \<lparr>jw_backend = backend_start, jw_db = db_empty, jw_snapshots = [],
     jw_jobs = [(1, \<lparr>j_type = ''snapshot_save'', j_interval = 50, j_enabled = True, j_last_run = None, j_next_run = Some 90, j_last_error = None\<rparr>),
                (2, \<lparr>j_type = ''nonsense'', j_interval = 50, j_enabled = True, j_last_run = None, j_next_run = Some 80, j_last_error = None\<rparr>)],
     jw_stats = []\<rparr>"

lemma sample_jobs_ok: "htab_ok (jw_jobs sample_jobs)" "hash_find (jw_jobs sample_jobs) 0 = None"
  by (simp_all add: sample_jobs_def htab_ok_def hash_find_def)


definition counters_ok :: "job_world \<Rightarrow> bool" where
  "counters_ok W \<longleftrightarrow> (\<forall>i s. hash_find (jw_stats W) i = Some s \<longrightarrow>
     js_total_runs s = js_successful_runs s + js_failed_runs s \<and> 0 \<le> js_successful_runs s \<and> 0 \<le> js_failed_runs s)"

lemma counters_ok_one: "counters_ok W \<Longrightarrow> counters_ok (snd (pg_redis_jobs_run_one x i W))"
proof (cases "\<exists>j. hash_find (jw_jobs W) i = Some j \<and> j_enabled j \<and> jx_spi_ok x")
  case True
  assume W: "counters_ok W"
  from True obtain j where j: "jx_spi_ok x" "hash_find (jw_jobs W) i = Some j" "j_enabled j" by blast
  obtain ok err W' where "pg_redis_jobs_run_one x i W = (ok, W')"
    "jw_stats W' = hash_enter (jw_stats W) i (stat_upsert (jx_now x) err (job_duration (jx_time x i)) ok (hash_find (jw_stats W) i))"
    by (rule run_one_ran [OF j]) blast
  then show ?thesis using W by (auto simp: counters_ok_def stat_upsert_def split: option.splits if_splits)
next
  case False
  assume W: "counters_ok W"
  have "hash_find (jw_jobs W) i = None \<or> (\<exists>j. hash_find (jw_jobs W) i = Some j \<and> \<not> j_enabled j) \<or> \<not> jx_spi_ok x"
    using False by (cases "hash_find (jw_jobs W) i") auto
  then show ?thesis using W run_one_not_run by fastforce
qed

lemma counters_ok_ids: "counters_ok W \<Longrightarrow> counters_ok (snd (run_ids x ids W))"
proof (induction ids arbitrary: W)
  case (Cons a ids)
  obtain ok W1 m W2 where r: "pg_redis_jobs_run_one x a W = (ok, W1)" "run_ids x ids W1 = (m, W2)" by (metis surj_pair)
  have "counters_ok W1" "counters_ok W2"
    using counters_ok_one [OF Cons.prems, of x a] r Cons.IH [of W1] by simp_all
  then show ?case using Cons r by simp
qed simp

text \<open>
  The counters of every job add up: the runs are the successful and the failed ones, and every pass of the
  scheduler and every single run keeps that.
\<close>

lemma job_stats_consistent:
  assumes "counters_ok W"
  shows "counters_ok (snd (pg_redis_jobs_run_due x W)) \<and> counters_ok (snd (pg_redis_run_job x i W))"
  using assms counters_ok_ids counters_ok_one by (simp add: pg_redis_jobs_run_due_def pg_redis_run_job_def)

definition no_keys :: "backend \<Rightarrow> bool" where
  "no_keys b \<longleftrightarrow> store b = [] \<and> dirty_head b = [] \<and> pending_deletes_head b = []"

lemma dispatch_no_keys:
  assumes nk: "no_keys (jw_backend W)" and d: "dispatch_job x t W = (r, W')"
  shows "no_keys (jw_backend W')" "jw_db W' = jw_db W" "\<exists>k. jw_snapshots W' = jw_snapshots W @ replicate k (0, ascii ''[]'')"
proof -
  have sweep: "no_keys (snd (pg_redis_ttl_sweep clk b))" if "no_keys b" for clk b
    using that by (simp add: no_keys_def pg_redis_ttl_sweep_def sweep_victims_def hash_seq_def)
  define b' where "b' = snd (pg_redis_persistence_flush_dirty_batch (jx_guc x) (jx_spi_ok x) (jw_db W) (jw_backend W))"
  have flush: "pg_redis_persistence_flush_dirty_batch (jx_guc x) (jx_spi_ok x) (jw_db W) (jw_backend W) = (Inr (jw_db W), b')" "no_keys b'"
    using nk by (simp_all add: b'_def no_keys_def pg_redis_persistence_flush_dirty_batch_def run_flush_def pg_redis_dirty_head_take_def
        pg_redis_pending_deletes_take_def Let_def)
  have row: "snapshot_row x b = (0, ascii ''[]'')" if "no_keys b" for b
    using that by (simp add: no_keys_def snapshot_row_def hash_seq_def ascii_def)
  have one: "\<exists>k. s @ [p] = s @ replicate k p" "\<exists>k. s = s @ replicate k p" for s and p :: "int \<times> bytes"
    by (rule exI [of _ 1], simp) (rule exI [of _ 0], simp)
  show "no_keys (jw_backend W')" "jw_db W' = jw_db W" "\<exists>k. jw_snapshots W' = jw_snapshots W @ replicate k (0, ascii ''[]'')"
    using d nk one sweep flush row
    by (auto simp: dispatch_job_def pg_redis_persistence_save_snapshot_def Let_def split: option.splits if_splits prod.splits sum.splits)
qed

lemma run_one_no_keys:
  assumes "no_keys (jw_backend W)" "pg_redis_jobs_run_one x i W = (ok, W')"
  shows "no_keys (jw_backend W')" "jw_db W' = jw_db W" "\<exists>k. jw_snapshots W' = jw_snapshots W @ replicate k (0, ascii ''[]'')"
proof -
  have none: "\<exists>k. s = s @ replicate k p" for s and p :: "int \<times> bytes" by (rule exI [of _ 0]) simp
  obtain r W1 where d: "dispatch_job x (Some (j_type (the (hash_find (jw_jobs W) i)))) W = (r, W1)" by force
  note D = dispatch_no_keys [OF assms(1) d]
  have "no_keys (jw_backend W') \<and> jw_db W' = jw_db W \<and> (jw_snapshots W' = jw_snapshots W \<or> jw_snapshots W' = jw_snapshots W1)"
    using assms d D(1,2) by (auto simp: pg_redis_jobs_run_one_def update_job_row_def Let_def split: if_splits option.splits)
  then show "no_keys (jw_backend W')" "jw_db W' = jw_db W" "\<exists>k. jw_snapshots W' = jw_snapshots W @ replicate k (0, ascii ''[]'')"
    using D(3) none by auto
qed

lemma run_ids_no_keys:
  assumes "no_keys (jw_backend W)" "run_ids x ids W = (n, W')"
  shows "no_keys (jw_backend W') \<and> jw_db W' = jw_db W \<and> (\<exists>k. jw_snapshots W' = jw_snapshots W @ replicate k (0, ascii ''[]''))"
  using assms
proof (induction ids arbitrary: W n)
  case Nil
  then show ?case by (auto intro: exI [of _ 0])
next
  case (Cons a ids)
  show ?case
  proof (cases "a = 0")
    case True
    then show ?thesis using Cons by simp
  next
    case False
    obtain ok W1 where r: "pg_redis_jobs_run_one x a W = (ok, W1)" by force
    note R = run_one_no_keys [OF Cons.prems(1) r]
    obtain m where m: "run_ids x ids W1 = (m, W')" using Cons.prems(2) False r by (auto split: prod.splits)
    obtain k1 k2 where "jw_snapshots W1 = jw_snapshots W @ replicate k1 (0, ascii ''[]'')"
      "jw_snapshots W' = jw_snapshots W1 @ replicate k2 (0, ascii ''[]'')" using R(3) Cons.IH [OF R(1) m] by blast
    then have "jw_snapshots W' = jw_snapshots W @ replicate (k1 + k2) (0, ascii ''[]'')" by (simp add: replicate_add)
    then show ?thesis using R(2) Cons.IH [OF R(1) m] by auto
  qed
qed

text \<open>
  In a process that has loaded nothing, as the background worker, the jobs do nothing for the keyspace:
  whatever jobs are due, the durable tables stay as they are, the sweep finds no key, and every snapshot that
  is taken has no keys.
\<close>

lemma worker_jobs_see_no_keys:
  assumes "no_keys (jw_backend W)" "pg_redis_jobs_run_due x W = (n, W')"
  shows "jw_db W' = jw_db W \<and> no_keys (jw_backend W') \<and> (\<exists>k. jw_snapshots W' = jw_snapshots W @ replicate k (0, ascii ''[]''))"
proof (cases "jx_spi_ok x")
  case True
  then show ?thesis using run_ids_no_keys [OF assms(1)] assms(2) by (simp add: pg_redis_jobs_run_due_def)
next
  case False
  then show ?thesis using assms by (auto simp: pg_redis_jobs_run_due_def intro: exI [of _ 0])
qed

end
