(* ===== verification/Worker.thy ===== *)
theory Worker
  imports Jobs Async_Drain
begin

text \<open>
  The loop of the background worker, \<open>src/bgworker.c\<close>: each tick runs the jobs that are due, drains a batch of
  the dirty ring when there is reason to, and from time to time reclaims a stuck slot. A failed drain is
  reported and the loop goes on. A turn of the loop gets what the signal handlers have recorded and the readings
  of the clock; \<open>SIGHUP\<close> brings new settings, and after \<open>SIGTERM\<close> the loop ends with the final drain.
\<close>

section \<open>State and configuration\<close>

record worker_conf =
  wc_dirty_ring_size :: int
  wc_flush_interval_s :: int
  wc_reclaim_tick_interval :: int
  wc_slot_stuck_timeout_ms :: int

record worker =
  wk_world :: job_world
  wk_ring :: dirty_ring
  wk_area :: dsa_area
  wk_last_drain :: int
  wk_reclaim_tick :: nat
  wk_failed_drains :: nat

text \<open>The reports of failed drains are counted in \<open>wk_failed_drains\<close>.\<close>

record worker_tick_env =
  tk_jobs :: job_env
  tk_spi_ok :: bool
  tk_now :: int
  tk_drained_at :: int
  tk_reclaim_at :: int

section \<open>Ticks\<close>

definition worker_async :: "worker \<Rightarrow> async_state" where
  "worker_async w = \<lparr>as_ring = wk_ring w, as_area = wk_area w, as_db = jw_db (wk_world w)\<rparr>"

definition worker_drain :: "guc \<Rightarrow> bool \<Rightarrow> worker \<Rightarrow> worker" where
  "worker_drain g spi_ok w =
     (case pg_redis_persistence_async_drain g spi_ok 0 (worker_async w) of (r, S) \<Rightarrow>
        w\<lparr>wk_ring := as_ring S, wk_area := as_area S, wk_world := (wk_world w)\<lparr>jw_db := as_db S\<rparr>,
          wk_failed_drains := wk_failed_drains w + (case r of Inl _ \<Rightarrow> 1 | Inr _ \<Rightarrow> 0)\<rparr>)"

definition drain_due :: "worker_conf \<Rightarrow> nat \<Rightarrow> int \<Rightarrow> int \<Rightarrow> bool" where
  "drain_due cf pending last_drain now \<longleftrightarrow>
     int pending \<ge> wc_dirty_ring_size cf div 4 \<or>
     pending > 0 \<and> TimestampDifferenceExceeds last_drain now (wc_flush_interval_s cf * 1000)"

definition worker_reclaim :: "worker_conf \<Rightarrow> int \<Rightarrow> worker \<Rightarrow> worker" where
  "worker_reclaim cf now w =
     (if wc_reclaim_tick_interval cf > 0
      then let t = wk_reclaim_tick w + 1;
               w = w\<lparr>wk_reclaim_tick := t\<rparr>
           in if t mod nat (wc_reclaim_tick_interval cf) = 0
              then w\<lparr>wk_ring := snd (pg_redis_dirty_ring_reclaim_stuck now (wc_slot_stuck_timeout_ms cf) (wk_ring w))\<rparr>
              else w
      else w)"

definition worker_tick :: "worker_conf \<Rightarrow> guc \<Rightarrow> worker_tick_env \<Rightarrow> worker \<Rightarrow> worker" where
  "worker_tick cf g t w =
     (let w = w\<lparr>wk_world := snd (pg_redis_jobs_run_due (tk_jobs t) (wk_world w))\<rparr>;
          w = (if drain_due cf (pg_redis_dirty_ring_pending (wk_ring w)) (wk_last_drain w) (tk_now t)
               then (worker_drain g (tk_spi_ok t) w)\<lparr>wk_last_drain := tk_drained_at t\<rparr> else w)
      in worker_reclaim cf (tk_reclaim_at t) w)"

fun worker_ticks :: "worker_conf \<Rightarrow> guc \<Rightarrow> worker_tick_env list \<Rightarrow> worker \<Rightarrow> worker" where
  "worker_ticks cf g [] w = w"
| "worker_ticks cf g (t # ts) w = worker_ticks cf g ts (worker_tick cf g t w)"

definition worker_wait_ms :: "worker_conf \<Rightarrow> int" where
  "worker_wait_ms cf = (if wc_flush_interval_s cf \<le> 0 then 5 else wc_flush_interval_s cf) * 1000"

definition worker_shutdown :: "guc \<Rightarrow> bool \<Rightarrow> worker \<Rightarrow> worker" where
  "worker_shutdown g spi_ok w = (if pg_redis_dirty_ring_pending (wk_ring w) > 0 then worker_drain g spi_ok w else w)"

section \<open>The process\<close>

definition worker_database :: "string option \<Rightarrow> string" where
  "worker_database bgworker_database =
     (case bgworker_database of Some db \<Rightarrow> if db \<noteq> [] then db else ''postgres'' | None \<Rightarrow> ''postgres'')"

record worker_turn =
  wt_sigterm :: bool
  wt_sighup :: "worker_conf option"
  wt_tick :: worker_tick_env

text \<open>The process is still running when the turns are used up, and has exited (second component) after \<open>SIGTERM\<close>.\<close>

fun pg_redis_bgworker_main :: "guc \<Rightarrow> bool \<Rightarrow> worker_conf \<Rightarrow> worker_turn list \<Rightarrow> worker \<Rightarrow> worker \<times> bool" where
  "pg_redis_bgworker_main g spi_ok cf [] w = (w, False)"
| "pg_redis_bgworker_main g spi_ok cf (t # ts) w =
     (if wt_sigterm t then (worker_shutdown g spi_ok w, True)
      else let cf = (case wt_sighup t of Some cf' \<Rightarrow> cf' | None \<Rightarrow> cf)
           in pg_redis_bgworker_main g spi_ok cf ts (worker_tick cf g (wt_tick t) w))"

section \<open>One tick\<close>

abbreviation wk_queue :: "worker \<Rightarrow> PgRedisDirtyEvent list" where
  "wk_queue w \<equiv> ring_queue (wk_ring w)"

lemma worker_async_simps [simp]:
  "as_ring (worker_async w) = wk_ring w" "as_area (worker_async w) = wk_area w" "as_db (worker_async w) = jw_db (wk_world w)"
  by (simp_all add: worker_async_def)

lemma pending_queue: "ring_ok 0 R \<Longrightarrow> pg_redis_dirty_ring_pending R = length (ring_queue R)"
  using ring_okD(3) [of 0 R] by (auto simp: pg_redis_dirty_ring_pending_def ring_queue_def)

lemma reclaim_idle: "ring_ok 0 R \<Longrightarrow> pg_redis_dirty_ring_reclaim_stuck now timeout R = (0, R)"
proof -
  assume ok: "ring_ok 0 R"
  note O = ring_okD [OF ok]
  have "ev_state (slot_at R (ring_write_head R)) \<noteq> SLOT_WRITING"
  proof (cases "ring_write_head R < ring_read_head R + ring_capacity R")
    case True
    then show ?thesis using O(3) O(6) [of "ring_write_head R"] by simp
  next
    case False
    then have "ring_write_head R = ring_read_head R + ring_capacity R" using O(4) by simp
    then have "slot_at R (ring_write_head R) = slot_at R (ring_read_head R)" by (simp add: slot_at_def ring_capacity_def)
    then show ?thesis using O(6) [of "ring_read_head R"] O(1) False by (auto split: if_splits)
  qed
  then show ?thesis using O(5) by (simp add: pg_redis_dirty_ring_reclaim_stuck_def Let_def)
qed

lemma worker_drain_ok:
  assumes on: "persistence_writes_enabled g" and ok: "ring_ok 0 (wk_ring w)"
  shows "ring_ok 0 (wk_ring (worker_drain g spi_ok w))"
    and "wk_failed_drains (worker_drain g spi_ok w) = wk_failed_drains w \<and> wk_queue (worker_drain g spi_ok w) = drop 1024 (wk_queue w) \<or>
      wk_failed_drains (worker_drain g spi_ok w) = wk_failed_drains w + 1 \<and> wk_queue (worker_drain g spi_ok w) = wk_queue w \<and>
      jw_db (wk_world (worker_drain g spi_ok w)) = jw_db (wk_world w)"
proof -
  obtain r S where d: "pg_redis_persistence_async_drain g spi_ok 0 (worker_async w) = (r, S)" by force
  obtain events base R where c: "pg_redis_dirty_ring_collect (drain_batch_max 0) (as_ring (worker_async w)) = (events, base, R)" by (metis prod_cases3)
  have ok': "ring_ok 0 (as_ring (worker_async w))" using ok by simp
  note D = drain_cases [OF on ok' c d]
  have mx: "drain_batch_max 0 = 1024" by (simp add: drain_batch_max_def ASYNC_DRAIN_BATCH_MAX_def)
  have len: "length events = min 1024 (length (wk_queue w))"
    using arg_cong [OF D(2), of length] by (simp add: mx min.commute)
  show "ring_ok 0 (wk_ring (worker_drain g spi_ok w))" using D(1) by (simp add: worker_drain_def d)
  show "wk_failed_drains (worker_drain g spi_ok w) = wk_failed_drains w \<and> wk_queue (worker_drain g spi_ok w) = drop 1024 (wk_queue w) \<or>
      wk_failed_drains (worker_drain g spi_ok w) = wk_failed_drains w + 1 \<and> wk_queue (worker_drain g spi_ok w) = wk_queue w \<and>
      jw_db (wk_world (worker_drain g spi_ok w)) = jw_db (wk_world w)"
  proof (cases r)
    case (Inl err)
    then have "events \<noteq> []" using D(3) by auto
    then show ?thesis using D(4) Inl by (simp add: worker_drain_def d)
  next
    case (Inr n)
    have "wk_queue (worker_drain g spi_ok w) = drop 1024 (wk_queue w)"
    proof (cases "events = []")
      case True
      then show ?thesis using D(3) len by (simp add: worker_drain_def d)
    next
      case False
      then have "ring_queue (as_ring S) = drop (length events) (wk_queue w)" using D(5) Inr by simp
      then show ?thesis using len by (cases "1024 \<le> length (wk_queue w)") (simp_all add: worker_drain_def d)
    qed
    then show ?thesis using Inr by (simp add: worker_drain_def d)
  qed
qed

section \<open>Many ticks\<close>

text \<open>Every tick comes at least the flush interval after the drains before it.\<close>

fun paced :: "worker_conf \<Rightarrow> int \<Rightarrow> worker_tick_env list \<Rightarrow> bool" where
  "paced cf l [] \<longleftrightarrow> True"
| "paced cf l (t # ts) \<longleftrightarrow> l + wc_flush_interval_s cf * 1000000 \<le> tk_now t \<and> paced cf (max l (tk_drained_at t)) ts"

lemma worker_reclaim_simps:
  assumes "ring_ok 0 (wk_ring w)"
  shows "wk_ring (worker_reclaim cf now w) = wk_ring w" "wk_failed_drains (worker_reclaim cf now w) = wk_failed_drains w"
    "wk_last_drain (worker_reclaim cf now w) = wk_last_drain w"
  using reclaim_idle [OF assms] by (simp_all add: worker_reclaim_def Let_def)

lemma last_drain_drain [simp]: "wk_last_drain (worker_drain g ok w) = wk_last_drain w"
  by (simp add: worker_drain_def split: prod.splits)

lemma worker_tick_ok:
  assumes on: "persistence_writes_enabled g" and ok: "ring_ok 0 (wk_ring w)" and l: "wk_last_drain w \<le> l"
    and pace: "l + wc_flush_interval_s cf * 1000000 \<le> tk_now t"
  defines "w' \<equiv> worker_tick cf g t w"
  shows "ring_ok 0 (wk_ring w')" "wk_last_drain w' \<le> max l (tk_drained_at t)" "wk_failed_drains w \<le> wk_failed_drains w'"
    "wk_failed_drains w' = wk_failed_drains w \<Longrightarrow> wk_queue w' = drop 1024 (wk_queue w)"
proof -
  let ?w1 = "w\<lparr>wk_world := snd (pg_redis_jobs_run_due (tk_jobs t) (wk_world w))\<rparr>"
  have ok1: "ring_ok 0 (wk_ring ?w1)" using ok by simp
  note D = worker_drain_ok [OF on ok1, of "tk_spi_ok t"]
  have idle: "wk_queue w = []" if "\<not> drain_due cf (pg_redis_dirty_ring_pending (wk_ring w)) (wk_last_drain w) (tk_now t)"
    using that l pace by (auto simp: drain_due_def pending_queue [OF ok] TimestampDifferenceExceeds_def)
  show "ring_ok 0 (wk_ring w')" using D(1) ok1 by (simp add: w'_def worker_tick_def Let_def worker_reclaim_simps)
  show "wk_last_drain w' \<le> max l (tk_drained_at t)" using D(1) ok1 l by (auto simp: w'_def worker_tick_def Let_def worker_reclaim_simps)
  show "wk_failed_drains w \<le> wk_failed_drains w'" using D ok1 by (auto simp: w'_def worker_tick_def Let_def worker_reclaim_simps)
  show "wk_failed_drains w' = wk_failed_drains w \<Longrightarrow> wk_queue w' = drop 1024 (wk_queue w)"
    using D ok1 idle by (auto simp: w'_def worker_tick_def Let_def worker_reclaim_simps split: if_splits)
qed

lemma worker_ticks_failed:
  assumes "persistence_writes_enabled g" "ring_ok 0 (wk_ring w)" "wk_last_drain w \<le> l" "paced cf l ts"
  shows "wk_failed_drains w \<le> wk_failed_drains (worker_ticks cf g ts w)"
  using assms
proof (induction ts arbitrary: w l)
  case (Cons t ts)
  have p: "l + wc_flush_interval_s cf * 1000000 \<le> tk_now t" "paced cf (max l (tk_drained_at t)) ts" using Cons.prems(4) by simp_all
  note T = worker_tick_ok [OF Cons.prems(1-3) p(1)]
  show ?case using Cons.IH [OF Cons.prems(1) T(1,2) p(2)] T(3) by simp
qed simp

text \<open>
  C27: The worker catches up: when ticks come at least a flush interval apart, no drain fails and no producer
  adds events, every tick takes the oldest 1024 events out of the ring, so that after enough ticks it is empty.
\<close>

theorem worker_catches_up:
  assumes "persistence_writes_enabled g" "ring_ok 0 (wk_ring w)" "paced cf (wk_last_drain w) ts"
    and "wk_failed_drains (worker_ticks cf g ts w) = wk_failed_drains w"
  shows "wk_queue (worker_ticks cf g ts w) = drop (1024 * length ts) (wk_queue w)"
proof -
  have "wk_queue (worker_ticks cf g ts w) = drop (1024 * length ts) (wk_queue w)"
    if "wk_last_drain w \<le> l" "paced cf l ts" for l
    using assms(2,4) that
  proof (induction ts arbitrary: w l)
    case (Cons t ts)
    have p: "l + wc_flush_interval_s cf * 1000000 \<le> tk_now t" "paced cf (max l (tk_drained_at t)) ts" using Cons.prems(4) by simp_all
    note T = worker_tick_ok [OF assms(1) Cons.prems(1,3) p(1)]
    have "wk_failed_drains (worker_tick cf g t w) \<le> wk_failed_drains (worker_ticks cf g ts (worker_tick cf g t w))"
      by (rule worker_ticks_failed [OF assms(1) T(1,2) p(2)])
    then have f: "wk_failed_drains (worker_tick cf g t w) = wk_failed_drains w" using T(3) Cons.prems(2) by simp
    then have "wk_failed_drains (worker_ticks cf g ts (worker_tick cf g t w)) = wk_failed_drains (worker_tick cf g t w)"
      using Cons.prems(2) by simp
    then show ?case using Cons.IH [OF T(1) _ T(2) p(2)] T(4) [OF f] by (simp add: algebra_simps)
  qed simp
  then show ?thesis using assms(3) by blast
qed

declare reserve_loop.simps [code]

definition sample_conf :: worker_conf where
  "sample_conf = \<lparr>wc_dirty_ring_size = 65536, wc_flush_interval_s = 5, wc_reclaim_tick_interval = 1024, wc_slot_stuck_timeout_ms = 60000\<rparr>"

definition sample_worker :: "dirty_ring \<Rightarrow> worker" where
  "sample_worker R = \<lparr>wk_world = sample_jobs, wk_ring = R, wk_area = [], wk_last_drain = 0, wk_reclaim_tick = 0, wk_failed_drains = 0\<rparr>"

definition sample_tick :: worker_tick_env where
  "sample_tick = \<lparr>tk_jobs = sample_job_env, tk_spi_ok = True, tk_now = 6000000, tk_drained_at = 6000001, tk_reclaim_at = 6000002\<rparr>"

theorem worker_catches_up_witness:
  "wk_queue (worker_ticks sample_conf async_guc [sample_tick] (sample_worker (as_ring sample_state))) = []"
proof -
  have "wk_failed_drains (worker_ticks sample_conf async_guc [sample_tick] (sample_worker (as_ring sample_state))) = 0" by code_simp
  then show ?thesis
    using worker_catches_up [of async_guc "sample_worker (as_ring sample_state)" sample_conf "[sample_tick]"] sample_state_ok
    by (simp add: async_guc_enabled sample_worker_def sample_conf_def sample_tick_def)
qed

text \<open>Turns without a signal are ticks, and \<open>SIGTERM\<close> ends the process whatever turns are left.\<close>

lemma main_ticks:
  assumes "list_all (\<lambda>t. \<not> wt_sigterm t \<and> wt_sighup t = None) ts"
  shows "pg_redis_bgworker_main g spi_ok cf (ts @ us) w = pg_redis_bgworker_main g spi_ok cf us (worker_ticks cf g (map wt_tick ts) w)"
  using assms by (induction ts arbitrary: w) simp_all

lemma main_exits:
  assumes "list_all (\<lambda>t. \<not> wt_sigterm t \<and> wt_sighup t = None) ts" "wt_sigterm t"
  shows "pg_redis_bgworker_main g spi_ok cf (ts @ t # us) w = (worker_shutdown g spi_ok (worker_ticks cf g (map wt_tick ts) w), True)"
  using main_ticks [OF assms(1)] assms(2) by simp

text \<open>
  The final drain at shutdown takes one batch only: of more than 1024 pending events all but the oldest
  1024 are still in the ring, in shared memory that is about to vanish, when the worker exits.
\<close>

lemma shutdown_leaves_events:
  assumes "persistence_writes_enabled g" "ring_ok 0 (wk_ring w)" "1024 < length (wk_queue w)"
  shows "length (wk_queue w) - 1024 \<le> length (wk_queue (worker_shutdown g spi_ok w)) \<and> wk_queue (worker_shutdown g spi_ok w) \<noteq> []"
proof -
  have "worker_shutdown g spi_ok w = worker_drain g spi_ok w"
    using assms(2,3) by (auto simp: worker_shutdown_def pending_queue)
  then show ?thesis using worker_drain_ok(2) [OF assms(1,2), of spi_ok] assms(3) by auto
qed

definition full_ring :: dirty_ring where
  "full_ring = \<lparr>ring_slots = replicate 1025 (sample_event\<lparr>ev_state := SLOT_READY\<rparr>), ring_write_head = 1025, ring_read_head = 0\<rparr>"

end
