(* ===== verification/Load_Steps.thy ===== *)
theory Load_Steps
  imports Dirty_Ring
begin

text \<open>
  How the backends agree on the loader, \<open>pg_redis_persistence_load_if_needed\<close> of \<open>src/persistence.c\<close> with
  shared storage: a state machine over the word \<open>loaded\<close> (0 unloaded, 1 loading, 2 loaded) and the time stamp
  \<open>last_load_attempt\<close> of the shared header. Every access to one of the two is a step of its own. A backend may
  be terminated while it loads or waits, which skips the \<open>PG_CATCH\<close> block; the load itself may fail.
\<close>

section \<open>Steps\<close>

datatype load_phase =
    Checking
  | Saw nat
  | Stealing
  | Won
  | Loading
  | Stored
  | LoadFailed
  | LoadDone
  | Raised
  | Terminated

record load_state =
  ld_loaded :: nat
  ld_attempt :: int
  ld_clock :: int
  ld_phase :: "nat \<Rightarrow> load_phase"
  ld_complete :: bool
  ld_steals :: nat

text \<open>
  \<open>ld_complete\<close> and \<open>ld_steals\<close> only record what has happened: that some load ran to its end, and how often the
  watchdog took the word from a loader.
\<close>

definition PG_REDIS_LOAD_WATCHDOG_MS :: int where
  "PG_REDIS_LOAD_WATCHDOG_MS = 30000"

datatype load_event = Run | Fail | Interrupt | Retry | Terminate

definition load_goto :: "nat \<Rightarrow> load_phase \<Rightarrow> load_state \<Rightarrow> load_state" where
  "load_goto p ph s = s\<lparr>ld_phase := (ld_phase s)(p := ph)\<rparr>"

definition watchdog_fires :: "load_state \<Rightarrow> bool" where
  "watchdog_fires s \<longleftrightarrow>
     ld_attempt s \<noteq> 0 \<and> TimestampDifferenceExceeds (ld_attempt s) (ld_clock s) PG_REDIS_LOAD_WATCHDOG_MS"

text \<open>One step of backend \<open>p\<close>; \<open>None\<close> where the event cannot happen.\<close>

fun load_run :: "nat \<Rightarrow> load_phase \<Rightarrow> load_state \<Rightarrow> load_state option" where
  "load_run p Checking s = Some (load_goto p (Saw (ld_loaded s)) s)"
| "load_run p (Saw state) s =
     (if state = 2 then Some (load_goto p LoadDone s)
      else if state = 0 then
        Some (if ld_loaded s = 0 then load_goto p Won (s\<lparr>ld_loaded := 1\<rparr>) else load_goto p Checking s)
      else Some (load_goto p (if watchdog_fires s then Stealing else Checking) s))"
| "load_run p Stealing s =
     Some (if ld_loaded s = 1 then load_goto p Checking (s\<lparr>ld_loaded := 0, ld_steals := ld_steals s + 1\<rparr>) else load_goto p Checking s)"
| "load_run p Won s = Some (load_goto p Loading (s\<lparr>ld_attempt := ld_clock s\<rparr>))"
| "load_run p Loading s = Some (load_goto p Stored (s\<lparr>ld_complete := True\<rparr>))"
| "load_run p Stored s = Some (load_goto p LoadDone (s\<lparr>ld_loaded := 2\<rparr>))"
| "load_run p LoadFailed s = Some (load_goto p Raised (s\<lparr>ld_loaded := 0\<rparr>))"
| "load_run p LoadDone s = None"
| "load_run p Raised s = None"
| "load_run p Terminated s = None"

definition load_act :: "nat \<Rightarrow> load_event \<Rightarrow> load_state \<Rightarrow> load_state option" where
  "load_act p ev s =
     (case ev of
        Run \<Rightarrow> load_run p (ld_phase s p) s
      | Fail \<Rightarrow> if ld_phase s p = Loading then Some (load_goto p LoadFailed s) else None
      | Interrupt \<Rightarrow> if ld_phase s p = Checking then Some (load_goto p Raised s) else None
      | Retry \<Rightarrow> if ld_phase s p = Raised then Some (load_goto p Checking s) else None
      | Terminate \<Rightarrow> if ld_phase s p \<in> {Checking, Loading} then Some (load_goto p Terminated s) else None)"

inductive load_step :: "load_state \<Rightarrow> load_state \<Rightarrow> bool" where
  backend: "load_act p ev s = Some s' \<Longrightarrow> load_step s s'"
| clock: "0 \<le> d \<Longrightarrow> load_step s (s\<lparr>ld_clock := ld_clock s + d\<rparr>)"

definition load_start :: "int \<Rightarrow> load_state" where
  "load_start now = \<lparr>ld_loaded = 0, ld_attempt = 0, ld_clock = now, ld_phase = \<lambda>_. Checking, ld_complete = False, ld_steals = 0\<rparr>"

inductive load_reach :: "load_state \<Rightarrow> bool" where
  start: "0 < now \<Longrightarrow> load_reach (load_start now)"
| step: "load_reach s \<Longrightarrow> load_step s s' \<Longrightarrow> load_reach s'"

section \<open>Invariants\<close>

definition load_inv :: "load_state \<Rightarrow> bool" where
  "load_inv s \<longleftrightarrow> 0 < ld_clock s \<and> ld_loaded s \<le> 2 \<and>
     (ld_loaded s = 2 \<longrightarrow> ld_complete s) \<and>
     (\<forall>p. ld_phase s p \<in> {Saw 2, Stored, LoadDone} \<longrightarrow> ld_complete s) \<and>
     (\<forall>p. case ld_phase s p of Saw n \<Rightarrow> n \<le> 2 | _ \<Rightarrow> True)"

definition backends_in :: "load_phase set \<Rightarrow> load_state \<Rightarrow> nat set" where
  "backends_in A s = {p. ld_phase s p \<in> A}"

definition attempt_inv :: "load_state \<Rightarrow> bool" where
  "attempt_inv s \<longleftrightarrow> 0 < ld_clock s \<and>
     (ld_attempt s = 0 \<longrightarrow> ld_loaded s \<noteq> 2 \<and> (ld_loaded s = 1 \<longrightarrow> backends_in {Won} s \<noteq> {}) \<and>
        backends_in {Stealing, Loading, Stored, LoadFailed} s = {})"

definition single :: "nat set \<Rightarrow> bool" where
  "single A \<longleftrightarrow> (\<exists>p. A \<subseteq> {p})"

definition exclusive :: "load_state \<Rightarrow> bool" where
  "exclusive s \<longleftrightarrow> ld_steals s \<noteq> 0 \<or> backends_in {Won, Loading, Stored, LoadFailed} s = {} \<or>
     ld_loaded s = 1 \<and> single (backends_in {Won, Loading, Stored, LoadFailed} s)"

lemma single_simps [simp]: "single {}" "single {p}" "single A \<Longrightarrow> single (A - {p})"
  by (auto simp: single_def)

lemma load_goto_simps [simp]:
  "ld_loaded (load_goto p ph s) = ld_loaded s" "ld_attempt (load_goto p ph s) = ld_attempt s" "ld_clock (load_goto p ph s) = ld_clock s"
  "ld_complete (load_goto p ph s) = ld_complete s" "ld_steals (load_goto p ph s) = ld_steals s"
  "ld_phase (load_goto p ph s) = (ld_phase s)(p := ph)"
  by (simp_all add: load_goto_def)

lemma backends_load_goto [simp]:
  "backends_in A (load_goto p ph s) = (if ph \<in> A then insert p (backends_in A s) else backends_in A s - {p})"
  by (auto simp: backends_in_def)

lemma backends_cong [simp]:
  "backends_in A (s\<lparr>ld_loaded := n\<rparr>) = backends_in A s" "backends_in A (s\<lparr>ld_attempt := t\<rparr>) = backends_in A s"
  "backends_in A (s\<lparr>ld_clock := t\<rparr>) = backends_in A s" "backends_in A (s\<lparr>ld_complete := c\<rparr>) = backends_in A s"
  "backends_in A (s\<lparr>ld_steals := n\<rparr>) = backends_in A s"
  by (simp_all add: backends_in_def)

lemma in_backends: "p \<in> backends_in A s \<longleftrightarrow> ld_phase s p \<in> A"
  by (simp add: backends_in_def)

lemmas load_defs = load_act_def load_start_def

lemma load_inv_act: "load_act p ev s = Some s' \<Longrightarrow> load_inv s \<Longrightarrow> load_inv s'"
  by (cases ev; cases "ld_phase s p") (auto simp: load_defs load_inv_def split: if_splits load_phase.splits)

lemma attempt_inv_act: "load_act p ev s = Some s' \<Longrightarrow> attempt_inv s \<Longrightarrow> attempt_inv s'"
  using in_backends [of p "{Won}" s] in_backends [of p "{Stealing, Loading, Stored, LoadFailed}" s]
  by (cases ev; cases "ld_phase s p") (auto simp: load_defs attempt_inv_def watchdog_fires_def split: if_splits)

lemma exclusive_act:
  assumes act: "load_act p ev s = Some s'" and ex: "exclusive s"
  shows "exclusive s'"
proof -
  note in_p = in_backends [of p "{Won, Loading, Stored, LoadFailed}" s]
  from ex consider (stolen) "ld_steals s \<noteq> 0" | (nobody) "backends_in {Won, Loading, Stored, LoadFailed} s = {}"
    | (one) q where "ld_loaded s = 1" "backends_in {Won, Loading, Stored, LoadFailed} s = {q}"
    unfolding exclusive_def single_def by blast
  then show ?thesis
  proof cases
    case stolen
    then show ?thesis using act by (cases ev; cases "ld_phase s p") (auto simp: load_defs exclusive_def split: if_splits)
  next
    case nobody
    then show ?thesis using act in_p by (cases ev; cases "ld_phase s p") (auto simp: load_defs exclusive_def split: if_splits)
  next
    case (one q)
    show ?thesis
    proof (cases "p = q")
      case True
      then have "ld_phase s q \<in> {Won, Loading, Stored, LoadFailed}" using in_p one(2) by simp
      then show ?thesis using act one True
        by (cases ev; elim insertE emptyE) (auto simp: load_defs exclusive_def split: if_splits)
    next
      case False
      then have "ld_phase s p \<notin> {Won, Loading, Stored, LoadFailed}" using in_p one(2) by simp
      moreover have "single (backends_in {Won, Loading, Stored, LoadFailed} s)" using one(2) by simp
      ultimately show ?thesis using act one(1)
        by (cases ev; cases "ld_phase s p") (auto simp: load_defs exclusive_def split: if_splits)
    qed
  qed
qed

lemma load_reach_inv:
  assumes "load_reach s"
  shows "load_inv s" "attempt_inv s" "exclusive s"
proof -
  from assms have "load_inv s \<and> attempt_inv s \<and> exclusive s"
  proof (induction rule: load_reach.induct)
    case (start now)
    then show ?case by (simp add: load_start_def load_inv_def attempt_inv_def exclusive_def backends_in_def)
  next
    case (step s s')
    from step.hyps(2) show ?case
    proof (cases rule: load_step.cases)
      case backend
      then show ?thesis using step.IH load_inv_act attempt_inv_act exclusive_act by blast
    next
      case clock
      then show ?thesis using step.IH by (simp add: load_inv_def attempt_inv_def exclusive_def)
    qed
  qed
  then show "load_inv s" "attempt_inv s" "exclusive s" by simp_all
qed

section \<open>Runs\<close>

datatype load_move = Act nat load_event | Tick int

fun load_trace :: "load_move list \<Rightarrow> load_state \<Rightarrow> load_state option" where
  "load_trace [] s = Some s"
| "load_trace (Act p ev # ms) s = (case load_act p ev s of None \<Rightarrow> None | Some s \<Rightarrow> load_trace ms s)"
| "load_trace (Tick d # ms) s = (if 0 \<le> d then load_trace ms (s\<lparr>ld_clock := ld_clock s + d\<rparr>) else None)"

lemma load_trace_reach: "load_trace ms s = Some s' \<Longrightarrow> load_reach s \<Longrightarrow> load_reach s'"
proof (induction ms s rule: load_trace.induct)
  case (2 p ev ms s)
  then show ?case by (auto split: option.splits intro: load_reach.step load_step.backend)
next
  case (3 d ms s)
  have "load_reach (s\<lparr>ld_clock := ld_clock s + d\<rparr>)" if "0 \<le> d"
    using load_reach.step [OF 3(3) load_step.clock] that by simp
  then show ?case using 3 by (simp split: if_splits)
qed simp

lemma load_trace_append: "load_trace (ms @ ns) s = (case load_trace ms s of None \<Rightarrow> None | Some s \<Rightarrow> load_trace ns s)"
  by (induction ms s rule: load_trace.induct) (auto split: option.splits)

lemma trace_unloaded:
  assumes "ld_phase s p = Checking" "ld_loaded s = 0"
  shows "\<exists>s'. load_trace (replicate 5 (Act p Run)) s = Some s' \<and> ld_phase s' p = LoadDone \<and> ld_loaded s' = 2"
  using assms by (simp add: eval_nat_numeral load_act_def)

lemma trace_stuck:
  assumes p: "ld_phase s p = Checking" and l: "ld_loaded s = 1" and t: "ld_attempt s \<noteq> 0"
  shows "\<exists>ms s'. load_trace ms s = Some s' \<and> ld_phase s' p = LoadDone \<and> ld_loaded s' = 2"
proof -
  define d where "d = max 0 (ld_attempt s - ld_clock s) + 30000000"
  have w: "watchdog_fires (load_goto p ph (s\<lparr>ld_clock := ld_clock s + d\<rparr>))" for ph
    using t by (simp add: watchdog_fires_def TimestampDifferenceExceeds_def PG_REDIS_LOAD_WATCHDOG_MS_def d_def)
  obtain s1 where s1: "load_trace [Tick d, Act p Run, Act p Run, Act p Run] s = Some s1" "ld_phase s1 p = Checking" "ld_loaded s1 = 0"
    using p l w by (simp add: load_act_def d_def)
  obtain s' where "load_trace (replicate 5 (Act p Run)) s1 = Some s'" "ld_phase s' p = LoadDone" "ld_loaded s' = 2"
    using trace_unloaded [OF s1(2,3)] by blast
  then have "load_trace ([Tick d, Act p Run, Act p Run, Act p Run] @ replicate 5 (Act p Run)) s = Some s'"
    by (simp only: load_trace_append s1 option.case)
  then show ?thesis using \<open>ld_phase s' p = LoadDone\<close> \<open>ld_loaded s' = 2\<close> by blast
qed

section \<open>Properties\<close>



text \<open>
  C20: No backend waits forever because a loader has gone: from every reachable state there is a run in which
  a waiting backend gets past the wait with the word in state 2, by its own steps, the passing of time, and
  at most the next step of the backend that has just won the word.
\<close>

theorem load_recovers:
  assumes "load_reach s" "ld_phase s p = Checking"
  shows "\<exists>ms s'. load_trace ms s = Some s' \<and> ld_phase s' p = LoadDone \<and> ld_loaded s' = 2"
proof -
  note inv = load_reach_inv [OF assms(1)]
  have "ld_loaded s \<le> 2" using inv(1) by (simp add: load_inv_def)
  then consider (unloaded) "ld_loaded s = 0" | (loading) "ld_loaded s = 1" "ld_attempt s \<noteq> 0"
    | (won) "ld_loaded s = 1" "ld_attempt s = 0" | (loaded) "ld_loaded s = 2" by linarith
  then show ?thesis
  proof cases
    case unloaded
    then show ?thesis using trace_unloaded [OF assms(2)] by blast
  next
    case loading
    then show ?thesis using trace_stuck [OF assms(2)] by blast
  next
    case won
    then obtain q where q: "ld_phase s q = Won" and c: "0 < ld_clock s"
      using inv(2) by (auto simp: attempt_inv_def backends_in_def)
    define s1 where "s1 = load_goto q Loading (s\<lparr>ld_attempt := ld_clock s\<rparr>)"
    have s1: "load_trace [Act q Run] s = Some s1" using q by (simp add: load_act_def s1_def)
    have "p \<noteq> q" using q assms(2) by auto
    then obtain ms s' where m: "load_trace ms s1 = Some s'" "ld_phase s' p = LoadDone" "ld_loaded s' = 2"
      using trace_stuck [of s1 p] assms(2) won(1) c by (auto simp: s1_def)
    have "load_trace ([Act q Run] @ ms) s = Some s'" by (simp only: load_trace_append s1 option.case m(1))
    then show ?thesis using m(2,3) by blast
  next
    case loaded
    then have "load_trace [Act p Run, Act p Run] s = Some (load_goto p LoadDone (load_goto p (Saw 2) s))" using assms(2) by (simp add: load_act_def)
    then show ?thesis using loaded by (intro exI [of _ "[Act p Run, Act p Run]"]) simp
  qed
qed

theorem load_recovers_witness:
  "\<exists>s ms s'. load_trace (replicate 3 (Act 4 Run) @ [Act 4 Terminate]) (load_start 1) = Some s \<and>
     load_trace ms s = Some s' \<and> ld_phase s' 5 = LoadDone \<and> ld_loaded s' = 2"
proof -
  obtain s where s: "load_trace (replicate 3 (Act 4 Run) @ [Act 4 Terminate]) (load_start 1) = Some s" "ld_phase s 5 = Checking"
    by (simp add: eval_nat_numeral load_act_def load_start_def)
  have "load_reach s" using load_trace_reach [OF s(1)] load_reach.start [of 1] by simp
  from load_recovers [OF this s(2)] s(1) show ?thesis by blast
qed

text \<open>
  After a failed load the watchdog can take the word from a loader that has only just won it: the time
  stamp it compares with is still that of the failed attempt. Two backends then load at the same time,
  although neither has run for any time; and when the first of them fails after the second has finished, the
  word goes from 2 back to 0.
\<close>

definition steal_trace :: "load_move list" where
  "steal_trace = replicate 3 (Act 0 Run) @ [Act 0 Fail, Act 0 Run, Tick 40000000, Act 1 Run, Act 1 Run] @
     replicate 6 (Act 2 Run) @ [Act 1 Run]"

lemma load_stale_watchdog:
  "map_option (\<lambda>s. (ld_phase s 1, ld_phase s 2, ld_clock s - ld_attempt s)) (load_trace steal_trace (load_start 1)) =
     Some (Loading, Loading, 0) \<and>
   map_option ld_loaded (load_trace (steal_trace @ [Act 2 Run, Act 2 Run]) (load_start 1)) = Some 2 \<and>
   map_option ld_loaded (load_trace (steal_trace @ [Act 2 Run, Act 2 Run, Act 1 Fail, Act 1 Run]) (load_start 1)) = Some 0"
  by code_simp

end
