(* ===== verification/Shmem.thy ===== *)
theory Shmem
  imports Load_Steps Utils
begin

text \<open>
  Configuration and shared memory: the variables and hooks that \<open>_PG_init\<close> of \<open>src/pg_redis.c\<close> defines, and
  \<open>src/shmem.c\<close> with the sizing of the shared areas, their initialisation, the attachment to the DSA segment and
  the choice of the partition lock. PostgreSQL keeps an integer variable in the range it was defined with and
  calls the startup hook in the postmaster and, where processes do not inherit its memory, in every backend.
\<close>

section \<open>Configuration variables\<close>

record settings =
  sv_flush_interval_s :: int
  sv_flush_batch_size :: int
  sv_ttl_cleanup_interval_s :: int
  sv_max_key_size :: int
  sv_max_value_size :: int
  sv_shared_max_memory_mb :: int
  sv_dirty_ring_size :: int
  sv_lock_partitions :: int
  sv_ring_reclaim_tick_interval :: int
  sv_ring_slot_stuck_timeout_ms :: int

definition static_settings :: settings where
  "static_settings = \<lparr>sv_flush_interval_s = 5, sv_flush_batch_size = 1000, sv_ttl_cleanup_interval_s = 30,
     sv_max_key_size = 1024, sv_max_value_size = 1048576, sv_shared_max_memory_mb = 256, sv_dirty_ring_size = 65536,
     sv_lock_partitions = 16, sv_ring_reclaim_tick_interval = 1024, sv_ring_slot_stuck_timeout_ms = 5000\<rparr>"

definition INT_MAX :: int where
  "INT_MAX = 2147483647"

record int_guc =
  ig_name :: string
  ig_var :: "settings \<Rightarrow> int"
  ig_default :: int
  ig_min :: int
  ig_max :: int

text \<open>The calls of \<open>DefineCustomIntVariable\<close>; three of them only while the library is preloaded.\<close>

definition always_gucs :: "int_guc list" where
  "always_gucs =
     [\<lparr>ig_name = ''pg_redis.flush_interval'', ig_var = sv_flush_interval_s, ig_default = 5, ig_min = 1, ig_max = 3600\<rparr>,
      \<lparr>ig_name = ''pg_redis.flush_batch_size'', ig_var = sv_flush_batch_size, ig_default = 1000, ig_min = 1, ig_max = 1000000\<rparr>,
      \<lparr>ig_name = ''pg_redis.ttl_cleanup_interval'', ig_var = sv_ttl_cleanup_interval_s, ig_default = 30, ig_min = 1, ig_max = 86400\<rparr>,
      \<lparr>ig_name = ''pg_redis.max_key_size'', ig_var = sv_max_key_size, ig_default = 1024, ig_min = 1, ig_max = int PG_REDIS_MAX_KEY_SIZE\<rparr>,
      \<lparr>ig_name = ''pg_redis.max_value_size'', ig_var = sv_max_value_size, ig_default = 1048576, ig_min = 1, ig_max = INT_MAX\<rparr>,
      \<lparr>ig_name = ''pg_redis.ring_reclaim_tick_interval'', ig_var = sv_ring_reclaim_tick_interval, ig_default = 1024, ig_min = 1, ig_max = INT_MAX\<rparr>,
      \<lparr>ig_name = ''pg_redis.ring_slot_stuck_timeout'', ig_var = sv_ring_slot_stuck_timeout_ms, ig_default = 5000, ig_min = 100, ig_max = INT_MAX\<rparr>]"

definition postmaster_gucs :: "int_guc list" where
  "postmaster_gucs =
     [\<lparr>ig_name = ''pg_redis.shared_max_memory'', ig_var = sv_shared_max_memory_mb, ig_default = 256, ig_min = 1, ig_max = 32768\<rparr>,
      \<lparr>ig_name = ''pg_redis.dirty_ring_size'', ig_var = sv_dirty_ring_size, ig_default = 65536, ig_min = 1024, ig_max = 1048576\<rparr>,
      \<lparr>ig_name = ''pg_redis.lock_partitions'', ig_var = sv_lock_partitions, ig_default = 16, ig_min = 1, ig_max = 128\<rparr>]"

definition guc_in_range :: "settings \<Rightarrow> int_guc \<Rightarrow> bool" where
  "guc_in_range cf v \<longleftrightarrow> ig_min v \<le> ig_var v cf \<and> ig_var v cf \<le> ig_max v"

text \<open>
  What PostgreSQL guarantees of the variables: those defined are within their range, and the three that are not
  defined without preloading keep the values the C file initialises them with.
\<close>

definition settings_ok :: "bool \<Rightarrow> settings \<Rightarrow> bool" where
  "settings_ok preload cf \<longleftrightarrow> list_all (guc_in_range cf) always_gucs \<and>
     (if preload then list_all (guc_in_range cf) postmaster_gucs
      else list_all (\<lambda>v. ig_var v cf = ig_var v static_settings) postmaster_gucs)"

section \<open>Hooks of the mode variables\<close>

definition check_persistence_mode :: "string option \<Rightarrow> bool" where
  "check_persistence_mode newval =
     (case newval of
        None \<Rightarrow> True
      | Some m \<Rightarrow> m = ''none'' \<or> m = ''sync_table'' \<or> m = ''async_table'' \<or> m = ''snapshot'' \<or> m = ''aof'')"

definition assign_persistence_mode :: "guc \<Rightarrow> string option \<Rightarrow> bool" where
  "assign_persistence_mode g newval =
     (case newval of
        None \<Rightarrow> False
      | Some m \<Rightarrow> m = ''async_table'' \<and>
          (case pg_redis_storage_mode g of None \<Rightarrow> False | Some st \<Rightarrow> st \<noteq> ''shared''))"

definition check_storage_mode :: "string option \<Rightarrow> bool" where
  "check_storage_mode newval = (case newval of None \<Rightarrow> True | Some m \<Rightarrow> m = ''session'' \<or> m = ''shared'')"

text \<open>\<open>assign_persistence_mode\<close> answers whether it warns.\<close>

section \<open>Extension start\<close>

definition pg_redis_bgworker_register :: "bool \<Rightarrow> bool \<Rightarrow> bool" where
  "pg_redis_bgworker_register preload enable = (if \<not> preload then False else if \<not> enable then False else True)"

text \<open>
  What loading the library does: the variables it defines, with their initial values, whether it installs the two
  shared-memory hooks and registers the worker, and the transaction callback.
\<close>

record init_effects =
  ie_string_gucs :: "(string \<times> string) list"
  ie_int_gucs :: "int_guc list"
  ie_bool_gucs :: "(string \<times> bool) list"
  ie_enum_gucs :: "(string \<times> string) list"
  ie_shmem_hooks :: bool
  ie_worker :: bool
  ie_xact_callback :: bool

definition PG_init :: "bool \<Rightarrow> bool \<Rightarrow> init_effects" where
  "PG_init preload enable_bgworker =
     \<lparr>ie_string_gucs =
        [(''pg_redis.persistence_mode'', ''sync_table''), (''pg_redis.storage_mode'', ''session'')] @
        (if preload then [(''pg_redis.bgworker_database'', ''postgres'')] else []),
      ie_int_gucs = always_gucs @ (if preload then postmaster_gucs else []),
      ie_bool_gucs = [(''pg_redis.enable_background_worker'', False)],
      ie_enum_gucs = [(''pg_redis.async_full_action'', ''block'')],
      ie_shmem_hooks = preload,
      ie_worker = (if preload then pg_redis_bgworker_register preload enable_bgworker else False),
      ie_xact_callback = True\<rparr>"

section \<open>Sizes\<close>

definition PG_REDIS_BYTES_PER_ENTRY :: "64 word" where
  "PG_REDIS_BYTES_PER_ENTRY = 2048"

definition estimate_max_entries :: "settings \<Rightarrow> 64 word" where
  "estimate_max_entries cf =
     (let est = (word_of_int (sv_shared_max_memory_mb cf) :: 64 word) * 1024 * 1024 div PG_REDIS_BYTES_PER_ENTRY
      in if est < 1024 then 1024 else est)"

text \<open>The sizes of the C structs, and PostgreSQL's \<open>hash_estimate_size\<close>.\<close>

record platform =
  pf_sizeof_header :: nat
  pf_sizeof_event :: nat
  pf_sizeof_entry :: nat
  pf_hash_estimate_size :: "nat \<Rightarrow> nat \<Rightarrow> nat"

text \<open>PostgreSQL's \<open>add_size\<close> and \<open>mul_size\<close> raise when a result does not fit, so that sizes are natural numbers.\<close>

definition MAXALIGN :: "nat \<Rightarrow> nat" where
  "MAXALIGN n = (n + 7) div 8 * 8"

definition pg_redis_dirty_ring_size_bytes :: "platform \<Rightarrow> int \<Rightarrow> nat" where
  "pg_redis_dirty_ring_size_bytes pf slot_count = pf_sizeof_event pf * unat (word_of_int slot_count :: 64 word)"

record shmem_request =
  rq_size :: nat
  rq_legacy_locks :: nat
  rq_partition_locks :: int

definition pg_redis_shmem_request :: "platform \<Rightarrow> settings \<Rightarrow> shmem_request" where
  "pg_redis_shmem_request pf cf =
     \<lparr>rq_size = MAXALIGN (pf_sizeof_header pf) + MAXALIGN (pg_redis_dirty_ring_size_bytes pf (sv_dirty_ring_size cf)) +
        pf_hash_estimate_size pf (unat (estimate_max_entries cf)) (pf_sizeof_entry pf),
      rq_legacy_locks = 3,
      rq_partition_locks = sv_lock_partitions cf\<rparr>"

section \<open>Shared header and startup\<close>

text \<open>
  The locks of the named tranche are their indices, a DSA handle is a number and 0 is \<open>DSM_HANDLE_INVALID\<close>, a
  latch is the number of its process.
\<close>

record PgRedisSharedHeader =
  hd_snapshot_lock :: nat
  hd_snapshot_in_progress :: bool
  hd_snapshot_id_inflight :: int
  hd_startup_lock :: nat
  hd_loaded :: nat
  hd_last_load_attempt :: int
  hd_dsa :: nat
  hd_lock_tranche_id :: int
  hd_bgw_latch :: "nat option"
  hd_ring_write_head :: nat
  hd_ring_read_head :: nat
  hd_ring_consumer_lock :: nat

text \<open>The named areas of shared memory; \<open>None\<close> is an area that \<open>ShmemInitStruct\<close> does not find.\<close>

record shmem =
  sm_header :: "PgRedisSharedHeader option"
  sm_slots :: "PgRedisDirtyEvent list option"
  sm_keyspace :: "nat option"

definition no_shmem :: shmem where
  "no_shmem = \<lparr>sm_header = None, sm_slots = None, sm_keyspace = None\<rparr>"

definition fresh_header :: PgRedisSharedHeader where
  "fresh_header = \<lparr>hd_snapshot_lock = 0, hd_snapshot_in_progress = False, hd_snapshot_id_inflight = 0,
     hd_startup_lock = 1, hd_loaded = 0, hd_last_load_attempt = 0, hd_dsa = 0, hd_lock_tranche_id = 0, hd_bgw_latch = None,
     hd_ring_write_head = 0, hd_ring_read_head = 0, hd_ring_consumer_lock = 2\<rparr>"

definition pg_redis_shmem_startup :: "int \<Rightarrow> settings \<Rightarrow> shmem \<Rightarrow> shmem" where
  "pg_redis_shmem_startup tranche cf sm =
     (let ring_slots = nat (sv_dirty_ring_size cf);
          max_entries = unat (estimate_max_entries cf);
          found = sm_header sm \<noteq> None;
          sm = (if found then sm else sm\<lparr>sm_header := Some fresh_header\<rparr>);
          sm = (if sm_slots sm \<noteq> None then sm
                else sm\<lparr>sm_slots := Some (dirty_ring.ring_slots (pg_redis_dirty_ring_shmem_init ring_slots))\<rparr>);
          sm = (if found then sm
                else sm\<lparr>sm_header := map_option (\<lambda>h. h\<lparr>hd_lock_tranche_id := tranche\<rparr>) (sm_header sm)\<rparr>)
      in if sm_keyspace sm \<noteq> None then sm else sm\<lparr>sm_keyspace := Some max_entries\<rparr>)"

text \<open>The ring of the header's heads and the slot area, and the bytes that startup takes of the reserved space.\<close>

definition shmem_ring :: "shmem \<Rightarrow> dirty_ring option" where
  "shmem_ring sm =
     (case (sm_header sm, sm_slots sm) of
        (Some h, Some sl) \<Rightarrow> Some \<lparr>ring_slots = sl, ring_write_head = hd_ring_write_head h, ring_read_head = hd_ring_read_head h\<rparr>
      | _ \<Rightarrow> None)"

definition startup_space :: "platform \<Rightarrow> settings \<Rightarrow> nat" where
  "startup_space pf cf = pf_sizeof_header pf + pg_redis_dirty_ring_size_bytes pf (sv_dirty_ring_size cf) +
     pf_hash_estimate_size pf (unat (estimate_max_entries cf)) (pf_sizeof_entry pf)"

section \<open>Partition locks\<close>

text \<open>\<open>hash_bytes\<close> of PostgreSQL is a parameter; \<open>locks\<close> tells whether the lock array was attached.\<close>

definition pg_redis_partition_lock :: "(bytes \<Rightarrow> 32 word) \<Rightarrow> bool \<Rightarrow> settings \<Rightarrow> bytes \<Rightarrow> nat option" where
  "pg_redis_partition_lock hash_bytes locks cf key =
     (if \<not> locks \<or> sv_lock_partitions cf \<le> 0 then None
      else Some (unat (hash_bytes key mod word_of_int (sv_lock_partitions cf))))"

section \<open>Latch of the worker\<close>

definition pg_redis_shmem_set_bgw_latch :: "nat option \<Rightarrow> PgRedisSharedHeader option \<Rightarrow> PgRedisSharedHeader option" where
  "pg_redis_shmem_set_bgw_latch l h = map_option (\<lambda>h. h\<lparr>hd_bgw_latch := l\<rparr>) h"

definition pg_redis_shmem_wake_bgw :: "PgRedisSharedHeader option \<Rightarrow> nat option" where
  "pg_redis_shmem_wake_bgw h = (case h of None \<Rightarrow> None | Some h \<Rightarrow> hd_bgw_latch h)"

section \<open>Attaching the segment\<close>

text \<open>
  \<open>dsa_create\<close> returns the handle of a new segment or raises (\<open>None\<close>), \<open>dsa_attach\<close> succeeds or raises. The
  startup lock is held from the test of the handle to its publication, so that the call is one step.
\<close>

record dsa_env =
  dx_create :: "nat option"
  dx_attach_ok :: bool

datatype attach_result = Attached | AttachRaised

definition pg_redis_shmem_attach_dsa ::
  "dsa_env \<Rightarrow> PgRedisSharedHeader option \<Rightarrow> nat option \<Rightarrow> attach_result \<times> PgRedisSharedHeader option \<times> nat option" where
  "pg_redis_shmem_attach_dsa x shared cached_dsa =
     (case cached_dsa of
        Some d \<Rightarrow> (Attached, shared, cached_dsa)
      | None \<Rightarrow>
          (case shared of
             None \<Rightarrow> (Attached, shared, cached_dsa)
           | Some h \<Rightarrow>
               if hd_dsa h = 0
               then (case dx_create x of
                       None \<Rightarrow> (AttachRaised, shared, cached_dsa)
                     | Some d \<Rightarrow> (Attached, Some (h\<lparr>hd_dsa := d\<rparr>), Some d))
               else if dx_attach_ok x then (Attached, shared, Some (hd_dsa h))
               else (AttachRaised, shared, cached_dsa)))"

section \<open>Snapshot coordination\<close>

definition pg_redis_shmem_try_begin_snapshot :: "PgRedisSharedHeader option \<Rightarrow> bool \<times> PgRedisSharedHeader option" where
  "pg_redis_shmem_try_begin_snapshot shared =
     (case shared of
        None \<Rightarrow> (True, None)
      | Some h \<Rightarrow> if hd_snapshot_in_progress h then (False, shared)
                else (True, Some (h\<lparr>hd_snapshot_in_progress := True\<rparr>)))"

definition pg_redis_shmem_end_snapshot :: "PgRedisSharedHeader option \<Rightarrow> PgRedisSharedHeader option" where
  "pg_redis_shmem_end_snapshot shared = map_option (\<lambda>h. h\<lparr>hd_snapshot_in_progress := False\<rparr>) shared"

section \<open>Facts about the configuration\<close>

lemmas guc_tables = always_gucs_def postmaster_gucs_def guc_in_range_def

lemma defaults_agree:
  "settings_ok preload static_settings" "list_all (\<lambda>v. ig_var v static_settings = ig_default v) (always_gucs @ postmaster_gucs)"
  "distinct (map ig_name (always_gucs @ postmaster_gucs))"
  by (simp_all add: settings_ok_def guc_tables static_settings_def INT_MAX_def PG_REDIS_MAX_KEY_SIZE_def)

lemma settings_okD:
  assumes "settings_ok preload cf"
  shows "1 \<le> sv_shared_max_memory_mb cf" "sv_shared_max_memory_mb cf \<le> 32768" "1024 \<le> sv_dirty_ring_size cf"
    "sv_dirty_ring_size cf \<le> 1048576" "1 \<le> sv_lock_partitions cf" "sv_lock_partitions cf \<le> 128"
    "1 \<le> sv_max_key_size cf" "sv_max_key_size cf \<le> int PG_REDIS_MAX_KEY_SIZE" "1 \<le> sv_flush_interval_s cf"
  using assms by (simp_all add: settings_ok_def guc_tables static_settings_def split: if_splits)

text \<open>
  The configured key limit is always in force: with the values the variable can take, the clamp of
  \<open>pg_redis_check_key_len\<close> never replaces it.
\<close>

lemma key_limit_in_force:
  assumes "settings_ok preload cf" "pg_redis_max_key_size g = sv_max_key_size cf"
  shows "pg_redis_check_key_len g len = Inr () \<longleftrightarrow> 0 < len \<and> int len \<le> sv_max_key_size cf"
  using settings_okD(7,8) [OF assms(1)] assms(2) by (auto simp: pg_redis_check_key_len_def Let_def)

fun mode_name :: "PgRedisPersistenceMode \<Rightarrow> string" where
  "mode_name PG_REDIS_PERSIST_NONE = ''none''"
| "mode_name PG_REDIS_PERSIST_SYNC_TABLE = ''sync_table''"
| "mode_name PG_REDIS_PERSIST_ASYNC_TABLE = ''async_table''"
| "mode_name PG_REDIS_PERSIST_SNAPSHOT = ''snapshot''"
| "mode_name PG_REDIS_PERSIST_AOF = ''aof''"

text \<open>
  The check hook accepts exactly the names that the resolution of the mode understands, so that the fall-back of
  the resolution is only reached for an unset variable; and when the assign hook warns, the mode in effect is
  synchronous.
\<close>

lemma persistence_mode_checked:
  "check_persistence_mode (Some m) \<longleftrightarrow> mode_name (pg_redis_resolve_persistence_mode (g\<lparr>pg_redis_persistence_mode := Some m\<rparr>)) = m"
  by (auto simp: check_persistence_mode_def pg_redis_resolve_persistence_mode_def)

lemma warning_means_fallback:
  assumes "assign_persistence_mode g (pg_redis_persistence_mode g)"
  shows "pg_redis_effective_persistence_mode g = PG_REDIS_PERSIST_SYNC_TABLE"
  using assms by (auto simp: assign_persistence_mode_def pg_redis_effective_persistence_mode_def
    pg_redis_resolve_persistence_mode_def pg_redis_storage_is_shared_def pg_redis_resolve_storage_mode_def split: option.splits)

section \<open>Facts about sizes and startup\<close>

lemma max_entries_exact:
  assumes "1 \<le> sv_shared_max_memory_mb cf" "sv_shared_max_memory_mb cf \<le> 32768"
  shows "uint (estimate_max_entries cf) = max 1024 (512 * sv_shared_max_memory_mb cf)"
proof -
  let ?mb = "sv_shared_max_memory_mb cf"
  have "uint ((word_of_int ?mb :: 64 word) * 1024 * 1024) = ?mb * 1024 * 1024"
    using assms by (simp add: uint_word_ariths word_of_int_eq_iff take_bit_int_eq_self uint_word_of_int)
  then have "uint ((word_of_int ?mb :: 64 word) * 1024 * 1024 div PG_REDIS_BYTES_PER_ENTRY) = 512 * ?mb"
    by (simp add: uint_div_distrib PG_REDIS_BYTES_PER_ENTRY_def)
  then show ?thesis by (simp add: estimate_max_entries_def Let_def word_less_alt)
qed

lemma startup_ring:
  assumes "settings_ok preload cf"
  shows "\<exists>R. shmem_ring (pg_redis_shmem_startup tranche cf no_shmem) = Some R \<and> ring_ok 0 R \<and>
    int (ring_capacity R) = sv_dirty_ring_size cf"
proof -
  let ?R = "pg_redis_dirty_ring_shmem_init (nat (sv_dirty_ring_size cf))"
  have "shmem_ring (pg_redis_shmem_startup tranche cf no_shmem) = Some ?R"
    by (simp add: shmem_ring_def pg_redis_shmem_startup_def no_shmem_def fresh_header_def pg_redis_dirty_ring_shmem_init_def)
  moreover have "ring_ok 0 ?R" using settings_okD(3,4) [OF assms] by (intro ring_ok_init) auto
  moreover have "int (ring_capacity ?R) = sv_dirty_ring_size cf"
    using settings_okD(3) [OF assms] by (simp add: ring_capacity_def pg_redis_dirty_ring_shmem_init_def)
  ultimately show ?thesis by blast
qed

text \<open>The hook may run in every backend: it finds the areas and leaves their contents as they are.\<close>

lemma startup_idempotent:
  assumes "sm_header sm \<noteq> None" "sm_slots sm \<noteq> None" "sm_keyspace sm \<noteq> None"
  shows "pg_redis_shmem_startup tranche cf sm = sm"
  using assms by (simp add: pg_redis_shmem_startup_def Let_def)

lemma startup_creates:
  "sm_header (pg_redis_shmem_startup tranche cf sm) \<noteq> None" "sm_slots (pg_redis_shmem_startup tranche cf sm) \<noteq> None"
  "sm_keyspace (pg_redis_shmem_startup tranche cf sm) \<noteq> None"
  by (auto simp: pg_redis_shmem_startup_def Let_def)

lemma partition_in_range:
  assumes "settings_ok preload cf"
  shows "\<exists>i. pg_redis_partition_lock hb True cf key = Some i \<and> int i < sv_lock_partitions cf"
proof -
  note O = settings_okD(5,6) [OF assms]
  have "uint (hb key mod word_of_int (sv_lock_partitions cf)) = uint (hb key) mod sv_lock_partitions cf"
    using O by (simp add: uint_mod_distrib uint_word_of_int take_bit_int_eq_self)
  then have "int (unat (hb key mod word_of_int (sv_lock_partitions cf))) < sv_lock_partitions cf"
    using O by (simp add: pos_mod_bound)
  then show ?thesis using O by (simp add: pg_redis_partition_lock_def)
qed

lemma startup_space_reserved: "startup_space pf cf \<le> rq_size (pg_redis_shmem_request pf cf)"
proof -
  have "n \<le> MAXALIGN n" for n by (simp add: MAXALIGN_def)
  then show ?thesis by (simp add: startup_space_def pg_redis_shmem_request_def add_mono)
qed

text \<open>
  C25: With any values the configuration variables can take, the shared areas are sized and used as intended: the
  keyspace is sized for one entry per 2048 bytes, at least 1024 and at most 16777216, with no overflow on the
  way; the start yields an empty ring with all configured slots; the areas and locks that the start uses were
  reserved by the request, and every key has a partition lock among those reserved.
\<close>

theorem shared_memory_sized:
  assumes "settings_ok preload cf"
  shows "uint (estimate_max_entries cf) = max 1024 (512 * sv_shared_max_memory_mb cf) \<and> uint (estimate_max_entries cf) \<le> 16777216 \<and>
    (\<exists>R. shmem_ring (pg_redis_shmem_startup tranche cf no_shmem) = Some R \<and> ring_ok 0 R \<and> int (ring_capacity R) = sv_dirty_ring_size cf) \<and>
    startup_space pf cf \<le> rq_size (pg_redis_shmem_request pf cf) \<and>
    (\<forall>h. sm_header (pg_redis_shmem_startup tranche cf no_shmem) = Some h \<longrightarrow>
       distinct [hd_snapshot_lock h, hd_startup_lock h, hd_ring_consumer_lock h] \<and>
       max (hd_snapshot_lock h) (max (hd_startup_lock h) (hd_ring_consumer_lock h)) < rq_legacy_locks (pg_redis_shmem_request pf cf)) \<and>
    (\<forall>key. \<exists>i. pg_redis_partition_lock hb True cf key = Some i \<and> int i < rq_partition_locks (pg_redis_shmem_request pf cf))"
proof (intro conjI allI impI)
  note O = settings_okD(1,2) [OF assms]
  show e: "uint (estimate_max_entries cf) = max 1024 (512 * sv_shared_max_memory_mb cf)" by (rule max_entries_exact [OF O])
  show "uint (estimate_max_entries cf) \<le> 16777216" using e O by simp
  show "\<exists>R. shmem_ring (pg_redis_shmem_startup tranche cf no_shmem) = Some R \<and> ring_ok 0 R \<and> int (ring_capacity R) = sv_dirty_ring_size cf"
    by (rule startup_ring [OF assms])
  show "startup_space pf cf \<le> rq_size (pg_redis_shmem_request pf cf)" by (rule startup_space_reserved)
  show "\<exists>i. pg_redis_partition_lock hb True cf key = Some i \<and> int i < rq_partition_locks (pg_redis_shmem_request pf cf)" for key
    using partition_in_range [OF assms] by (simp add: pg_redis_shmem_request_def)
qed (auto simp: pg_redis_shmem_startup_def no_shmem_def fresh_header_def pg_redis_shmem_request_def)

theorem shared_memory_sized_witness: "uint (estimate_max_entries (static_settings\<lparr>sv_shared_max_memory_mb := 4096\<rparr>)) = 2097152"
proof -
  have "settings_ok True (static_settings\<lparr>sv_shared_max_memory_mb := 4096\<rparr>)"
    by (simp add: settings_ok_def guc_tables static_settings_def INT_MAX_def PG_REDIS_MAX_KEY_SIZE_def)
  from shared_memory_sized [OF this] show ?thesis by (simp add: static_settings_def)
qed

section \<open>One segment for all backends\<close>

record dsa_cluster =
  dc_header :: "PgRedisSharedHeader option"
  dc_cached :: "nat \<Rightarrow> nat option"

datatype dsa_event = AttachDsa nat dsa_env | BackendExit nat

fun dsa_event_step :: "dsa_event \<Rightarrow> dsa_cluster \<Rightarrow> dsa_cluster" where
  "dsa_event_step (AttachDsa b x) S =
     (case pg_redis_shmem_attach_dsa x (dc_header S) (dc_cached S b) of
        (_, h, c) \<Rightarrow> S\<lparr>dc_header := h, dc_cached := (dc_cached S)(b := c)\<rparr>)"
| "dsa_event_step (BackendExit b) S = S\<lparr>dc_cached := (dc_cached S)(b := None)\<rparr>"

fun dsa_run :: "dsa_event list \<Rightarrow> dsa_cluster \<Rightarrow> dsa_cluster" where
  "dsa_run [] S = S"
| "dsa_run (e # es) S = dsa_run es (dsa_event_step e S)"

text \<open>PostgreSQL never returns the invalid handle for a segment it has created.\<close>

fun dsa_handle_ok :: "dsa_event \<Rightarrow> bool" where
  "dsa_handle_ok (AttachDsa b x) \<longleftrightarrow> dx_create x \<noteq> Some 0"
| "dsa_handle_ok (BackendExit b) \<longleftrightarrow> True"

definition one_segment :: "dsa_cluster \<Rightarrow> bool" where
  "one_segment S \<longleftrightarrow> (\<forall>b d. dc_cached S b = Some d \<longrightarrow> d \<noteq> 0 \<and> map_option hd_dsa (dc_header S) = Some d)"

definition published :: "dsa_cluster \<Rightarrow> nat option" where
  "published S = (case dc_header S of None \<Rightarrow> None | Some h \<Rightarrow> if hd_dsa h = 0 then None else Some (hd_dsa h))"

lemma dsa_event_step_ok:
  assumes "one_segment S" "dsa_handle_ok e"
  shows "one_segment (dsa_event_step e S)" "published S = Some d \<Longrightarrow> published (dsa_event_step e S) = Some d"
  using assms by (cases e; auto simp: one_segment_def published_def pg_redis_shmem_attach_dsa_def split: option.splits if_splits)+

lemma dsa_run_ok:
  assumes "one_segment S" "list_all dsa_handle_ok es"
  shows "one_segment (dsa_run es S)" "published S = Some d \<Longrightarrow> published (dsa_run es S) = Some d"
  using assms dsa_event_step_ok by (induction es arbitrary: S) auto

lemma cached_published: "one_segment S \<Longrightarrow> dc_cached S b = Some d \<Longrightarrow> published S = Some d"
  by (fastforce simp: one_segment_def published_def split: option.splits)

text \<open>
  C26: All backends of a cluster use one segment: whatever backends attach, fail to attach, exit and come back, a
  backend attached at one time and a backend attached at any later time have the segment whose handle is
  published in the shared header.
\<close>

theorem one_dsa_segment:
  assumes "list_all dsa_handle_ok es" "list_all dsa_handle_ok es'"
    and "S = dsa_run es \<lparr>dc_header = Some h, dc_cached = \<lambda>_. None\<rparr>" "S' = dsa_run es' S"
    and "dc_cached S b = Some d" "dc_cached S' b' = Some d'"
  shows "d' = d \<and> d \<noteq> 0 \<and> published S = Some d \<and> published S' = Some d"
proof -
  have "one_segment \<lparr>dc_header = Some h, dc_cached = \<lambda>_. None\<rparr>" by (simp add: one_segment_def)
  then have s: "one_segment S" using dsa_run_ok(1) assms(1,3) by blast
  have p: "published S = Some d" by (rule cached_published [OF s assms(5)])
  have "one_segment S'" "published S' = Some d" using dsa_run_ok [OF s assms(2)] p assms(4) by simp_all
  then show ?thesis using cached_published [of S' b' d'] assms(5,6) s p by (auto simp: one_segment_def)
qed

definition attach_ok :: dsa_env where
  "attach_ok = \<lparr>dx_create = Some 7, dx_attach_ok = True\<rparr>"

theorem one_dsa_segment_witness:
  "dc_cached (dsa_run [AttachDsa 2 (attach_ok\<lparr>dx_create := Some 9\<rparr>)]
     (dsa_run [AttachDsa 1 (attach_ok\<lparr>dx_create := None\<rparr>), AttachDsa 1 attach_ok] \<lparr>dc_header = Some fresh_header, dc_cached = \<lambda>_. None\<rparr>)) 2 = Some 7"
proof -
  let ?S = "dsa_run [AttachDsa 1 (attach_ok\<lparr>dx_create := None\<rparr>), AttachDsa 1 attach_ok] \<lparr>dc_header = Some fresh_header, dc_cached = \<lambda>_. None\<rparr>"
  let ?S' = "dsa_run [AttachDsa 2 (attach_ok\<lparr>dx_create := Some 9\<rparr>)] ?S"
  have "dc_cached ?S 1 = Some 7" "\<exists>d. dc_cached ?S' 2 = Some d"
    by (simp_all add: attach_ok_def fresh_header_def pg_redis_shmem_attach_dsa_def)
  then show ?thesis
    using one_dsa_segment [OF _ _ refl refl, where h = fresh_header and b = 1 and d = 7 and b' = 2 and
      es = "[AttachDsa 1 (attach_ok\<lparr>dx_create := None\<rparr>), AttachDsa 1 attach_ok]" and es' = "[AttachDsa 2 (attach_ok\<lparr>dx_create := Some 9\<rparr>)]"]
    by (auto simp: attach_ok_def)
qed

section \<open>Snapshots exclude each other\<close>

text \<open>While a snapshot is in progress no other one begins, and after its end one can.\<close>

lemma snapshot_exclusive:
  assumes "pg_redis_shmem_try_begin_snapshot (Some h) = (True, s)"
  shows "fst (pg_redis_shmem_try_begin_snapshot s) = False" "fst (pg_redis_shmem_try_begin_snapshot (pg_redis_shmem_end_snapshot s)) = True"
  using assms by (auto simp: pg_redis_shmem_try_begin_snapshot_def pg_redis_shmem_end_snapshot_def split: if_splits)

text \<open>A producer that finds the ring full wakes the worker that has set its latch last, and nobody after its exit.\<close>

lemma wake_reaches_worker:
  "pg_redis_shmem_wake_bgw (pg_redis_shmem_set_bgw_latch l (Some h)) = l"
  by (simp add: pg_redis_shmem_wake_bgw_def pg_redis_shmem_set_bgw_latch_def)

end
