(* ===== verification/Locks.thy ===== *)
theory Locks
  imports Shmem
begin

text \<open>
  The lightweight locks of the extension. Every operation is projected on what it does to the locks: acquiring
  and releasing them, and blocking work in between (SQL through SPI, a sleep, a wait). Processes run such
  operations interleaved; acquiring waits until nobody holds the lock in a conflicting mode. A raise releases
  the locks that are held, as \<open>LWLockReleaseAll\<close> does when the transaction aborts, so that the branches of an
  operation that raise or return early have the same projection as the others.
\<close>

section \<open>Lock actions\<close>

datatype lw_mode = LW_SHARED | LW_EXCLUSIVE

datatype 'l lock_act = Acquire 'l lw_mode | Release 'l | Blocking

datatype pg_lock = SnapshotLock | StartupLock | RingConsumerLock | Partition nat

definition locked :: "'l \<Rightarrow> lw_mode \<Rightarrow> 'l lock_act list" where
  "locked l m = [Acquire l m, Release l]"

text \<open>What the projections depend on: the partition of a key, the settings, the action on a full ring, and whether the tables are written at all.\<close>

record lock_env =
  lx_hash_bytes :: "bytes \<Rightarrow> 32 word"
  lx_locks :: bool
  lx_settings :: settings
  lx_sync_flush :: bool
  lx_writes :: bool

definition with_partition :: "lock_env \<Rightarrow> bytes \<Rightarrow> (nat \<Rightarrow> pg_lock lock_act list) \<Rightarrow> pg_lock lock_act list" where
  "with_partition x key f =
     (case pg_redis_partition_lock (lx_hash_bytes x) (lx_locks x) (lx_settings x) key of None \<Rightarrow> [] | Some i \<Rightarrow> f i)"

section \<open>Shared memory\<close>

definition pg_redis_shmem_acquire_all_partition_locks_exclusive :: "lock_env \<Rightarrow> pg_lock lock_act list" where
  "pg_redis_shmem_acquire_all_partition_locks_exclusive x =
     (if \<not> lx_locks x \<or> sv_lock_partitions (lx_settings x) \<le> 0 then []
      else map (\<lambda>i. Acquire (Partition i) LW_EXCLUSIVE) [0 ..< nat (sv_lock_partitions (lx_settings x))])"

definition pg_redis_shmem_release_all_partition_locks :: "lock_env \<Rightarrow> pg_lock lock_act list" where
  "pg_redis_shmem_release_all_partition_locks x =
     (if \<not> lx_locks x \<or> sv_lock_partitions (lx_settings x) \<le> 0 then []
      else map (\<lambda>i. Release (Partition i)) (rev [0 ..< nat (sv_lock_partitions (lx_settings x))]))"

definition attach_dsa_locks :: "bool \<Rightarrow> pg_lock lock_act list" where
  "attach_dsa_locks cached = (if cached then [] else locked StartupLock LW_EXCLUSIVE)"

definition pg_redis_assert_no_pg_redis_lwlock_held :: "lock_env \<Rightarrow> (pg_lock \<times> lw_mode) list \<Rightarrow> bool" where
  "pg_redis_assert_no_pg_redis_lwlock_held x held \<longleftrightarrow>
     list_all (\<lambda>l. l \<notin> fst ` set held) [SnapshotLock, StartupLock, RingConsumerLock] \<and>
     (if lx_locks x \<and> sv_lock_partitions (lx_settings x) > 0
      then list_all (\<lambda>i. Partition i \<notin> fst ` set held) [0 ..< nat (sv_lock_partitions (lx_settings x))] else True)"

section \<open>Ring and drain\<close>

text \<open>
  A pass of the drain collects under the consumer lock, writes the tables, and releases or aborts the batch
  under the lock again; \<open>n\<close> is the number of events collected.
\<close>

definition drain_locks :: "lock_env \<Rightarrow> nat \<Rightarrow> pg_lock lock_act list" where
  "drain_locks x n = (if \<not> lx_writes x then [] else locked RingConsumerLock LW_EXCLUSIVE @ (if n = 0 then [] else Blocking # locked RingConsumerLock LW_EXCLUSIVE))"

definition ring_full_locks :: "lock_env \<Rightarrow> nat \<Rightarrow> pg_lock lock_act list" where
  "ring_full_locks x n = (if lx_sync_flush x then Blocking # drain_locks x n else [Blocking])"

definition publish_blocking_locks :: "lock_env \<Rightarrow> nat list \<Rightarrow> pg_lock lock_act list" where
  "publish_blocking_locks x fulls = concat (map (ring_full_locks x) fulls)"

section \<open>Operations of the keyspace\<close>

text \<open>\<open>fulls\<close> lists the attempts that met a full ring, each with the events that the drain in between took.\<close>

definition hset_locks :: "lock_env \<Rightarrow> nat list \<Rightarrow> nat \<Rightarrow> pg_lock lock_act list" where
  "hset_locks x fulls i =
     concat (map (\<lambda>n. locked (Partition i) LW_EXCLUSIVE @ ring_full_locks x n) fulls) @ locked (Partition i) LW_EXCLUSIVE"

definition hdel_locks :: "lock_env \<Rightarrow> nat list \<Rightarrow> nat \<Rightarrow> pg_lock lock_act list" where
  "hdel_locks x fulls i =
     [Acquire (Partition i) LW_EXCLUSIVE] @
     concat (map (\<lambda>n. [Release (Partition i)] @ ring_full_locks x n @ [Acquire (Partition i) LW_EXCLUSIVE]) fulls) @
     [Release (Partition i)]"

definition flushall_locks :: "lock_env \<Rightarrow> bool \<Rightarrow> pg_lock lock_act list" where
  "flushall_locks x cached =
     attach_dsa_locks cached @
     pg_redis_shmem_acquire_all_partition_locks_exclusive x @ pg_redis_shmem_release_all_partition_locks x @
     locked RingConsumerLock LW_EXCLUSIVE @ (if lx_writes x then [Blocking] else [])"

datatype lock_op =
    OpAttachDsa bool
  | OpLookupRaw bytes
  | OpLookupField bytes
  | OpUpsert bytes
  | OpRemove bytes
  | OpWriteback bytes
  | OpHset bytes "nat list"
  | OpHdel bytes "nat list"
  | OpPublishBlocking "nat list"
  | OpDrain nat
  | OpReclaimStuck
  | OpFlushall bool
  | OpBeginSnapshot
  | OpEndSnapshot
  | OpSpi

fun op_locks :: "lock_env \<Rightarrow> lock_op \<Rightarrow> pg_lock lock_act list" where
  "op_locks x (OpAttachDsa cached) = attach_dsa_locks cached"
| "op_locks x (OpLookupRaw key) = with_partition x key (\<lambda>i. locked (Partition i) LW_SHARED)"
| "op_locks x (OpLookupField key) = with_partition x key (\<lambda>i. locked (Partition i) LW_SHARED)"
| "op_locks x (OpUpsert key) = with_partition x key (\<lambda>i. locked (Partition i) LW_EXCLUSIVE)"
| "op_locks x (OpRemove key) = with_partition x key (\<lambda>i. locked (Partition i) LW_EXCLUSIVE)"
| "op_locks x (OpWriteback key) = with_partition x key (\<lambda>i. locked (Partition i) LW_EXCLUSIVE)"
| "op_locks x (OpHset key fulls) = with_partition x key (hset_locks x fulls)"
| "op_locks x (OpHdel key fulls) = with_partition x key (hdel_locks x fulls)"
| "op_locks x (OpPublishBlocking fulls) = publish_blocking_locks x fulls"
| "op_locks x (OpDrain n) = drain_locks x n"
| "op_locks x OpReclaimStuck = locked RingConsumerLock LW_EXCLUSIVE"
| "op_locks x (OpFlushall cached) = flushall_locks x cached"
| "op_locks x OpBeginSnapshot = locked SnapshotLock LW_EXCLUSIVE"
| "op_locks x OpEndSnapshot = locked SnapshotLock LW_EXCLUSIVE"
| "op_locks x OpSpi = [Blocking]"

section \<open>Processes\<close>

record 'l lock_proc =
  lp_held :: "('l \<times> lw_mode) list"
  lp_todo :: "'l lock_act list"

definition compatible :: "lw_mode \<Rightarrow> lw_mode \<Rightarrow> bool" where
  "compatible m m' \<longleftrightarrow> m = LW_SHARED \<and> m' = LW_SHARED"

definition lock_free :: "'l \<Rightarrow> lw_mode \<Rightarrow> 'l lock_proc list \<Rightarrow> bool" where
  "lock_free l m ps \<longleftrightarrow> list_all (\<lambda>p. list_all (\<lambda>(l', m'). l' = l \<longrightarrow> compatible m m') (lp_held p)) ps"

definition drop_lock :: "'l \<Rightarrow> ('l \<times> lw_mode) list \<Rightarrow> ('l \<times> lw_mode) list" where
  "drop_lock l held = filter (\<lambda>h. fst h \<noteq> l) held"

fun proc_step :: "'l lock_proc list \<Rightarrow> 'l lock_proc \<Rightarrow> 'l lock_proc option" where
  "proc_step ps p =
     (case lp_todo p of
        [] \<Rightarrow> None
      | Acquire l m # as \<Rightarrow> if lock_free l m ps then Some (p\<lparr>lp_held := (l, m) # lp_held p, lp_todo := as\<rparr>) else None
      | Release l # as \<Rightarrow> if l \<in> fst ` set (lp_held p) then Some (p\<lparr>lp_held := drop_lock l (lp_held p), lp_todo := as\<rparr>) else None
      | Blocking # as \<Rightarrow> Some (p\<lparr>lp_todo := as\<rparr>))"

definition lock_step :: "nat \<Rightarrow> 'l lock_proc list \<Rightarrow> 'l lock_proc list option" where
  "lock_step i ps = (if i < length ps then map_option (\<lambda>p. ps[i := p]) (proc_step ps (ps ! i)) else None)"

inductive lock_reach :: "'l lock_proc list \<Rightarrow> 'l lock_proc list \<Rightarrow> bool" where
  lock_refl: "lock_reach ps ps"
| lock_more: "lock_reach ps qs \<Longrightarrow> lock_step i qs = Some rs \<Longrightarrow> lock_reach ps rs"

definition lock_start :: "lock_env \<Rightarrow> lock_op list list \<Rightarrow> pg_lock lock_proc list" where
  "lock_start x programs = map (\<lambda>ops. \<lparr>lp_held = [], lp_todo = concat (map (op_locks x) ops)\<rparr>) programs"

section \<open>Ordered acquisition\<close>

lemma compatible_sym: "compatible m m' = compatible m' m"
  by (auto simp: compatible_def)

lemma lock_freeD:
  assumes "lock_free l m ps" "p \<in> set ps" "(l, m') \<in> set (lp_held p)"
  shows "compatible m m'"
  using assms by (fastforce simp: lock_free_def list_all_iff)

lemma not_lock_free:
  assumes "\<not> lock_free l m ps"
  obtains p m' where "p \<in> set ps" "(l, m') \<in> set (lp_held p)"
  using assms by (fastforce simp: lock_free_def list_all_iff)

lemma lock_step_Some:
  "lock_step i ps = Some qs \<longleftrightarrow> (\<exists>p. i < length ps \<and> proc_step ps (ps ! i) = Some p \<and> qs = ps[i := p])"
  by (auto simp: lock_step_def)

lemma lock_reach_trans: "lock_reach qs rs \<Longrightarrow> lock_reach ps qs \<Longrightarrow> lock_reach ps rs"
  by (induction rule: lock_reach.induct) (auto intro: lock_reach.intros)

definition lock_work :: "'l lock_proc list \<Rightarrow> nat" where
  "lock_work ps = sum_list (map (\<lambda>p. length (lp_todo p)) ps)"

lemma lock_step_work:
  assumes "lock_step i ps = Some qs"
  shows "lock_work ps = Suc (lock_work qs)"
proof -
  obtain p where i: "i < length ps" and p: "proc_step ps (ps ! i) = Some p" and qs: "qs = ps[i := p]"
    using assms by (auto simp: lock_step_Some)
  have "length (lp_todo (ps ! i)) = Suc (length (lp_todo p))" using p by (auto split: list.splits lock_act.splits if_splits)
  moreover have "ps = take i ps @ ps ! i # drop (Suc i) ps" using i by (rule id_take_nth_drop)
  then have "lock_work ps = lock_work (take i ps) + length (lp_todo (ps ! i)) + lock_work (drop (Suc i) ps)"
    by (metis (no_types, lifting) add.assoc lock_work_def map_append list.simps(9) sum_list.Cons sum_list.append)
  moreover have "lock_work qs = lock_work (take i ps) + length (lp_todo p) + lock_work (drop (Suc i) ps)"
    using i by (simp add: qs lock_work_def upd_conv_take_nth_drop)
  ultimately show ?thesis by simp
qed

definition locks_exclusive :: "'l lock_proc list \<Rightarrow> bool" where
  "locks_exclusive ps \<longleftrightarrow> (\<forall>i j l m m'. i < length ps \<and> j < length ps \<and> i \<noteq> j \<and>
     (l, m) \<in> set (lp_held (ps ! i)) \<and> (l, m') \<in> set (lp_held (ps ! j)) \<longrightarrow> compatible m m')"

text \<open>
  A discipline for the use of locks: a rank for every lock; what a process acquires outranks all it holds, it
  only releases what it holds, it holds nothing while it does blocking work, and nothing at its end.
\<close>

locale lock_order =
  fixes rank :: "'l \<Rightarrow> nat"
  assumes rank_inj: "rank l = rank l' \<Longrightarrow> l = l'"
begin

fun ordered :: "('l \<times> lw_mode) list \<Rightarrow> 'l lock_act list \<Rightarrow> bool" where
  "ordered held [] \<longleftrightarrow> held = []"
| "ordered held (Acquire l m # as) \<longleftrightarrow> (\<forall>h \<in> set held. rank (fst h) < rank l) \<and> ordered ((l, m) # held) as"
| "ordered held (Release l # as) \<longleftrightarrow> l \<in> fst ` set held \<and> ordered (drop_lock l held) as"
| "ordered held (Blocking # as) \<longleftrightarrow> held = [] \<and> ordered [] as"

definition disciplined :: "'l lock_proc list \<Rightarrow> bool" where
  "disciplined ps \<longleftrightarrow> (\<forall>p \<in> set ps. ordered (lp_held p) (lp_todo p))"

lemma ordered_append: "ordered held as \<Longrightarrow> ordered [] bs \<Longrightarrow> ordered held (as @ bs)"
  by (induction held as rule: ordered.induct) auto

lemma ordered_concat: "(\<And>as. as \<in> set ass \<Longrightarrow> ordered [] as) \<Longrightarrow> ordered [] (concat ass)"
  by (induction ass) (auto intro: ordered_append)

lemma ordered_locked: "ordered [] (locked l m)"
  by (simp add: locked_def drop_lock_def)

lemma proc_step_ordered:
  assumes "ordered (lp_held p) (lp_todo p)" "proc_step ps p = Some q"
  shows "ordered (lp_held q) (lp_todo q)"
  using assms by (auto split: list.splits lock_act.splits if_splits)

lemma step_disciplined:
  assumes "disciplined ps" "lock_step i ps = Some qs"
  shows "disciplined qs"
proof -
  obtain p where i: "i < length ps" and p: "proc_step ps (ps ! i) = Some p" and qs: "qs = ps[i := p]"
    using assms(2) by (auto simp: lock_step_Some)
  have "ordered (lp_held p) (lp_todo p)"
    using proc_step_ordered [OF _ p] assms(1) i by (simp add: disciplined_def)
  then show ?thesis using assms(1) set_update_subset_insert [of ps i p] by (auto simp: disciplined_def qs)
qed

lemma reach_disciplined: "lock_reach ps qs \<Longrightarrow> disciplined ps \<Longrightarrow> disciplined qs"
  by (induction rule: lock_reach.induct) (auto intro: step_disciplined)

text \<open>A process that cannot go on waits for a lock of higher rank than all it holds, and somebody holds that lock.\<close>

lemma stuck_waits:
  assumes "ordered (lp_held p) (lp_todo p)" "lp_todo p \<noteq> []" "proc_step ps p = None"
  obtains l m as q m' where "lp_todo p = Acquire l m # as" "\<forall>h \<in> set (lp_held p). rank (fst h) < rank l"
    "q \<in> set ps" "(l, m') \<in> set (lp_held q)"
  using assms by (auto split: list.splits lock_act.splits if_splits elim: not_lock_free)

definition wants :: "'l lock_proc \<Rightarrow> nat" where
  "wants p = (case lp_todo p of Acquire l m # as \<Rightarrow> rank l | _ \<Rightarrow> 0)"

lemma progress:
  assumes "disciplined ps" "p \<in> set ps" "lp_todo p \<noteq> []"
  shows "\<exists>i qs. lock_step i ps = Some qs"
proof (rule ccontr)
  assume none: "\<nexists>i qs. lock_step i ps = Some qs"
  let ?B = "{p \<in> set ps. lp_todo p \<noteq> []}"
  have stuck: "proc_step ps p = None" if ps: "p \<in> set ps" for p
  proof -
    obtain i where "i < length ps" "ps ! i = p" using ps by (auto simp: in_set_conv_nth)
    then show ?thesis using none by (cases "proc_step ps p") (auto simp: lock_step_Some simp del: proc_step.simps)
  qed
  have B: "finite (wants ` ?B)" "wants ` ?B \<noteq> {}" using assms(2,3) by auto
  obtain b where b: "b \<in> ?B" and top: "wants b = Max (wants ` ?B)" using Max_in [OF B] by auto
  have ob: "ordered (lp_held b) (lp_todo b)" "lp_todo b \<noteq> []" "proc_step ps b = None"
    using b assms(1) stuck by (auto simp: disciplined_def)
  obtain l m as q m' where l: "lp_todo b = Acquire l m # as" "q \<in> set ps" "(l, m') \<in> set (lp_held q)"
    using stuck_waits [OF ob] by metis
  have oq: "ordered (lp_held q) (lp_todo q)" using assms(1) l(2) by (simp add: disciplined_def)
  have tq: "lp_todo q \<noteq> []" using oq l(3) by (cases "lp_todo q") auto
  obtain l2 m2 as2 where q: "lp_todo q = Acquire l2 m2 # as2" "\<forall>h \<in> set (lp_held q). rank (fst h) < rank l2"
    using stuck_waits [OF oq tq stuck [OF l(2)]] by metis
  have "rank l < rank l2" using q(2) l(3) by force
  moreover have "wants q \<le> Max (wants ` ?B)" using l(2) tq B(1) by (intro Max_ge) auto
  ultimately show False using top l(1) q(1) by (simp add: wants_def)
qed

lemma finishes:
  assumes "disciplined ps"
  shows "\<exists>qs. lock_reach ps qs \<and> list_all (\<lambda>p. lp_held p = [] \<and> lp_todo p = []) qs"
  using assms
proof (induction "lock_work ps" arbitrary: ps rule: less_induct)
  case less
  show ?case
  proof (cases "\<exists>p \<in> set ps. lp_todo p \<noteq> []")
    case True
    then obtain i qs where s: "lock_step i ps = Some qs" using progress [OF less.prems] by blast
    have "lock_work qs < lock_work ps" using lock_step_work [OF s] by simp
    then obtain rs where "lock_reach qs rs" "list_all (\<lambda>p. lp_held p = [] \<and> lp_todo p = []) rs"
      using less.hyps step_disciplined [OF less.prems s] by blast
    moreover have "lock_reach ps qs" by (rule lock_more [OF lock_refl s])
    ultimately show ?thesis using lock_reach_trans by blast
  next
    case False
    then have "list_all (\<lambda>p. lp_held p = [] \<and> lp_todo p = []) ps"
      using less.prems by (auto simp: list_all_iff disciplined_def)
    then show ?thesis using lock_refl by blast
  qed
qed

lemma blocking_holds_nothing:
  assumes "disciplined ps" "p \<in> set ps" "lp_todo p = Blocking # as"
  shows "lp_held p = []"
  using assms by (auto simp: disciplined_def)

end

lemma step_exclusive:
  assumes "locks_exclusive ps" "lock_step i ps = Some qs"
  shows "locks_exclusive qs"
proof -
  obtain p where i: "i < length ps" and p: "proc_step ps (ps ! i) = Some p" and qs: "qs = ps[i := p]"
    using assms(2) by (auto simp: lock_step_Some)
  have old: "compatible m m'" if "(l, m) \<in> set (lp_held p)" "j < length ps" "j \<noteq> i" "(l, m') \<in> set (lp_held (ps ! j))" for j l m m'
  proof (cases "(l, m) \<in> set (lp_held (ps ! i))")
    case True
    then show ?thesis using assms(1) i that unfolding locks_exclusive_def by metis
  next
    case False
    then have "lock_free l m ps" using p that(1) by (auto simp: drop_lock_def split: list.splits lock_act.splits if_splits)
    then show ?thesis by (rule lock_freeD) (use that in auto)
  qed
  show ?thesis unfolding locks_exclusive_def
  proof (intro allI impI, elim conjE)
    fix a b l m m'
    assume ab: "a < length qs" "b < length qs" "a \<noteq> b" "(l, m) \<in> set (lp_held (qs ! a))" "(l, m') \<in> set (lp_held (qs ! b))"
    consider "a = i" | "b = i" | "a \<noteq> i" "b \<noteq> i" by blast
    then show "compatible m m'"
    proof cases
      case 1
      then show ?thesis using old [of l m b m'] ab i by (simp add: qs)
    next
      case 2
      then show ?thesis using old [of l m' a m] ab i by (simp add: qs compatible_sym)
    next
      case 3
      then show ?thesis using assms(1) ab by (auto simp: qs locks_exclusive_def)
    qed
  qed
qed

lemma reach_exclusive: "lock_reach ps qs \<Longrightarrow> locks_exclusive ps \<Longrightarrow> locks_exclusive qs"
  by (induction rule: lock_reach.induct) (auto intro: step_exclusive)

section \<open>The locks of the extension\<close>

fun lock_rank :: "pg_lock \<Rightarrow> nat" where
  "lock_rank SnapshotLock = 0"
| "lock_rank StartupLock = 1"
| "lock_rank RingConsumerLock = 2"
| "lock_rank (Partition i) = 3 + i"

interpretation pg_locks: lock_order lock_rank
proof unfold_locales
  show "l = l'" if "lock_rank l = lock_rank l'" for l l'
    using that by (cases l; cases l') auto
qed

lemma acquire_all_ordered:
  assumes "\<forall>h \<in> set held. lock_rank (fst h) < 3 + i"
  shows "pg_locks.ordered held (map (\<lambda>i. Acquire (Partition i) LW_EXCLUSIVE) [i ..< i + n] @ as) \<longleftrightarrow>
    pg_locks.ordered (rev (map (\<lambda>i. (Partition i, LW_EXCLUSIVE)) [i ..< i + n]) @ held) as"
  using assms
proof (induction n arbitrary: held i)
  case (Suc n)
  have "\<forall>h \<in> set ((Partition i, LW_EXCLUSIVE) # held). lock_rank (fst h) < 3 + Suc i" using Suc.prems by auto
  from Suc.IH [OF this] show ?case using Suc.prems by (simp add: upt_conv_Cons del: upt_Suc)
qed simp

lemma release_all_ordered:
  "pg_locks.ordered (rev (map (\<lambda>i. (Partition i, LW_EXCLUSIVE)) [0 ..< n])) (map (\<lambda>i. Release (Partition i)) (rev [0 ..< n]))"
proof (induction n)
  case (Suc n)
  have "drop_lock (Partition n) (rev (map (\<lambda>i. (Partition i, LW_EXCLUSIVE)) [0 ..< n])) = rev (map (\<lambda>i. (Partition i, LW_EXCLUSIVE)) [0 ..< n])"
    by (auto simp: drop_lock_def filter_id_conv)
  then show ?case using Suc.IH by (simp add: drop_lock_def)
qed simp

lemma all_partitions_ordered:
  "pg_locks.ordered [] (pg_redis_shmem_acquire_all_partition_locks_exclusive x @ pg_redis_shmem_release_all_partition_locks x)"
  using acquire_all_ordered [of "[]" 0] release_all_ordered
  by (simp add: pg_redis_shmem_acquire_all_partition_locks_exclusive_def pg_redis_shmem_release_all_partition_locks_def)

lemmas ordered_parts = pg_locks.ordered_append pg_locks.ordered_concat pg_locks.ordered_locked

lemma drain_ordered: "pg_locks.ordered [] (drain_locks x n)"
  by (simp add: drain_locks_def locked_def drop_lock_def)

lemma ring_full_ordered: "pg_locks.ordered [] (ring_full_locks x n)"
  by (simp add: ring_full_locks_def drain_ordered)

lemma hdel_loop_ordered:
  "pg_locks.ordered [(Partition i, LW_EXCLUSIVE)]
     (concat (map (\<lambda>n. [Release (Partition i)] @ ring_full_locks x n @ [Acquire (Partition i) LW_EXCLUSIVE]) fulls) @ [Release (Partition i)])"
proof (induction fulls)
  case (Cons n fulls)
  then have "pg_locks.ordered [] (ring_full_locks x n @ Acquire (Partition i) LW_EXCLUSIVE #
      concat (map (\<lambda>n. [Release (Partition i)] @ ring_full_locks x n @ [Acquire (Partition i) LW_EXCLUSIVE]) fulls) @ [Release (Partition i)])"
    by (intro pg_locks.ordered_append ring_full_ordered) simp
  then show ?case by (simp add: drop_lock_def)
qed (simp add: drop_lock_def)

lemma with_partition_ordered: "(\<And>i. pg_locks.ordered [] (f i)) \<Longrightarrow> pg_locks.ordered [] (with_partition x key f)"
  by (simp add: with_partition_def split: option.splits)

lemma attach_ordered: "pg_locks.ordered [] (attach_dsa_locks cached)"
  by (simp add: attach_dsa_locks_def pg_locks.ordered_locked)

lemma flushall_ordered: "pg_locks.ordered [] (flushall_locks x cached)"
proof -
  have "pg_locks.ordered [] (locked RingConsumerLock LW_EXCLUSIVE @ (if lx_writes x then [Blocking] else []))"
    by (intro ordered_parts) simp
  from pg_locks.ordered_append [OF all_partitions_ordered this] show ?thesis
    by (simp add: flushall_locks_def pg_locks.ordered_append [OF attach_ordered])
qed

lemma op_locks_ordered: "pg_locks.ordered [] (op_locks x opn)"
proof (cases opn)
  case (OpHset key fulls)
  have "pg_locks.ordered [] (hset_locks x fulls i)" for i
    unfolding hset_locks_def by (intro ordered_parts) (auto intro: ordered_parts ring_full_ordered)
  then show ?thesis by (simp add: OpHset with_partition_ordered)
next
  case (OpHdel key fulls)
  have "pg_locks.ordered [] (hdel_locks x fulls i)" for i using hdel_loop_ordered by (simp add: hdel_locks_def)
  then show ?thesis by (simp add: OpHdel with_partition_ordered)
next
  case (OpPublishBlocking fulls)
  then show ?thesis by (auto simp: publish_blocking_locks_def intro!: pg_locks.ordered_concat ring_full_ordered)
qed (simp_all add: with_partition_ordered pg_locks.ordered_locked attach_ordered drain_ordered flushall_ordered)

lemma start_disciplined: "pg_locks.disciplined (lock_start x programs)"
  by (auto simp: lock_start_def pg_locks.disciplined_def intro!: pg_locks.ordered_concat op_locks_ordered)

lemma start_exclusive: "locks_exclusive (lock_start x programs)"
  by (auto simp: lock_start_def locks_exclusive_def)

text \<open>
  C23: The locks cannot deadlock: whatever operations the processes run in whatever interleaving, as long as one
  of them is not at its end some process can take its next step, and every reachable state can be continued to
  one where all processes are at their end and hold nothing.
\<close>

theorem locks_no_deadlock:
  assumes "lock_reach (lock_start x programs) ps"
  shows "((\<exists>p \<in> set ps. lp_todo p \<noteq> []) \<longrightarrow> (\<exists>i qs. lock_step i ps = Some qs)) \<and>
    (\<exists>qs. lock_reach ps qs \<and> list_all (\<lambda>p. lp_held p = [] \<and> lp_todo p = []) qs)"
  using pg_locks.progress pg_locks.finishes pg_locks.reach_disciplined [OF assms start_disciplined] by blast

definition two_programs :: "lock_op list list" where
  "two_programs = [[OpFlushall False], [OpHset [1] [2], OpHdel [2] [0]]]"

definition sample_locks :: lock_env where
  "sample_locks = \<lparr>lx_hash_bytes = \<lambda>k. of_nat (length k), lx_locks = True, lx_settings = static_settings, lx_sync_flush = True, lx_writes = True\<rparr>"

theorem locks_no_deadlock_witness:
  "\<exists>qs. lock_reach (lock_start sample_locks two_programs) qs \<and> list_all (\<lambda>p. lp_held p = [] \<and> lp_todo p = []) qs"
  using locks_no_deadlock [OF lock_refl] by blast

text \<open>
  C24: In every reachable state no two processes hold a lock in conflicting modes, and a process that is about to
  run SQL, to sleep or to wait holds no lock of the extension: the assertion that guards these places holds.
\<close>

theorem no_blocking_under_lock:
  assumes "lock_reach (lock_start x programs) ps"
  shows "locks_exclusive ps \<and>
    (\<forall>p as. p \<in> set ps \<and> lp_todo p = Blocking # as \<longrightarrow> pg_redis_assert_no_pg_redis_lwlock_held y (lp_held p))"
  using reach_exclusive [OF assms start_exclusive]
    pg_locks.blocking_holds_nothing [OF pg_locks.reach_disciplined [OF assms start_disciplined]]
  by (auto simp: pg_redis_assert_no_pg_redis_lwlock_held_def list_all_iff)

theorem no_blocking_under_lock_witness:
  "\<exists>ps. lock_step 1 (lock_start sample_locks two_programs) = Some ps \<and> lp_held (ps ! 1) = [(Partition 1, LW_EXCLUSIVE)] \<and> locks_exclusive ps"
proof -
  have "map_option (\<lambda>ps. lp_held (ps ! 1)) (lock_step 1 (lock_start sample_locks two_programs)) = Some [(Partition 1, LW_EXCLUSIVE)]"
    by code_simp
  then obtain ps where ps: "lock_step 1 (lock_start sample_locks two_programs) = Some ps" "lp_held (ps ! 1) = [(Partition 1, LW_EXCLUSIVE)]"
    by auto
  then show ?thesis using no_blocking_under_lock [OF lock_more [OF lock_refl ps(1)]] by blast
qed

end
