(* ===== verification/Spi_Helpers.thy ===== *)
theory Spi_Helpers
  imports Types
begin

text \<open>
  The helpers of \<open>src/persistence.c\<close> around SPI: the growing vectors that collect the parameters of a plan, and
  the cache of prepared plans. \<open>Flush\<close> and \<open>Async_Drain\<close> take the vectors as lists; the refinement below is what
  allows this. The cells that \<open>palloc\<close> leaves uninitialised are \<open>None\<close>.
\<close>

section \<open>Vectors\<close>

record 'd DatumVec =
  dv_vals :: "'d option list"
  dv_nulls :: "bool option list"
  dv_n :: nat
  dv_cap :: nat

definition repalloc :: "'a option list \<Rightarrow> nat \<Rightarrow> 'a option list" where
  "repalloc xs cap = take cap xs @ replicate (cap - length xs) None"

definition vec_init :: "'d DatumVec" where
  "vec_init = \<lparr>dv_vals = replicate 16 None, dv_nulls = replicate 16 None, dv_n = 0, dv_cap = 16\<rparr>"

definition vec_grow :: "'d DatumVec \<Rightarrow> 'd DatumVec" where
  "vec_grow v =
     (let cap = dv_cap v * 2
      in v\<lparr>dv_cap := cap, dv_vals := repalloc (dv_vals v) cap, dv_nulls := repalloc (dv_nulls v) cap\<rparr>)"

definition vec_push :: "'d \<Rightarrow> bool \<Rightarrow> 'd DatumVec \<Rightarrow> 'd DatumVec" where
  "vec_push d isnull v =
     (let v = (if dv_n v = dv_cap v then vec_grow v else v)
      in v\<lparr>dv_vals := (dv_vals v)[dv_n v := Some d], dv_nulls := (dv_nulls v)[dv_n v := Some isnull], dv_n := dv_n v + 1\<rparr>)"

text \<open>The array handed to the plan: the first \<open>n\<close> cells, SQL's null where the flag is set; \<open>None\<close> when a cell was never written.\<close>

definition vec_cell :: "'d DatumVec \<Rightarrow> nat \<Rightarrow> 'd option option" where
  "vec_cell v i =
     (case (dv_vals v ! i, dv_nulls v ! i) of
        (Some d, Some isnull) \<Rightarrow> Some (if isnull then None else Some d)
      | _ \<Rightarrow> None)"

definition vec_to_array :: "'d DatumVec \<Rightarrow> 'd option option list" where
  "vec_to_array v = map (vec_cell v) [0 ..< dv_n v]"

definition vec_push_all :: "('d \<times> bool) list \<Rightarrow> 'd DatumVec \<Rightarrow> 'd DatumVec" where
  "vec_push_all ps v = fold (\<lambda>(d, isnull). vec_push d isnull) ps v"

section \<open>A vector is a list\<close>

definition vec_ok :: "'d DatumVec \<Rightarrow> bool" where
  "vec_ok v \<longleftrightarrow> 0 < dv_cap v \<and> dv_n v \<le> dv_cap v \<and> length (dv_vals v) = dv_cap v \<and> length (dv_nulls v) = dv_cap v"

lemma repalloc_simps [simp]:
  "length (repalloc xs cap) = cap" "i < length xs \<Longrightarrow> i < cap \<Longrightarrow> repalloc xs cap ! i = xs ! i"
  by (simp_all add: repalloc_def nth_append)

lemma vec_init_ok [simp]: "vec_ok vec_init" "vec_to_array vec_init = []" "dv_cap vec_init = 16" "dv_n vec_init = 0"
  by (simp_all add: vec_init_def vec_ok_def vec_to_array_def)

lemma vec_grow_ok:
  assumes "vec_ok v"
  shows "vec_ok (vec_grow v)" "vec_to_array (vec_grow v) = vec_to_array v" "dv_n (vec_grow v) = dv_n v" "dv_n v < dv_cap (vec_grow v)"
  using assms by (auto simp: vec_grow_def vec_ok_def vec_to_array_def vec_cell_def Let_def)

lemma vec_push_ok:
  assumes "vec_ok v"
  shows "vec_ok (vec_push d isnull v)" "vec_to_array (vec_push d isnull v) = vec_to_array v @ [Some (if isnull then None else Some d)]"
    "dv_n (vec_push d isnull v) = dv_n v + 1"
    "dv_cap (vec_push d isnull v) = (if dv_n v = dv_cap v then 2 * dv_cap v else dv_cap v)"
proof -
  define w where "w = (if dv_n v = dv_cap v then vec_grow v else v)"
  have w: "vec_ok w" "vec_to_array w = vec_to_array v" "dv_n w = dv_n v" "dv_n w < dv_cap w"
    using vec_grow_ok [OF assms] assms by (auto simp: w_def vec_ok_def)
  have p: "vec_push d isnull v = w\<lparr>dv_vals := (dv_vals w)[dv_n w := Some d], dv_nulls := (dv_nulls w)[dv_n w := Some isnull], dv_n := dv_n w + 1\<rparr>"
    by (simp add: vec_push_def w_def Let_def)
  show "vec_ok (vec_push d isnull v)" "dv_n (vec_push d isnull v) = dv_n v + 1" using w(1,3,4) by (simp_all add: p vec_ok_def)
  have l: "dv_n w < length (dv_vals w)" "dv_n w < length (dv_nulls w)" using w(1,4) by (simp_all add: vec_ok_def)
  have cell: "vec_cell (vec_push d isnull v) i = (if i = dv_n w then Some (if isnull then None else Some d) else vec_cell w i)" if "i \<le> dv_n w" for i
    using l that by (auto simp: p vec_cell_def nth_list_update)
  have "map (vec_cell (vec_push d isnull v)) [0 ..< dv_n w] = map (vec_cell w) [0 ..< dv_n w]" using cell by simp
  then show "vec_to_array (vec_push d isnull v) = vec_to_array v @ [Some (if isnull then None else Some d)]"
    using w(2,3) cell [of "dv_n w"] \<open>dv_n (vec_push d isnull v) = dv_n v + 1\<close> by (simp add: vec_to_array_def)
  show "dv_cap (vec_push d isnull v) = (if dv_n v = dv_cap v then 2 * dv_cap v else dv_cap v)"
    by (simp add: p w_def vec_grow_def Let_def)
qed

lemma vec_push_all_simps [simp]:
  "vec_push_all [] v = v" "vec_push_all ((d, isnull) # ps) v = vec_push_all ps (vec_push d isnull v)"
  by (simp_all add: vec_push_all_def)

text \<open>
  The vectors that collect the parameters of a plan are lists: pushing any elements onto a fresh vector, its
  growth by doubling included, gives the array of exactly these elements in their order, null where the flag is
  set, with no cell that was never written; the vector holds them within its capacity, and the capacity is at
  most twice what is needed.
\<close>

lemma vec_collects:
  fixes ps :: "('d \<times> bool) list"
  defines "v \<equiv> vec_push_all ps vec_init"
  shows "vec_ok v \<and> vec_to_array v = map (\<lambda>(d, isnull). Some (if isnull then None else Some d)) ps \<and>
    dv_n v = length ps \<and> dv_cap v \<le> max 16 (2 * length ps)"
proof -
  have "vec_ok (vec_push_all ps w) \<and>
      vec_to_array (vec_push_all ps w) = vec_to_array w @ map (\<lambda>(d, isnull). Some (if isnull then None else Some d)) ps \<and>
      dv_n (vec_push_all ps w) = dv_n w + length ps \<and> dv_cap (vec_push_all ps w) \<le> max 16 (2 * (dv_n w + length ps))"
    if "vec_ok w" "dv_cap w \<le> max 16 (2 * dv_n w)" for w :: "'d DatumVec"
    using that
  proof (induction ps arbitrary: w)
    case (Cons p ps)
    obtain d b where p: "p = (d, b)" by force
    note P = vec_push_ok [OF Cons.prems(1), of d b]
    have "dv_cap (vec_push d b w) \<le> max 16 (2 * dv_n (vec_push d b w))" using P(3,4) Cons.prems(2) by (auto split: if_splits)
    from Cons.IH [OF P(1) this] P(2,3) show ?case by (simp add: p)
  qed simp
  from this [of vec_init] show ?thesis by (simp add: v_def)
qed

section \<open>Prepared plans\<close>

text \<open>
  \<open>SPI_prepare\<close> gives a plan or fails, \<open>SPI_keepplan\<close> succeeds or fails; the slot is the static variable that
  caches the plan.
\<close>

datatype plan_error = PrepareFailed | KeepPlanFailed

definition prepare_plan_if_needed :: "'p option \<Rightarrow> bool \<Rightarrow> 'p option \<Rightarrow> (plan_error + 'p) \<times> 'p option" where
  "prepare_plan_if_needed prepared keep_ok slot =
     (case slot of
        Some plan \<Rightarrow> (Inr plan, slot)
      | None \<Rightarrow>
          (case prepared of
             None \<Rightarrow> (Inl PrepareFailed, slot)
           | Some plan \<Rightarrow> if \<not> keep_ok then (Inl KeepPlanFailed, slot) else (Inr plan, Some plan)))"

text \<open>A plan is prepared once: what the first successful call returned, all later calls return; a failed call can be repeated.\<close>

lemma plan_prepared_once:
  assumes "prepare_plan_if_needed prepared keep_ok slot = (r, slot')"
  shows "r = Inr plan \<Longrightarrow> prepare_plan_if_needed prepared' keep_ok' slot' = (Inr plan, slot')" "r = Inl err \<Longrightarrow> slot' = slot \<and> slot = None"
  using assms by (auto simp: prepare_plan_if_needed_def split: option.splits if_splits)

end
