(* ===== verification/Diagnostics.thy ===== *)
theory Diagnostics
  imports Commands Jobs Shmem
begin

text \<open>
  The functions of \<open>src/pg_redis.c\<close> that report on the state, \<open>INFO\<close>, \<open>RING_INSPECT\<close> and \<open>LOAD_STATE\<close>, and the
  append to the log table of \<open>src/persistence.c\<close>, which nothing calls.
\<close>

section \<open>INFO\<close>

definition info_line :: "string \<Rightarrow> bytes \<Rightarrow> bytes" where
  "info_line name val = ascii name @ ascii '':'' @ val @ [10]"

definition info_text :: "guc \<Rightarrow> bool \<Rightarrow> PgRedisStoreStats \<Rightarrow> bytes" where
  "info_text g enable_bgworker stats =
     ascii ''# pg_redis'' @ [10] @
     info_line ''version'' (ascii ''1.0'') @
     info_line ''storage_mode'' (ascii (case pg_redis_storage_mode g of Some m \<Rightarrow> m | None \<Rightarrow> ''session'')) @
     info_line ''persistence_mode'' (ascii (case pg_redis_persistence_mode g of Some m \<Rightarrow> m | None \<Rightarrow> ''sync_table'')) @
     info_line ''background_worker_enabled'' (ascii (if enable_bgworker then ''yes'' else ''no'')) @
     info_line ''key_count'' (snprintf_int64 (key_count stats)) @
     info_line ''memory_usage'' (snprintf_int64 (stats_memory_usage stats))"

definition pg_redis_info :: "guc \<Rightarrow> bool \<Rightarrow> cmd_env \<Rightarrow> db \<Rightarrow> backend \<Rightarrow> bytes result \<times> backend" where
  "pg_redis_info g enable_bgworker cx d b =
     on_ok (ensure_loaded g cx d b) (\<lambda>_ b. (Inr (info_text g enable_bgworker (pg_redis_store_collect_stats b)), b))"

section \<open>RING_INSPECT and LOAD_STATE\<close>

definition pg_redis_ring_inspect :: "shmem \<Rightarrow> nat \<times> nat \<times> nat \<times> nat" where
  "pg_redis_ring_inspect sm = (case shmem_ring sm of None \<Rightarrow> (0, 0, 0, 0) | Some R \<Rightarrow> pg_redis_dirty_ring_inspect R)"

definition pg_redis_load_state :: "shmem \<Rightarrow> nat option" where
  "pg_redis_load_state sm = map_option hd_loaded (sm_header sm)"

text \<open>On a ring without a producer in the middle of a write the report is exact: what is pending, and no stuck slot.\<close>

lemma ring_inspect_exact:
  assumes "shmem_ring sm = Some R" "ring_ok 0 R"
  shows "pg_redis_ring_inspect sm = (ring_write_head R, ring_read_head R, length (ring_queue R), 0)"
proof -
  note O = ring_okD [OF assms(2)]
  have "ev_state (slot_at R pos) \<noteq> SLOT_WRITING" if "ring_read_head R \<le> pos" "pos \<le> ring_write_head R" for pos
  proof (cases "pos < ring_read_head R + ring_capacity R")
    case True
    then show ?thesis using O(6) [OF that(1)] by simp
  next
    case False
    then have "pos = ring_read_head R + ring_capacity R" using that O(4) by simp
    then have "slot_at R pos = slot_at R (ring_read_head R)" by (simp add: slot_at_def ring_capacity_def)
    then show ?thesis using O(6) [of "ring_read_head R"] O(1) by (simp split: if_splits)
  qed
  then have "filter (\<lambda>pos. ev_state (slot_at R pos) = SLOT_WRITING) [ring_read_head R ..< Suc (ring_write_head R)] = []"
    by (auto simp: filter_empty_conv)
  then show ?thesis using assms(1) O(3,5) by (simp add: pg_redis_ring_inspect_def pg_redis_dirty_ring_inspect_def ring_queue_def Let_def)
qed

text \<open>After the start of the server nothing is loaded and the ring is empty.\<close>

lemma fresh_diagnostics:
  assumes "settings_ok preload cf"
  shows "pg_redis_load_state (pg_redis_shmem_startup tranche cf no_shmem) = Some 0"
    and "pg_redis_ring_inspect (pg_redis_shmem_startup tranche cf no_shmem) = (0, 0, 0, 0)"
proof -
  show "pg_redis_load_state (pg_redis_shmem_startup tranche cf no_shmem) = Some 0"
    by (simp add: pg_redis_load_state_def pg_redis_shmem_startup_def no_shmem_def fresh_header_def)
  obtain R where R: "shmem_ring (pg_redis_shmem_startup tranche cf no_shmem) = Some R" "ring_ok 0 R" using startup_ring [OF assms] by blast
  have "ring_write_head R = 0" "ring_read_head R = 0"
    using R(1) by (auto simp: shmem_ring_def pg_redis_shmem_startup_def no_shmem_def fresh_header_def)
  then show "pg_redis_ring_inspect (pg_redis_shmem_startup tranche cf no_shmem) = (0, 0, 0, 0)"
    using ring_inspect_exact [OF R] by (simp add: ring_queue_def)
qed

section \<open>The log table\<close>

type_synonym aof_row = "string \<times> bytes option \<times> bytes"

definition pg_redis_persistence_append_aof ::
    "bool \<Rightarrow> string option \<Rightarrow> bytes option \<Rightarrow> bytes option \<Rightarrow> aof_row list \<Rightarrow> aof_row list" where
  "pg_redis_persistence_append_aof spi_ok opn key args_json aof =
     (case opn of
        None \<Rightarrow> aof
      | Some opn \<Rightarrow>
          if \<not> spi_ok then aof
          else aof @ [(opn, key, case args_json of Some a \<Rightarrow> a | None \<Rightarrow> ascii ''{}'')])"

end
