(* ===== verification/Spec2Isabelle.thy ===== *)
theory Spec2Isabelle
  imports Transactions Ring_Steps Async_Survival Worker Locks Spi_Helpers Diagnostics
begin

text \<open>
  \<^bold>\<open>pg_redis: a Redis-like key-value store inside PostgreSQL\<close>

  The extension (\<open>src/src/*.c\<close>) keeps a keyspace of strings, integers, hashes and lists, in the memory of
  one backend (session storage) or in shared memory, offers Redis commands as SQL functions, and mirrors
  the keyspace to three tables, \<open>pgredis.store\<close>, \<open>pgredis.hash_fields\<close> and \<open>pgredis.list_items\<close>.

  \<^bold>\<open>Parts and theories\<close>
  \<^item> \<open>Prelude\<close>, \<open>Types\<close>: bytes, casts, PostgreSQL's dynamic hash table as a finite map with the laws of
    the locale \<open>htab_laws\<close>; the structs and enums of \<open>types.h\<close>, configuration and errors.
  \<^item> \<open>Utils\<close> (\<open>utils.c\<close>), \<open>Binval\<close> (\<open>binval.c\<close>): argument checks, decimal text of 64-bit integers, mode
    resolution; the TLV codec of the \<open>value\<close> column, byte by byte. Round trips in both.
  \<^item> \<open>List_Value\<close> (\<open>list.c\<close>), \<open>Hash_Value\<close> (\<open>hash_value.c\<close>): the values with their tracking of durable
    rows (ordinals, pending inserts and deletes; dirty fields and tombstones). The locales \<open>deque\<close> and
    \<open>field_map\<close> state what a client relies on; the deltas are shown to be exact.
  \<^item> \<open>KV_Store\<close> (\<open>kv_store.c\<close>), \<open>Ttl\<close> (\<open>ttl.c\<close>): the keyspace of a backend, its dirty chain and pending
    deletes, statistics, expiry and sweep, with the store invariant \<open>store_ok\<close>. \<open>Keyspace\<close> gives the
    abstract view: a map from keys to values with expiry.
  \<^item> \<open>Durable\<close>, \<open>Flush\<close>, \<open>Durability\<close>, \<open>Load\<close> (\<open>persistence.c\<close>): the SQL plans as functions on the three
    tables with their keys, the pre-commit flush and the transaction callbacks, the invariant \<open>flush_inv\<close>
    that ties store, tracking and tables together, and the cold-start load.
  \<^item> \<open>Commands\<close> (\<open>pg_redis.c\<close>), \<open>Redis_Spec\<close>, \<open>Refinement\<close>, \<open>Transactions\<close>: the SQL functions, the meaning
    of each command on the abstract keyspace, the refinement, and runs of commands up to commit and restart.
  \<^item> \<open>Dsa\<close> (allocation wrappers of \<open>shmem.c\<close>), \<open>Ownership\<close>: the shared segment as an explicit store of chunks, frames
    that say which chunks an operation may touch, and a locale for families of objects that own disjoint chunks.
  \<^item> \<open>Probing\<close>, \<open>Shared_Hash\<close> (\<open>shared_hash.c\<close>), \<open>Shared_List\<close> (\<open>shared_list.c\<close>): open addressing with tombstones
    and the doubly linked list in the segment. They provide \<open>field_map\<close> and \<open>partial_deque\<close>, the contract of \<open>deque\<close>
    for operations that might not return, and never leak or lose a chunk.
  \<^item> \<open>Dirty_Event\<close>, \<open>Dirty_Ring\<close>, \<open>Ring_Steps\<close> (\<open>dirty_ring.c\<close>): the event codec with spilled payloads, the ring as a
    queue with batches that are collected, released or aborted, and the same operations cut into atomic steps of
    interleaved processes that may die.
  \<^item> \<open>Async_Drain\<close> (\<open>persistence.c\<close>): the drain of a batch, compared with applying its events one by one, and blocking
    publication.
  \<^item> \<open>Shared_Store\<close>, \<open>Shared_Atomic\<close>, \<open>Shared_Retry\<close> (\<open>shared_store.c\<close>): the shared keyspace with its scratch copies,
    write back, and the atomic \<open>HSET\<close> and \<open>HDEL\<close> with their retries on a full ring.
  \<^item> \<open>Shared_Commands\<close>, \<open>Shared_Meaning\<close> (\<open>pg_redis.c\<close>, \<open>kv_store.c\<close>, \<open>ttl.c\<close> with shared storage): the commands and
    their refinement of the same abstract meaning, with the replies that differ listed in \<open>excused\<close>.
  \<^item> \<open>Shared_Durability\<close>, \<open>Shared_Load\<close>, \<open>Load_Steps\<close>, \<open>Async_Survival\<close> (\<open>persistence.c\<close>): where the events of lists lead,
    the cold start with shared storage row by row, the agreement of the backends on who loads as interleaved steps,
    and the way of strings and integers from the command over ring, drain and tables to the next start.
  \<^item> \<open>Shmem\<close>, \<open>Locks\<close> (\<open>shmem.c\<close>, \<open>_PG_init\<close> and hooks of \<open>pg_redis.c\<close>): variables with their ranges, sizing and start
    of the shared areas, attachment of the segment; the operations projected on their locks, with a locale for
    ordered acquisition that gives freedom from deadlock.
  \<^item> \<open>Jobs\<close> (\<open>jobs.c\<close>, snapshots), \<open>Worker\<close> (\<open>bgworker.c\<close>), \<open>Spi_Helpers\<close>, \<open>Diagnostics\<close>: the scheduler and its tables, the
    loop of the background worker, the parameter vectors and plan cache of \<open>persistence.c\<close>, \<open>INFO\<close> and its like.

  \<^bold>\<open>What is shown\<close>
  With session storage: every command refines its abstract meaning, a commit makes the tables stand for the
  keyspace, and a backend that loads them sees the same keyspace; failed commands change nothing. With shared
  storage: the same meaning up to the excused replies, the invariant \<open>joint_ok\<close> of keyspace, segment and ring,
  the order of events through every interleaving of producers and drains, and the survival of strings and
  integers over a restart. Around them: progress (blocking publication, the worker, the cold start, the locks),
  bounds (sizing) and error behaviour. Where the code does not keep what its comments promise, a theorem or
  lemma gives the state in which it fails.

  \<^bold>\<open>Reading the model\<close>
  A command takes the configuration, the readings of the clock and the outcome of \<open>SPI_connect\<close> as
  arguments, returns a result of the sum type \<open>result\<close> (the error on the left) and the backend or the shared
  state after it. Pointers of a backend to palloc-ed memory are values; the shared segment is an explicit store.
  The external functions \<open>hash_bytes\<close> and \<open>dsa_allocate_extended\<close> are parameters, the second with the
  hypothesis that it hands out unused pointers; so are \<open>escape_json\<close> and \<open>timestamptz_out\<close>. Texts contain no NUL
  byte, as PostgreSQL guarantees. Loops whose end depends on pointers or on other processes (walks over shared
  lists, retries on a full ring, reservation of a slot) are partial functions into \<open>option\<close>, and that they return
  is part of the theorems; all others are structural or bounded by the counters the code uses. There is no fuel.
  An operation under a partition lock is one step. The bounds are those of the code: keys of at most 1024 bytes,
  batches of 1024 events, a hundred attempts in block mode, lengths of 16 bits in events.

  \<^bold>\<open>Not modelled\<close>
  Memory contexts and the release of palloc-ed memory (\<open>utils.c\<close>, \<open>pg_redis_list_free\<close>, \<open>pg_redis_hash_free\<close>), which
  have no effect on values; forming result tuples; a full keyspace table, where PostgreSQL raises on
  \<open>HASH_ENTER\<close>; and the insides of PostgreSQL: SQL, SPI, transactions, dynahash, DSA and the lock manager are
  taken by what the code relies on.
\<close>

section \<open>Concrete states\<close>

definition default_guc :: guc where
  "default_guc =
     \<lparr>pg_redis_persistence_mode = Some ''sync_table'', pg_redis_storage_mode = Some ''session'',
      pg_redis_max_key_size = 1024, pg_redis_max_value_size = 1048576, shmem_initialized = False\<rparr>"

definition env_at :: "int \<Rightarrow> cmd_env" where
  "env_at t = \<lparr>cx_now = t, cx_now2 = t, cx_sql_now = t, cx_spi_ok = True\<rparr>"

definition empty_session :: backend where
  "empty_session = backend_start\<lparr>persistence_loaded := True\<rparr>"

lemma empty_session_ok [simp]:
  "store_ok empty_session" "tracked empty_session" "persistence_loaded empty_session"
  "store empty_session = []" "dirty_head empty_session = []" "pending_deletes_head empty_session = []"
  by (simp_all add: store_ok_def tracked_def empty_session_def backend_start_def)

lemma empty_session_inv: "flush_inv t db_empty empty_session"
  by (simp add: flush_inv_def db_ok_def db_empty_def key_inv_def visible_def db_view_def)

lemma raw_view_empty [simp]: "raw_view empty_session = Map.empty"
  by (simp add: fun_eq_iff raw_view_def)

lemma live_empty [simp]: "live t empty_session = Map.empty"
  by (simp add: fun_eq_iff live_find)

lemma env_at_ok [simp]: "clock_ok t \<Longrightarrow> env_ok (env_at t)" "cx_now (env_at t) = t" "cx_now2 (env_at t) = t"
  by (simp_all add: env_ok_def env_at_def)

lemma sync_session_default: "sync_session default_guc"
  by (simp add: sync_session_def default_guc_def pg_redis_storage_is_shared_def
      pg_redis_resolve_storage_mode_def pg_redis_resolve_persistence_mode_def)

lemma clock_ok_small: "clock_ok 7" "clock_ok 9"
  by (simp_all add: clock_ok_def)

section \<open>Commands mean what Redis commands mean\<close>

text \<open>
  C2: Every command refines its abstract meaning on the live view of the backend: the reply is the
  abstract one, the view after the command is the abstract result, and the store invariant is kept.
  Argument errors and type errors are among the replies. The one exception is the reply of \<open>DEL\<close>,
  which may be true for a key that has expired but is still stored.
\<close>

theorem command_refines:
  assumes "store_ok b" "persistence_loaded b" "env_ok cx" "cmd_ok c"
    and "expiry_small (cx_now2 cx) (live (cx_now cx) b)"
    and "exec g cx d c b = (r, b')"
    and "redis_cmd_step g (cx_now2 cx) c (live (cx_now cx) b) = (r0, m')"
  shows "live (cx_now cx) b' = m' \<and>
    (r = r0 \<or> (\<exists>k. c = CDel k) \<and> r = Inr (RBool True) \<and> r0 = Inr (RBool False)) \<and> store_ok b'"
  using exec_refines [OF assms] by blast

theorem command_refines_witness:
  "\<exists>b'. exec default_guc (env_at 7) db_empty (CSet [107] [118]) empty_session = (Inr (RBool True), b') \<and>
     live 7 b' = [[107] \<mapsto> (RString [118], None)]"
proof -
  obtain r b' where ex: "exec default_guc (env_at 7) db_empty (CSet [107] [118]) empty_session = (r, b')"
    by force
  have sp: "redis_cmd_step default_guc (cx_now2 (env_at 7)) (CSet [107] [118]) (live (cx_now (env_at 7)) empty_session) =
      (Inr (RBool True), [[107] \<mapsto> (RString [118], None)])"
    by (simp add: redis_cmd_step_def arg_error_def pg_redis_check_key_len_def pg_redis_check_value_len_def
        default_guc_def PG_REDIS_MAX_KEY_SIZE_def)
  have "env_ok (env_at 7)" "cmd_ok (CSet [107] [118])"
    "expiry_small (cx_now2 (env_at 7)) (live (cx_now (env_at 7)) empty_session)"
    using clock_ok_small by (simp_all add: texts_ok_def expiry_small_def)
  from command_refines [OF empty_session_ok(1,3) this ex sp] ex show ?thesis by simp
qed

text \<open>
  C3: A sequence of commands with a clock that does not go back refines the sequence of its abstract
  commands: the replies agree one by one, and at every later time the live view is what the abstract
  run leaves of unexpired keys.
\<close>

theorem session_refines:
  assumes "store_ok b" "persistence_loaded b" "clock_from t cs" "expiry_small t m"
    and "live t b = drop_expired t m"
    and "run_cmds g d cs b = (rs, b')" "spec_run g cs m = (rs0, m')"
    and "last_time t cs \<le> u"
  shows "replies_agree (map snd cs) rs rs0 \<and> live u b' = drop_expired u m' \<and> store_ok b'"
  using run_refines [OF assms(1-7)] assms(8) by blast

theorem session_refines_witness:
  "\<exists>rs b'. run_cmds default_guc db_empty [(env_at 7, CIncr [99]), (env_at 9, CIncr [99])] empty_session = (rs, b') \<and>
     replies_agree [CIncr [99], CIncr [99]] rs [Inr (RNum 1), Inr (RNum 2)] \<and>
     live 9 b' = drop_expired 9 [[99] \<mapsto> (RInt 2, None)]"
proof -
  let ?cs = "[(env_at 7, CIncr [99]), (env_at 9, CIncr [99])]"
  obtain rs b' where run: "run_cmds default_guc db_empty ?cs empty_session = (rs, b')" by force
  have w: "wrap64 1 = 1" "wrap64 2 = 2" by (simp_all add: wrap64_def)
  have d: "drop_expired now (m(k \<mapsto> (v, None))) = (drop_expired now m)(k \<mapsto> (v, None))" for now m k v
    by (simp add: expired_at_def)
  have e: "drop_expired now Map.empty = Map.empty" for now
    by (simp add: fun_eq_iff drop_expired_def)
  have sp: "spec_run default_guc ?cs Map.empty = ([Inr (RNum 1), Inr (RNum 2)], [[99] \<mapsto> (RInt 2, None)])"
    by (simp add: redis_cmd_step_def arg_error_def pg_redis_check_key_len_def default_guc_def
        PG_REDIS_MAX_KEY_SIZE_def spec_incr_def Let_def d e w del: drop_expired_upd)
  have "clock_from 7 ?cs" "expiry_small 7 Map.empty" "live 7 empty_session = drop_expired 7 Map.empty"
    "last_time 7 ?cs \<le> 9"
    using clock_ok_small by (simp_all add: texts_ok_def expiry_small_def e)
  from session_refines [OF empty_session_ok(1,3) this(1-3) run sp this(4)] run show ?thesis by simp
qed



section \<open>Durability\<close>

text \<open>
  C6: Every command of a session that is safe (it does not create a collection over durable rows of
  the same key) keeps the durability invariant: whatever the store has over the tables is recorded
  for the next flush.
\<close>

theorem command_tracks_changes:
  assumes "flush_inv t d b" "persistence_loaded b" "cmd_ok c" "safe_cmd (cx_now cx) d b c"
  shows "flush_inv t d (snd (exec g cx d c b))"
  using assms by (rule exec_flush_inv)

theorem command_tracks_changes_witness:
  "flush_inv 0 db_empty (snd (exec default_guc (env_at 7) db_empty (CRpush [108] [1]) empty_session))"
proof -
  have "cmd_ok (CRpush [108] [1])" "safe_cmd (cx_now (env_at 7)) db_empty empty_session (CRpush [108] [1])"
    by (simp_all add: texts_ok_def db_empty_def rows_of_def)
  from command_tracks_changes [OF empty_session_inv empty_session_ok(3) this] show ?thesis .
qed

text \<open>
  C4: A flush under the invariant always succeeds: no plan meets a unique or foreign-key violation. It
  keeps the store, clears the tracking, and leaves tables that stand for the store.
\<close>

theorem flush_writes_keyspace:
  assumes "flush_inv t d b"
  shows "\<exists>d' b'. run_flush True d b = (Inr d', b') \<and> flush_inv t d' b' \<and>
    dirty_head b' = [] \<and> pending_deletes_head b' = [] \<and> raw_view b' = raw_view b \<and>
    (\<forall>u \<ge> t. visible u (db_view d') = visible u (raw_view b))"
proof (rule run_flush_inv [OF assms])
  fix d' b'
  assume r: "run_flush True d b = (Inr d', b')" "flush_inv t d' b'" "dirty_head b' = []"
    "pending_deletes_head b' = []" "raw_view b' = raw_view b"
  then have "visible u (db_view d') = visible u (raw_view b)" if "t \<le> u" for u
    using flush_inv_settled [OF r(2-4) that] r(5) by simp
  with r show ?thesis by blast
qed

theorem flush_writes_keyspace_witness:
  "\<exists>d' b'. run_flush True db_empty empty_session = (Inr d', b') \<and>
     visible 3 (db_view d') = visible 3 (raw_view empty_session)"
proof -
  obtain d' b' where "run_flush True db_empty empty_session = (Inr d', b')"
    "\<forall>u \<ge> 0. visible u (db_view d') = visible u (raw_view empty_session)"
    using flush_writes_keyspace [OF empty_session_inv] by blast
  then show ?thesis by auto
qed

text \<open>
  C1: Committed data survives a restart. After any run of safe commands the commit callback succeeds,
  and a new backend that loads the committed tables sees, at every later time, the keyspace of the
  committing backend (an expired key and an empty collection count as absent).
\<close>

theorem commit_survives_restart:
  assumes "flush_inv t d b" "persistence_loaded b" "sync_session g" "all_safe g d cs b"
  shows "\<exists>d' b'. pg_redis_xact_cb_persistence g True XACT_EVENT_PRE_COMMIT d (snd (run_cmds g d cs b)) =
      (Inr d', b') \<and> raw_view b' = raw_view (snd (run_cmds g d cs b)) \<and>
    (\<forall>sql_now now. t \<le> sql_now \<longrightarrow>
       list_all (\<lambda>(k, r). unexpired sql_now r \<longrightarrow> unexpired now r) (t_store d') \<longrightarrow>
       (\<exists>b2. pg_redis_persistence_do_load True sql_now now d' backend_start = Inr b2 \<and>
          (\<forall>u \<ge> sql_now. visible u (raw_view b2) = visible u (raw_view b'))))"
proof -
  have inv: "flush_inv t d (snd (run_cmds g d cs b))"
    using run_flush_inv_cmds [OF assms(1,2,4)] by simp
  show ?thesis
  proof (rule commit_flush_inv [OF inv assms(3)])
    fix d' b'
    assume c: "pg_redis_xact_cb_persistence g True XACT_EVENT_PRE_COMMIT d (snd (run_cmds g d cs b)) = (Inr d', b')"
      "flush_inv t d' b'" "dirty_head b' = []" "pending_deletes_head b' = []"
      "raw_view b' = raw_view (snd (run_cmds g d cs b))"
    have "\<exists>b2. pg_redis_persistence_do_load True sql_now now d' backend_start = Inr b2 \<and>
        (\<forall>u \<ge> sql_now. visible u (raw_view b2) = visible u (raw_view b'))"
      if "t \<le> sql_now" "list_all (\<lambda>(k, r). unexpired sql_now r \<longrightarrow> unexpired now r) (t_store d')"
      for sql_now now
      using load_after_commit [OF c(2-4) that] by blast
    with c show ?thesis by blast
  qed
qed

theorem commit_survives_restart_witness:
  "\<exists>d' b'. pg_redis_xact_cb_persistence default_guc True XACT_EVENT_PRE_COMMIT db_empty
      (snd (run_cmds default_guc db_empty [(env_at 7, CHset [104] [102] [118])] empty_session)) = (Inr d', b') \<and>
    (\<exists>b2. pg_redis_persistence_do_load True 9 9 d' backend_start = Inr b2 \<and>
       visible 9 (raw_view b2) = visible 9 (raw_view b'))"
proof -
  have "all_safe default_guc db_empty [(env_at 7, CHset [104] [102] [118])] empty_session"
    by (simp add: texts_ok_def db_empty_def rows_of_def)
  from commit_survives_restart [OF empty_session_inv empty_session_ok(3) sync_session_default this, of 0]
  obtain d' b' where "pg_redis_xact_cb_persistence default_guc True XACT_EVENT_PRE_COMMIT db_empty
      (snd (run_cmds default_guc db_empty [(env_at 7, CHset [104] [102] [118])] empty_session)) = (Inr d', b')"
    and l: "\<forall>sql_now now. 0 \<le> sql_now \<longrightarrow>
       list_all (\<lambda>(k, r). unexpired sql_now r \<longrightarrow> unexpired now r) (t_store d') \<longrightarrow>
       (\<exists>b2. pg_redis_persistence_do_load True sql_now now d' backend_start = Inr b2 \<and>
          (\<forall>u \<ge> sql_now. visible u (raw_view b2) = visible u (raw_view b')))" by blast
  moreover have "\<exists>b2. pg_redis_persistence_do_load True 9 9 d' backend_start = Inr b2 \<and>
       (\<forall>u \<ge> 9. visible u (raw_view b2) = visible u (raw_view b'))"
    using l [rule_format, of 9 9] by (simp add: list_all_iff case_prod_beta)
  ultimately show ?thesis by (meson order_refl)
qed

text \<open>
  C5: A cold start recovers the tables: loading well-formed tables into an empty backend succeeds,
  marks nothing dirty, and at every later time the backend shows what the tables hold (without
  expired keys and empty collections).
\<close>

theorem cold_load_recovers:
  assumes "db_ok d" "list_all (\<lambda>(k, r). unexpired sql_now r \<longrightarrow> unexpired now r) (t_store d)"
  shows "\<exists>b'. pg_redis_persistence_do_load True sql_now now d backend_start = Inr b' \<and>
    store_ok b' \<and> dirty_head b' = [] \<and> pending_deletes_head b' = [] \<and>
    (\<forall>u \<ge> sql_now. visible u (raw_view b') = visible u (db_view d))"
proof (rule do_load_inv [OF assms, of backend_start])
  fix b'
  assume l: "pg_redis_persistence_do_load True sql_now now d backend_start = Inr b'"
    "flush_inv sql_now d b'" "dirty_head b' = []" "pending_deletes_head b' = []"
  then show ?thesis
    using flush_inv_settled [OF l(2-4)] flush_inv_parts(1) [OF l(2)] by auto
qed (simp_all add: backend_start_def)

theorem cold_load_recovers_witness:
  "\<exists>b'. pg_redis_persistence_do_load True 5 6
      \<lparr>t_store = [([107], \<lparr>r_type = ''hash'', r_value = None, r_expire = Some 100, r_version = 3\<rparr>)],
       t_hash = [(([107], [102]), Some [118])], t_list = []\<rparr> backend_start = Inr b' \<and>
    visible 8 (raw_view b') = visible 8 (db_view
      \<lparr>t_store = [([107], \<lparr>r_type = ''hash'', r_value = None, r_expire = Some 100, r_version = 3\<rparr>)],
       t_hash = [(([107], [102]), Some [118])], t_list = []\<rparr>)"
proof -
  let ?d = "\<lparr>t_store = [([107], \<lparr>r_type = ''hash'', r_value = None, r_expire = Some 100, r_version = 3\<rparr>)],
       t_hash = [(([107], [102]), Some [118])], t_list = []\<rparr> :: db"
  have "db_ok ?d"
    by (simp add: db_ok_def htab_ok_def hash_find_def key_ok_def row_ok_def PG_REDIS_MAX_KEY_SIZE_def
        PG_REDIS_MAX_FIELD_SIZE_def)
  moreover have "list_all (\<lambda>(k, r). unexpired 5 r \<longrightarrow> unexpired 6 r) (t_store ?d)"
    by (simp add: unexpired_def)
  ultimately obtain b' where "pg_redis_persistence_do_load True 5 6 ?d backend_start = Inr b'"
    "\<forall>u \<ge> 5. visible u (raw_view b') = visible u (db_view ?d)"
    using cold_load_recovers by blast
  then show ?thesis by (intro exI [of _ b']) simp
qed

section \<open>Administration\<close>

text \<open>
  \<open>KEYS\<close> lists every live key exactly once and nothing else, whatever the clock reads at each entry.
\<close>

lemma keys_lists_live_keys:
  assumes "store_ok b" "persistence_loaded b" "pg_redis_keys g cx clk d b = (Inr ks, b')"
  shows "distinct ks \<and> (\<forall>k. k \<in> set ks \<longleftrightarrow> live (clk k) b k \<noteq> None)"
proof -
  have ks: "ks = map fst (filter (\<lambda>(k, e). \<not> pg_redis_entry_is_expired (clk k) e) (store b))"
    using assms(3) ensure_loaded_loaded [OF assms(2), of g cx d]
    by (simp add: pg_redis_keys_def hash_seq_def)
  have "distinct (map fst (store b))" using assms(1) by (simp add: store_ok_def htab_ok_def)
  moreover have "k \<in> set ks \<longleftrightarrow> live (clk k) b k \<noteq> None" for k
    using hash_seq_find [OF store_ok_htab [OF assms(1)], of k]
    by (force simp: ks live_find hash_seq_def split: option.splits)
  ultimately show ?thesis by (simp add: ks distinct_map_filter)
qed

text \<open>
  \<open>FLUSHALL\<close> empties both the keyspace and the durable tables and leaves them in agreement, with
  nothing tracked, whatever was pending before.
\<close>

lemma flushall_empties:
  assumes "pg_redis_flushall g cx d b = (ok, d', b')" "sync_session g" "cx_spi_ok cx"
  shows "ok \<and> raw_view b' = Map.empty \<and> db_view d' = Map.empty \<and> flush_inv t d' b' \<and> persistence_loaded b'"
proof -
  have d': "d' = db_empty" and b': "b' = (pg_redis_store_reset b)\<lparr>persistence_loaded := True\<rparr>" and ok
    using assms
    by (auto simp: pg_redis_flushall_def pg_redis_persistence_flushall_def sql_truncate_def sync_session_def
        persistence_writes_enabled_def Let_def)
  then show ?thesis
    by (simp add: fun_eq_iff raw_view_def db_view_def db_empty_def flush_inv_def store_ok_def tracked_def
        key_inv_def visible_def db_ok_def pg_redis_store_reset_def)
qed

section \<open>Limits of the tracking\<close>

text \<open>
  C38: A failed flush untracks its entries for good: the chain is empty, the entries keep their flag, so
  marking one dirty again does not put it back on the chain, not even after the abort callback has
  cleared the dirty set.
\<close>

theorem failed_flush_untracks:
  assumes "store_ok b" "k \<in> set (dirty_head b)" "run_flush spi_ok d b = (Inl err, b1)"
    and "b2 = pg_redis_dirty_clear b1"
  shows "dirty_head b2 = [] \<and> pg_redis_mark_dirty k b2 = b2 \<and> fst (run_flush True d b2) = Inr d"
proof -
  have flag: "e_in_dirty_set (collected_entry e) = e_in_dirty_set e" for e
    by (simp add: collected_entry_def split: PgRedisValue.splits option.splits)
  obtain e where e: "hash_find (store b) k = Some e" "e_in_dirty_set e"
    using store_ok_chain [OF assms(1,2)] by blast
  have ne: "dirty_head b \<noteq> []" using assms(2) by auto
  have b1: "dirty_head b1 = []" "pending_deletes_head b1 = []"
    "\<exists>e1. hash_find (store b1) k = Some e1 \<and> e_in_dirty_set e1"
    using assms(2,3) ne e
    by (auto simp: run_flush_def pg_redis_dirty_head_take_def pg_redis_pending_deletes_take_def Let_def
        map_keys_def flag split: if_splits sum.splits)
  have "b2 = b1"
    using b1(1) by (simp add: assms(4) pg_redis_dirty_clear_def hash_map_entries_id)
  then show ?thesis
    using b1
    by (auto simp: pg_redis_mark_dirty_def run_flush_def pg_redis_dirty_head_take_def
        pg_redis_pending_deletes_take_def)
qed

definition one_dirty :: backend where
  "one_dirty = empty_session\<lparr>store := [([107], fresh_entry\<lparr>e_value := IntValue 1, e_in_dirty_set := True\<rparr>)],
     dirty_head := [[107]]\<rparr>"

theorem failed_flush_untracks_witness:
  "\<exists>b1. run_flush False db_empty one_dirty = (Inl SpiConnectFailed, b1) \<and>
     dirty_head (pg_redis_dirty_clear b1) = [] \<and>
     pg_redis_mark_dirty [107] (pg_redis_dirty_clear b1) = pg_redis_dirty_clear b1"
proof -
  have s: "store_ok one_dirty" "[107] \<in> set (dirty_head one_dirty)"
    by (simp_all add: one_dirty_def store_ok_def htab_ok_def entry_ok_def key_ok_def int64_range_def
        PG_REDIS_MAX_KEY_SIZE_def chained_def hash_find_def)
  obtain b1 where f: "run_flush False db_empty one_dirty = (Inl SpiConnectFailed, b1)"
    by (simp add: run_flush_def pg_redis_dirty_head_take_def pg_redis_pending_deletes_take_def one_dirty_def)
  from failed_flush_untracks [OF s f refl] f show ?thesis by blast
qed

lemma abort_keeps_view:
  assumes "pg_redis_xact_cb_persistence g spi_ok XACT_EVENT_ABORT d b = (Inr d, b1)"
  shows "raw_view b1 = raw_view b"
proof -
  have "store b1 = store (pg_redis_dirty_clear b)"
    using assms
    by (auto simp: pg_redis_xact_cb_persistence_def Let_def pg_redis_pending_deletes_clear_def split: if_splits)
  then show ?thesis using raw_view_cong [of b1 "pg_redis_dirty_clear b"] by simp
qed

text \<open>
  A rollback does not undo a key that the tables do not have: after the abort callback and the
  reload it forces, the backend still shows it.
\<close>

lemma rollback_keeps_new_key:
  assumes "db_ok d" "hash_find (t_store d) k = None"
    and "pg_redis_xact_cb_persistence g spi_ok XACT_EVENT_ABORT d b = (Inr d, b1)"
    and "pg_redis_persistence_do_load True sql_now now d b1 = Inr b2"
  shows "raw_view b2 k = raw_view b k"
proof -
  have "raw_view b1 = raw_view b" by (rule abort_keeps_view [OF assms(3)])
  moreover have "hash_find (store b2) k = hash_find (store b1) k"
    using assms(4)
    by (auto simp: pg_redis_persistence_do_load_def stage_lists(1) [OF assms(1)] stage_hashes(1) [OF assms(1)]
        stage_strings(1) [OF assms(1)] assms(2))
  ultimately show ?thesis by (simp add: raw_view_def fun_eq_iff)
qed

text \<open>
  A durable string row whose bytes do not decode is not merely skipped by the load: its key is put
  on the list of pending deletes, so that the next commit deletes the row.
\<close>

lemma undecodable_row_is_deleted:
  assumes "key_ok key" "r_type r = ''string''" "r_value r = Some raw"
    and "pg_redis_decode_string (Some raw) = None"
  shows "key \<in> set (pending_deletes_head (load_string_row now b (key, r)))"
proof -
  obtain n e where u: "up_entry now (hash_find (store b) key) = (n, e)" by force
  then show ?thesis
    using assms by (simp add: load_string_row_def key_ok_def upsert_up_entry remove_cases)
qed

text \<open>
  Deleting a durable list and pushing to the same key in one transaction makes the commit fail
  with a unique violation: the tombstone is dropped and the old rows still hold the ordinals.
\<close>

definition durable_list :: db where
  "durable_list =
     \<lparr>t_store = [([108], \<lparr>r_type = ''list'', r_value = None, r_expire = None, r_version = 2\<rparr>)],
      t_hash = [], t_list = [(([108], 0), Some [1])]\<rparr>"

definition loaded_list :: backend where
  "loaded_list = empty_session\<lparr>store := [([108], fresh_entry\<lparr>e_value := ListValue (Some
     \<lparr>l_nodes = [\<lparr>ln_value = [1], ln_ord = 0, ln_pending_insert = False\<rparr>], l_length = 1, l_memory_usage = 49,
      l_min_ord = 0, l_max_ord = 0, l_ord_initialized = True, l_pending_delete_ords = []\<rparr>)\<rparr>)]\<rparr>"

lemma recreated_list_commit_fails:
  "fst (pg_redis_xact_cb_persistence default_guc True XACT_EVENT_PRE_COMMIT durable_list
     (snd (run_cmds default_guc durable_list [(env_at 7, CDel [108]), (env_at 7, CRpush [108] [2])] loaded_list))) =
   Inl UniqueViolation"
  by code_simp

text \<open>
  C39: A rollback doubles the lists that the tables have: the abort callback clears the flag of the load, the
  load that the next command runs appends every row to the list that is still in the backend, and the
  backend shows its elements followed by those of the tables.
\<close>

theorem rollback_doubles_lists:
  assumes "db_ok d" "pg_redis_xact_cb_persistence g spi_ok XACT_EVENT_ABORT d b = (Inr d, b1)"
    and "pg_redis_persistence_do_load True sql_now now d b1 = Inr b2"
    and "raw_view b k = Some (RList xs, None)" "db_view d k = Some (RList ys, None)"
  shows "raw_view b2 k = Some (RList (xs @ ys), None)"
proof (rule load_appends_list [OF assms(1,3) _ assms(5)])
  show "raw_view b1 k = Some (RList xs, None)" using abort_keeps_view [OF assms(2)] assms(4) by simp
qed

theorem rollback_doubles_lists_witness:
  "\<exists>b1 b2. pg_redis_xact_cb_persistence default_guc True XACT_EVENT_ABORT durable_list loaded_list = (Inr durable_list, b1) \<and>
     pg_redis_persistence_do_load True 5 5 durable_list b1 = Inr b2 \<and> raw_view b2 [108] = Some (RList [[1], [1]], None)"
proof -
  obtain b1 where a: "pg_redis_xact_cb_persistence default_guc True XACT_EVENT_ABORT durable_list loaded_list = (Inr durable_list, b1)"
    using sync_session_mode [OF sync_session_default] by (simp add: pg_redis_xact_cb_persistence_def Let_def)
  obtain b2 where l: "pg_redis_persistence_do_load True 5 5 durable_list b1 = Inr b2"
    by (simp add: pg_redis_persistence_do_load_def)
  have "db_ok durable_list" "db_view durable_list [108] = Some (RList [[1]], None)" "raw_view loaded_list [108] = Some (RList [[1]], None)"
    by (simp_all add: db_ok_def durable_list_def htab_ok_def hash_find_def row_ok_def db_view_def row_view_def items_of_def rows_of_def cell_def
        loaded_list_def raw_view_def abs_entry_def e_expiry_def fresh_entry_def list_vals_def key_ok_def PG_REDIS_MAX_KEY_SIZE_def)
  from rollback_doubles_lists [OF this(1) a l this(3,2)] a l show ?thesis by simp
qed

text \<open>
  Deleting a durable hash and setting another field under the same key in one transaction commits,
  but the old field is still in the tables and comes back with the next load.
\<close>

definition durable_hash :: db where
  "durable_hash =
     \<lparr>t_store = [([104], \<lparr>r_type = ''hash'', r_value = None, r_expire = None, r_version = 2\<rparr>)],
      t_hash = [(([104], [97]), Some [1])], t_list = []\<rparr>"

definition loaded_hash :: backend where
  "loaded_hash = empty_session\<lparr>store := [([104], fresh_entry\<lparr>e_value := HashValue (Some
     \<lparr>h_fields = [([97], \<lparr>hf_value = [1], hf_dirty = False\<rparr>)], h_field_count = 1, h_memory_usage = 1057,
      h_tombstones = []\<rparr>)\<rparr>)]\<rparr>"

lemma recreated_hash_keeps_old_fields:
  "case pg_redis_xact_cb_persistence default_guc True XACT_EVENT_PRE_COMMIT durable_hash
     (snd (run_cmds default_guc durable_hash [(env_at 7, CDel [104]), (env_at 7, CHset [104] [98] [2])] loaded_hash)) of
     (Inr d', b') \<Rightarrow>
       fst (pg_redis_hget default_guc (env_at 7) d' [104] [97] b') = Inr None \<and>
       db_fields d' [104] [97] = Some [1]
   | _ \<Rightarrow> False"
  by code_simp

text \<open>
  \<open>INCR\<close> has no overflow check: at the largest 64-bit integer it answers and stores the smallest.
\<close>

lemma incr_wraps:
  assumes "persistence_loaded b" "hash_find (store b) k = Some e" "\<not> e_has_expire e"
    and "e_value e = IntValue (2 ^ 63 - 1)" "arg_error g (CIncr k) = None"
  shows "fst (exec g cx d (CIncr k) b) = Inr (RNum (- (2 ^ 63)))"
  using exec_core [OF assms(1,5), of cx d] assms
  by (simp add: exec_shape_def core_incr_def up_entry_def pg_redis_entry_is_expired_def Let_def wrap64_def)

end
